(* ===== verification/Prelude.thy ===== *)
theory Prelude
  imports Main "HOL-Library.Word" "HOL-Library.Monad_Syntax" "HOL-Library.Multiset"
    "HOL-Library.Signed_Division"
begin

unbundle bit_operations_syntax

section \<open>Shared conventions of the development\<close>

text \<open>
  What every component of the model shares.

  The programs are C. A C function that can fail \<^emph>\<open>in the sense of the program\<close> returns an
  error code; that is a value of the model. A C function whose behaviour is undefined (a null
  pointer dereferenced, an access outside an object, an indeterminate value read) or that
  aborts (a failed \<^verbatim>\<open>assert\<close>) has no result: the model's function returns \<^const>\<open>None\<close>.
  So \<open>f x = Some y\<close> reads "the C call is well defined, returns, and returns \<open>y\<close>". The
  option monad of \<^theory_text>\<open>HOL-Library.Monad_Syntax\<close> sequences such calls.

  The theory holds the memory primitives (\<open>memcpy\<close> into and out of a buffer), the integer
  conversions of C, the lemmas on lists the components share, and the generic notion of a
  system with invariants.
\<close>

named_theorems bounds "facts that bound the values of a component"
named_theorems preserve "an operation keeps an invariant of its component"

subsection \<open>Bytes and memory\<close>

type_synonym byte = "8 word"

text \<open>A byte of memory; \<^const>\<open>None\<close> is an indeterminate one (\<^verbatim>\<open>malloc\<close>'s content).\<close>

type_synonym cell = "byte option"

definition overwrite :: "'a list \<Rightarrow> nat \<Rightarrow> 'a list \<Rightarrow> 'a list" where
  "overwrite xs off ys = take off xs @ ys @ drop (off + length ys) xs"

text \<open>\<^verbatim>\<open>memcpy(mem + off, data, n)\<close> and \<^verbatim>\<open>memcpy(out, mem + off, n)\<close>, with the bounds
  of the buffer \<open>mem\<close>.\<close>

definition memcpy_into :: "'a list \<Rightarrow> nat \<Rightarrow> 'a list \<Rightarrow> 'a list option" where
  "memcpy_into mem off data =
     (if off + length data \<le> length mem then Some (overwrite mem off data) else None)"

definition memcpy_from :: "'a list \<Rightarrow> int \<Rightarrow> nat \<Rightarrow> 'a list option" where
  "memcpy_from mem off n =
     (if 0 \<le> off \<and> nat off + n \<le> length mem then Some (take n (drop (nat off) mem)) else None)"

lemma length_overwrite [simp]:
  "off + length ys \<le> length xs \<Longrightarrow> length (overwrite xs off ys) = length xs"
  by (simp add: overwrite_def)

lemma overwrite_Nil [simp]: "overwrite xs off [] = xs"
  by (simp add: overwrite_def)

lemma overwrite_append:
  assumes "off + length ys \<le> length xs"
  shows "overwrite (xs @ zs) off ys = overwrite xs off ys @ zs"
  using assms by (simp add: overwrite_def)

lemma overwrite_shift:
  assumes "length us = k"
  shows "overwrite (us @ xs) (k + off) ys = us @ overwrite xs off ys"
  using assms by (simp add: overwrite_def)

lemma overwrite_overwrite:
  assumes "off \<le> length xs"
  shows "overwrite (overwrite xs off ys) (off + length ys) zs = overwrite xs off (ys @ zs)"
  using assms by (simp add: overwrite_def ac_simps)

lemma take_overwrite_beyond:
  assumes "n \<le> off" "off \<le> length xs"
  shows "take n (overwrite xs off ys) = take n xs"
  using assms by (simp add: overwrite_def min_def)

lemma nth_overwrite:
  assumes "off \<le> length xs" "k < max (length xs) (off + length ys)"
  shows "overwrite xs off ys ! k = (if off \<le> k \<and> k < off + length ys then ys ! (k - off) else xs ! k)"
  using assms by (auto simp: overwrite_def nth_append min_def less_diff_conv2)

text \<open>Overwriting a buffer, seen through its first \<open>n\<close> elements: the prefix is overwritten and
  grows to the end of the data.\<close>

lemma take_overwrite_cover:
  assumes "off \<le> n" "n \<le> length xs" "off + length ys \<le> length xs"
  shows "take (max n (off + length ys)) (overwrite xs off ys) = overwrite (take n xs) off ys"
proof (rule nth_equalityI)
  show "length (take (max n (off + length ys)) (overwrite xs off ys))
      = length (overwrite (take n xs) off ys)"
    using assms by (auto simp: overwrite_def max_def)
next
  fix k
  assume "k < length (take (max n (off + length ys)) (overwrite xs off ys))"
  with assms show "take (max n (off + length ys)) (overwrite xs off ys) ! k
      = overwrite (take n xs) off ys ! k"
    by (auto simp: nth_overwrite)
qed

lemma memcpy_into_Some [simp]:
  "off + length data \<le> length mem \<Longrightarrow> memcpy_into mem off data = Some (overwrite mem off data)"
  by (simp add: memcpy_into_def)

lemma memcpy_from_Some [simp]:
  "off + n \<le> length mem \<Longrightarrow> memcpy_from mem (int off) n = Some (take n (drop off mem))"
  by (simp add: memcpy_from_def)

subsection \<open>Integers of C\<close>

text \<open>A value converted to \<^verbatim>\<open>int\<close> (32 bits) or to \<^verbatim>\<open>ssize_t\<close> (64 bits) wraps into the
  signed range; \<open>%\<close> on signed operands truncates towards zero (\<^const>\<open>signed_modulo\<close>).\<close>

definition c_int :: "int \<Rightarrow> int" where
  "c_int x = (x + 2 ^ 31) mod 2 ^ 32 - 2 ^ 31"

definition c_ssize :: "int \<Rightarrow> int" where
  "c_ssize x = (x + 2 ^ 63) mod 2 ^ 64 - 2 ^ 63"

definition c_size :: "nat \<Rightarrow> nat" where
  "c_size n = n mod 2 ^ 64"

text \<open>Addition, multiplication and subtraction of two \<^verbatim>\<open>int\<close> values: undefined when they overflow.\<close>

definition int_add :: "int \<Rightarrow> int \<Rightarrow> int option" where
  "int_add a b = (let r = a + b in if - (2 ^ 31) \<le> r \<and> r < 2 ^ 31 then Some r else None)"

definition int_mul :: "int \<Rightarrow> int \<Rightarrow> int option" where
  "int_mul a b = (let r = a * b in if - (2 ^ 31) \<le> r \<and> r < 2 ^ 31 then Some r else None)"

definition int_sub :: "int \<Rightarrow> int \<Rightarrow> int option" where
  "int_sub a b = (let r = a - b in if - (2 ^ 31) \<le> r \<and> r < 2 ^ 31 then Some r else None)"

lemma c_int_id [simp]: "- (2 ^ 31) \<le> x \<Longrightarrow> x < 2 ^ 31 \<Longrightarrow> c_int x = x"
  by (simp add: c_int_def)

lemma c_ssize_id [simp]: "- (2 ^ 63) \<le> x \<Longrightarrow> x < 2 ^ 63 \<Longrightarrow> c_ssize x = x"
  by (simp add: c_ssize_def)

lemma c_size_id [simp]: "n < 2 ^ 64 \<Longrightarrow> c_size n = n"
  by (simp add: c_size_def)

lemma smod_nonneg: "0 \<le> a \<Longrightarrow> 0 < b \<Longrightarrow> (a :: int) smod b = a mod b"
  by (cases "a = 0") (auto simp: signed_modulo_int_def sgn_if)

subsection \<open>Lists and options\<close>

lemma bind_eq_Some_iff:
  "Option.bind x f = Some z \<longleftrightarrow> (\<exists>y. x = Some y \<and> f y = Some z)"
  by (cases x) auto

lemma nth_concat_uniform:
  assumes "\<forall>xs \<in> set xss. length xs = n" "i < length xss" "j < n"
  shows "concat xss ! (n * i + j) = xss ! i ! j"
  using assms
proof (induction xss arbitrary: i)
  case Nil
  then show ?case by simp
next
  case (Cons xs xss)
  show ?case
  proof (cases i)
    case 0
    with Cons.prems show ?thesis by (simp add: nth_append)
  next
    case (Suc i')
    with Cons show ?thesis by (simp add: nth_append algebra_simps)
  qed
qed

lemma length_concat_uniform:
  "\<forall>xs \<in> set xss. length xs = n \<Longrightarrow> length (concat xss) = n * length xss"
  by (induction xss) auto

lemma concat_list_update_uniform:
  assumes "\<forall>xs \<in> set xss. length xs = n" "i < length xss" "off + length ys \<le> n"
  shows "concat (xss[i := overwrite (xss ! i) off ys]) = overwrite (concat xss) (n * i + off) ys"
  using assms
proof (induction xss arbitrary: i)
  case Nil
  then show ?case by simp
next
  case (Cons xs xss)
  show ?case
  proof (cases i)
    case 0
    with Cons.prems show ?thesis by (simp add: overwrite_append)
  next
    case (Suc i')
    with Cons have IH: "concat (xss[i' := overwrite (xss ! i') off ys])
        = overwrite (concat xss) (n * i' + off) ys"
      by simp
    have "overwrite (xs @ concat xss) (n + (n * i' + off)) ys
        = xs @ overwrite (concat xss) (n * i' + off) ys"
      using Cons.prems(1) by (intro overwrite_shift) simp
    with IH Suc show ?thesis by (simp add: add.assoc)
  qed
qed

lemma map_Some_the: "None \<notin> set zs \<Longrightarrow> map Some (map the zs) = zs"
  by (induction zs) auto

lemma all_set_list_update:
  assumes "\<forall>x \<in> set xs. P x" "P y"
  shows "\<forall>x \<in> set (xs[i := y]). P x"
  using assms set_update_subset_insert by fastforce

text \<open>How an update of one element changes the number of elements with a property.\<close>

lemma length_filter_update:
  "i < length xs \<Longrightarrow>
     length (filter P (xs[i := y])) + (if P (xs ! i) then 1 else 0)
       = length (filter P xs) + (if P y then 1 else 0)"
proof (induction xs arbitrary: i)
  case Nil
  then show ?case by simp
next
  case (Cons x xs)
  then show ?case by (cases i) auto
qed

text \<open>How an update of one element changes a sum of weights.\<close>

lemma sum_weight_update:
  fixes weight :: "'a \<Rightarrow> nat"
  shows "i < length xs \<Longrightarrow> sum_list (map weight (xs[i := y])) + weight (xs ! i) = sum_list (map weight xs) + weight y"
  by (induction xs arbitrary: i) (auto split: nat.splits)

lemma length_filter_full: "length (filter P xs) = length xs \<longleftrightarrow> (\<forall>x \<in> set xs. P x)"
  by (metis filter_True length_filter_less nat_less_le)

lemma filter_replicate_False: "\<not> P x \<Longrightarrow> filter P (replicate n x) = []"
  by (induction n) auto

subsection \<open>Characters\<close>

text \<open>\<^verbatim>\<open>isspace\<close> and \<^verbatim>\<open>isdigit\<close> in the C locale.\<close>

abbreviation NL :: char where "NL \<equiv> CHR 0x0A"

definition isspace :: "char \<Rightarrow> bool" where
  "isspace c \<longleftrightarrow> c \<in> {CHR '' '', CHR 0x09, NL, CHR 0x0B, CHR 0x0C, CHR 0x0D}"

definition isdigit :: "char \<Rightarrow> bool" where
  "isdigit c \<longleftrightarrow> (48 :: nat) \<le> of_char c \<and> (of_char c :: nat) \<le> 57"

subsection \<open>Systems with an invariant\<close>

text \<open>
  A component with state: its initial states and its steps. The client of the interface (a
  theorem about every reachable state) needs only that the invariant holds at the start and
  that each step keeps it.
\<close>

inductive reachable :: "('s \<Rightarrow> bool) \<Rightarrow> ('s \<Rightarrow> 's \<Rightarrow> bool) \<Rightarrow> 's \<Rightarrow> bool"
  for init :: "'s \<Rightarrow> bool" and step :: "'s \<Rightarrow> 's \<Rightarrow> bool" where
  reachable_init: "init s \<Longrightarrow> reachable init step s"
| reachable_step: "reachable init step s \<Longrightarrow> step s t \<Longrightarrow> reachable init step t"

locale invariant_system =
  fixes init :: "'s \<Rightarrow> bool"
    and step :: "'s \<Rightarrow> 's \<Rightarrow> bool"
    and inv :: "'s \<Rightarrow> bool"
  assumes inv_init: "init s \<Longrightarrow> inv s"
    and inv_step: "inv s \<Longrightarrow> step s t \<Longrightarrow> inv t"
begin

lemma inv_reachable: "reachable init step s \<Longrightarrow> inv s"
  by (induction rule: reachable.induct) (auto intro: inv_init inv_step)

lemma inv_reachable_step: "reachable init step s \<Longrightarrow> step s t \<Longrightarrow> inv s \<and> inv t"
  by (auto intro: inv_reachable inv_step)

end

text \<open>A system in which every step brings the end nearer; then no run is infinite.\<close>

locale measured_system = invariant_system init step inv
  for init :: "'s \<Rightarrow> bool" and step :: "'s \<Rightarrow> 's \<Rightarrow> bool" and inv :: "'s \<Rightarrow> bool" +
  fixes left :: "'s \<Rightarrow> nat"
  assumes left_step: "inv s \<Longrightarrow> step s t \<Longrightarrow> left t < left s"
begin

lemma runs_finite: "wf {(t, s). reachable init step s \<and> step s t}"
proof (rule wf_subset [OF wf_measure [of left]])
  show "{(t, s). reachable init step s \<and> step s t} \<subseteq> measure left"
    using inv_reachable left_step by auto
qed

end

text \<open>If moreover a state without a step is final, every run ends in a final state.\<close>

locale ending_system = measured_system init step inv left
  for init :: "'s \<Rightarrow> bool" and step :: "'s \<Rightarrow> 's \<Rightarrow> bool" and inv :: "'s \<Rightarrow> bool" and left :: "'s \<Rightarrow> nat" +
  fixes final :: "'s \<Rightarrow> bool"
  assumes stuck_final: "inv s \<Longrightarrow> \<nexists>t. step s t \<Longrightarrow> final s"
begin

lemma stuck_reachable_final: "reachable init step s \<Longrightarrow> \<nexists>t. step s t \<Longrightarrow> final s"
  by (rule stuck_final [OF inv_reachable])

lemma reaches_final:
  assumes "reachable init step s"
  shows "\<exists>t. step\<^sup>*\<^sup>* s t \<and> final t"
proof -
  have "\<forall>s. left s = n \<longrightarrow> reachable init step s \<longrightarrow> (\<exists>t. step\<^sup>*\<^sup>* s t \<and> final t)" for n
  proof (induction n rule: less_induct)
    case (less n)
    show ?case
    proof (intro allI impI)
      fix s
      assume n: "left s = n" and reach: "reachable init step s"
      show "\<exists>t. step\<^sup>*\<^sup>* s t \<and> final t"
      proof (cases "\<exists>t. step s t")
        case True
        then obtain t where t: "step s t" by (rule exE)
        have "left t < n" using left_step [OF inv_reachable [OF reach] t] n by simp
        with less.IH reachable_step [of init step, OF reach t] obtain u where u: "step\<^sup>*\<^sup>* t u" "final u" by fast
        from converse_rtranclp_into_rtranclp [of step, OF t u(1)] u(2) show ?thesis by (intro exI conjI)
      next
        case False
        with stuck_reachable_final [OF reach] have "final s" by simp
        then show ?thesis by (intro exI [of _ s]) simp
      qed
    qed
  qed
  with assms show ?thesis by simp
qed

end

end
