(* ===== verification/UFS_File.thy ===== *)
theory UFS_File
  imports Prelude
begin

section \<open>UserFS: the blocks of a file\<close>

text \<open>
  The data plane of \<^verbatim>\<open>hw3/userfs.c\<close>: a file's chain of blocks and the loops of
  \<^verbatim>\<open>ufs_write\<close>, \<^verbatim>\<open>ufs_read\<close> and \<^verbatim>\<open>ufs_resize\<close> that walk it. A block belongs to one file
  and is reached only through that file's chain, so the chain is the list of its blocks: a
  pointer to a block is its index, \<open>NULL\<close> is \<^const>\<open>None\<close>, \<open>first_block\<close> and \<open>last_block\<close> are
  the two ends of the list (both \<open>NULL\<close> exactly when it is empty).

  The invariant \<open>chain_wf\<close> (every block has its memory and holds between 1 and
  \<open>BLOCK_SIZE\<close> bytes) is what every call sequence keeps, and it is enough for the loops to be
  free of undefined behaviour; the lemmas \<open>file_*_wf\<close> say so for the four operations.
\<close>

subsection \<open>Blocks\<close>

definition BLOCK_SIZE :: nat where
  "BLOCK_SIZE = 512"

definition MAX_FILE_SIZE :: nat where
  "MAX_FILE_SIZE = 1024 * 1024 * 100"

record block =
  b_memory :: "cell list"
  b_occupied :: "int option"    \<comment> \<open>\<^const>\<open>None\<close>: not initialised yet\<close>

definition malloc_block :: block where
  "malloc_block = \<lparr>b_memory = replicate BLOCK_SIZE None, b_occupied = Some 0\<rparr>"

definition calloc_block :: block where
  "calloc_block = \<lparr>b_memory = replicate BLOCK_SIZE (Some 0), b_occupied = None\<rparr>"

definition next_block :: "block list \<Rightarrow> nat \<Rightarrow> nat option" where
  "next_block bs i = (if Suc i < length bs then Some (Suc i) else None)"

definition first_block :: "block list \<Rightarrow> nat option" where
  "first_block bs = (if bs = [] then None else Some 0)"

definition set_last_occupied :: "int \<Rightarrow> block list \<Rightarrow> block list" where
  "set_last_occupied n bs =
     (if bs = [] then [] else bs[length bs - 1 := last bs\<lparr>b_occupied := Some n\<rparr>])"

subsection \<open>The loop of ufs_write\<close>

text \<open>\<^verbatim>\<open>for (i = 0; i < desc->offset / BLOCK_SIZE; i++) block = block->next;\<close> follows the chain
  without a check: a null block on the way is a null dereference.\<close>

fun write_walk :: "block list \<Rightarrow> nat \<Rightarrow> nat option \<Rightarrow> nat option option" where
  "write_walk bs 0 cur = Some cur"
| "write_walk bs (Suc n) None = None"
| "write_walk bs (Suc n) (Some i) = write_walk bs n (next_block bs i)"

text \<open>The block the iteration writes to: the current one, or a new one appended to the end of
  the file when there is none or it is full.\<close>

definition write_target :: "block list \<Rightarrow> nat option \<Rightarrow> (block list \<times> nat) option" where
  "write_target bs cur =
     (case cur of
        None \<Rightarrow> Some (bs @ [malloc_block], length bs)
      | Some i \<Rightarrow>
          if i < length bs then
            do { occ \<leftarrow> b_occupied (bs ! i);
                 Some (if occ = int BLOCK_SIZE then (bs @ [malloc_block], length bs) else (bs, i)) }
          else None)"

definition block_write :: "block \<Rightarrow> nat \<Rightarrow> byte list \<Rightarrow> block option" where
  "block_write b write_from data =
     do { mem \<leftarrow> memcpy_into (b_memory b) write_from (map Some data);
          occ \<leftarrow> b_occupied b;
          let new = c_int (int (write_from + length data));
          Some (if new > occ then b\<lparr>b_memory := mem, b_occupied := Some new\<rparr>
                else b\<lparr>b_memory := mem\<rparr>) }"

definition write_chunk :: "byte list \<Rightarrow> nat \<Rightarrow> nat \<Rightarrow> nat" where
  "write_chunk buf written off = min (length buf - written) (BLOCK_SIZE - off mod BLOCK_SIZE)"

definition write_iter ::
    "byte list \<Rightarrow> nat \<Rightarrow> block list \<Rightarrow> nat option \<Rightarrow> nat \<Rightarrow> (block list \<times> nat) option" where
  "write_iter buf written bs cur off =
     do { (bs1, i) \<leftarrow> write_target bs cur;
          b \<leftarrow> block_write (bs1 ! i) (off mod BLOCK_SIZE)
                 (take (write_chunk buf written off) (drop written buf));
          Some (bs1[i := b], i) }"

lemma BLOCK_SIZE_pos [simp]: "0 < BLOCK_SIZE"
  by (simp add: BLOCK_SIZE_def)

lemma mod_BLOCK_SIZE_neq [simp]: "n mod BLOCK_SIZE \<noteq> BLOCK_SIZE"
  by (metis BLOCK_SIZE_pos mod_less_divisor nat_less_le)

lemma write_chunk_pos: "written < length buf \<Longrightarrow> 0 < write_chunk buf written off"
  by (simp add: write_chunk_def)

lemma write_chunk_le [bounds]: "written < length buf \<Longrightarrow> written + write_chunk buf written off \<le> length buf"
  by (simp add: write_chunk_def)

function write_loop ::
    "byte list \<Rightarrow> nat \<Rightarrow> block list \<Rightarrow> nat option \<Rightarrow> nat \<Rightarrow> (nat \<times> block list \<times> nat) option" where
  "write_loop buf written bs cur off =
     (if written < length buf then
        do { (bs', i) \<leftarrow> write_iter buf written bs cur off;
             write_loop buf (written + write_chunk buf written off) bs' (Some i)
               (off + write_chunk buf written off) }
      else Some (written, bs, off))"
  by pat_completeness auto
termination
  by (relation "measure (\<lambda>(buf, written, _). length buf - written)")
    (auto simp: write_chunk_pos diff_less_mono2)

declare write_loop.simps [simp del]

subsection \<open>The loops of ufs_read\<close>

text \<open>The walk of \<^verbatim>\<open>ufs_read\<close> checks for the end of the chain (\<^const>\<open>None\<close>: return 0).\<close>

fun read_walk :: "block list \<Rightarrow> nat \<Rightarrow> nat option \<Rightarrow> nat option option" where
  "read_walk bs 0 cur = Some cur"
| "read_walk bs (Suc n) None = None"
| "read_walk bs (Suc n) (Some i) = read_walk bs n (next_block bs i)"

function read_loop ::
    "block list \<Rightarrow> nat \<Rightarrow> nat option \<Rightarrow> nat \<Rightarrow> cell list \<Rightarrow> (cell list \<times> nat) option" where
  "read_loop bs sz cur off acc =
     (case cur of
        None \<Rightarrow> Some (acc, off)
      | Some i \<Rightarrow>
          if \<not> int (length acc) < c_ssize (int sz) then Some (acc, off)
          else if \<not> i < length bs then None
          else
            let block_offset = c_int (int off) smod int BLOCK_SIZE in
            do { occ \<leftarrow> b_occupied (bs ! i);
                 if block_offset - occ \<ge> 0 then Some (acc, off)
                 else
                   let n = min (nat (occ - block_offset)) (sz - length acc) in
                   do { data \<leftarrow> memcpy_from (b_memory (bs ! i)) block_offset n;
                        read_loop bs sz (next_block bs i) (off + n) (acc @ data) } })"
  by pat_completeness auto
termination
  by (relation "measure (\<lambda>(bs, sz, cur, _). case cur of None \<Rightarrow> 0 | Some i \<Rightarrow> Suc (length bs - i))")
    (auto simp: next_block_def)

declare read_loop.simps [simp del]

subsection \<open>The loops of ufs_resize\<close>

definition block_count :: "nat \<Rightarrow> nat" where
  "block_count sz = (sz + BLOCK_SIZE - 1) div BLOCK_SIZE"

definition last_block_occupied :: "nat \<Rightarrow> int" where
  "last_block_occupied new_size =
     (let r = c_int (int (new_size mod BLOCK_SIZE)) in if r = 0 then int BLOCK_SIZE else r)"

fun shrink_blocks :: "block list \<Rightarrow> nat \<Rightarrow> block list option" where
  "shrink_blocks bs 0 = Some bs"
| "shrink_blocks bs (Suc n) = (if bs = [] then None else shrink_blocks (butlast bs) n)"

fun grow_blocks :: "block list \<Rightarrow> nat \<Rightarrow> block list" where
  "grow_blocks bs 0 = bs"
| "grow_blocks bs (Suc n) =
     grow_blocks (set_last_occupied (int BLOCK_SIZE) bs @ [calloc_block]) n"

subsection \<open>The file operations\<close>

text \<open>The part of each call that works on the blocks of one file of size \<open>fsize\<close>.\<close>

definition file_write ::
    "block list \<Rightarrow> nat \<Rightarrow> nat \<Rightarrow> byte list \<Rightarrow> (nat \<times> block list \<times> nat \<times> nat) option" where
  "file_write bs fsize off buf =
     do { cur \<leftarrow> write_walk bs (off div BLOCK_SIZE) (first_block bs);
          (written, bs', off') \<leftarrow> write_loop buf 0 bs cur off;
          Some (written, bs', if off' > fsize then off' else fsize, off') }"

definition file_read :: "block list \<Rightarrow> nat \<Rightarrow> nat \<Rightarrow> nat \<Rightarrow> (cell list \<times> nat) option" where
  "file_read bs fsize off sz =
     (case read_walk bs (off div BLOCK_SIZE) (first_block bs) of
        None \<Rightarrow> Some ([], off)
      | Some cur \<Rightarrow> if off \<ge> fsize then Some ([], off) else read_loop bs sz cur off [])"

definition file_shrink :: "block list \<Rightarrow> nat \<Rightarrow> nat \<Rightarrow> (block list \<times> nat) option" where
  "file_shrink bs fsize new_size =
     do { bs' \<leftarrow> shrink_blocks bs (block_count fsize - block_count new_size);
          if bs' = [] then (if new_size = 0 \<and> block_count new_size = 0 then Some ([], 0) else None)
          else Some (set_last_occupied (last_block_occupied new_size) bs', new_size) }"

definition file_grow :: "block list \<Rightarrow> nat \<Rightarrow> nat \<Rightarrow> (block list \<times> nat) option" where
  "file_grow bs fsize new_size =
     (let bs' = grow_blocks bs (block_count new_size - block_count fsize)
      in if bs' = [] then None
         else Some (set_last_occupied (last_block_occupied new_size) bs', new_size))"

subsection \<open>The invariant of every chain, and what it gives\<close>

definition block_wf :: "block \<Rightarrow> bool" where
  "block_wf b \<longleftrightarrow> length (b_memory b) = BLOCK_SIZE \<and>
     (case b_occupied b of None \<Rightarrow> False | Some n \<Rightarrow> 1 \<le> n \<and> n \<le> int BLOCK_SIZE)"

definition chain_wf :: "block list \<Rightarrow> bool" where
  "chain_wf bs \<longleftrightarrow> (\<forall>b \<in> set bs. block_wf b)"

lemma chain_wf_nth:
  "chain_wf bs \<Longrightarrow> i < length bs \<Longrightarrow>
     length (b_memory (bs ! i)) = BLOCK_SIZE \<and>
     (\<exists>n. b_occupied (bs ! i) = Some n \<and> 1 \<le> n \<and> n \<le> int BLOCK_SIZE)"
  by (auto simp: chain_wf_def block_wf_def split: option.splits dest!: nth_mem)

lemma chain_wf_Nil [simp]: "chain_wf []"
  by (simp add: chain_wf_def)

lemma chain_wf_update:
  "chain_wf bs \<Longrightarrow> block_wf b \<Longrightarrow> chain_wf (bs[i := b])"
  unfolding chain_wf_def by (rule all_set_list_update)

lemma chain_wf_take: "chain_wf bs \<Longrightarrow> chain_wf (take n bs)"
  by (auto simp: chain_wf_def dest: in_set_takeD)

lemma write_walk_Some:
  "i < length bs \<Longrightarrow> i + k \<le> length bs \<Longrightarrow>
     write_walk bs k (Some i) = Some (if i + k < length bs then Some (i + k) else None)"
proof (induction k arbitrary: i)
  case 0
  then show ?case by simp
next
  case (Suc k)
  show ?case
  proof (cases "Suc i < length bs")
    case True
    with Suc show ?thesis by (simp add: next_block_def)
  next
    case False
    with Suc.prems have "k = 0" and "Suc i = length bs" by auto
    then show ?thesis by (simp add: next_block_def)
  qed
qed

lemma write_walk_first:
  "k \<le> length bs \<Longrightarrow>
     write_walk bs k (first_block bs) = Some (if k < length bs then Some k else None)"
  by (cases "bs = []") (auto simp: first_block_def write_walk_Some)

text \<open>The two walks differ in what a null block means to the caller, not in where they go.\<close>

lemma read_walk_eq: "read_walk bs k cur = write_walk bs k cur"
  by (induction bs k cur rule: read_walk.induct) auto

lemma block_write_Some:
  assumes "length (b_memory b) = BLOCK_SIZE" "b_occupied b = Some n" "0 \<le> n" "n \<le> int BLOCK_SIZE"
    and "write_from + length data \<le> BLOCK_SIZE"
  shows "block_write b write_from data =
     Some (b\<lparr>b_memory := overwrite (b_memory b) write_from (map Some data),
            b_occupied := Some (max n (int (write_from + length data)))\<rparr>)"
proof -
  have "c_int (int (write_from + length data)) = int (write_from + length data)"
    using assms(5) by (intro c_int_id) (auto simp: BLOCK_SIZE_def)
  moreover have "max n (int (write_from + length data)) = n \<Longrightarrow>
      b\<lparr>b_occupied := Some (max n (int (write_from + length data)))\<rparr> = b"
    using assms(2) by (cases b) simp
  ultimately show ?thesis
    using assms by (cases b) (auto simp: block_write_def max_def Let_def)
qed

subsection \<open>Writing never faults\<close>

text \<open>A cursor of the write loop: the block that holds the offset, a full block, or none.\<close>

definition write_cursor :: "block list \<Rightarrow> nat option \<Rightarrow> nat \<Rightarrow> bool" where
  "write_cursor bs cur off \<longleftrightarrow>
     (case cur of None \<Rightarrow> True
      | Some i \<Rightarrow> i < length bs \<and>
          (b_occupied (bs ! i) = Some (int BLOCK_SIZE) \<or> i = off div BLOCK_SIZE))"

lemma write_target_Some:
  assumes "chain_wf bs" "write_cursor bs cur off"
  shows "(\<exists>i. cur = Some i \<and> i < length bs \<and> b_occupied (bs ! i) \<noteq> Some (int BLOCK_SIZE) \<and>
            i = off div BLOCK_SIZE \<and> write_target bs cur = Some (bs, i)) \<or>
         write_target bs cur = Some (bs @ [malloc_block], length bs)"
proof (cases cur)
  case None
  then show ?thesis by (simp add: write_target_def)
next
  case (Some i)
  with assms obtain n where "i < length bs" "b_occupied (bs ! i) = Some n"
    by (auto simp: write_cursor_def dest: chain_wf_nth)
  with Some assms(2) show ?thesis
    by (auto simp: write_target_def write_cursor_def)
qed

lemma write_chunk_block: "off mod BLOCK_SIZE + write_chunk buf written off \<le> BLOCK_SIZE"
  by (simp add: write_chunk_def BLOCK_SIZE_def min_def) (use mod_less_divisor [of 512 off] in linarith)

lemma length_chunk:
  "written < length buf \<Longrightarrow>
     length (take (write_chunk buf written off) (drop written buf)) = write_chunk buf written off"
  using write_chunk_le [of written buf off] by simp

text \<open>A chunk that is not the last one ends at the end of its block.\<close>

lemma write_chunk_more:
  assumes "written + write_chunk buf written off < length buf"
  shows "off mod BLOCK_SIZE + write_chunk buf written off = BLOCK_SIZE"
proof -
  have "off mod BLOCK_SIZE < BLOCK_SIZE" by simp
  with assms show ?thesis unfolding write_chunk_def by (auto simp: min_def split: if_splits)
qed

lemma write_iter_wf:
  assumes wf: "chain_wf bs" and cur: "write_cursor bs cur off"
    and off: "off \<le> BLOCK_SIZE * length bs" and more: "written < length buf"
  obtains bs' i where "write_iter buf written bs cur off = Some (bs', i)" "chain_wf bs'"
    "i < length bs'" "length bs \<le> length bs'"
    "off + write_chunk buf written off \<le> BLOCK_SIZE * length bs'"
    "b_occupied (bs' ! i) = Some (int BLOCK_SIZE) \<or> written + write_chunk buf written off = length buf"
proof -
  define c where "c = write_chunk buf written off"
  define data where "data = take c (drop written buf)"
  have len: "length data = c" using length_chunk [OF more] by (simp only: data_def c_def)
  have c: "off mod BLOCK_SIZE + c \<le> BLOCK_SIZE" "0 < c"
    using more by (simp_all add: c_def write_chunk_block write_chunk_pos)
  have full: "off mod BLOCK_SIZE + c = BLOCK_SIZE \<or> written + c = length buf"
    using write_chunk_more [of written buf off] write_chunk_le [OF more, of off]
    by (auto simp: c_def)
  obtain bs1 i n where tgt: "write_target bs cur = Some (bs1, i)" and i: "i < length bs1"
    and mem: "length (b_memory (bs1 ! i)) = BLOCK_SIZE" and occ: "b_occupied (bs1 ! i) = Some n"
    and n: "0 \<le> n" "n \<le> int BLOCK_SIZE"
    and other: "\<forall>j < length bs1. j \<noteq> i \<longrightarrow> block_wf (bs1 ! j)"
    and grow: "length bs \<le> length bs1" "off + c \<le> BLOCK_SIZE * length bs1"
    using write_target_Some [OF wf cur]
  proof (elim disjE exE conjE, goal_cases)
    case (1 i)
    from chain_wf_nth [OF wf 1(3)] obtain n
      where "length (b_memory (bs ! i)) = BLOCK_SIZE" "b_occupied (bs ! i) = Some n" "1 \<le> n"
        "n \<le> int BLOCK_SIZE" by blast
    moreover have "off + c \<le> BLOCK_SIZE * length bs"
    proof -
      have "off + c \<le> BLOCK_SIZE * Suc (off div BLOCK_SIZE)"
        unfolding mult_Suc_right using c(1) mult_div_mod_eq [of BLOCK_SIZE off] by linarith
      also have "\<dots> \<le> BLOCK_SIZE * length bs"
        using 1(3,5) by (intro mult_le_mono2) simp
      finally show ?thesis .
    qed
    ultimately show thesis
      using 1 wf by (intro 1(1) [of bs i n]) (auto simp: chain_wf_def)
  next
    case 2
    have "off + c \<le> BLOCK_SIZE * length bs + BLOCK_SIZE"
      using off c(1) by (simp add: trans_le_add2)
    with 2 wf show thesis
      by (intro 2(1) [of "bs @ [malloc_block]" "length bs" 0])
        (auto simp: malloc_block_def nth_append chain_wf_def)
  qed
  define b where "b = (bs1 ! i)\<lparr>b_memory := overwrite (b_memory (bs1 ! i)) (off mod BLOCK_SIZE) (map Some data),
      b_occupied := Some (max n (int (off mod BLOCK_SIZE + c)))\<rparr>"
  have "block_write (bs1 ! i) (off mod BLOCK_SIZE) data = Some b"
    unfolding b_def using block_write_Some [OF mem occ n, of "off mod BLOCK_SIZE" data] c len by simp
  then have "write_iter buf written bs cur off = Some (bs1[i := b], i)"
    by (simp add: write_iter_def tgt data_def c_def)
  moreover have b: "block_wf b"
    using mem n c len by (auto simp: b_def block_wf_def)
  then have "chain_wf (bs1[i := b])"
    using other i by (auto simp: chain_wf_def in_set_conv_nth nth_list_update)
  moreover have "b_occupied (bs1[i := b] ! i) = Some (int BLOCK_SIZE) \<or> written + c = length buf"
    using full i n(2) by (auto simp: b_def)
  ultimately show thesis
    using i grow by (intro that [of "bs1[i := b]" i]) (auto simp: c_def)
qed

lemma write_loop_wf:
  assumes "chain_wf bs" "write_cursor bs cur off" "off \<le> BLOCK_SIZE * length bs"
    "written \<le> length buf"
  shows "\<exists>bs'. write_loop buf written bs cur off = Some (length buf, bs', off + (length buf - written)) \<and>
     chain_wf bs' \<and> length bs \<le> length bs' \<and>
     off + (length buf - written) \<le> BLOCK_SIZE * length bs'"
  using assms
proof (induction buf written bs cur off rule: write_loop.induct)
  case (1 buf written bs cur off)
  show ?case
  proof (cases "written < length buf")
    case False
    with 1(2-5) show ?thesis by (subst write_loop.simps) auto
  next
    case True
    define c where "c = write_chunk buf written off"
    obtain bs' i where it: "write_iter buf written bs cur off = Some (bs', i)" "chain_wf bs'"
      and i: "i < length bs'" "length bs \<le> length bs'" "off + c \<le> BLOCK_SIZE * length bs'"
      and full: "b_occupied (bs' ! i) = Some (int BLOCK_SIZE) \<or> written + c = length buf"
      using write_iter_wf [OF 1(2,3,4) True] unfolding c_def by metis
    have c: "written + c \<le> length buf"
      using write_chunk_le [OF True, of off] by (simp add: c_def)
    show ?thesis
    proof (cases "written + c = length buf")
      case True
      then show ?thesis
        using it i \<open>written < length buf\<close> by (subst write_loop.simps, subst write_loop.simps) (auto simp: c_def [symmetric])
    next
      case False
      with full i have "write_cursor bs' (Some i) (off + c)" by (simp add: write_cursor_def)
      from 1(1) [OF True, of "(bs', i)" bs' i, folded c_def, OF it(1) refl it(2) this i(3) c]
      obtain bs'' where "write_loop buf (written + c) bs' (Some i) (off + c)
          = Some (length buf, bs'', off + c + (length buf - (written + c)))"
        and "chain_wf bs''" "length bs' \<le> length bs''"
        "off + c + (length buf - (written + c)) \<le> BLOCK_SIZE * length bs''"
        by blast
      moreover have "off + c + (length buf - (written + c)) = off + (length buf - written)"
        using c by simp
      ultimately show ?thesis
        using it(1) i(2) True by (subst write_loop.simps) (auto simp: c_def [symmetric])
    qed
  qed
qed

lemma div_BLOCK_SIZE_le: "off \<le> BLOCK_SIZE * n \<Longrightarrow> off div BLOCK_SIZE \<le> n"
  by (simp add: BLOCK_SIZE_def)

lemma file_write_wf:
  assumes "chain_wf bs" "off \<le> BLOCK_SIZE * length bs" "fsize \<le> BLOCK_SIZE * length bs"
  shows "\<exists>bs'. file_write bs fsize off buf
       = Some (length buf, bs', max fsize (off + length buf), off + length buf) \<and>
     chain_wf bs' \<and> length bs \<le> length bs' \<and> max fsize (off + length buf) \<le> BLOCK_SIZE * length bs'"
proof -
  let ?k = "off div BLOCK_SIZE"
  define cur where "cur = (if ?k < length bs then Some ?k else None)"
  have walk: "write_walk bs ?k (first_block bs) = Some cur"
    using assms(2) unfolding cur_def by (intro write_walk_first div_BLOCK_SIZE_le)
  have "write_cursor bs cur off" by (simp add: cur_def write_cursor_def)
  from write_loop_wf [OF assms(1) this assms(2), of 0 buf]
  obtain bs' where "write_loop buf 0 bs cur off = Some (length buf, bs', off + length buf)"
    "chain_wf bs'" "length bs \<le> length bs'" "off + length buf \<le> BLOCK_SIZE * length bs'"
    by auto
  moreover from this(3) have "fsize \<le> BLOCK_SIZE * length bs'"
    using assms(3) mult_le_mono2 [of "length bs" "length bs'" BLOCK_SIZE] by linarith
  ultimately show ?thesis
    using walk by (auto simp: file_write_def max_def)
qed

subsection \<open>Reading never faults\<close>

lemma file_read_bound: "c_int (int off) smod int BLOCK_SIZE = int (off mod BLOCK_SIZE)"
  if "off < 2 ^ 31"
  using that by (simp add: BLOCK_SIZE_def smod_nonneg zmod_int)

text \<open>One iteration of the read loop that copies: \<open>n\<close> cells of the block of the offset.\<close>

lemma read_loop_step:
  assumes "i < length bs" "b_occupied (bs ! i) = Some occ" "occ \<le> int BLOCK_SIZE"
    and "length (b_memory (bs ! i)) = BLOCK_SIZE"
    and "int (length acc) < c_ssize (int sz)" "off < 2 ^ 31" "int (off mod BLOCK_SIZE) < occ"
    and "n = min (nat occ - off mod BLOCK_SIZE) (sz - length acc)"
  shows "read_loop bs sz (Some i) off acc =
     read_loop bs sz (next_block bs i) (off + n)
       (acc @ take n (drop (off mod BLOCK_SIZE) (b_memory (bs ! i))))"
proof -
  have "nat (occ - int (off mod BLOCK_SIZE)) = nat occ - off mod BLOCK_SIZE"
    by (simp add: nat_diff_distrib')
  moreover have "off mod BLOCK_SIZE + n \<le> BLOCK_SIZE"
    using assms(3,7,8) by linarith
  ultimately show ?thesis
    using assms file_read_bound [OF assms(6)]
    by (subst read_loop.simps) (simp add: Let_def)
qed

lemma read_loop_end:
  assumes "i < length bs" "b_occupied (bs ! i) = Some occ"
    and "\<not> int (length acc) < c_ssize (int sz) \<or> (off < 2 ^ 31 \<and> occ \<le> int (off mod BLOCK_SIZE))"
  shows "read_loop bs sz (Some i) off acc = Some (acc, off)"
  using assms file_read_bound [of off]
  by (subst read_loop.simps) (auto simp: Let_def)

lemma read_loop_None [simp]: "read_loop bs sz None off acc = Some (acc, off)"
  by (subst read_loop.simps) simp

text \<open>
  The offset of the descriptor moves with what is read and stays within the chain. The 32-bit
  cast of the offset is why the chain is bounded here.
\<close>

lemma read_loop_wf:
  assumes "chain_wf bs" "BLOCK_SIZE * length bs < 2 ^ 31" "length acc \<le> sz" "sz < 2 ^ 63"
    and "off \<le> BLOCK_SIZE * length bs"
    and "\<forall>i. cur = Some i \<longrightarrow> i < length bs \<and> off div BLOCK_SIZE \<le> i"
  shows "\<exists>data. read_loop bs sz cur off acc = Some (acc @ data, off + length data) \<and>
     length (acc @ data) \<le> sz \<and> off + length data \<le> BLOCK_SIZE * length bs"
  using assms
proof (induction "case cur of None \<Rightarrow> 0 | Some i \<Rightarrow> Suc (length bs - i)"
    arbitrary: cur off acc rule: less_induct)
  case less
  note wf = less.prems(1) and small = less.prems(2)
  show ?case
  proof (cases cur)
    case None
    with less.prems show ?thesis by (intro exI [of _ "[]"]) simp
  next
    case (Some i)
    with less.prems have i: "i < length bs" "off div BLOCK_SIZE \<le> i" by auto
    from chain_wf_nth [OF wf i(1)] obtain occ where
      mem: "length (b_memory (bs ! i)) = BLOCK_SIZE" and occ: "b_occupied (bs ! i) = Some occ"
      and occ_le: "occ \<le> int BLOCK_SIZE" by blast
    have off: "off < 2 ^ 31" using less.prems(5) small by linarith
    let ?m = "off mod BLOCK_SIZE"
    show ?thesis
    proof (cases "int (length acc) < c_ssize (int sz) \<and> int ?m < occ")
      case False
      then have "read_loop bs sz cur off acc = Some (acc, off)"
        unfolding Some using off by (intro read_loop_end [OF i(1) occ]) auto
      with less.prems show ?thesis by (intro exI [of _ "[]"]) simp
    next
      case True
      define n where "n = min (nat occ - ?m) (sz - length acc)"
      define d where "d = take n (drop ?m (b_memory (bs ! i)))"
      have step: "read_loop bs sz cur off acc = read_loop bs sz (next_block bs i) (off + n) (acc @ d)"
        unfolding Some d_def using True off
        by (intro read_loop_step [OF i(1) occ occ_le mem]) (simp_all add: n_def)
      have n: "?m + n \<le> BLOCK_SIZE" using occ_le True by (simp add: n_def min_def) linarith
      then have d: "length d = n" using mem by (simp add: d_def)
      have "off + n = BLOCK_SIZE * (off div BLOCK_SIZE) + (?m + n)" by simp
      also have "\<dots> \<le> BLOCK_SIZE * Suc i" unfolding mult_Suc_right using n mult_le_mono2 [OF i(2), of BLOCK_SIZE] by linarith
      finally have lim: "off + n \<le> BLOCK_SIZE * Suc i" .
      also have "\<dots> \<le> BLOCK_SIZE * length bs" using i(1) by (intro mult_le_mono2) simp
      finally have lim': "off + n \<le> BLOCK_SIZE * length bs" .
      have acc: "length (acc @ d) \<le> sz" using d less.prems(3) by (simp add: n_def)
      have next_i: "\<forall>j. next_block bs i = Some j \<longrightarrow> j < length bs \<and> (off + n) div BLOCK_SIZE \<le> j"
        using div_BLOCK_SIZE_le [OF lim] by (simp add: next_block_def)
      have dec: "(case next_block bs i of None \<Rightarrow> 0 | Some i \<Rightarrow> Suc (length bs - i))
          < (case cur of None \<Rightarrow> 0 | Some i \<Rightarrow> Suc (length bs - i))"
        using Some i by (auto simp: next_block_def)
      from less.hyps [OF dec wf small acc less.prems(4) lim' next_i]
      obtain data where "read_loop bs sz (next_block bs i) (off + n) (acc @ d)
          = Some ((acc @ d) @ data, off + n + length data)"
        "length ((acc @ d) @ data) \<le> sz" "off + n + length data \<le> BLOCK_SIZE * length bs" by blast
      with step d show ?thesis by (intro exI [of _ "d @ data"]) (simp add: add.assoc)
    qed
  qed
qed

lemma file_read_wf:
  assumes "chain_wf bs" "BLOCK_SIZE * length bs < 2 ^ 31" "sz < 2 ^ 63"
    and "off \<le> BLOCK_SIZE * length bs"
  shows "\<exists>data. file_read bs fsize off sz = Some (data, off + length data) \<and>
     length data \<le> sz \<and> off + length data \<le> BLOCK_SIZE * length bs"
proof -
  let ?k = "off div BLOCK_SIZE"
  define cur where "cur = (if ?k < length bs then Some ?k else None)"
  have walk: "read_walk bs ?k (first_block bs) = Some cur"
    unfolding cur_def read_walk_eq using assms(4) by (intro write_walk_first div_BLOCK_SIZE_le)
  have "\<forall>i. cur = Some i \<longrightarrow> i < length bs \<and> ?k \<le> i" by (simp add: cur_def)
  from read_loop_wf [OF assms(1,2) _ assms(3,4) this, of "[]"]
  obtain data where "read_loop bs sz cur off [] = Some (data, off + length data)"
    "length data \<le> sz" "off + length data \<le> BLOCK_SIZE * length bs" by auto
  with walk assms(4) show ?thesis
    by (cases "off \<ge> fsize") (auto simp: file_read_def intro: exI [of _ "[]"])
qed

text \<open>Where the chain is not bounded, a read that does not fault still keeps the offset within it.\<close>

lemma c_int_smod_nonneg:
  assumes "0 \<le> c_int (int off) smod int BLOCK_SIZE"
  shows "c_int (int off) smod int BLOCK_SIZE = int (off mod BLOCK_SIZE)"
proof -
  define c where "c = c_int (int off)"
  have eq: "c mod int BLOCK_SIZE = int (off mod BLOCK_SIZE)"
  proof -
    define q where "q = (int off + 2 ^ 31) div 2 ^ 32"
    have "c = int off - 2 ^ 32 * q"
      unfolding c_def c_int_def q_def by (simp add: minus_mult_div_eq_mod [symmetric])
    also have "\<dots> = int off + int BLOCK_SIZE * (- 8388608 * q)" by (simp add: BLOCK_SIZE_def)
    finally show ?thesis by (simp only: mod_mult_self2 zmod_int)
  qed
  show ?thesis
  proof (cases "0 \<le> c")
    case True
    then show ?thesis using eq by (simp add: c_def smod_nonneg)
  next
    case False
    then have "- (- c mod int BLOCK_SIZE) = c smod int BLOCK_SIZE"
      by (simp add: signed_modulo_int_def sgn_if BLOCK_SIZE_def)
    moreover have "0 \<le> - c mod int BLOCK_SIZE" by (simp add: BLOCK_SIZE_def)
    ultimately have "- c mod int BLOCK_SIZE = 0" "c smod int BLOCK_SIZE = 0"
      using assms unfolding c_def by linarith+
    then have "c mod int BLOCK_SIZE = 0" by (simp add: mod_eq_0_iff_dvd)
    then show ?thesis using eq \<open>c smod int BLOCK_SIZE = 0\<close> by (simp add: c_def)
  qed
qed

lemma read_loop_Some:
  assumes "chain_wf bs" "length acc \<le> sz" "sz < 2 ^ 63" "off \<le> BLOCK_SIZE * length bs"
    and "\<forall>i. cur = Some i \<longrightarrow> i < length bs \<and> off div BLOCK_SIZE \<le> i"
    and "read_loop bs sz cur off acc = Some (out, off')"
  shows "\<exists>data. out = acc @ data \<and> off' = off + length data \<and> length out \<le> sz \<and> off' \<le> BLOCK_SIZE * length bs"
  using assms
proof (induction bs sz cur off acc rule: read_loop.induct)
  case (1 bs sz cur off acc)
  show ?case
  proof (cases cur)
    case None
    with "1.prems" show ?thesis by simp
  next
    case (Some i)
    with "1.prems" have i: "i < length bs" "off div BLOCK_SIZE \<le> i" by auto
    from chain_wf_nth [OF "1.prems"(1) i(1)] obtain occ where
      mem: "length (b_memory (bs ! i)) = BLOCK_SIZE" and occ: "b_occupied (bs ! i) = Some occ"
      and occ_le: "occ \<le> int BLOCK_SIZE" by blast
    define bo where "bo = c_int (int off) smod int BLOCK_SIZE"
    show ?thesis
    proof (cases "int (length acc) < c_ssize (int sz) \<and> bo < occ")
      case False
      then have "read_loop bs sz cur off acc = Some (acc, off)"
        unfolding Some bo_def using i occ by (subst read_loop.simps) (auto simp: Let_def)
      with "1.prems" show ?thesis by simp
    next
      case True
      define n where "n = min (nat (occ - bo)) (sz - length acc)"
      from True "1.prems"(3) have pos: "0 < n" by (simp add: n_def)
      obtain d where d: "memcpy_from (b_memory (bs ! i)) bo n = Some d"
        and step: "read_loop bs sz (next_block bs i) (off + n) (acc @ d) = Some (out, off')"
        using "1.prems"(6) True i occ unfolding Some bo_def
        by (subst (asm) read_loop.simps) (auto simp: Let_def n_def bo_def bind_eq_Some_iff)
      have bo: "0 \<le> bo" "length d = n" using d by (auto simp: memcpy_from_def split: if_splits)
      then have m: "bo = int (off mod BLOCK_SIZE)" using c_int_smod_nonneg unfolding bo_def by blast
      have "off mod BLOCK_SIZE + n \<le> BLOCK_SIZE" using m occ_le True unfolding n_def by linarith
      moreover have "off = BLOCK_SIZE * (off div BLOCK_SIZE) + off mod BLOCK_SIZE" by simp
      ultimately have lim: "off + n \<le> BLOCK_SIZE * Suc i"
        unfolding mult_Suc_right using mult_le_mono2 [OF i(2), of BLOCK_SIZE] by linarith
      also have "\<dots> \<le> BLOCK_SIZE * length bs" using i(1) by (intro mult_le_mono2) simp
      finally have lim': "off + n \<le> BLOCK_SIZE * length bs" .
      have acc: "length (acc @ d) \<le> sz" using bo "1.prems"(2) by (simp add: n_def)
      have next_i: "\<forall>j. next_block bs i = Some j \<longrightarrow> j < length bs \<and> (off + n) div BLOCK_SIZE \<le> j"
        using div_BLOCK_SIZE_le [OF lim] by (simp add: next_block_def)
      have cond: "\<not> \<not> int (length acc) < c_ssize (int sz)" "\<not> \<not> i < length bs" "\<not> 0 \<le> bo - occ"
        using True i by auto
      from "1.IH" [OF Some cond(1,2) bo_def occ cond(3) n_def d "1.prems"(1) acc "1.prems"(3) lim' next_i step]
      show ?thesis using bo by auto
    qed
  qed
qed

lemma file_read_Some:
  assumes "chain_wf bs" "sz < 2 ^ 63" "off \<le> BLOCK_SIZE * length bs"
    and "file_read bs fsize off sz = Some (data, off')"
  shows "off' = off + length data \<and> length data \<le> sz \<and> off' \<le> BLOCK_SIZE * length bs"
proof -
  let ?k = "off div BLOCK_SIZE"
  define cur where "cur = (if ?k < length bs then Some ?k else None)"
  have walk: "read_walk bs ?k (first_block bs) = Some cur"
    unfolding cur_def read_walk_eq using assms(3) by (intro write_walk_first div_BLOCK_SIZE_le)
  have "\<forall>i. cur = Some i \<longrightarrow> i < length bs \<and> ?k \<le> i" by (simp add: cur_def)
  from read_loop_Some [OF assms(1) _ assms(2,3) this, of "[]"] walk assms(3,4)
  show ?thesis by (auto simp: file_read_def split: if_splits)
qed

subsection \<open>Resizing never faults\<close>

lemma shrink_blocks_take:
  "k \<le> length bs \<Longrightarrow> shrink_blocks bs k = Some (take (length bs - k) bs)"
proof (induction k arbitrary: bs)
  case 0
  then show ?case by simp
next
  case (Suc k)
  then have "shrink_blocks (butlast bs) k = Some (take (length (butlast bs) - k) (butlast bs))"
    by (intro Suc.IH) simp
  with Suc.prems show ?case by (auto simp: butlast_conv_take min_def)
qed

lemma last_block_occupied_alt:
  "last_block_occupied n = (if n mod BLOCK_SIZE = 0 then int BLOCK_SIZE else int (n mod BLOCK_SIZE))"
proof -
  have "c_int (int (n mod BLOCK_SIZE)) = int (n mod BLOCK_SIZE)"
    using mod_less_divisor [of BLOCK_SIZE n] by (intro c_int_id) (auto simp: BLOCK_SIZE_def)
  then show ?thesis unfolding last_block_occupied_def by (simp del: of_nat_mod)
qed

lemma last_block_occupied_range [bounds]:
  "1 \<le> last_block_occupied n \<and> last_block_occupied n \<le> int BLOCK_SIZE"
  using mod_less_divisor [of BLOCK_SIZE n] by (auto simp: last_block_occupied_alt BLOCK_SIZE_def)

lemma length_set_last_occupied [simp]: "length (set_last_occupied n bs) = length bs"
  by (simp add: set_last_occupied_def)

lemma set_last_occupied_Nil [simp]: "set_last_occupied n bs = [] \<longleftrightarrow> bs = []"
  by (simp add: set_last_occupied_def)

lemma memory_set_last_occupied [simp]:
  "map b_memory (set_last_occupied n bs) = map b_memory bs"
  by (auto simp: set_last_occupied_def map_update last_conv_nth intro!: nth_equalityI
      simp: nth_list_update)

lemma memory_image_set_last_occupied:
  "b_memory ` set (set_last_occupied n bs) = b_memory ` set bs"
  by (metis memory_set_last_occupied list.set_map)

lemma occupied_set_last_occupied:
  "i < length bs \<Longrightarrow> b_occupied (set_last_occupied n bs ! i)
     = (if Suc i = length bs then Some n else b_occupied (bs ! i))"
  by (auto simp: set_last_occupied_def nth_list_update)

text \<open>Between two iterations of the growing loop only the last block may be uninitialised.\<close>

definition chain_grown :: "block list \<Rightarrow> bool" where
  "chain_grown bs \<longleftrightarrow> (\<forall>b \<in> set bs. length (b_memory b) = BLOCK_SIZE) \<and> chain_wf (butlast bs)"

lemma chain_grownI: "chain_wf bs \<Longrightarrow> chain_grown bs"
  by (auto simp: chain_grown_def chain_wf_def block_wf_def dest: in_set_butlastD)

lemma set_last_occupied_append:
  "set_last_occupied n (bs @ [b]) = bs @ [b\<lparr>b_occupied := Some n\<rparr>]"
  by (simp add: set_last_occupied_def)

lemma chain_wf_set_last:
  assumes "chain_grown bs" "1 \<le> n" "n \<le> int BLOCK_SIZE"
  shows "chain_wf (set_last_occupied n bs)"
proof (cases bs rule: rev_cases)
  case Nil
  then show ?thesis by (simp add: set_last_occupied_def)
next
  case (snoc bs' b)
  with assms show ?thesis
    by (auto simp: set_last_occupied_append chain_grown_def chain_wf_def block_wf_def)
qed

lemma grow_blocks_grown [preserve]: "chain_grown bs \<Longrightarrow> chain_grown (grow_blocks bs k)"
proof (induction k arbitrary: bs)
  case 0
  then show ?case by simp
next
  case (Suc k)
  have "chain_wf (set_last_occupied (int BLOCK_SIZE) bs)"
    using Suc.prems by (intro chain_wf_set_last) (simp_all add: BLOCK_SIZE_def)
  then have "chain_grown (set_last_occupied (int BLOCK_SIZE) bs @ [calloc_block])"
    by (auto simp: chain_grown_def calloc_block_def chain_wf_def block_wf_def)
  then show ?case by (simp add: Suc.IH)
qed

lemma length_grow_blocks [simp]: "length (grow_blocks bs k) = length bs + k"
  by (induction k arbitrary: bs) auto

lemma block_count_le: "n \<le> BLOCK_SIZE * m \<longleftrightarrow> block_count n \<le> m"
  using div_less_iff_less_mult [of 512 "n + 511" "Suc m"]
  by (simp add: block_count_def BLOCK_SIZE_def less_Suc_eq_le) linarith

lemma block_count_less: "i < block_count n \<longleftrightarrow> BLOCK_SIZE * i < n"
  using block_count_le [of n i] by linarith

lemma block_fits: "Suc i < block_count n \<Longrightarrow> BLOCK_SIZE * Suc i < n"
  by (simp only: block_count_less)

lemma block_count_mono: "m \<le> n \<Longrightarrow> block_count m \<le> block_count n"
  by (simp add: block_count_def div_le_mono)

lemma block_count_0 [simp]: "block_count n = 0 \<longleftrightarrow> n = 0"
  using block_count_le [of n 0] by simp

lemma block_count_zero [simp]: "block_count 0 = 0"
  by simp

lemma file_shrink_wf:
  assumes "chain_wf bs" "fsize \<le> BLOCK_SIZE * length bs" "new_size < fsize"
  shows "\<exists>bs'. file_shrink bs fsize new_size = Some (bs', new_size) \<and> chain_wf bs' \<and>
     new_size \<le> BLOCK_SIZE * length bs'"
proof -
  let ?k = "block_count fsize - block_count new_size"
  define bs1 where "bs1 = take (length bs - ?k) bs"
  have count: "block_count fsize \<le> length bs" "block_count new_size \<le> block_count fsize"
    using assms(2,3) block_count_le block_count_mono by auto
  then have shrink: "shrink_blocks bs ?k = Some bs1"
    unfolding bs1_def by (intro shrink_blocks_take) simp
  have len: "block_count new_size \<le> length bs1" using count by (simp add: bs1_def)
  have wf: "chain_wf bs1" unfolding bs1_def using assms(1) by (rule chain_wf_take)
  show ?thesis
  proof (cases "bs1 = []")
    case True
    with len have "new_size = 0" by simp
    with shrink True show ?thesis by (simp add: file_shrink_def)
  next
    case False
    have "chain_wf (set_last_occupied (last_block_occupied new_size) bs1)"
      using wf last_block_occupied_range by (intro chain_wf_set_last chain_grownI) auto
    with shrink False len show ?thesis by (auto simp: file_shrink_def block_count_le)
  qed
qed

lemma file_grow_wf:
  assumes "chain_wf bs" "fsize \<le> BLOCK_SIZE * length bs" "fsize < new_size"
  shows "\<exists>bs'. file_grow bs fsize new_size = Some (bs', new_size) \<and> chain_wf bs' \<and>
     length bs \<le> length bs' \<and> new_size \<le> BLOCK_SIZE * length bs'"
proof -
  let ?k = "block_count new_size - block_count fsize"
  define bs1 where "bs1 = grow_blocks bs ?k"
  have count: "block_count fsize \<le> length bs" "block_count fsize \<le> block_count new_size"
    using assms(2,3) block_count_le block_count_mono by auto
  have len: "block_count new_size \<le> length bs1" "length bs \<le> length bs1"
    using count by (simp_all add: bs1_def)
  have "0 < block_count new_size" using assms(3) block_count_0 [of new_size] by linarith
  with len have ne: "bs1 \<noteq> []" by auto
  have "chain_wf (set_last_occupied (last_block_occupied new_size) bs1)"
    unfolding bs1_def using assms(1) last_block_occupied_range
    by (intro chain_wf_set_last grow_blocks_grown chain_grownI) auto
  with ne len show ?thesis
    by (auto simp: file_grow_def Let_def bs1_def [symmetric] block_count_le)
qed

end
