(* ===== verification/UFS.thy ===== *)
theory UFS
  imports UFS_File
begin

section \<open>UserFS: files, descriptors and the operations\<close>

text \<open>
  \<^verbatim>\<open>hw3/userfs.h\<close> and \<^verbatim>\<open>hw3/userfs.c\<close>. The static variables of the C file are the record
  \<open>ufs\<close>. A \<^verbatim>\<open>struct file *\<close> is an address of the heap \<open>u_heap\<close> (descriptors share files, so the
  aliasing is explicit); \<open>u_next\<close> is the address \<^verbatim>\<open>malloc\<close> returns next. The file list is the
  list of addresses in the order of the \<^verbatim>\<open>next\<close> links (theory \<open>Linked_List\<close> relates the two);
  the array of descriptor pointers is a list, a null pointer being \<^const>\<open>None\<close>, and a null
  array is the empty list. An operation that dereferences a freed or null pointer, indexes
  out of the array or lets an \<^verbatim>\<open>int\<close> overflow has no result. \<open>u_freed\<close> records every call of \<^verbatim>\<open>free\<close> in its order.
\<close>

subsection \<open>State\<close>

datatype ufs_error_code =
    UFS_ERR_NO_ERR
  | UFS_ERR_NO_FILE
  | UFS_ERR_NO_MEM
  | UFS_ERR_NOT_IMPLEMENTED
  | UFS_ERR_NO_PERMISSION

type_synonym open_flags = "32 word"

definition UFS_CREATE :: open_flags where "UFS_CREATE = 1"
definition UFS_READ_ONLY :: open_flags where "UFS_READ_ONLY = 2"
definition UFS_WRITE_ONLY :: open_flags where "UFS_WRITE_ONLY = 4"
definition UFS_READ_WRITE :: open_flags where "UFS_READ_WRITE = 8"

record ufile =
  f_blocks :: "block list"
  f_refs :: int
  f_is_ghost :: bool
  f_size :: nat
  f_name :: string

record filedesc =
  d_file :: nat
  d_open_flags :: open_flags
  d_offset :: nat

text \<open>What is allocated for a file (at its address; blocks by their index in the chain) and for descriptors (by their index
  in the array).\<close>

datatype piece =
    File_struct nat
  | File_name nat
  | Block_struct nat nat
  | Block_memory nat nat
  | Descriptor nat
  | Descriptor_array

record ufs =
  u_error :: ufs_error_code
  u_heap :: "nat \<Rightarrow> ufile option"
  u_next :: nat
  u_file_list :: "nat list"
  u_fds :: "filedesc option list"
  u_used :: int
  u_capacity :: int
  u_freed :: "piece list"

definition ufs_init :: ufs where
  "ufs_init = \<lparr>u_error = UFS_ERR_NO_ERR, u_heap = Map.empty, u_next = 0, u_file_list = [],
     u_fds = [], u_used = 0, u_capacity = 0, u_freed = []\<rparr>"

definition ufs_errno :: "ufs \<Rightarrow> ufs_error_code" where
  "ufs_errno s = u_error s"

abbreviation fail_with :: "ufs_error_code \<Rightarrow> ufs \<Rightarrow> int \<times> ufs" where
  "fail_with e s \<equiv> (-1, s\<lparr>u_error := e\<rparr>)"

subsection \<open>Helpers on the file list\<close>

definition ufs_unlink_file :: "nat \<Rightarrow> ufs \<Rightarrow> ufs" where
  "ufs_unlink_file a s = s\<lparr>u_file_list := remove1 a (u_file_list s)\<rparr>"

text \<open>The loop of \<^verbatim>\<open>_ufs_free_file\<close> over the blocks. Freeing what is not allocated is undefined.\<close>

primrec free_blocks :: "nat \<Rightarrow> nat \<Rightarrow> block list \<Rightarrow> piece list" where
  "free_blocks a i [] = []"
| "free_blocks a i (b # bs) = Block_memory a i # Block_struct a i # free_blocks a (Suc i) bs"

definition ufs_free_file :: "nat \<Rightarrow> ufs \<Rightarrow> ufs option" where
  "ufs_free_file a s =
     (case u_heap s a of
        None \<Rightarrow> None
      | Some f \<Rightarrow> Some (s\<lparr>u_heap := (u_heap s)(a := None),
          u_freed := u_freed s @ File_name a # free_blocks a 0 (f_blocks f) @ [File_struct a]\<rparr>))"

text \<open>The search loop of \<^verbatim>\<open>ufs_open\<close> and \<^verbatim>\<open>ufs_delete\<close>: the first file in list order that is
  not a ghost and has the name.\<close>

fun find_file :: "(nat \<Rightarrow> ufile option) \<Rightarrow> nat list \<Rightarrow> string \<Rightarrow> nat option option" where
  "find_file h [] name = Some None"
| "find_file h (a # as) name =
     (case h a of
        None \<Rightarrow> None
      | Some f \<Rightarrow> if \<not> f_is_ghost f \<and> f_name f = name then Some (Some a) else find_file h as name)"

definition create_file :: "string \<Rightarrow> ufs \<Rightarrow> ufs" where
  "create_file name s =
     s\<lparr>u_heap := (u_heap s)(u_next s \<mapsto> \<lparr>f_blocks = [], f_refs = 0, f_is_ghost = False,
                                          f_size = 0, f_name = name\<rparr>),
       u_next := Suc (u_next s), u_file_list := u_next s # u_file_list s\<rparr>"

subsection \<open>Opening\<close>

definition init_table :: "ufs \<Rightarrow> ufs" where
  "init_table s =
     (if u_capacity s \<le> 0 then s\<lparr>u_fds := replicate 10 None, u_capacity := 10, u_used := 0\<rparr> else s)"

function find_slot :: "filedesc option list \<Rightarrow> nat \<Rightarrow> nat \<Rightarrow> nat option option" where
  "find_slot fds i cap =
     (if i < cap then
        if i < length fds then (if fds ! i = None then Some (Some i) else find_slot fds (Suc i) cap)
        else None
      else Some None)"
  by pat_completeness auto
termination
  by (relation "measure (\<lambda>(fds, i, cap). cap - i)") auto

declare find_slot.simps [simp del]

definition install_desc :: "nat \<Rightarrow> nat \<Rightarrow> open_flags \<Rightarrow> ufs \<Rightarrow> (int \<times> ufs) option" where
  "install_desc idx a flags s =
     (if idx < length (u_fds s) then
        do { used \<leftarrow> int_add (u_used s) 1;
             f \<leftarrow> u_heap s a;
             refs \<leftarrow> int_add (f_refs f) 1;
             Some (int idx + 1,
               s\<lparr>u_fds := (u_fds s)[idx := Some \<lparr>d_file = a, d_open_flags = flags, d_offset = 0\<rparr>],
                 u_used := used, u_heap := (u_heap s)(a \<mapsto> f\<lparr>f_refs := refs\<rparr>)\<rparr>) }
      else None)"

definition open_desc :: "nat \<Rightarrow> open_flags \<Rightarrow> ufs \<Rightarrow> (int \<times> ufs) option" where
  "open_desc a flags s0 =
     (let s = init_table s0 in
      if u_used s < u_capacity s then
        do { slot \<leftarrow> find_slot (u_fds s) 0 (nat (u_capacity s));
             case slot of
               None \<Rightarrow> Some (fail_with UFS_ERR_NOT_IMPLEMENTED s)
             | Some idx \<Rightarrow> install_desc idx a flags s }
      else
        do { capacity \<leftarrow> int_mul (u_capacity s) 2;
             install_desc (nat (u_used s)) a flags
               (s\<lparr>u_fds := u_fds s @ replicate (nat (u_capacity s)) None, u_capacity := capacity\<rparr>) })"

definition open_mode :: "open_flags \<Rightarrow> open_flags" where
  "open_mode flags =
     (if flags AND UFS_READ_ONLY = 0 \<and> flags AND UFS_WRITE_ONLY = 0
      then flags OR UFS_READ_WRITE else flags)"

definition ufs_open :: "string \<Rightarrow> open_flags \<Rightarrow> ufs \<Rightarrow> (int \<times> ufs) option" where
  "ufs_open filename flags0 s =
     (let flags = open_mode flags0 in
      do { found \<leftarrow> find_file (u_heap s) (u_file_list s) filename;
           case found of
             Some a \<Rightarrow> open_desc a flags s
           | None \<Rightarrow>
               if flags AND UFS_CREATE = 0 then Some (fail_with UFS_ERR_NO_FILE s)
               else open_desc (u_next s) flags (create_file filename s) })"

subsection \<open>Operations on a descriptor\<close>

text \<open>The checks every such call starts with: \<open>Some None\<close> is an invalid descriptor.\<close>

definition lookup_desc :: "int \<Rightarrow> ufs \<Rightarrow> (nat \<times> filedesc) option option" where
  "lookup_desc fd s =
     do { desc_idx \<leftarrow> int_sub fd 1;
          if desc_idx < 0 \<or> desc_idx \<ge> u_capacity s then Some None
          else if nat desc_idx < length (u_fds s)
          then Some (map_option (Pair (nat desc_idx)) (u_fds s ! nat desc_idx))
          else None }"

definition ufs_write :: "int \<Rightarrow> byte list \<Rightarrow> ufs \<Rightarrow> (int \<times> ufs) option" where
  "ufs_write fd buf s =
     do { r \<leftarrow> lookup_desc fd s;
          case r of
            None \<Rightarrow> Some (fail_with UFS_ERR_NO_FILE s)
          | Some (i, desc) \<Rightarrow>
              if d_open_flags desc AND UFS_WRITE_ONLY = 0 \<and> d_open_flags desc AND UFS_READ_WRITE = 0
              then Some (fail_with UFS_ERR_NO_PERMISSION s)
              else if length buf = 0 then Some (0, s)
              else do { f \<leftarrow> u_heap s (d_file desc);
                        if c_size (f_size f + length buf) > MAX_FILE_SIZE
                        then Some (fail_with UFS_ERR_NO_MEM s)
                        else do { (written, bs, fsize, off) \<leftarrow>
                                    file_write (f_blocks f) (f_size f) (d_offset desc) buf;
                                  Some (c_ssize (int written),
                                    s\<lparr>u_heap := (u_heap s)(d_file desc \<mapsto> f\<lparr>f_blocks := bs, f_size := fsize\<rparr>),
                                      u_fds := (u_fds s)[i := Some (desc\<lparr>d_offset := off\<rparr>)]\<rparr>) } } }"

definition ufs_read :: "int \<Rightarrow> nat \<Rightarrow> ufs \<Rightarrow> ((int \<times> cell list) \<times> ufs) option" where
  "ufs_read fd sz s =
     do { r \<leftarrow> lookup_desc fd s;
          case r of
            None \<Rightarrow> Some ((-1, []), s\<lparr>u_error := UFS_ERR_NO_FILE\<rparr>)
          | Some (i, desc) \<Rightarrow>
              if d_open_flags desc AND UFS_READ_ONLY = 0 \<and> d_open_flags desc AND UFS_READ_WRITE = 0
              then Some ((-1, []), s\<lparr>u_error := UFS_ERR_NO_PERMISSION\<rparr>)
              else do { f \<leftarrow> u_heap s (d_file desc);
                        (data, off) \<leftarrow> file_read (f_blocks f) (f_size f) (d_offset desc) sz;
                        Some ((int (length data), data),
                          s\<lparr>u_fds := (u_fds s)[i := Some (desc\<lparr>d_offset := off\<rparr>)]\<rparr>) } }"

definition ufs_close :: "int \<Rightarrow> ufs \<Rightarrow> (int \<times> ufs) option" where
  "ufs_close fd s =
     do { r \<leftarrow> lookup_desc fd s;
          case r of
            None \<Rightarrow> Some (fail_with UFS_ERR_NO_FILE s)
          | Some (i, desc) \<Rightarrow>
              do { f \<leftarrow> u_heap s (d_file desc);
                   let f' = f\<lparr>f_refs := f_refs f - 1\<rparr>;
                       s1 = s\<lparr>u_heap := (u_heap s)(d_file desc \<mapsto> f')\<rparr>
                   in do { s2 \<leftarrow> (if f_refs f' \<le> 0 \<and> f_is_ghost f'
                                  then ufs_free_file (d_file desc) (ufs_unlink_file (d_file desc) s1)
                                  else Some s1);
                           Some (0, s2\<lparr>u_fds := (u_fds s2)[i := None], u_used := u_used s2 - 1,
                                    u_freed := u_freed s2 @ [Descriptor i]\<rparr>) } } }"

definition ufs_delete :: "string \<Rightarrow> ufs \<Rightarrow> (int \<times> ufs) option" where
  "ufs_delete filename s =
     do { found \<leftarrow> find_file (u_heap s) (u_file_list s) filename;
          case found of
            None \<Rightarrow> Some (fail_with UFS_ERR_NO_FILE s)
          | Some a \<Rightarrow>
              do { f \<leftarrow> u_heap s a;
                   if f_refs f \<le> 0 then
                     do { s' \<leftarrow> ufs_free_file a (ufs_unlink_file a s); Some (0, s') }
                   else Some (0, s\<lparr>u_heap := (u_heap s)(a \<mapsto> f\<lparr>f_is_ghost := True\<rparr>)\<rparr>) } }"

text \<open>The loop at the end of a shrinking \<^verbatim>\<open>ufs_resize\<close>: descriptors of the file behind its
  new end move to the end.\<close>

definition clamp_desc :: "nat \<Rightarrow> nat \<Rightarrow> filedesc option \<Rightarrow> filedesc option" where
  "clamp_desc a new_size d =
     (case d of
        None \<Rightarrow> None
      | Some desc \<Rightarrow>
          Some (if d_file desc = a \<and> d_offset desc > new_size then desc\<lparr>d_offset := new_size\<rparr> else desc))"

definition clamp_descs :: "int \<Rightarrow> nat \<Rightarrow> nat \<Rightarrow> filedesc option list \<Rightarrow> filedesc option list option" where
  "clamp_descs cap a new_size fds =
     (if nat cap \<le> length fds
      then Some (map (clamp_desc a new_size) (take (nat cap) fds) @ drop (nat cap) fds) else None)"

text \<open>What the shrinking loop frees, from the last of \<open>len\<close> blocks on.\<close>

primrec free_last_blocks :: "nat \<Rightarrow> nat \<Rightarrow> nat \<Rightarrow> piece list" where
  "free_last_blocks a len 0 = []"
| "free_last_blocks a len (Suc n) = Block_memory a (len - 1) # Block_struct a (len - 1) # free_last_blocks a (len - 1) n"

definition ufs_resize :: "int \<Rightarrow> nat \<Rightarrow> ufs \<Rightarrow> (int \<times> ufs) option" where
  "ufs_resize fd new_size s =
     do { r \<leftarrow> lookup_desc fd s;
          case r of
            None \<Rightarrow> Some (fail_with UFS_ERR_NO_FILE s)
          | Some (i, desc) \<Rightarrow>
              do { f \<leftarrow> u_heap s (d_file desc);
                   if new_size = f_size f then Some (0, s)
                   else if new_size < f_size f then
                     do { (bs, fsize) \<leftarrow> file_shrink (f_blocks f) (f_size f) new_size;
                          fds \<leftarrow> clamp_descs (u_capacity s) (d_file desc) new_size (u_fds s);
                          Some (0, s\<lparr>u_heap := (u_heap s)(d_file desc \<mapsto> f\<lparr>f_blocks := bs, f_size := fsize\<rparr>),
                                     u_fds := fds,
                                     u_freed := u_freed s @ free_last_blocks (d_file desc) (length (f_blocks f))
                                       (block_count (f_size f) - block_count new_size)\<rparr>) }
                   else if new_size > MAX_FILE_SIZE then Some (fail_with UFS_ERR_NO_MEM s)
                   else
                     do { (bs, fsize) \<leftarrow> file_grow (f_blocks f) (f_size f) new_size;
                          Some (0, s\<lparr>u_heap := (u_heap s)(d_file desc \<mapsto> f\<lparr>f_blocks := bs, f_size := fsize\<rparr>)\<rparr>) } } }"

fun free_files :: "nat list \<Rightarrow> ufs \<Rightarrow> ufs option" where
  "free_files [] s = Some s"
| "free_files (a # as) s = do { s' \<leftarrow> ufs_free_file a s; free_files as s' }"

primrec free_descs :: "nat \<Rightarrow> filedesc option list \<Rightarrow> piece list" where
  "free_descs i [] = []"
| "free_descs i (d # ds) = (if d \<noteq> None then Descriptor i # free_descs (Suc i) ds else free_descs (Suc i) ds)"

definition ufs_destroy :: "ufs \<Rightarrow> ufs option" where
  "ufs_destroy s =
     do { s1 \<leftarrow> (if u_capacity s > 0 \<or> u_fds s \<noteq> []
                then if nat (u_capacity s) \<le> length (u_fds s)
                     then Some (s\<lparr>u_fds := [],
                       u_freed := u_freed s @ free_descs 0 (take (nat (u_capacity s)) (u_fds s)) @ [Descriptor_array]\<rparr>)
                     else None
                else Some s);
          s2 \<leftarrow> free_files (u_file_list s1) (s1\<lparr>u_capacity := 0, u_used := 0\<rparr>);
          Some (s2\<lparr>u_file_list := []\<rparr>) }"

end
