(* ===== verification/UFS_Inv.thy ===== *)
theory UFS_Inv
  imports UFS
begin

section \<open>UserFS: the invariant of the file system\<close>

text \<open>
  \<open>ufs_inv\<close> ties the static variables of \<^verbatim>\<open>hw3/userfs.c\<close> together: the file list holds the
  allocated files, once each; the descriptor table has its capacity and its count; every
  descriptor refers to an allocated file, at an offset within its blocks; a file counts its
  descriptors, a ghost has at least one, and no two visible files share a name. Every call keeps
  it, and none is undefined in a state that has it, but for two overflows of an \<^verbatim>\<open>int\<close>: of the offset in a file whose blocks
  span too many bytes, and of the doubled capacity of a full table. The lemmas \<open>ufs_*_inv\<close> say both for
  one call each.
\<close>

subsection \<open>The invariant\<close>

definition used_count :: "filedesc option list \<Rightarrow> nat" where
  "used_count fds = length (filter (\<lambda>d. d \<noteq> None) fds)"

definition refs_of :: "filedesc option list \<Rightarrow> nat \<Rightarrow> nat" where
  "refs_of fds a = length (filter (\<lambda>d. map_option d_file d = Some a) fds)"

definition list_inv :: "ufs \<Rightarrow> bool" where
  "list_inv s \<longleftrightarrow> distinct (u_file_list s) \<and> set (u_file_list s) = dom (u_heap s) \<and>
     (\<forall>a \<in> dom (u_heap s). a < u_next s)"

definition table_inv :: "ufs \<Rightarrow> bool" where
  "table_inv s \<longleftrightarrow> u_capacity s = int (length (u_fds s)) \<and> u_used s = int (used_count (u_fds s)) \<and> u_capacity s < 2 ^ 31"

definition desc_inv :: "ufs \<Rightarrow> bool" where
  "desc_inv s \<longleftrightarrow> (\<forall>d. Some d \<in> set (u_fds s) \<longrightarrow>
     (\<exists>f. u_heap s (d_file d) = Some f \<and> d_offset d \<le> BLOCK_SIZE * length (f_blocks f)))"

definition file_ok :: "filedesc option list \<Rightarrow> nat \<Rightarrow> ufile \<Rightarrow> bool" where
  "file_ok fds a f \<longleftrightarrow> chain_wf (f_blocks f) \<and> f_size f \<le> BLOCK_SIZE * length (f_blocks f) \<and>
     f_refs f = int (refs_of fds a) \<and> (f_is_ghost f \<longrightarrow> 0 < refs_of fds a)"

lemma file_ok_cong: "refs_of fds a = refs_of fds' a \<Longrightarrow> file_ok fds a f = file_ok fds' a f"
  by (simp add: file_ok_def)

definition names_inv :: "(nat \<Rightarrow> ufile option) \<Rightarrow> bool" where
  "names_inv h \<longleftrightarrow> (\<forall>a b f g. h a = Some f \<longrightarrow> h b = Some g \<longrightarrow>
     \<not> f_is_ghost f \<longrightarrow> \<not> f_is_ghost g \<longrightarrow> f_name f = f_name g \<longrightarrow> a = b)"

definition ufs_inv :: "ufs \<Rightarrow> bool" where
  "ufs_inv s \<longleftrightarrow> list_inv s \<and> table_inv s \<and> desc_inv s \<and>
     (\<forall>a f. u_heap s a = Some f \<longrightarrow> file_ok (u_fds s) a f) \<and> names_inv (u_heap s)"

lemma ufs_invD:
  assumes "ufs_inv s"
  shows "list_inv s" "table_inv s" "desc_inv s" "names_inv (u_heap s)"
    "u_heap s a = Some f \<Longrightarrow> file_ok (u_fds s) a f"
  using assms by (auto simp: ufs_inv_def)

lemma ufs_inv_init: "ufs_inv ufs_init"
  by (simp add: ufs_inv_def ufs_init_def list_inv_def table_inv_def desc_inv_def names_inv_def
      used_count_def)

lemma ufs_inv_freed [simp]: "ufs_inv (s\<lparr>u_freed := p\<rparr>) = ufs_inv s"
  by (simp add: ufs_inv_def list_inv_def table_inv_def desc_inv_def)

lemma ufs_inv_error [simp]: "ufs_inv (s\<lparr>u_error := e\<rparr>) = ufs_inv s"
  by (simp add: ufs_inv_def list_inv_def table_inv_def desc_inv_def)

subsection \<open>Counting descriptors\<close>

lemma used_count_update:
  "i < length fds \<Longrightarrow> used_count (fds[i := x]) + (if fds ! i = None then 0 else 1)
     = used_count fds + (if x = None then 0 else 1)"
  using length_filter_update [of i fds "\<lambda>d. d \<noteq> None" x] by (simp add: used_count_def split: if_splits)

lemma refs_of_update:
  "i < length fds \<Longrightarrow> refs_of (fds[i := x]) a + (if map_option d_file (fds ! i) = Some a then 1 else 0)
     = refs_of fds a + (if map_option d_file x = Some a then 1 else 0)"
  using length_filter_update [of i fds "\<lambda>d. map_option d_file d = Some a" x] by (simp add: refs_of_def)

lemma used_count_append_None [simp]: "used_count (fds @ replicate n None) = used_count fds"
  by (simp add: used_count_def filter_replicate_False)

lemma refs_of_append_None [simp]: "refs_of (fds @ replicate n None) a = refs_of fds a"
  by (simp add: refs_of_def filter_replicate_False)

lemma used_count_le [bounds]: "used_count fds \<le> length fds"
  by (simp add: used_count_def)

lemma refs_of_used: "refs_of fds a \<le> used_count fds"
  unfolding refs_of_def used_count_def by (induction fds) auto

lemma used_count_full: "used_count fds = length fds \<longleftrightarrow> None \<notin> set fds"
  unfolding used_count_def length_filter_full by metis

lemma refs_of_pos: "Some d \<in> set fds \<Longrightarrow> 0 < refs_of fds (d_file d)"
  by (auto simp: refs_of_def filter_empty_conv)

lemma refs_of_zero: "refs_of fds a = 0 \<longleftrightarrow> (\<forall>d. Some d \<in> set fds \<longrightarrow> d_file d \<noteq> a)"
  by (auto simp: refs_of_def filter_empty_conv)

subsection \<open>Searching\<close>

lemma find_file_cases:
  assumes "set as \<subseteq> dom h"
  shows "(\<exists>a f. find_file h as name = Some (Some a) \<and> a \<in> set as \<and> h a = Some f \<and>
            \<not> f_is_ghost f \<and> f_name f = name) \<or>
         (find_file h as name = Some None \<and>
            (\<forall>a \<in> set as. \<forall>f. h a = Some f \<longrightarrow> f_is_ghost f \<or> f_name f \<noteq> name))"
  using assms
proof (induction as)
  case Nil
  then show ?case by simp
next
  case (Cons a as)
  then obtain f where "h a = Some f" by auto
  with Cons show ?case by auto
qed

lemma find_file_inv:
  assumes "ufs_inv s"
  obtains (found) a f where "find_file (u_heap s) (u_file_list s) name = Some (Some a)"
      "u_heap s a = Some f" "\<not> f_is_ghost f" "f_name f = name"
    | (missing) "find_file (u_heap s) (u_file_list s) name = Some None"
      "\<And>a f. u_heap s a = Some f \<Longrightarrow> f_is_ghost f \<or> f_name f \<noteq> name"
proof -
  have "set (u_file_list s) = dom (u_heap s)"
    using ufs_invD(1) [OF assms] by (simp add: list_inv_def)
  then show thesis
    using find_file_cases [of "u_file_list s" "u_heap s" name] that by (auto simp: dom_def)
qed

lemma find_slot_cases:
  "cap \<le> length fds \<Longrightarrow>
     (\<exists>j. find_slot fds i cap = Some (Some j) \<and> i \<le> j \<and> j < cap \<and> fds ! j = None \<and>
          (\<forall>k. i \<le> k \<longrightarrow> k < j \<longrightarrow> fds ! k \<noteq> None)) \<or>
     (find_slot fds i cap = Some None \<and> (\<forall>k. i \<le> k \<longrightarrow> k < cap \<longrightarrow> fds ! k \<noteq> None))"
proof (induction fds i cap rule: find_slot.induct)
  case (1 fds i cap)
  show ?case
  proof (cases "i < cap \<and> fds ! i \<noteq> None")
    case True
    with "1.prems" have "i < length fds" by simp
    with True have step: "find_slot fds i cap = find_slot fds (Suc i) cap"
      by (subst find_slot.simps) auto
    have shift: "(\<forall>k. i \<le> k \<longrightarrow> k < m \<longrightarrow> fds ! k \<noteq> None) \<longleftrightarrow> (\<forall>k. Suc i \<le> k \<longrightarrow> k < m \<longrightarrow> fds ! k \<noteq> None)" for m
      using True by (metis Suc_leD le_neq_implies_less Suc_leI)
    show ?thesis
      unfolding step shift using "1.IH" True \<open>i < length fds\<close> "1.prems" by (meson Suc_leD)
  next
    case False
    with "1.prems" show ?thesis by (subst (1 2) find_slot.simps) auto
  qed
qed

subsection \<open>ufs_open\<close>

lemma ufs_inv_table:
  assumes "ufs_inv s"
  shows "u_capacity s = int (length (u_fds s))" "u_used s = int (used_count (u_fds s))" "u_capacity s < 2 ^ 31"
  using ufs_invD(2) [OF assms] by (simp_all add: table_inv_def)

lemma pad_table_inv:
  assumes inv: "ufs_inv s" and room: "u_capacity s + int n < 2 ^ 31"
  shows "ufs_inv (s\<lparr>u_fds := u_fds s @ replicate n None, u_capacity := u_capacity s + int n\<rparr>)"
proof -
  have "file_ok (u_fds s @ replicate n None) a f" if "u_heap s a = Some f" for a f
    using ufs_invD(5) [OF inv that] file_ok_cong [of "u_fds s" a "u_fds s @ replicate n None" f] by simp
  with inv room show ?thesis
    by (auto simp: ufs_inv_def list_inv_def table_inv_def desc_inv_def)
qed

lemma init_table_inv [preserve]:
  assumes inv: "ufs_inv s"
  shows "ufs_inv (init_table s)"
proof (cases "u_capacity s \<le> 0")
  case True
  with ufs_inv_table [OF inv] have "u_fds s = []" "u_capacity s = 0" "u_used s = 0"
    by (simp_all add: used_count_def)
  with True have "init_table s
      = s\<lparr>u_fds := u_fds s @ replicate 10 None, u_capacity := u_capacity s + int 10\<rparr>"
    by (cases s) (simp add: init_table_def)
  with pad_table_inv [OF inv, of 10] \<open>u_capacity s = 0\<close> show ?thesis by simp
qed (simp add: init_table_def inv)

lemma expand_table_inv [preserve]:
  assumes inv: "ufs_inv s" and room: "u_capacity s * 2 < 2 ^ 31"
  shows "ufs_inv (s\<lparr>u_fds := u_fds s @ replicate (nat (u_capacity s)) None,
     u_capacity := u_capacity s * 2\<rparr>)"
proof -
  have "u_capacity s * 2 = u_capacity s + int (nat (u_capacity s))"
    using ufs_inv_table(1) [OF inv] by simp
  with pad_table_inv [OF inv, of "nat (u_capacity s)"] room show ?thesis by metis
qed

lemma create_file_inv [preserve]:
  assumes inv: "ufs_inv s" and new: "\<And>a f. u_heap s a = Some f \<Longrightarrow> f_is_ghost f \<or> f_name f \<noteq> name"
  shows "ufs_inv (create_file name s)"
proof -
  have fresh: "u_heap s (u_next s) = None" and less: "\<And>a f. u_heap s a = Some f \<Longrightarrow> a < u_next s"
    and list: "distinct (u_file_list s)" "set (u_file_list s) = dom (u_heap s)"
    using ufs_invD(1) [OF inv] by (auto simp: list_inv_def dom_def)
  have "refs_of (u_fds s) (u_next s) = 0"
    using ufs_invD(3) [OF inv] fresh by (auto simp: refs_of_zero desc_inv_def)
  then have files: "\<forall>a f. u_heap (create_file name s) a = Some f \<longrightarrow> file_ok (u_fds s) a f"
    using ufs_invD(5) [OF inv] by (simp add: create_file_def) (simp add: file_ok_def)
  moreover have "names_inv (u_heap (create_file name s))"
    using ufs_invD(4) [OF inv] new unfolding names_inv_def create_file_def
    by (auto split: if_splits) metis+
  moreover have "list_inv (create_file name s)"
    using list less fresh by (auto simp: create_file_def list_inv_def dom_def intro: less_SucI)
  moreover have "desc_inv (create_file name s)"
    using ufs_invD(3) [OF inv] fresh by (fastforce simp: create_file_def desc_inv_def)
  moreover have "table_inv (create_file name s)"
    using ufs_invD(2) [OF inv] by (simp add: create_file_def table_inv_def)
  ultimately show ?thesis by (simp add: ufs_inv_def) (simp add: create_file_def)
qed

lemma install_desc_inv:
  assumes inv: "ufs_inv s" and f: "u_heap s a = Some f"
    and idx: "idx < length (u_fds s)" "u_fds s ! idx = None"
  shows "\<exists>s'. install_desc idx a flags s = Some (int idx + 1, s') \<and> ufs_inv s' \<and>
     u_fds s' = (u_fds s)[idx := Some \<lparr>d_file = a, d_open_flags = flags, d_offset = 0\<rparr>] \<and>
     u_heap s' = (u_heap s)(a \<mapsto> f\<lparr>f_refs := f_refs f + 1\<rparr>) \<and> u_file_list s' = u_file_list s \<and>
     u_error s' = u_error s"
proof -
  define d where "d = \<lparr>d_file = a, d_open_flags = flags, d_offset = 0 :: nat\<rparr>"
  define s' where "s' = s\<lparr>u_fds := (u_fds s)[idx := Some d], u_used := u_used s + 1,
    u_heap := (u_heap s)(a \<mapsto> f\<lparr>f_refs := f_refs f + 1\<rparr>)\<rparr>"
  note table = ufs_inv_table [OF inv]
  have "u_used s < u_capacity s"
    using table used_count_update [OF idx(1), of "Some d"] idx(2) used_count_le [of "(u_fds s)[idx := Some d]"] by simp
  then have used: "int_add (u_used s) 1 = Some (u_used s + 1)" using table by (simp add: int_add_def)
  have "f_refs f = int (refs_of (u_fds s) a)" using ufs_invD(5) [OF inv f] by (simp add: file_ok_def)
  also have "\<dots> \<le> u_used s" using refs_of_used [of "u_fds s" a] table by simp
  finally have refs: "int_add (f_refs f) 1 = Some (f_refs f + 1)"
    using \<open>u_used s < u_capacity s\<close> table \<open>f_refs f = int (refs_of (u_fds s) a)\<close> by (simp add: int_add_def)
  have "list_inv s'"
    using ufs_invD(1) [OF inv] f by (auto simp: s'_def list_inv_def)
  moreover have "table_inv s'"
    using table used_count_update [OF idx(1), of "Some d"] idx(2)
    by (simp add: s'_def table_inv_def)
  moreover have "desc_inv s'"
    using ufs_invD(3) [OF inv] f unfolding desc_inv_def s'_def
    by (fastforce simp: d_def dest!: set_update_subset_insert [THEN subsetD])
  moreover have "\<forall>b g. u_heap s' b = Some g \<longrightarrow> file_ok (u_fds s') b g"
  proof (intro allI impI)
    fix b g assume g: "u_heap s' b = Some g"
    have refs: "refs_of (u_fds s') b = refs_of (u_fds s) b + (if b = a then 1 else 0)"
      using refs_of_update [OF idx(1), of "Some d" b] idx(2) by (simp add: s'_def d_def)
    show "file_ok (u_fds s') b g"
    proof (cases "b = a")
      case True
      then show ?thesis using g ufs_invD(5) [OF inv f] refs by (auto simp: s'_def file_ok_def)
    next
      case False
      then show ?thesis
        using g refs ufs_invD(5) [OF inv] file_ok_cong [of "u_fds s'" b "u_fds s" g] by (simp add: s'_def)
    qed
  qed
  moreover have "names_inv (u_heap s')"
    using ufs_invD(4) [OF inv] f by (auto simp: names_inv_def s'_def)
  ultimately have "ufs_inv s'" by (simp add: ufs_inv_def)
  moreover have "install_desc idx a flags s = Some (int idx + 1, s')"
    using idx(1) f used refs by (simp add: install_desc_def s'_def d_def)
  ultimately show ?thesis by (auto simp: s'_def d_def)
qed

text \<open>
  The slot is the first free one, and the "no descriptor" branch is never taken: the count of
  used descriptors is below the capacity only when one is free.
\<close>

definition least_free :: "filedesc option list \<Rightarrow> nat \<Rightarrow> bool" where
  "least_free fds i \<longleftrightarrow> (i < length fds \<longrightarrow> fds ! i = None) \<and>
     (\<forall>k < i. k < length fds \<and> fds ! k \<noteq> None)"

text \<open>The table cannot be doubled any more.\<close>

definition table_full :: "ufs \<Rightarrow> bool" where
  "table_full s \<longleftrightarrow> u_used s = u_capacity s \<and> 2 ^ 31 \<le> u_capacity s * 2"

definition padded :: "filedesc option list \<Rightarrow> filedesc option list \<Rightarrow> bool" where
  "padded fds fds' \<longleftrightarrow> (\<exists>n. fds' = fds @ replicate n None)"

lemma open_desc_inv:
  assumes inv: "ufs_inv s" and f: "u_heap s a = Some f" and room: "\<not> table_full s"
  shows "\<exists>idx s' fds. open_desc a flags s = Some (int idx + 1, s') \<and> ufs_inv s' \<and>
     least_free (u_fds s) idx \<and> padded (u_fds s) fds \<and> idx < length fds \<and>
     u_fds s' = fds[idx := Some \<lparr>d_file = a, d_open_flags = flags, d_offset = 0\<rparr>] \<and>
     u_heap s' = (u_heap s)(a \<mapsto> f\<lparr>f_refs := f_refs f + 1\<rparr>) \<and> u_file_list s' = u_file_list s \<and>
     u_error s' = u_error s"
proof -
  define t where "t = init_table s"
  have inv_t: "ufs_inv t" unfolding t_def using inv by (rule init_table_inv)
  have t: "u_heap t = u_heap s" "u_file_list t = u_file_list s" "padded (u_fds s) (u_fds t)"
    "u_error t = u_error s" "0 < u_capacity t"
    using ufs_inv_table(1) [OF inv]
    by (auto simp: t_def init_table_def padded_def intro: exI [of _ "10 :: nat"] exI [of _ "0 :: nat"])
  note table = ufs_inv_table [OF inv_t]
  have t_full: "u_capacity t * 2 < 2 ^ 31" if "u_used t = u_capacity t"
    using room that t(5) by (auto simp: t_def init_table_def table_full_def split: if_splits)
  have least: "least_free (u_fds s) idx"
    if "idx < length (u_fds t) \<longrightarrow> u_fds t ! idx = None" "\<forall>k < idx. k < length (u_fds t) \<and> u_fds t ! k \<noteq> None"
    for idx
    using that t(3) by (fastforce simp: least_free_def padded_def nth_append split: if_splits)
  show ?thesis
  proof (cases "u_used t < u_capacity t")
    case True
    then have "used_count (u_fds t) \<noteq> length (u_fds t)" using table by simp
    then have "None \<in> set (u_fds t)" by (simp add: used_count_full)
    then obtain k where k: "k < length (u_fds t)" "u_fds t ! k = None" by (auto simp: in_set_conv_nth)
    then obtain idx where idx: "find_slot (u_fds t) 0 (length (u_fds t)) = Some (Some idx)"
      "idx < length (u_fds t)" "u_fds t ! idx = None" "\<forall>k < idx. u_fds t ! k \<noteq> None"
      using find_slot_cases [of "length (u_fds t)" "u_fds t" 0] by auto
    have "open_desc a flags s = install_desc idx a flags t"
      using True idx(1) table(1) by (simp add: open_desc_def t_def [symmetric] Let_def)
    moreover have "least_free (u_fds s) idx" using idx by (intro least) auto
    ultimately show ?thesis
      using install_desc_inv [OF inv_t f [folded t(1)] idx(2,3), of flags] idx(2) t by metis
  next
    case False
    define e where "e = t\<lparr>u_fds := u_fds t @ replicate (nat (u_capacity t)) None,
      u_capacity := u_capacity t * 2\<rparr>"
    have full: "used_count (u_fds t) = length (u_fds t)"
      using False table used_count_le [of "u_fds t"] by simp
    then have small: "u_capacity t * 2 < 2 ^ 31" using table by (intro t_full) simp
    then have mul: "int_mul (u_capacity t) 2 = Some (u_capacity t * 2)" using t(5) by (simp add: int_mul_def)
    have inv_e: "ufs_inv e" unfolding e_def using inv_t small by (rule expand_table_inv)
    define idx where "idx = length (u_fds t)"
    have idx: "idx < length (u_fds e)" "u_fds e ! idx = None"
      using t(5) table(1) by (simp_all add: idx_def e_def nth_append)
    have "open_desc a flags s = install_desc idx a flags e"
      using False table full mul by (simp add: open_desc_def t_def [symmetric] Let_def e_def idx_def)
    moreover have "\<forall>k < length (u_fds t). u_fds t ! k \<noteq> None"
      using full unfolding used_count_full by (metis nth_mem)
    then have "least_free (u_fds s) idx"
      by (intro least) (simp_all add: idx_def)
    moreover have "padded (u_fds s) (u_fds e)"
      using t(3) by (auto simp: padded_def e_def replicate_add [symmetric])
    moreover have "u_heap e = u_heap s" "u_file_list e = u_file_list s" "u_error e = u_error s"
      using t by (simp_all add: e_def)
    ultimately show ?thesis
      using install_desc_inv [OF inv_e _ idx, of a f flags] f idx(1) by metis
  qed
qed

lemma table_full_create [simp]: "table_full (create_file name s) = table_full s"
  by (simp add: table_full_def create_file_def)

lemma open_desc_full: "ufs_inv s \<Longrightarrow> table_full s \<Longrightarrow> open_desc a flags s = None"
  by (auto simp: open_desc_def init_table_def table_full_def int_mul_def Let_def)

text \<open>The error protocol of every call: \<open>-1\<close> comes with one of three codes and changes nothing else, any
  other answer is no error and leaves the code as it was.\<close>

definition reports :: "ufs \<Rightarrow> int \<Rightarrow> ufs \<Rightarrow> bool" where
  "reports s r s' \<longleftrightarrow>
     (if r = -1 then s' = s\<lparr>u_error := u_error s'\<rparr> \<and>
        u_error s' \<in> {UFS_ERR_NO_FILE, UFS_ERR_NO_MEM, UFS_ERR_NO_PERMISSION}
      else 0 \<le> r \<and> u_error s' = u_error s)"

lemma reports_fail [simp]:
  "reports s (-1) (s\<lparr>u_error := e\<rparr>) \<longleftrightarrow> e \<in> {UFS_ERR_NO_FILE, UFS_ERR_NO_MEM, UFS_ERR_NO_PERMISSION}"
  by (simp add: reports_def)

lemma reports_ok: "0 \<le> r \<Longrightarrow> u_error s' = u_error s \<Longrightarrow> reports s r s'"
  by (simp add: reports_def)

lemma ufs_open_inv [preserve]:
  assumes inv: "ufs_inv s" and room: "\<not> table_full s"
  shows "\<exists>r s'. ufs_open name flags s = Some (r, s') \<and> ufs_inv s' \<and> reports s r s'"
proof (cases rule: find_file_inv [OF inv, of name, case_names found missing])
  case (found a f)
  with open_desc_inv [OF inv found(2) room, where flags = "open_mode flags"] show ?thesis
    by (auto simp: ufs_open_def Let_def reports_ok)
next
  case missing
  have "u_heap (create_file name s) (u_next s)
      = Some \<lparr>f_blocks = [], f_refs = 0, f_is_ghost = False, f_size = 0, f_name = name\<rparr>"
    by (simp add: create_file_def)
  moreover have "ufs_inv (create_file name s)" using inv missing(2) by (rule create_file_inv)
  ultimately obtain idx s' where "open_desc (u_next s) (open_mode flags) (create_file name s)
      = Some (int idx + 1, s')" "ufs_inv s'" "u_error s' = u_error (create_file name s)"
    using open_desc_inv room by (metis table_full_create)
  with missing(1) inv show ?thesis
    by (auto simp: ufs_open_def Let_def reports_ok create_file_def)
qed

subsection \<open>Operations on a descriptor\<close>

text \<open>The descriptor open under a number, if any.\<close>

definition open_at :: "ufs \<Rightarrow> int \<Rightarrow> filedesc option" where
  "open_at s fd =
     (if 1 \<le> fd \<and> nat (fd - 1) < length (u_fds s) then u_fds s ! nat (fd - 1) else None)"

definition fd_ok :: "int \<Rightarrow> bool" where
  "fd_ok fd \<longleftrightarrow> - (2 ^ 31) < fd \<and> fd < 2 ^ 31"

lemma lookup_desc_eq:
  assumes "ufs_inv s" "fd_ok fd"
  shows "lookup_desc fd s = Some (map_option (Pair (nat (fd - 1))) (open_at s fd))"
  using ufs_inv_table(1) [OF assms(1)] assms(2)
  by (auto simp: lookup_desc_def open_at_def int_sub_def Let_def fd_ok_def)

lemma lookup_desc_cases:
  assumes inv: "ufs_inv s" and fd: "fd_ok fd"
  obtains (invalid) "open_at s fd = None" "lookup_desc fd s = Some None"
    | (valid) i d f where "open_at s fd = Some d" "lookup_desc fd s = Some (Some (i, d))"
      "i = nat (fd - 1)" "i < length (u_fds s)" "u_fds s ! i = Some d" "u_heap s (d_file d) = Some f"
      "d_offset d \<le> BLOCK_SIZE * length (f_blocks f)" "file_ok (u_fds s) (d_file d) f"
proof (cases "open_at s fd")
  case None
  with lookup_desc_eq [OF assms] show thesis by (intro invalid) auto
next
  case (Some d)
  then have d: "nat (fd - 1) < length (u_fds s)" "u_fds s ! nat (fd - 1) = Some d"
    by (auto simp: open_at_def split: if_splits)
  then have "Some d \<in> set (u_fds s)" by (metis nth_mem)
  with ufs_invD(3) [OF inv] obtain f where "u_heap s (d_file d) = Some f"
    "d_offset d \<le> BLOCK_SIZE * length (f_blocks f)" by (auto simp: desc_inv_def)
  with Some d lookup_desc_eq [OF assms] ufs_invD(5) [OF inv] show thesis by (intro valid) auto
qed

text \<open>Replacing the blocks of a file, and the table by one with the same references.\<close>

lemma ufs_inv_update:
  assumes inv: "ufs_inv s" and f: "u_heap s a = Some f"
    and wf: "chain_wf bs" "fsize \<le> BLOCK_SIZE * length bs"
    and fds: "map (map_option d_file) fds = map (map_option d_file) (u_fds s)"
    and offs: "\<And>d. Some d \<in> set fds \<Longrightarrow> if d_file d = a then d_offset d \<le> BLOCK_SIZE * length bs
                 else \<exists>d'. Some d' \<in> set (u_fds s) \<and> d_file d' = d_file d \<and> d_offset d' = d_offset d"
  shows "ufs_inv (s\<lparr>u_heap := (u_heap s)(a \<mapsto> f\<lparr>f_blocks := bs, f_size := fsize\<rparr>), u_fds := fds\<rparr>)"
    (is "ufs_inv ?s'")
proof -
  have used: "used_count fds = used_count (u_fds s)"
  proof -
    have "used_count xs = length (filter (\<lambda>x. x \<noteq> None) (map (map_option d_file) xs))" for xs
      by (simp add: used_count_def filter_map comp_def)
    then show ?thesis by (simp only: fds)
  qed
  have refs: "refs_of fds b = refs_of (u_fds s) b" for b
  proof -
    have "refs_of xs b = length (filter (\<lambda>x. x = Some b) (map (map_option d_file) xs))" for xs
      by (simp add: refs_of_def filter_map comp_def)
    then show ?thesis by (simp only: fds)
  qed
  have "length fds = length (u_fds s)" using fds by (metis length_map)
  then have "table_inv ?s'" using ufs_invD(2) [OF inv] used by (simp add: table_inv_def)
  moreover have "list_inv ?s'" using ufs_invD(1) [OF inv] f by (auto simp: list_inv_def)
  moreover have "names_inv (u_heap ?s')" using ufs_invD(4) [OF inv] f by (auto simp: names_inv_def)
  moreover have "desc_inv ?s'"
    using ufs_invD(3) [OF inv] offs unfolding desc_inv_def by (fastforce split: if_splits)
  moreover have "file_ok (u_fds ?s') b g" if "u_heap ?s' b = Some g" for b g
    using that ufs_invD(5) [OF inv] f wf refs file_ok_cong [of fds b "u_fds s" g]
    by (auto simp: file_ok_def split: if_splits)
  ultimately show ?thesis by (simp add: ufs_inv_def)
qed

lemma ufs_inv_update_desc:
  assumes inv: "ufs_inv s" and f: "u_heap s (d_file d) = Some f"
    and d: "i < length (u_fds s)" "u_fds s ! i = Some d"
    and wf: "chain_wf bs" "fsize \<le> BLOCK_SIZE * length bs" "length (f_blocks f) \<le> length bs"
    and off: "off \<le> BLOCK_SIZE * length bs"
  shows "ufs_inv (s\<lparr>u_heap := (u_heap s)(d_file d \<mapsto> f\<lparr>f_blocks := bs, f_size := fsize\<rparr>),
     u_fds := (u_fds s)[i := Some (d\<lparr>d_offset := off\<rparr>)]\<rparr>)"
proof (rule ufs_inv_update [OF inv f wf(1,2)])
  show "map (map_option d_file) ((u_fds s)[i := Some (d\<lparr>d_offset := off\<rparr>)])
      = map (map_option d_file) (u_fds s)"
    using d by (simp add: map_update list_update_same_conv)
next
  fix e assume "Some e \<in> set ((u_fds s)[i := Some (d\<lparr>d_offset := off\<rparr>)])"
  then have e: "e = d\<lparr>d_offset := off\<rparr> \<or> Some e \<in> set (u_fds s)"
    using set_update_subset_insert by fastforce
  have mono: "BLOCK_SIZE * length (f_blocks f) \<le> BLOCK_SIZE * length bs" using wf(3) by simp
  show "if d_file e = d_file d then d_offset e \<le> BLOCK_SIZE * length bs
      else \<exists>d'. Some d' \<in> set (u_fds s) \<and> d_file d' = d_file e \<and> d_offset d' = d_offset e"
    using e off ufs_invD(3) [OF inv] f le_trans [OF _ mono] by (auto simp: desc_inv_def)
qed

lemma ufs_write_inv [preserve]:
  assumes inv: "ufs_inv s" and fd: "fd_ok fd"
  shows "\<exists>r s'. ufs_write fd buf s = Some (r, s') \<and> ufs_inv s' \<and> (length buf < 2 ^ 62 \<longrightarrow> reports s r s')"
proof (cases rule: lookup_desc_cases [OF inv fd, case_names invalid valid])
  case invalid
  with inv show ?thesis by (simp add: ufs_write_def)
next
  case (valid i d f)
  from valid(8) have "chain_wf (f_blocks f)" "f_size f \<le> BLOCK_SIZE * length (f_blocks f)"
    by (simp_all add: file_ok_def)
  from file_write_wf [OF this(1) valid(7) this(2), of buf]
  obtain bs' where bs': "file_write (f_blocks f) (f_size f) (d_offset d) buf
      = Some (length buf, bs', max (f_size f) (d_offset d + length buf), d_offset d + length buf)"
    and wf: "chain_wf bs'" "length (f_blocks f) \<le> length bs'"
    "max (f_size f) (d_offset d + length buf) \<le> BLOCK_SIZE * length bs'" by blast
  from ufs_inv_update_desc [OF inv valid(6,4,5) wf(1,3,2), of "d_offset d + length buf"]
    wf(3) bs' valid inv
  show ?thesis by (auto simp: ufs_write_def reports_ok)
qed

text \<open>A read that returns keeps the invariant; it returns whenever the chain of the file is within reach of a
  32-bit offset (or no file is open there).\<close>

lemma ufs_read_Some:
  assumes inv: "ufs_inv s" and fd: "fd_ok fd" and sz: "sz < 2 ^ 63"
    and read: "ufs_read fd sz s = Some ((r, data), s')"
  shows "ufs_inv s' \<and> reports s r s' \<and> u_heap s' = u_heap s \<and> length data \<le> sz \<and>
     (r = -1 \<and> data = [] \<or> r = int (length data))"
proof (cases rule: lookup_desc_cases [OF inv fd, case_names invalid valid])
  case invalid
  with inv read show ?thesis by (auto simp: ufs_read_def)
next
  case (valid i d f)
  from valid(8) have wf: "chain_wf (f_blocks f)" "f_size f \<le> BLOCK_SIZE * length (f_blocks f)"
    by (simp_all add: file_ok_def)
  show ?thesis
  proof (cases "d_open_flags d AND UFS_READ_ONLY = 0 \<and> d_open_flags d AND UFS_READ_WRITE = 0")
    case True
    with inv read valid show ?thesis by (auto simp: ufs_read_def)
  next
    case False
    with read valid obtain off where off: "file_read (f_blocks f) (f_size f) (d_offset d) sz = Some (data, off)"
      "r = int (length data)" "s' = s\<lparr>u_fds := (u_fds s)[i := Some (d\<lparr>d_offset := off\<rparr>)]\<rparr>"
      by (auto simp: ufs_read_def bind_eq_Some_iff)
    note moved = file_read_Some [OF wf(1) sz valid(7) off(1)]
    have "f\<lparr>f_blocks := f_blocks f, f_size := f_size f\<rparr> = f" by simp
    then have "(u_heap s)(d_file d \<mapsto> f\<lparr>f_blocks := f_blocks f, f_size := f_size f\<rparr>) = u_heap s"
      using valid(6) by (auto simp: fun_eq_iff)
    with ufs_inv_update_desc [OF inv valid(6,4,5) wf order_refl, of off] moved
    have "ufs_inv s'" by (simp add: off(3))
    then show ?thesis using off(2) moved by (simp add: off(3) reports_ok)
  qed
qed

definition in_reach :: "int \<Rightarrow> ufs \<Rightarrow> bool" where
  "in_reach fd s \<longleftrightarrow> (case open_at s fd of
     None \<Rightarrow> True
   | Some d \<Rightarrow> case u_heap s (d_file d) of None \<Rightarrow> True | Some f \<Rightarrow> BLOCK_SIZE * length (f_blocks f) < 2 ^ 31)"

lemma ufs_read_defined:
  assumes inv: "ufs_inv s" and fd: "fd_ok fd" and reach: "in_reach fd s" and sz: "sz < 2 ^ 63"
  shows "\<exists>r data s'. ufs_read fd sz s = Some ((r, data), s')"
proof (cases rule: lookup_desc_cases [OF inv fd, case_names invalid valid])
  case invalid
  then show ?thesis by (simp add: ufs_read_def)
next
  case (valid i d f)
  have "BLOCK_SIZE * length (f_blocks f) < 2 ^ 31" using reach valid(1,6) by (simp add: in_reach_def)
  from file_read_wf [OF _ this sz valid(7), of "f_size f"] valid
  show ?thesis by (auto simp: ufs_read_def file_ok_def)
qed

lemma ufs_read_inv [preserve]:
  assumes "ufs_inv s" "fd_ok fd" "in_reach fd s" "sz < 2 ^ 63"
  shows "\<exists>r data s'. ufs_read fd sz s = Some ((r, data), s') \<and> ufs_inv s' \<and> reports s r s' \<and> length data \<le> sz \<and>
     (r = -1 \<and> data = [] \<or> r = int (length data)) \<and> u_heap s' = u_heap s"
  using ufs_read_defined [OF assms] ufs_read_Some [OF assms(1,2,4)] by blast

lemma remove_file_inv:
  assumes inv: "ufs_inv s" and f: "u_heap s a = Some f"
    and fds: "fds = u_fds s \<or> i < length (u_fds s) \<and> fds = (u_fds s)[i := None]" and none: "refs_of fds a = 0"
    and refs: "\<And>b. b \<noteq> a \<Longrightarrow> refs_of fds b = refs_of (u_fds s) b"
  shows "ufs_inv (s\<lparr>u_file_list := remove1 a (u_file_list s), u_heap := (u_heap s)(a := None),
     u_fds := fds, u_used := int (used_count fds)\<rparr>)" (is "ufs_inv ?s'")
proof -
  have sub: "Some d \<in> set fds \<Longrightarrow> Some d \<in> set (u_fds s)" for d
    using fds set_update_subset_insert by fastforce
  have "list_inv ?s'"
    using ufs_invD(1) [OF inv] by (auto simp: list_inv_def set_remove1_eq)
  moreover have "table_inv ?s'" using ufs_invD(2) [OF inv] fds by (auto simp: table_inv_def)
  moreover have "names_inv (u_heap ?s')" using ufs_invD(4) [OF inv] by (auto simp: names_inv_def)
  moreover have "desc_inv ?s'"
    using ufs_invD(3) [OF inv] sub none by (fastforce simp: desc_inv_def refs_of_zero)
  moreover have "file_ok fds b g" if "u_heap ?s' b = Some g" for b g
    using that ufs_invD(5) [OF inv] file_ok_cong [OF refs] by (auto split: if_splits)
  ultimately show ?thesis by (simp add: ufs_inv_def)
qed

lemma ufs_close_inv [preserve]:
  assumes inv: "ufs_inv s" and fd: "fd_ok fd"
  shows "\<exists>r s'. ufs_close fd s = Some (r, s') \<and> ufs_inv s' \<and> reports s r s'"
proof (cases rule: lookup_desc_cases [OF inv fd, case_names invalid valid])
  case invalid
  with inv show ?thesis by (simp add: ufs_close_def)
next
  case (valid i d f)
  let ?a = "d_file d"
  define fds where "fds = (u_fds s)[i := None]"
  note table = ufs_inv_table [OF inv]
  have used: "int (used_count fds) = u_used s - 1"
    using used_count_update [OF valid(4), of None] valid(5) table by (simp add: fds_def)
  have refs: "refs_of fds b + (if b = ?a then 1 else 0) = refs_of (u_fds s) b" for b
    using refs_of_update [OF valid(4), of None b] valid(5) by (auto simp: fds_def)
  have count: "f_refs f = int (refs_of fds ?a) + 1"
    using valid(8) refs [of ?a] by (simp add: file_ok_def)
  show ?thesis
  proof (cases "f_refs f - 1 \<le> 0 \<and> f_is_ghost f")
    case True
    have "ufs_inv (s\<lparr>u_file_list := remove1 ?a (u_file_list s), u_heap := (u_heap s)(?a := None),
        u_fds := fds, u_used := int (used_count fds)\<rparr>)"
    proof (rule remove_file_inv [OF inv valid(6)])
      show "fds = u_fds s \<or> i < length (u_fds s) \<and> fds = (u_fds s)[i := None]"
        using valid(4) by (simp add: fds_def)
      show "refs_of fds ?a = 0" using True count by simp
      show "refs_of fds b = refs_of (u_fds s) b" if "b \<noteq> ?a" for b using refs [of b] that by simp
    qed
    with True valid used show ?thesis
      by (auto simp: ufs_close_def Let_def ufs_unlink_file_def ufs_free_file_def fds_def reports_ok)
  next
    case False
    define s' where "s' = s\<lparr>u_heap := (u_heap s)(?a \<mapsto> f\<lparr>f_refs := f_refs f - 1\<rparr>), u_fds := fds,
      u_used := u_used s - 1\<rparr>"
    have sub: "Some e \<in> set fds \<Longrightarrow> Some e \<in> set (u_fds s)" for e
      using set_update_subset_insert by (fastforce simp: fds_def)
    have "list_inv s'" using ufs_invD(1) [OF inv] valid(6) by (auto simp: s'_def list_inv_def)
    moreover have "table_inv s'" using used table by (simp add: s'_def table_inv_def fds_def)
    moreover have "names_inv (u_heap s')"
      using ufs_invD(4) [OF inv] valid(6) by (auto simp: names_inv_def s'_def)
    moreover have "desc_inv s'"
      using ufs_invD(3) [OF inv] sub valid(6) by (fastforce simp: desc_inv_def s'_def)
    moreover have "file_ok (u_fds s') b g" if g: "u_heap s' b = Some g" for b g
    proof (cases "b = ?a")
      case True
      with g valid(8) count False show ?thesis by (auto simp: s'_def file_ok_def)
    next
      case other: False
      with g ufs_invD(5) [OF inv] refs [of b] file_ok_cong [of fds b "u_fds s" g]
      show ?thesis by (simp add: s'_def)
    qed
    ultimately have "ufs_inv s'" by (simp add: ufs_inv_def)
    with False valid show ?thesis by (auto simp: ufs_close_def Let_def s'_def fds_def reports_ok)
  qed
qed

lemma ufs_delete_inv [preserve]:
  assumes inv: "ufs_inv s"
  shows "\<exists>r s'. ufs_delete name s = Some (r, s') \<and> ufs_inv s' \<and> reports s r s'"
proof (cases rule: find_file_inv [OF inv, of name, case_names found missing])
  case (found a f)
  have ok: "file_ok (u_fds s) a f" using ufs_invD(5) [OF inv found(2)] .
  show ?thesis
  proof (cases "f_refs f \<le> 0")
    case True
    have "ufs_inv (s\<lparr>u_file_list := remove1 a (u_file_list s), u_heap := (u_heap s)(a := None),
        u_fds := u_fds s, u_used := int (used_count (u_fds s))\<rparr>)"
      using True ok by (intro remove_file_inv [OF inv found(2)]) (auto simp: file_ok_def)
    also have "s\<lparr>u_file_list := remove1 a (u_file_list s), u_heap := (u_heap s)(a := None),
        u_fds := u_fds s, u_used := int (used_count (u_fds s))\<rparr>
      = s\<lparr>u_file_list := remove1 a (u_file_list s), u_heap := (u_heap s)(a := None)\<rparr>"
      using ufs_inv_table(2) [OF inv] by (cases s) simp
    finally show ?thesis
      using True found by (simp add: ufs_delete_def ufs_unlink_file_def ufs_free_file_def reports_ok)
  next
    case False
    define s' where "s' = s\<lparr>u_heap := (u_heap s)(a \<mapsto> f\<lparr>f_is_ghost := True\<rparr>)\<rparr>"
    have "file_ok (u_fds s) a (f\<lparr>f_is_ghost := True\<rparr>)" using ok False by (simp add: file_ok_def)
    then have "ufs_inv s'"
      using inv found(2) unfolding ufs_inv_def s'_def list_inv_def table_inv_def desc_inv_def names_inv_def
      by auto
    with False found show ?thesis by (simp add: ufs_delete_def s'_def reports_ok)
  qed
next
  case missing
  with inv show ?thesis by (simp add: ufs_delete_def)
qed

lemma clamp_descs_all:
  "u_capacity s = int (length (u_fds s)) \<Longrightarrow>
     clamp_descs (u_capacity s) a n (u_fds s) = Some (map (clamp_desc a n) (u_fds s))"
  by (simp add: clamp_descs_def)

lemma d_file_clamp_desc [simp]: "map_option d_file (clamp_desc a n d) = map_option d_file d"
  by (auto simp: clamp_desc_def split: option.splits)

lemma ufs_resize_inv [preserve]:
  assumes inv: "ufs_inv s" and fd: "fd_ok fd"
  shows "\<exists>r s'. ufs_resize fd new_size s = Some (r, s') \<and> ufs_inv s' \<and> reports s r s'"
proof (cases rule: lookup_desc_cases [OF inv fd, case_names invalid valid])
  case invalid
  with inv show ?thesis by (simp add: ufs_resize_def)
next
  case (valid i d f)
  let ?a = "d_file d"
  from valid(8) have wf: "chain_wf (f_blocks f)" "f_size f \<le> BLOCK_SIZE * length (f_blocks f)"
    by (simp_all add: file_ok_def)
  consider "new_size = f_size f \<or> (f_size f < new_size \<and> MAX_FILE_SIZE < new_size)"
    | "new_size < f_size f" | "f_size f < new_size" "new_size \<le> MAX_FILE_SIZE" by linarith
  then show ?thesis
  proof cases
    case 1
    with valid inv show ?thesis by (auto simp: ufs_resize_def reports_ok)
  next
    case 2
    obtain bs where bs: "file_shrink (f_blocks f) (f_size f) new_size = Some (bs, new_size)"
      "chain_wf bs" "new_size \<le> BLOCK_SIZE * length bs"
      using file_shrink_wf [OF wf 2] by blast
    have "ufs_inv (s\<lparr>u_heap := (u_heap s)(?a \<mapsto> f\<lparr>f_blocks := bs, f_size := new_size\<rparr>),
        u_fds := map (clamp_desc ?a new_size) (u_fds s)\<rparr>)"
      using bs(3) by (intro ufs_inv_update [OF inv valid(6) bs(2,3)])
        (auto simp: clamp_desc_def split: option.splits if_splits)
    with 2 valid bs(1) show ?thesis
      by (simp add: ufs_resize_def clamp_descs_all [OF ufs_inv_table(1) [OF inv]] reports_ok)
  next
    case 3
    obtain bs where bs: "file_grow (f_blocks f) (f_size f) new_size = Some (bs, new_size)"
      "chain_wf bs" "length (f_blocks f) \<le> length bs" "new_size \<le> BLOCK_SIZE * length bs"
      using file_grow_wf [OF wf 3(1)] by blast
    have "d_offset d \<le> BLOCK_SIZE * length bs"
      using valid(7) mult_le_mono2 [OF bs(3), of BLOCK_SIZE] by linarith
    note ufs_inv_update_desc [OF inv valid(6,4,5) bs(2,4,3) this]
    also have "s\<lparr>u_heap := (u_heap s)(?a \<mapsto> f\<lparr>f_blocks := bs, f_size := new_size\<rparr>),
        u_fds := (u_fds s)[i := Some (d\<lparr>d_offset := d_offset d\<rparr>)]\<rparr>
      = s\<lparr>u_heap := (u_heap s)(?a \<mapsto> f\<lparr>f_blocks := bs, f_size := new_size\<rparr>)\<rparr>"
      using valid(4,5) by (cases s) (simp add: list_update_same_conv)
    finally show ?thesis using 3 valid bs(1) by (simp add: ufs_resize_def reports_ok)
  qed
qed

subsection \<open>ufs_destroy\<close>

text \<open>What is freed with a file.\<close>

definition file_pieces :: "nat \<Rightarrow> ufile \<Rightarrow> piece list" where
  "file_pieces a f = File_name a # free_blocks a 0 (f_blocks f) @ [File_struct a]"

lemma ufs_free_file_eq:
  "u_heap s a = Some f \<Longrightarrow>
     ufs_free_file a s = Some (s\<lparr>u_heap := (u_heap s)(a := None), u_freed := u_freed s @ file_pieces a f\<rparr>)"
  by (simp add: ufs_free_file_def file_pieces_def)

definition files_pieces :: "(nat \<Rightarrow> ufile option) \<Rightarrow> nat list \<Rightarrow> piece list" where
  "files_pieces h as = concat (map (\<lambda>a. case h a of None \<Rightarrow> [] | Some f \<Rightarrow> file_pieces a f) as)"

lemma free_files_Some:
  "distinct as \<Longrightarrow> set as \<subseteq> dom (u_heap s) \<Longrightarrow>
     free_files as s = Some (s\<lparr>u_heap := (u_heap s) |` (- set as), u_freed := u_freed s @ files_pieces (u_heap s) as\<rparr>)"
proof (induction as arbitrary: s)
  case Nil
  then show ?case by (simp add: files_pieces_def)
next
  case (Cons a as)
  then obtain f where f: "u_heap s a = Some f" by auto
  define s1 where "s1 = s\<lparr>u_heap := (u_heap s)(a := None), u_freed := u_freed s @ file_pieces a f\<rparr>"
  have "(u_heap s)(a := None) |` (- set as) = u_heap s |` (- set (a # as))"
    by (auto simp: fun_eq_iff restrict_map_def)
  moreover have "free_files as s1
      = Some (s1\<lparr>u_heap := (u_heap s1) |` (- set as), u_freed := u_freed s1 @ files_pieces (u_heap s1) as\<rparr>)"
    using Cons.prems by (intro Cons.IH) (auto simp: s1_def)
  moreover have "files_pieces (u_heap s1) as = files_pieces (u_heap s) as"
    using Cons.prems(1) unfolding files_pieces_def s1_def by (intro arg_cong [where f = concat] map_cong) auto
  ultimately show ?case
    using f by (simp add: ufs_free_file_eq s1_def files_pieces_def)
qed

definition table_pieces :: "filedesc option list \<Rightarrow> piece list" where
  "table_pieces fds = (if fds = [] then [] else free_descs 0 fds @ [Descriptor_array])"

lemma ufs_destroy_eq:
  assumes "ufs_inv s"
  shows "ufs_destroy s = Some (s\<lparr>u_heap := Map.empty, u_file_list := [], u_fds := [],
     u_used := 0, u_capacity := 0,
     u_freed := u_freed s @ table_pieces (u_fds s) @ files_pieces (u_heap s) (u_file_list s)\<rparr>)"
proof -
  have list: "distinct (u_file_list s)" "set (u_file_list s) \<subseteq> dom (u_heap s)"
    using ufs_invD(1) [OF assms] by (simp_all add: list_inv_def)
  have "u_heap s |` (- set (u_file_list s)) = Map.empty"
    using ufs_invD(1) [OF assms] by (auto simp: list_inv_def fun_eq_iff restrict_map_def)
  with list ufs_inv_table(1) [OF assms] show ?thesis
    by (cases s) (simp add: ufs_destroy_def table_pieces_def free_files_Some)
qed

lemma ufs_destroy_inv [preserve]:
  "ufs_inv s \<Longrightarrow> \<exists>s'. ufs_destroy s = Some s' \<and> ufs_inv s'"
  by (simp add: ufs_destroy_eq ufs_inv_def list_inv_def table_inv_def desc_inv_def names_inv_def
      used_count_def)

end
