(* ===== verification/UFS_Layout.thy ===== *)
theory UFS_Layout
  imports UFS_File
begin

section \<open>UserFS: the content of a file\<close>

text \<open>
  What the blocks of a file mean. \<open>layout bs n\<close> says that the blocks hold the \<open>n\<close> bytes of the
  file back to back, all full but the last one; the file is then the byte string \<open>content bs n\<close>.
  The lemmas \<open>file_*_layout\<close> show that the loops of \<^verbatim>\<open>ufs_write\<close>, \<^verbatim>\<open>ufs_read\<close> and
  \<^verbatim>\<open>ufs_resize\<close> implement splicing in data, reading a slice, truncating and extending that
  string. Writing does so only at the tail of the file: see \<open>file_write_layout\<close>.
\<close>

subsection \<open>The layout of a file, and its content\<close>

definition flat :: "block list \<Rightarrow> cell list" where
  "flat bs = concat (map b_memory bs)"

definition content :: "block list \<Rightarrow> nat \<Rightarrow> cell list" where
  "content bs n = take n (flat bs)"

text \<open>The bytes of a file of size \<open>n\<close> lie back to back: block \<open>i\<close> holds those from
  \<open>BLOCK_SIZE * i\<close>, as many as there are and at most \<open>BLOCK_SIZE\<close>.\<close>

definition layout :: "block list \<Rightarrow> nat \<Rightarrow> bool" where
  "layout bs n \<longleftrightarrow> length bs = block_count n \<and>
     (\<forall>b \<in> set bs. length (b_memory b) = BLOCK_SIZE) \<and>
     (\<forall>i < length bs. b_occupied (bs ! i) = Some (int (min BLOCK_SIZE (n - BLOCK_SIZE * i))))"

lemma layoutD:
  assumes "layout bs n"
  shows "length bs = block_count n" "n \<le> BLOCK_SIZE * length bs"
    "\<forall>ms \<in> set (map b_memory bs). length ms = BLOCK_SIZE"
    "i < length bs \<Longrightarrow> b_occupied (bs ! i) = Some (int (min BLOCK_SIZE (n - BLOCK_SIZE * i)))"
    "i < length bs \<Longrightarrow> length (b_memory (bs ! i)) = BLOCK_SIZE"
  using assms by (auto simp: layout_def block_count_le)

lemma layout_chain_wf: "layout bs n \<Longrightarrow> chain_wf bs"
  by (auto simp: layout_def chain_wf_def block_wf_def in_set_conv_nth block_count_less Suc_le_eq)

lemma layout_empty [simp]: "layout [] 0"
  by (simp add: layout_def)

lemma length_flat:
  "\<forall>ms \<in> set (map b_memory bs). length ms = BLOCK_SIZE \<Longrightarrow> length (flat bs) = BLOCK_SIZE * length bs"
  unfolding flat_def by (subst length_concat_uniform [of _ BLOCK_SIZE]) simp_all

lemma length_content [simp]: "layout bs n \<Longrightarrow> length (content bs n) = n"
  using layoutD(2,3) [of bs n] by (simp add: content_def length_flat)

lemma flat_append [simp]: "flat (bs @ cs) = flat bs @ flat cs"
  by (simp add: flat_def)

lemma flat_take:
  assumes "\<forall>ms \<in> set (map b_memory bs). length ms = BLOCK_SIZE" "m \<le> length bs"
  shows "flat (take m bs) = take (BLOCK_SIZE * m) (flat bs)"
proof -
  have "flat bs = flat (take m bs) @ flat (drop m bs)"
    by (metis append_take_drop_id flat_append)
  moreover have "length (flat (take m bs)) = BLOCK_SIZE * m"
    using assms by (subst length_flat) (auto dest: in_set_takeD)
  ultimately show ?thesis by simp
qed

text \<open>A piece of one block is a piece of the file.\<close>

lemma flat_slice:
  assumes "\<forall>ms \<in> set (map b_memory bs). length ms = BLOCK_SIZE" "i < length bs" "j + m \<le> BLOCK_SIZE"
  shows "take m (drop (BLOCK_SIZE * i + j) (flat bs)) = take m (drop j (b_memory (bs ! i)))"
proof -
  have mems: "length (b_memory (bs ! i)) = BLOCK_SIZE" using assms(1,2) by auto
  have "BLOCK_SIZE * Suc i \<le> BLOCK_SIZE * length bs" using assms(2) by (intro mult_le_mono2) simp
  with assms(3) have len: "BLOCK_SIZE * i + j + m \<le> length (flat bs)"
    using length_flat [OF assms(1)] by simp
  show ?thesis
  proof (rule nth_equalityI)
    show "length (take m (drop (BLOCK_SIZE * i + j) (flat bs)))
        = length (take m (drop j (b_memory (bs ! i))))"
      using len assms(3) mems by simp
  next
    fix k
    assume "k < length (take m (drop (BLOCK_SIZE * i + j) (flat bs)))"
    then have k: "k < m" by simp
    have "flat bs ! (BLOCK_SIZE * i + (j + k)) = b_memory (bs ! i) ! (j + k)"
      unfolding flat_def using assms k by (subst nth_concat_uniform [of _ BLOCK_SIZE]) auto
    with k len assms(3) mems
    show "take m (drop (BLOCK_SIZE * i + j) (flat bs)) ! k
        = take m (drop j (b_memory (bs ! i))) ! k"
      by (simp add: add.assoc)
  qed
qed

lemma flat_write:
  assumes "\<forall>ms \<in> set (map b_memory bs). length ms = BLOCK_SIZE" "i < length bs"
    and "j + length data \<le> BLOCK_SIZE" "b_memory b = overwrite (b_memory (bs ! i)) j data"
  shows "flat (bs[i := b]) = overwrite (flat bs) (BLOCK_SIZE * i + j) data"
  using concat_list_update_uniform [OF assms(1), of i j data] assms(2-4)
  by (simp add: flat_def map_update)

subsection \<open>Writing at the tail splices the data into the content\<close>

text \<open>
  The loop writes in place only into a block that is not full, and appends a block otherwise.
  On a file in layout that is right exactly when the offset lies in the partial last block or
  at the end: \<open>off div BLOCK_SIZE = n div BLOCK_SIZE\<close>.
\<close>

definition tail_cursor :: "block list \<Rightarrow> nat option \<Rightarrow> nat \<Rightarrow> bool" where
  "tail_cursor bs cur n \<longleftrightarrow>
     (if n mod BLOCK_SIZE \<noteq> 0 then cur = Some (n div BLOCK_SIZE)
      else case cur of None \<Rightarrow> True
           | Some i \<Rightarrow> i < length bs \<and> b_occupied (bs ! i) = Some (int BLOCK_SIZE))"

lemma block_count_div:
  "block_count n = (if n mod BLOCK_SIZE = 0 then n div BLOCK_SIZE else Suc (n div BLOCK_SIZE))"
proof -
  have n: "n = BLOCK_SIZE * (n div BLOCK_SIZE) + n mod BLOCK_SIZE" by simp
  have "n mod BLOCK_SIZE < BLOCK_SIZE" by simp
  then have lt: "n < BLOCK_SIZE * Suc (n div BLOCK_SIZE)"
    using n unfolding mult_Suc_right by linarith
  show ?thesis
  proof (rule antisym)
    show "block_count n \<le> (if n mod BLOCK_SIZE = 0 then n div BLOCK_SIZE else Suc (n div BLOCK_SIZE))"
      unfolding block_count_le [symmetric] using n lt by auto
    show "(if n mod BLOCK_SIZE = 0 then n div BLOCK_SIZE else Suc (n div BLOCK_SIZE)) \<le> block_count n"
    proof (cases "n mod BLOCK_SIZE = 0")
      case True
      with n block_count_le [of n "block_count n"] show ?thesis
        by (metis add_0_right mult_le_cancel1 BLOCK_SIZE_pos order_refl)
    next
      case False
      with n have "BLOCK_SIZE * (n div BLOCK_SIZE) < n" by linarith
      with False show ?thesis by (simp add: block_count_less [symmetric])
    qed
  qed
qed

lemma overwrite_extend: "off \<le> length xs \<Longrightarrow> length (overwrite xs off ys) = max (length xs) (off + length ys)"
  by (auto simp: overwrite_def)

text \<open>Appending an empty block changes nothing of the content.\<close>

lemma write_target_layout:
  assumes lay: "layout bs n" and cur: "tail_cursor bs cur n"
  obtains bs1 where "write_target bs cur = Some (bs1, n div BLOCK_SIZE)"
    "length bs1 = Suc (n div BLOCK_SIZE)"
    "\<forall>ms \<in> set (map b_memory bs1). length ms = BLOCK_SIZE"
    "\<forall>i < n div BLOCK_SIZE. b_occupied (bs1 ! i) = Some (int BLOCK_SIZE)"
    "b_occupied (bs1 ! (n div BLOCK_SIZE)) = Some (int (n mod BLOCK_SIZE))"
    "take n (flat bs1) = content bs n"
proof -
  let ?i = "n div BLOCK_SIZE"
  note D = layoutD [OF lay]
  have full: "b_occupied (bs ! i) = Some (int BLOCK_SIZE)" if "i < ?i" for i
  proof -
    have "BLOCK_SIZE * Suc i \<le> BLOCK_SIZE * ?i" using that by (intro mult_le_mono2) simp
    also have "\<dots> \<le> n" by simp
    finally have "BLOCK_SIZE * i + BLOCK_SIZE \<le> n" by simp
    moreover have "i < length bs" using that D(1) by (simp add: block_count_div)
    ultimately show ?thesis using D(4) [of i] by (simp add: min_def)
  qed
  show thesis
  proof (cases "n mod BLOCK_SIZE = 0")
    case False
    then have i: "?i < length bs" "length bs = Suc ?i" using D(1) by (simp_all add: block_count_div)
    have "n - BLOCK_SIZE * ?i = n mod BLOCK_SIZE" by (simp add: minus_mult_div_eq_mod)
    moreover have "min BLOCK_SIZE (n mod BLOCK_SIZE) = n mod BLOCK_SIZE"
      by (simp add: min_absorb2 less_imp_le)
    ultimately have occ: "b_occupied (bs ! ?i) = Some (int (n mod BLOCK_SIZE))"
      using D(4) [OF i(1)] by simp
    moreover from this have "write_target bs cur = Some (bs, ?i)"
      using cur False i by (simp add: tail_cursor_def write_target_def)
    ultimately show thesis
      using that [of bs] i D(3) full by (simp add: content_def)
  next
    case True
    then have len: "length bs = ?i" using D(1) by (simp add: block_count_div)
    have "write_target bs cur = Some (bs @ [malloc_block], ?i)"
      using cur True len by (auto simp: tail_cursor_def write_target_def split: option.splits)
    moreover have "length (flat bs) = BLOCK_SIZE * length bs" using D(3) by (rule length_flat)
    ultimately show thesis
      using that [of "bs @ [malloc_block]"] True len D(2,3) full
      by (auto simp: nth_append malloc_block_def content_def)
  qed
qed

lemma write_iter_layout:
  assumes lay: "layout bs n" and cur: "tail_cursor bs cur n"
    and off: "off \<le> n" "off div BLOCK_SIZE = n div BLOCK_SIZE" and more: "written < length buf"
    and c: "c = write_chunk buf written off" and n': "n' = max n (off + c)"
  obtains bs' where "write_iter buf written bs cur off = Some (bs', n div BLOCK_SIZE)"
    "layout bs' n'"
    "content bs' n' = overwrite (content bs n) off (map Some (take c (drop written buf)))"
proof -
  let ?i = "n div BLOCK_SIZE" and ?j = "off mod BLOCK_SIZE"
  define data where "data = take c (drop written buf)"
  have len: "length data = c" using length_chunk [OF more, of off] by (simp only: data_def c)
  have jc: "?j + c \<le> BLOCK_SIZE" "0 < c"
    using more by (simp_all add: c write_chunk_block write_chunk_pos)
  have off_eq: "off = BLOCK_SIZE * ?i + ?j" by (simp only: off(2) [symmetric] mult_div_mod_eq)
  have n_eq: "n = BLOCK_SIZE * ?i + n mod BLOCK_SIZE" by simp
  have mod: "n mod BLOCK_SIZE < BLOCK_SIZE" by simp
  obtain bs1 where tgt: "write_target bs cur = Some (bs1, ?i)" and len1: "length bs1 = Suc ?i"
    and mems: "\<forall>ms \<in> set (map b_memory bs1). length ms = BLOCK_SIZE"
    and full: "\<forall>i < ?i. b_occupied (bs1 ! i) = Some (int BLOCK_SIZE)"
    and occ: "b_occupied (bs1 ! ?i) = Some (int (n mod BLOCK_SIZE))"
    and same: "take n (flat bs1) = content bs n"
    by (rule write_target_layout [OF lay cur])
  have mem: "length (b_memory (bs1 ! ?i)) = BLOCK_SIZE" using mems len1 by auto
  define b where "b = (bs1 ! ?i)\<lparr>b_memory := overwrite (b_memory (bs1 ! ?i)) ?j (map Some data),
      b_occupied := Some (max (int (n mod BLOCK_SIZE)) (int (?j + c)))\<rparr>"
  have "block_write (bs1 ! ?i) ?j data = Some b"
    unfolding b_def using block_write_Some [OF mem occ, of ?j data] mod jc len by simp
  then have it: "write_iter buf written bs cur off = Some (bs1[?i := b], ?i)"
    by (simp add: write_iter_def tgt data_def c)
  have n'_eq: "n' = BLOCK_SIZE * ?i + max (n mod BLOCK_SIZE) (?j + c)"
    unfolding n' using off_eq n_eq by linarith
  have count: "block_count n' = Suc ?i"
  proof (rule antisym)
    show "block_count n' \<le> Suc ?i"
      unfolding block_count_le [symmetric] n'_eq mult_Suc_right using mod jc by linarith
    show "Suc ?i \<le> block_count n'"
      unfolding Suc_le_eq block_count_less n'_eq using jc by linarith
  qed
  have lay': "layout (bs1[?i := b]) n'"
    unfolding layout_def
  proof (intro conjI allI impI)
    show "length (bs1[?i := b]) = block_count n'" using count len1 by simp
    show "\<forall>b \<in> set (bs1[?i := b]). length (b_memory b) = BLOCK_SIZE"
      using mems mem jc len by (intro all_set_list_update) (auto simp: b_def)
    fix k assume "k < length (bs1[?i := b])"
    then consider "k < ?i" | "k = ?i" using len1 by fastforce
    then show "b_occupied (bs1[?i := b] ! k) = Some (int (min BLOCK_SIZE (n' - BLOCK_SIZE * k)))"
    proof cases
      case 1
      then have "BLOCK_SIZE * Suc k \<le> BLOCK_SIZE * ?i" by (intro mult_le_mono2) simp
      then have "BLOCK_SIZE \<le> n' - BLOCK_SIZE * k" unfolding n'_eq mult_Suc_right by linarith
      with 1 full len1 show ?thesis by (simp add: min_def)
    next
      case 2
      have "n' - BLOCK_SIZE * ?i = max (n mod BLOCK_SIZE) (?j + c)" unfolding n'_eq by simp
      moreover have "max (n mod BLOCK_SIZE) (?j + c) \<le> BLOCK_SIZE" using mod jc by linarith
      ultimately show ?thesis using 2 len1 by (simp add: b_def of_nat_max)
    qed
  qed
  have "flat (bs1[?i := b]) = overwrite (flat bs1) off (map Some data)"
    using mems len1 jc len off_eq by (subst flat_write [of bs1 ?i ?j "map Some data"]) (auto simp: b_def)
  moreover have "off + c \<le> length (flat bs1)" "n \<le> length (flat bs1)"
    unfolding length_flat [OF mems] len1 mult_Suc_right using off_eq n_eq jc mod by linarith+
  ultimately have "content (bs1[?i := b]) n' = overwrite (content bs n) off (map Some data)"
    unfolding content_def [of "bs1[?i := b]"] n' same [symmetric]
    using take_overwrite_cover [of off n "flat bs1" "map Some data"] off len by simp
  with it lay' show thesis by (intro that) (auto simp: data_def)
qed

lemma write_loop_layout:
  assumes "layout bs n" "tail_cursor bs cur n" "off \<le> n" "off div BLOCK_SIZE = n div BLOCK_SIZE"
    and "written \<le> length buf"
  shows "\<exists>bs'. write_loop buf written bs cur off = Some (length buf, bs', off + (length buf - written)) \<and>
     layout bs' (max n (off + (length buf - written))) \<and>
     content bs' (max n (off + (length buf - written)))
       = overwrite (content bs n) off (map Some (drop written buf))"
  using assms
proof (induction buf written bs cur off arbitrary: n rule: write_loop.induct)
  case (1 buf written bs cur off)
  show ?case
  proof (cases "written < length buf")
    case False
    with 1(2-6) show ?thesis by (subst write_loop.simps) (auto simp: max_def)
  next
    case True
    define c where "c = write_chunk buf written off"
    define n' where "n' = max n (off + c)"
    obtain bs' where it: "write_iter buf written bs cur off = Some (bs', n div BLOCK_SIZE)"
      and lay: "layout bs' n'"
      and cont: "content bs' n' = overwrite (content bs n) off (map Some (take c (drop written buf)))"
      by (rule write_iter_layout [OF 1(2-5) True c_def n'_def])
    have c: "written + c \<le> length buf" "0 < c" "length (take c (drop written buf)) = c"
      using write_chunk_le [OF True, of off] write_chunk_pos [OF True, of off] by (simp_all add: c_def)
    have run: "write_loop buf written bs cur off
        = write_loop buf (written + c) bs' (Some (n div BLOCK_SIZE)) (off + c)"
      using True it by (subst write_loop.simps) (simp add: c_def)
    show ?thesis
    proof (cases "written + c = length buf")
      case True
      then have "write_loop buf (written + c) bs' (Some (n div BLOCK_SIZE)) (off + c)
          = Some (length buf, bs', off + c)"
        by (subst write_loop.simps) simp
      moreover have "c = length buf - written" using True by simp
      ultimately show ?thesis using run lay cont by (simp add: n'_def)
    next
      case False
      define i where "i = n div BLOCK_SIZE"
      have "off mod BLOCK_SIZE + c = BLOCK_SIZE"
        using False c(1) unfolding c_def by (intro write_chunk_more) simp
      moreover have "off = BLOCK_SIZE * i + off mod BLOCK_SIZE"
        unfolding i_def 1(5) [symmetric] by simp
      ultimately have end_eq: "off + c = BLOCK_SIZE * Suc i" unfolding mult_Suc_right by linarith
      have "n = BLOCK_SIZE * i + n mod BLOCK_SIZE" "n mod BLOCK_SIZE < BLOCK_SIZE"
        by (simp_all add: i_def)
      then have n': "n' = BLOCK_SIZE * Suc i"
        unfolding n'_def end_eq mult_Suc_right by linarith
      have i: "i < length bs'" using layoutD(1) [OF lay] by (simp add: block_count_less n')
      then have "tail_cursor bs' (Some i) n'"
        using layoutD(4) [OF lay i] by (simp add: tail_cursor_def n')
      from 1(1) [OF True, of "(bs', i)" bs' i, folded c_def, OF _ refl lay this _ _ c(1)]
      obtain bs'' where loop: "write_loop buf (written + c) bs' (Some i) (off + c)
          = Some (length buf, bs'', off + c + (length buf - (written + c)))"
        and "layout bs'' (max n' (off + c + (length buf - (written + c))))"
        "content bs'' (max n' (off + c + (length buf - (written + c))))
           = overwrite (content bs' n') (off + c) (map Some (drop (written + c) buf))"
        using it end_eq n' by (auto simp: i_def)
      moreover have "off + c + (length buf - (written + c)) = off + (length buf - written)"
        using c by simp
      moreover have "max n' (off + (length buf - written)) = max n (off + (length buf - written))"
        using c(1) unfolding n'_def by linarith
      moreover have "overwrite (content bs' n') (off + c) (map Some (drop (written + c) buf))
          = overwrite (content bs n) off (map Some (drop written buf))"
      proof -
        have "drop written buf = take c (drop written buf) @ drop (written + c) buf"
          by (simp add: add.commute flip: drop_drop)
        then show ?thesis
          using overwrite_overwrite [of off "content bs n" "map Some (take c (drop written buf))"
              "map Some (drop (written + c) buf)"] 1(2,4) c(3)
          unfolding cont by (metis length_content length_map map_append)
      qed
      ultimately show ?thesis using run by (simp add: i_def)
    qed
  qed
qed

lemma file_write_layout:
  assumes "layout bs n" "off \<le> n" "off div BLOCK_SIZE = n div BLOCK_SIZE"
  shows "\<exists>bs'. file_write bs n off buf
       = Some (length buf, bs', max n (off + length buf), off + length buf) \<and>
     layout bs' (max n (off + length buf)) \<and>
     content bs' (max n (off + length buf)) = overwrite (content bs n) off (map Some buf)"
proof -
  let ?k = "off div BLOCK_SIZE"
  define cur where "cur = (if ?k < length bs then Some ?k else None)"
  have len: "length bs = (if n mod BLOCK_SIZE = 0 then n div BLOCK_SIZE else Suc (n div BLOCK_SIZE))"
    using layoutD(1) [OF assms(1)] by (simp add: block_count_div)
  have walk: "write_walk bs ?k (first_block bs) = Some cur"
    unfolding cur_def using assms(3) len by (intro write_walk_first) auto
  have "tail_cursor bs cur n" using assms(3) len by (auto simp: cur_def tail_cursor_def)
  from write_loop_layout [OF assms(1) this assms(2,3), of 0 buf]
  obtain bs' where "write_loop buf 0 bs cur off = Some (length buf, bs', off + length buf)"
    "layout bs' (max n (off + length buf))"
    "content bs' (max n (off + length buf)) = overwrite (content bs n) off (map Some buf)"
    by auto
  with walk show ?thesis by (auto simp: file_write_def max_def)
qed

subsection \<open>Reading returns a slice of the content\<close>

text \<open>The cursor of the read loop, unless nothing is left to read.\<close>

definition read_cursor :: "block list \<Rightarrow> nat \<Rightarrow> nat option \<Rightarrow> nat \<Rightarrow> bool" where
  "read_cursor bs n cur off \<longleftrightarrow>
     (case cur of None \<Rightarrow> off = n | Some i \<Rightarrow> i = off div BLOCK_SIZE \<and> i < length bs)"

lemma read_loop_layout:
  assumes "layout bs n" "n < 2 ^ 31" "length acc \<le> sz" "sz < 2 ^ 63" "off \<le> n"
    and "read_cursor bs n cur off \<or> length acc = sz \<and> (\<forall>i. cur = Some i \<longrightarrow> i < length bs)"
  shows "read_loop bs sz cur off acc =
     Some (acc @ take (sz - length acc) (drop off (content bs n)),
           off + min (sz - length acc) (n - off))"
  using assms
proof (induction "case cur of None \<Rightarrow> 0 | Some i \<Rightarrow> Suc (length bs - i)"
    arbitrary: cur off acc rule: less_induct)
  case less
  note lay = less.prems(1) and D = layoutD [OF less.prems(1)]
  have len: "length (content bs n) = n" using lay by simp
  show ?case
  proof (cases "cur = None \<or> length acc = sz")
    case True
    then consider "length acc = sz" "cur = None" | i where "length acc = sz" "cur = Some i" "i < length bs"
      | "off = n" "cur = None"
      using less.prems(6) by (auto simp: read_cursor_def split: option.splits)
    then show ?thesis
    proof cases
      case (2 i)
      then have "\<not> int (length acc) < c_ssize (int sz)" using less.prems(4) by simp
      with 2 show ?thesis using read_loop_end [OF 2(3) D(4) [OF 2(3)]] by simp
    qed (use len in auto)
  next
    case False
    with less.prems(6) obtain i where cur: "cur = Some i" and i: "i = off div BLOCK_SIZE" "i < length bs"
      by (auto simp: read_cursor_def split: option.splits)
    let ?j = "off mod BLOCK_SIZE"
    define occ where "occ = min BLOCK_SIZE (n - BLOCK_SIZE * i)"
    note occ_i = D(4) [OF i(2), folded occ_def]
    have off_eq: "off = BLOCK_SIZE * i + ?j" by (simp add: i(1))
    have off: "off < 2 ^ 31" using less.prems(2,5) by linarith
    have sz: "int (length acc) < c_ssize (int sz)" using False less.prems(3,4) by simp
    show ?thesis
    proof (cases "?j < occ")
      case False
      then have "occ \<le> ?j" by simp
      moreover have "?j < BLOCK_SIZE" by simp
      ultimately have "off = n" using off_eq less.prems(5) unfolding occ_def by linarith
      moreover have "read_loop bs sz cur off acc = Some (acc, off)"
        unfolding cur using False off by (intro read_loop_end [OF i(2) occ_i]) simp
      ultimately show ?thesis using len by simp
    next
      case True
      define m where "m = min (occ - ?j) (sz - length acc)"
      define d where "d = take m (drop ?j (b_memory (bs ! i)))"
      have jm: "?j + m \<le> BLOCK_SIZE" "off + m \<le> n" using True off_eq unfolding m_def occ_def by linarith+
      have step: "read_loop bs sz cur off acc = read_loop bs sz (next_block bs i) (off + m) (acc @ d)"
        unfolding cur d_def using True sz off D(5) [OF i(2)]
        by (intro read_loop_step [OF i(2) occ_i]) (simp_all add: m_def occ_def)
      have d: "d = take m (drop off (content bs n))"
      proof -
        have "d = take m (drop (BLOCK_SIZE * i + ?j) (flat bs))"
          unfolding d_def by (rule flat_slice [OF D(3) i(2) jm(1), symmetric])
        with jm(2) show ?thesis unfolding off_eq [symmetric] content_def by (simp add: drop_take)
      qed
      have ld: "length d = m" using jm len by (simp add: d)
      have dec: "(case next_block bs i of None \<Rightarrow> 0 | Some i \<Rightarrow> Suc (length bs - i))
          < (case cur of None \<Rightarrow> 0 | Some i \<Rightarrow> Suc (length bs - i))"
        using cur i by (auto simp: next_block_def)
      have cursor: "read_cursor bs n (next_block bs i) (off + m) \<or>
          length (acc @ d) = sz \<and> (\<forall>k. next_block bs i = Some k \<longrightarrow> k < length bs)"
      proof (cases "sz - length acc \<le> occ - ?j")
        case True
        then have "length (acc @ d) = sz" using ld less.prems(3) by (simp add: m_def)
        then show ?thesis by (simp add: next_block_def)
      next
        case False
        then have m: "m = occ - ?j" by (simp add: m_def)
        show ?thesis
        proof (cases "Suc i < length bs")
          case True
          then have "BLOCK_SIZE * Suc i < n" using D(1) by (simp only: block_count_less)
          then have "occ = BLOCK_SIZE" unfolding occ_def mult_Suc_right by linarith
          then have "off + m = BLOCK_SIZE * Suc i"
            using off_eq \<open>?j < occ\<close> unfolding m mult_Suc_right by linarith
          with True show ?thesis by (simp add: read_cursor_def next_block_def)
        next
          case False
          with i(2) have "length bs = Suc i" by simp
          with D(2) have "n \<le> BLOCK_SIZE * Suc i" by simp
          then have "off + m = n"
            using off_eq \<open>?j < occ\<close> less.prems(5) unfolding m occ_def mult_Suc_right by linarith
          with False show ?thesis by (simp add: read_cursor_def next_block_def)
        qed
      qed
      have acc: "length (acc @ d) \<le> sz" using ld less.prems(3) by (simp add: m_def)
      have slice: "d @ take (sz - length (acc @ d)) (drop (off + m) (content bs n))
          = take (sz - length acc) (drop off (content bs n))"
      proof -
        have "sz - length acc = m + (sz - length (acc @ d))" using ld acc by simp
        then show ?thesis unfolding d by (simp add: take_add add.commute)
      qed
      have "off + m + min (sz - length (acc @ d)) (n - (off + m)) = off + min (sz - length acc) (n - off)"
        using acc jm unfolding length_append ld by linarith
      with less.hyps [OF dec lay less.prems(2) acc less.prems(4) jm(2) cursor] step slice
      show ?thesis by simp
    qed
  qed
qed

lemma file_read_layout:
  assumes "layout bs n" "n < 2 ^ 31" "sz < 2 ^ 63" "off \<le> n"
  shows "file_read bs n off sz = Some (take sz (drop off (content bs n)), off + min sz (n - off))"
proof -
  let ?k = "off div BLOCK_SIZE"
  define cur where "cur = (if ?k < length bs then Some ?k else None)"
  have k: "?k \<le> length bs"
    using assms(4) layoutD(2) [OF assms(1)] by (intro div_BLOCK_SIZE_le) linarith
  then have walk: "read_walk bs ?k (first_block bs) = Some cur"
    unfolding cur_def read_walk_eq by (rule write_walk_first)
  show ?thesis
  proof (cases "off = n")
    case True
    with walk assms(1) show ?thesis by (simp add: file_read_def)
  next
    case False
    then have "off < BLOCK_SIZE * length bs" using assms(4) layoutD(2) [OF assms(1)] by linarith
    then have "?k < length bs" by (simp add: BLOCK_SIZE_def less_mult_imp_div_less mult.commute)
    then have "read_cursor bs n cur off" by (simp add: cur_def read_cursor_def)
    with read_loop_layout [OF assms(1,2) _ assms(3,4), of "[]" cur] walk False assms(4)
    show ?thesis by (simp add: file_read_def)
  qed
qed

subsection \<open>Resizing truncates or extends the content\<close>

lemma last_block_occupied_min:
  assumes "Suc i = block_count m"
  shows "last_block_occupied m = int (min BLOCK_SIZE (m - BLOCK_SIZE * i))"
proof -
  have m: "m = BLOCK_SIZE * (m div BLOCK_SIZE) + m mod BLOCK_SIZE" by simp
  show ?thesis
  proof (cases "m mod BLOCK_SIZE = 0")
    case True
    with assms have "Suc i = m div BLOCK_SIZE" by (simp add: block_count_div)
    then have "m = BLOCK_SIZE * Suc i" using m True by simp
    then show ?thesis using True by (simp add: last_block_occupied_alt)
  next
    case False
    with assms have i: "i = m div BLOCK_SIZE" by (simp add: block_count_div)
    have "min BLOCK_SIZE (m - BLOCK_SIZE * i) = m mod BLOCK_SIZE"
      by (simp add: i minus_mult_div_eq_mod min_absorb2 less_imp_le)
    then show ?thesis using False by (simp add: last_block_occupied_alt)
  qed
qed

lemma layout_take:
  assumes lay: "layout bs n" and m: "m < n" "bs' = take (block_count m) bs" "bs' \<noteq> []"
  shows "layout (set_last_occupied (last_block_occupied m) bs') m"
proof -
  note D = layoutD [OF lay]
  have count: "block_count m \<le> length bs" using m(1) D(1) by (simp add: block_count_mono)
  then have len: "length bs' = block_count m" by (simp add: m(2))
  then have pos: "0 < m" using m(3) by (cases m) auto
  show ?thesis
    unfolding layout_def
  proof (intro conjI allI impI ballI)
    show "length (set_last_occupied (last_block_occupied m) bs') = block_count m" using len by simp
  next
    fix b
    assume "b \<in> set (set_last_occupied (last_block_occupied m) bs')"
    then have "b_memory b \<in> b_memory ` set (set_last_occupied (last_block_occupied m) bs')"
      by (rule imageI)
    then show "length (b_memory b) = BLOCK_SIZE"
      using D(3) unfolding memory_image_set_last_occupied m(2) by (auto dest: in_set_takeD)
  next
    fix i
    assume "i < length (set_last_occupied (last_block_occupied m) bs')"
    then have i: "i < block_count m" by (simp add: len)
    show "b_occupied (set_last_occupied (last_block_occupied m) bs' ! i)
        = Some (int (min BLOCK_SIZE (m - BLOCK_SIZE * i)))"
    proof (cases "Suc i = block_count m")
      case True
      then have "last_block_occupied m = int (min BLOCK_SIZE (m - BLOCK_SIZE * i))"
        by (rule last_block_occupied_min)
      with True i len show ?thesis by (simp add: occupied_set_last_occupied)
    next
      case False
      with i have "BLOCK_SIZE * Suc i < m" by (intro block_fits) linarith
      then have "min BLOCK_SIZE (m - BLOCK_SIZE * i) = min BLOCK_SIZE (n - BLOCK_SIZE * i)"
        using m(1) unfolding mult_Suc_right by linarith
      with False i len count show ?thesis
        by (simp add: occupied_set_last_occupied m(2) D(4))
    qed
  qed
qed

lemma file_shrink_layout:
  assumes lay: "layout bs n" and m: "m < n"
  shows "\<exists>bs'. file_shrink bs n m = Some (bs', m) \<and> layout bs' m \<and>
     content bs' m = take m (content bs n)"
proof -
  note D = layoutD [OF lay]
  define bs1 where "bs1 = take (block_count m) bs"
  have count: "block_count m \<le> length bs" using m D(1) by (simp add: block_count_mono)
  have "length bs - (block_count n - block_count m) = block_count m" using D(1) count by simp
  then have shrink: "shrink_blocks bs (block_count n - block_count m) = Some bs1"
    using D(1) by (simp add: shrink_blocks_take bs1_def)
  have flat1: "take m (flat bs1) = take m (content bs n)"
  proof -
    have "m \<le> BLOCK_SIZE * block_count m" by (simp add: block_count_le)
    then show ?thesis
      unfolding bs1_def content_def flat_take [OF D(3) count] using m by (simp add: min_def)
  qed
  show ?thesis
  proof (cases "bs1 = []")
    case True
    then have "m = 0" using count by (auto simp: bs1_def)
    with shrink True show ?thesis by (simp add: file_shrink_def content_def)
  next
    case False
    have "flat (set_last_occupied k bs1) = flat bs1" for k
      unfolding flat_def by (simp only: memory_set_last_occupied)
    with shrink False flat1 layout_take [OF lay m bs1_def False] show ?thesis
      by (simp add: file_shrink_def content_def)
  qed
qed

text \<open>
  Growing keeps the content and appends the bytes of the tail of the old last block, whatever
  they are, and then zeros. Only when the old size is a multiple of the block size are the
  new bytes all zero.
\<close>

definition fresh_tail :: "block list \<Rightarrow> nat \<Rightarrow> nat \<Rightarrow> cell list" where
  "fresh_tail bs n m =
     take (m - n) (drop n (flat bs) @ replicate (BLOCK_SIZE * (block_count m - block_count n)) (Some 0))"

lemma memory_grow_blocks:
  "map b_memory (grow_blocks bs k) = map b_memory bs @ replicate k (replicate BLOCK_SIZE (Some 0))"
proof (induction k arbitrary: bs)
  case 0
  then show ?case by simp
next
  case (Suc k)
  show ?case by (simp add: Suc.IH calloc_block_def replicate_append_same flip: replicate_Suc)
qed

lemma concat_replicate_replicate: "concat (replicate k (replicate n x)) = replicate (n * k) x"
  by (induction k) (auto simp: replicate_add)

lemma flat_grow_blocks: "flat (grow_blocks bs k) = flat bs @ replicate (BLOCK_SIZE * k) (Some 0)"
  by (simp add: flat_def memory_grow_blocks concat_replicate_replicate)

lemma occupied_grow_blocks:
  assumes "0 < k" "i < length bs + k" "Suc i < length bs \<Longrightarrow> b_occupied (bs ! i) = Some (int BLOCK_SIZE)"
    and "Suc i < length bs + k"
  shows "b_occupied (grow_blocks bs k ! i) = Some (int BLOCK_SIZE)"
  using assms
proof (induction k arbitrary: bs)
  case 0
  then show ?case by simp
next
  case (Suc k)
  define bs1 where "bs1 = set_last_occupied (int BLOCK_SIZE) bs @ [calloc_block]"
  have step: "b_occupied (bs1 ! i) = Some (int BLOCK_SIZE)" if "i < length bs"
    using that Suc.prems(3) by (cases "Suc i = length bs")
      (auto simp: bs1_def nth_append occupied_set_last_occupied)
  have len: "length bs1 = Suc (length bs)" by (simp add: bs1_def)
  show ?case
  proof (cases "k = 0")
    case True
    with Suc.prems step show ?thesis by (simp add: bs1_def [symmetric])
  next
    case False
    with Suc.IH [of bs1] Suc.prems step len show ?thesis by (simp add: bs1_def [symmetric])
  qed
qed

lemma file_grow_layout:
  assumes lay: "layout bs n" and m: "n < m"
  shows "\<exists>bs'. file_grow bs n m = Some (bs', m) \<and> layout bs' m \<and>
     content bs' m = content bs n @ fresh_tail bs n m"
proof -
  note D = layoutD [OF lay]
  define k where "k = block_count m - block_count n"
  define bs1 where "bs1 = grow_blocks bs k"
  define bs' where "bs' = set_last_occupied (last_block_occupied m) bs1"
  have count: "block_count n \<le> block_count m" using m by (simp add: block_count_mono)
  have len: "length bs1 = block_count m" using count D(1) by (simp add: bs1_def k_def)
  have ne: "bs1 \<noteq> []" using len m by auto
  have flat1: "flat bs' = flat bs @ replicate (BLOCK_SIZE * k) (Some 0)"
    unfolding flat_def bs'_def memory_set_last_occupied
    by (simp only: flat_def [symmetric] bs1_def flat_grow_blocks)
  have full: "b_occupied (bs ! i) = Some (int BLOCK_SIZE)" if "Suc i < length bs" for i
  proof -
    have "BLOCK_SIZE * Suc i < n" using that D(1) by (intro block_fits) simp
    then have "min BLOCK_SIZE (n - BLOCK_SIZE * i) = BLOCK_SIZE" unfolding mult_Suc_right by linarith
    with D(4) [of i] that show ?thesis by simp
  qed
  have occ: "b_occupied (bs1 ! i) = Some (int BLOCK_SIZE)" if "Suc i < block_count m" for i
  proof (cases "k = 0")
    case True
    then show ?thesis using full [of i] that len by (simp add: bs1_def)
  next
    case False
    then show ?thesis
      unfolding bs1_def using full [of i] that len by (intro occupied_grow_blocks) (auto simp: bs1_def)
  qed
  have "layout bs' m"
    unfolding layout_def
  proof (intro conjI allI impI ballI)
    show "length bs' = block_count m" by (simp add: bs'_def len)
  next
    fix b assume "b \<in> set bs'"
    then have "b_memory b \<in> b_memory ` set bs'" by (rule imageI)
    then have "b_memory b \<in> set (map b_memory bs1)"
      unfolding bs'_def memory_image_set_last_occupied by simp
    then show "length (b_memory b) = BLOCK_SIZE"
      using D(3) unfolding bs1_def memory_grow_blocks by auto
  next
    fix i assume "i < length bs'"
    then have i: "i < block_count m" by (simp add: bs'_def len)
    show "b_occupied (bs' ! i) = Some (int (min BLOCK_SIZE (m - BLOCK_SIZE * i)))"
    proof (cases "Suc i = block_count m")
      case True
      with i len show ?thesis
        by (simp add: bs'_def occupied_set_last_occupied last_block_occupied_min)
    next
      case False
      with i have "BLOCK_SIZE * Suc i < m" by (intro block_fits) linarith
      then have "min BLOCK_SIZE (m - BLOCK_SIZE * i) = BLOCK_SIZE" unfolding mult_Suc_right by linarith
      with False i len occ show ?thesis by (simp add: bs'_def occupied_set_last_occupied)
    qed
  qed
  moreover have "content bs' m = content bs n @ fresh_tail bs n m"
  proof -
    have "take m xs = take n xs @ take (m - n) (drop n xs)" for xs :: "cell list"
      using m by (simp flip: take_add)
    moreover have "n \<le> length (flat bs)" using D(2,3) by (simp add: length_flat)
    ultimately show ?thesis by (simp add: content_def fresh_tail_def flat1 k_def)
  qed
  moreover have "file_grow bs n m = Some (bs', m)"
    using ne by (simp add: file_grow_def Let_def k_def bs1_def bs'_def)
  ultimately show ?thesis by blast
qed

lemma fresh_tail_zero:
  assumes lay: "layout bs n" and "n mod BLOCK_SIZE = 0" "n < m"
  shows "fresh_tail bs n m = replicate (m - n) (Some 0)"
proof -
  note D = layoutD [OF lay]
  have n: "n = BLOCK_SIZE * block_count n"
    using assms(2) mult_div_mod_eq [of BLOCK_SIZE n] by (simp only: block_count_div refl if_True add_0_right)
  then have "length (flat bs) = n" using D by (simp add: length_flat)
  moreover have "m - n \<le> BLOCK_SIZE * (block_count m - block_count n)"
    using n block_count_le [of m "block_count m"] by (simp add: diff_mult_distrib2)
  ultimately show ?thesis by (simp add: fresh_tail_def)
qed

end
