(* ===== verification/UFS_Spec.thy ===== *)
theory UFS_Spec
  imports UFS_Inv UFS_Layout
begin

section \<open>UserFS: the file system it implements\<close>

text \<open>
  What \<^verbatim>\<open>hw3/userfs.h\<close> promises, without blocks, reference counts or descriptor tables: names
  linked to files, files that are byte strings, and open descriptors with an offset. \<open>fs_step\<close>
  is one call on that file system as the C code makes it: a resize asks for no permission, and growing a file may bring
  bytes back that were cut off. \<open>userfs_step\<close> is what the header says: no resize through a descriptor that may
  not write, and zeros where a file grows. The two agree on every call but a resize, and on a resize under the
  rule \<open>header_call\<close>. The refinement lemma \<open>ufs_exec_refines\<close> of the next theory shows that the C code
  implements \<open>fs_step\<close>, and that no call is undefined, as long as every write is at the tail of its file and
  no open has to double a full table beyond \<^verbatim>\<open>INT_MAX\<close> (\<open>careful_call\<close>).
\<close>

subsection \<open>Calls\<close>

datatype ufs_call =
    Open string open_flags
  | Write int "byte list"
  | Read int nat
  | Close int
  | Delete string
  | Resize int nat
  | Destroy

type_synonym ufs_result = "int \<times> cell list"

abbreviation no_data :: "int \<times> ufs \<Rightarrow> ufs_result \<times> ufs" where
  "no_data \<equiv> \<lambda>(r, s). ((r, []), s)"

fun ufs_exec :: "ufs_call \<Rightarrow> ufs \<Rightarrow> (ufs_result \<times> ufs) option" where
  "ufs_exec (Open name flags) s = map_option no_data (ufs_open name flags s)"
| "ufs_exec (Write fd buf) s = map_option no_data (ufs_write fd buf s)"
| "ufs_exec (Read fd sz) s = ufs_read fd sz s"
| "ufs_exec (Close fd) s = map_option no_data (ufs_close fd s)"
| "ufs_exec (Delete name) s = map_option no_data (ufs_delete name s)"
| "ufs_exec (Resize fd n) s = map_option no_data (ufs_resize fd n s)"
| "ufs_exec Destroy s = map_option (\<lambda>s'. ((0, []), s')) (ufs_destroy s)"

text \<open>The arguments a C caller can pass: an \<^verbatim>\<open>int\<close> whose predecessor is an \<^verbatim>\<open>int\<close>, sizes within
  \<^verbatim>\<open>ssize_t\<close>.\<close>

fun call_ok :: "ufs_call \<Rightarrow> bool" where
  "call_ok (Write fd buf) = (fd_ok fd \<and> length buf < 2 ^ 62)"
| "call_ok (Read fd sz) = (fd_ok fd \<and> sz < 2 ^ 63)"
| "call_ok (Close fd) = fd_ok fd"
| "call_ok (Resize fd n) = fd_ok fd"
| "call_ok _ = True"

text \<open>The limits of the code's \<^verbatim>\<open>int\<close>s: an open that would double a full table beyond \<^verbatim>\<open>INT_MAX\<close>, and a read of
  a file whose blocks span more than \<^verbatim>\<open>INT_MAX\<close> bytes (its size is below, but stray blocks have no bound).\<close>

fun within_limits :: "ufs_call \<Rightarrow> ufs \<Rightarrow> bool" where
  "within_limits (Open name flags) s = (\<not> table_full s)"
| "within_limits (Read fd sz) s = in_reach fd s"
| "within_limits _ s = True"

definition exec_ok :: "ufs \<Rightarrow> ufs_result \<Rightarrow> ufs \<Rightarrow> bool" where
  "exec_ok s r s' \<longleftrightarrow> ufs_inv s' \<and> reports s (fst r) s' \<and> (fst r = -1 \<longrightarrow> snd r = [])"

lemma ufs_exec_inv [preserve]:
  assumes "ufs_inv s" "call_ok c" "within_limits c s"
  shows "\<exists>r s'. ufs_exec c s = Some (r, s') \<and> exec_ok s r s'"
proof (cases c)
  case (Read fd sz)
  with assms ufs_read_inv [of s fd sz] show ?thesis by (fastforce simp: exec_ok_def)
next
  case (Write fd buf)
  with assms ufs_write_inv [of s fd buf] show ?thesis by (fastforce simp: exec_ok_def)
next
  case (Open name flags)
  with assms ufs_open_inv [of s name flags] show ?thesis by (fastforce simp: exec_ok_def)
next
  case (Close fd)
  with assms ufs_close_inv [of s fd] show ?thesis by (fastforce simp: exec_ok_def)
next
  case (Delete name)
  with assms ufs_delete_inv [of s name] show ?thesis by (fastforce simp: exec_ok_def)
next
  case (Resize fd n)
  with assms ufs_resize_inv [of s fd n] show ?thesis by (fastforce simp: exec_ok_def)
next
  case Destroy
  with assms ufs_destroy_inv [of s] show ?thesis
    by (auto simp: exec_ok_def ufs_destroy_eq intro!: reports_ok)
qed

text \<open>Outside the limits, a call that returns all the same keeps the invariant too.\<close>

lemma ufs_open_full:
  assumes inv: "ufs_inv s" and full: "table_full s"
  shows "ufs_open name flags s =
     (if find_file (u_heap s) (u_file_list s) name = Some None \<and> open_mode flags AND UFS_CREATE = 0
      then Some (fail_with UFS_ERR_NO_FILE s) else None)"
proof (cases rule: find_file_inv [OF inv, of name, case_names found missing])
  case (found a f)
  then show ?thesis using open_desc_full [OF inv full] by (simp add: ufs_open_def Let_def)
next
  case missing
  have "ufs_inv (create_file name s)" using inv missing(2) by (rule create_file_inv)
  with open_desc_full [of "create_file name s"] full missing(1) show ?thesis by (simp add: ufs_open_def Let_def)
qed

lemma ufs_exec_Some_inv:
  assumes inv: "ufs_inv s" and ok: "call_ok c" and exec: "ufs_exec c s = Some (r, s')"
  shows "ufs_inv s'"
proof (cases "within_limits c s")
  case True
  with ufs_exec_inv [OF inv ok] exec show ?thesis by (auto simp: exec_ok_def)
next
  case False
  show ?thesis
  proof (cases c)
    case (Open name flags)
    with False exec inv ufs_open_full [OF inv, of name flags] show ?thesis by (auto split: if_splits)
  next
    case (Read fd sz)
    with exec ok inv ufs_read_Some [of s fd sz "fst r" "snd r" s'] show ?thesis by simp
  qed (use False in simp_all)
qed


subsection \<open>The abstract file system\<close>

record fs =
  fs_error :: ufs_error_code
  fs_links :: "string \<Rightarrow> nat option"
  fs_data :: "nat \<Rightarrow> cell list option"
  fs_open :: "int \<Rightarrow> (nat \<times> open_flags \<times> nat) option"

definition can_write :: "open_flags \<Rightarrow> bool" where
  "can_write fl \<longleftrightarrow> fl AND UFS_WRITE_ONLY \<noteq> 0 \<or> fl AND UFS_READ_WRITE \<noteq> 0"

definition can_read :: "open_flags \<Rightarrow> bool" where
  "can_read fl \<longleftrightarrow> fl AND UFS_READ_ONLY \<noteq> 0 \<or> fl AND UFS_READ_WRITE \<noteq> 0"

text \<open>The least unused descriptor number.\<close>

definition next_fd :: "fs \<Rightarrow> int \<Rightarrow> bool" where
  "next_fd t fd \<longleftrightarrow> 1 \<le> fd \<and> fs_open t fd = None \<and> (\<forall>k. 1 \<le> k \<longrightarrow> k < fd \<longrightarrow> fs_open t k \<noteq> None)"

definition referenced :: "(int \<Rightarrow> (nat \<times> open_flags \<times> nat) option) \<Rightarrow> nat \<Rightarrow> bool" where
  "referenced opn a \<longleftrightarrow> (\<exists>fd fl off. opn fd = Some (a, fl, off))"

text \<open>A file lives while a name or a descriptor leads to it.\<close>

definition drop_unused :: "nat \<Rightarrow> fs \<Rightarrow> fs" where
  "drop_unused a t =
     (if (\<exists>name. fs_links t name = Some a) \<or> referenced (fs_open t) a then t
      else t\<lparr>fs_data := (fs_data t)(a := None)\<rparr>)"

definition fs_clamp :: "nat \<Rightarrow> nat \<Rightarrow> (nat \<times> open_flags \<times> nat) option \<Rightarrow> (nat \<times> open_flags \<times> nat) option" where
  "fs_clamp a n d =
     map_option (\<lambda>(b, fl, off). (b, fl, if b = a \<and> off > n then n else off)) d"

inductive fs_step :: "fs \<Rightarrow> ufs_call \<Rightarrow> ufs_result \<Rightarrow> fs \<Rightarrow> bool" where
  open_existing: "fs_links t name = Some a \<Longrightarrow> next_fd t fd \<Longrightarrow>
    fs_step t (Open name fl) (fd, []) (t\<lparr>fs_open := (fs_open t)(fd \<mapsto> (a, open_mode fl, 0))\<rparr>)"
| open_missing: "fs_links t name = None \<Longrightarrow> open_mode fl AND UFS_CREATE = 0 \<Longrightarrow>
    fs_step t (Open name fl) (-1, []) (t\<lparr>fs_error := UFS_ERR_NO_FILE\<rparr>)"
| open_create: "fs_links t name = None \<Longrightarrow> open_mode fl AND UFS_CREATE \<noteq> 0 \<Longrightarrow> fs_data t a = None \<Longrightarrow>
    next_fd t fd \<Longrightarrow>
    fs_step t (Open name fl) (fd, []) (t\<lparr>fs_links := (fs_links t)(name \<mapsto> a), fs_data := (fs_data t)(a \<mapsto> []),
      fs_open := (fs_open t)(fd \<mapsto> (a, open_mode fl, 0))\<rparr>)"
| write_bad_fd: "fs_open t fd = None \<Longrightarrow>
    fs_step t (Write fd buf) (-1, []) (t\<lparr>fs_error := UFS_ERR_NO_FILE\<rparr>)"
| write_denied: "fs_open t fd = Some (a, fl, off) \<Longrightarrow> \<not> can_write fl \<Longrightarrow>
    fs_step t (Write fd buf) (-1, []) (t\<lparr>fs_error := UFS_ERR_NO_PERMISSION\<rparr>)"
| write_nothing: "fs_open t fd = Some (a, fl, off) \<Longrightarrow> can_write fl \<Longrightarrow>
    fs_step t (Write fd []) (0, []) t"
| write_full: "fs_open t fd = Some (a, fl, off) \<Longrightarrow> can_write fl \<Longrightarrow> buf \<noteq> [] \<Longrightarrow> fs_data t a = Some c \<Longrightarrow>
    length c + length buf > MAX_FILE_SIZE \<Longrightarrow>
    fs_step t (Write fd buf) (-1, []) (t\<lparr>fs_error := UFS_ERR_NO_MEM\<rparr>)"
| write_ok: "fs_open t fd = Some (a, fl, off) \<Longrightarrow> can_write fl \<Longrightarrow> buf \<noteq> [] \<Longrightarrow> fs_data t a = Some c \<Longrightarrow>
    length c + length buf \<le> MAX_FILE_SIZE \<Longrightarrow>
    fs_step t (Write fd buf) (int (length buf), [])
      (t\<lparr>fs_data := (fs_data t)(a \<mapsto> overwrite c off (map Some buf)),
         fs_open := (fs_open t)(fd \<mapsto> (a, fl, off + length buf))\<rparr>)"
| read_bad_fd: "fs_open t fd = None \<Longrightarrow>
    fs_step t (Read fd sz) (-1, []) (t\<lparr>fs_error := UFS_ERR_NO_FILE\<rparr>)"
| read_denied: "fs_open t fd = Some (a, fl, off) \<Longrightarrow> \<not> can_read fl \<Longrightarrow>
    fs_step t (Read fd sz) (-1, []) (t\<lparr>fs_error := UFS_ERR_NO_PERMISSION\<rparr>)"
| read_ok: "fs_open t fd = Some (a, fl, off) \<Longrightarrow> can_read fl \<Longrightarrow> fs_data t a = Some c \<Longrightarrow>
    data = take sz (drop off c) \<Longrightarrow>
    fs_step t (Read fd sz) (int (length data), data)
      (t\<lparr>fs_open := (fs_open t)(fd \<mapsto> (a, fl, off + length data))\<rparr>)"
| close_bad_fd: "fs_open t fd = None \<Longrightarrow>
    fs_step t (Close fd) (-1, []) (t\<lparr>fs_error := UFS_ERR_NO_FILE\<rparr>)"
| close_ok: "fs_open t fd = Some (a, fl, off) \<Longrightarrow>
    fs_step t (Close fd) (0, []) (drop_unused a (t\<lparr>fs_open := (fs_open t)(fd := None)\<rparr>))"
| delete_missing: "fs_links t name = None \<Longrightarrow>
    fs_step t (Delete name) (-1, []) (t\<lparr>fs_error := UFS_ERR_NO_FILE\<rparr>)"
| delete_ok: "fs_links t name = Some a \<Longrightarrow>
    fs_step t (Delete name) (0, []) (drop_unused a (t\<lparr>fs_links := (fs_links t)(name := None)\<rparr>))"
| resize_bad_fd: "fs_open t fd = None \<Longrightarrow>
    fs_step t (Resize fd n) (-1, []) (t\<lparr>fs_error := UFS_ERR_NO_FILE\<rparr>)"
| resize_full: "fs_open t fd = Some (a, fl, off) \<Longrightarrow> fs_data t a = Some c \<Longrightarrow> length c < n \<Longrightarrow>
    n > MAX_FILE_SIZE \<Longrightarrow>
    fs_step t (Resize fd n) (-1, []) (t\<lparr>fs_error := UFS_ERR_NO_MEM\<rparr>)"
| resize_down: "fs_open t fd = Some (a, fl, off) \<Longrightarrow> fs_data t a = Some c \<Longrightarrow> n \<le> length c \<Longrightarrow>
    fs_step t (Resize fd n) (0, [])
      (t\<lparr>fs_data := (fs_data t)(a \<mapsto> take n c), fs_open := fs_clamp a n \<circ> fs_open t\<rparr>)"
| resize_up: "fs_open t fd = Some (a, fl, off) \<Longrightarrow> fs_data t a = Some c \<Longrightarrow> length c < n \<Longrightarrow>
    n \<le> MAX_FILE_SIZE \<Longrightarrow> length fresh = n - length c \<Longrightarrow>
    (length c mod BLOCK_SIZE = 0 \<Longrightarrow> fresh = replicate (n - length c) (Some 0)) \<Longrightarrow>
    fs_step t (Resize fd n) (0, []) (t\<lparr>fs_data := (fs_data t)(a \<mapsto> c @ fresh)\<rparr>)"
| destroy: "fs_step t Destroy (0, [])
    (t\<lparr>fs_links := Map.empty, fs_data := Map.empty, fs_open := (\<lambda>_. None)\<rparr>)"

subsection \<open>The file system of the header\<close>

inductive userfs_step :: "fs \<Rightarrow> ufs_call \<Rightarrow> ufs_result \<Rightarrow> fs \<Rightarrow> bool" where
  not_resize: "fs_step t c r t' \<Longrightarrow> (\<And>fd n. c \<noteq> Resize fd n) \<Longrightarrow> userfs_step t c r t'"
| resize_no_file: "fs_open t fd = None \<Longrightarrow>
    userfs_step t (Resize fd n) (-1, []) (t\<lparr>fs_error := UFS_ERR_NO_FILE\<rparr>)"
| resize_denied: "fs_open t fd = Some (a, fl, off) \<Longrightarrow> \<not> can_write fl \<Longrightarrow>
    userfs_step t (Resize fd n) (-1, []) (t\<lparr>fs_error := UFS_ERR_NO_PERMISSION\<rparr>)"
| resize_no_mem: "fs_open t fd = Some (a, fl, off) \<Longrightarrow> can_write fl \<Longrightarrow> fs_data t a = Some c \<Longrightarrow>
    length c < n \<Longrightarrow> MAX_FILE_SIZE < n \<Longrightarrow>
    userfs_step t (Resize fd n) (-1, []) (t\<lparr>fs_error := UFS_ERR_NO_MEM\<rparr>)"
| resize_truncate: "fs_open t fd = Some (a, fl, off) \<Longrightarrow> can_write fl \<Longrightarrow> fs_data t a = Some c \<Longrightarrow> n \<le> length c \<Longrightarrow>
    userfs_step t (Resize fd n) (0, [])
      (t\<lparr>fs_data := (fs_data t)(a \<mapsto> take n c), fs_open := fs_clamp a n \<circ> fs_open t\<rparr>)"
| resize_extend: "fs_open t fd = Some (a, fl, off) \<Longrightarrow> can_write fl \<Longrightarrow> fs_data t a = Some c \<Longrightarrow>
    length c < n \<Longrightarrow> n \<le> MAX_FILE_SIZE \<Longrightarrow>
    userfs_step t (Resize fd n) (0, []) (t\<lparr>fs_data := (fs_data t)(a \<mapsto> c @ replicate (n - length c) (Some 0))\<rparr>)"

text \<open>The resizes on which the code keeps to the header: through a descriptor that may write, and where the file grows,
  from a whole number of blocks.\<close>

fun header_call :: "ufs_call \<Rightarrow> fs \<Rightarrow> bool" where
  "header_call (Resize fd n) t =
     (case fs_open t fd of
        None \<Rightarrow> True
      | Some (a, fl, off) \<Rightarrow> can_write fl \<and>
          (case fs_data t a of
             None \<Rightarrow> True
           | Some c \<Rightarrow> length c < n \<and> n \<le> MAX_FILE_SIZE \<longrightarrow> length c mod BLOCK_SIZE = 0))"
| "header_call _ t = True"

lemma fs_step_header:
  assumes step: "fs_step t c r t'" and call: "header_call c t"
  shows "userfs_step t c r t'"
proof (cases "\<exists>fd n. c = Resize fd n")
  case False
  with step show ?thesis by (intro not_resize) auto
next
  case True
  then obtain fd n where c: "c = Resize fd n" by blast
  from step show ?thesis
  proof (cases rule: fs_step.cases)
    case (resize_up fd' a fl off d n' fresh)
    then have "length d mod BLOCK_SIZE = 0" using call by simp
    with resize_up have "fresh = replicate (n' - length d) (Some 0)" by blast
    with resize_up call show ?thesis by (auto intro: userfs_step.resize_extend)
  qed (use c call in \<open>auto intro: userfs_step.intros\<close>)
qed

subsection \<open>The abstraction\<close>

definition links :: "ufs \<Rightarrow> string \<Rightarrow> nat option" where
  "links s name = (case find_file (u_heap s) (u_file_list s) name of None \<Rightarrow> None | Some r \<Rightarrow> r)"

definition file_data :: "ufile \<Rightarrow> cell list" where
  "file_data f = content (f_blocks f) (f_size f)"

definition desc_view :: "filedesc \<Rightarrow> nat \<times> open_flags \<times> nat" where
  "desc_view d = (d_file d, d_open_flags d, d_offset d)"

definition abs_fs :: "ufs \<Rightarrow> fs" where
  "abs_fs s = \<lparr>fs_error = u_error s, fs_links = links s,
     fs_data = (\<lambda>a. map_option file_data (u_heap s a)),
     fs_open = (\<lambda>fd. map_option desc_view (open_at s fd))\<rparr>"

text \<open>The states in which every file is laid out, within the maximal size, and no descriptor is
  behind the end of its file.\<close>

definition laid_out :: "ufs \<Rightarrow> bool" where
  "laid_out s \<longleftrightarrow>
     (\<forall>a f. u_heap s a = Some f \<longrightarrow> layout (f_blocks f) (f_size f) \<and> f_size f \<le> MAX_FILE_SIZE) \<and>
     (\<forall>d f. Some d \<in> set (u_fds s) \<longrightarrow> u_heap s (d_file d) = Some f \<longrightarrow> d_offset d \<le> f_size f)"

definition live :: "ufs \<Rightarrow> nat \<Rightarrow> string \<Rightarrow> bool" where
  "live s a name \<longleftrightarrow> (\<exists>f. u_heap s a = Some f \<and> \<not> f_is_ghost f \<and> f_name f = name)"

lemma links_iff:
  assumes inv: "ufs_inv s"
  shows "links s name = Some a \<longleftrightarrow> live s a name"
proof (cases rule: find_file_inv [OF inv, of name, case_names found missing])
  case (found b f)
  then have "live s a name \<longleftrightarrow> a = b"
    using ufs_invD(4) [OF inv] unfolding live_def names_inv_def by (metis option.inject)
  with found(1) show ?thesis by (auto simp: links_def)
next
  case missing
  then show ?thesis by (auto simp: links_def live_def)
qed

lemma links_eqI:
  assumes "ufs_inv s" "\<And>a. live s a name \<longleftrightarrow> r = Some a"
  shows "links s name = r"
proof (cases r)
  case None
  then have "links s name \<noteq> Some a" for a using links_iff [OF assms(1)] assms(2) by simp
  then show ?thesis using None by (cases "links s name") auto
next
  case (Some a)
  then show ?thesis using links_iff [OF assms(1)] assms(2) by simp
qed

lemma links_cong:
  assumes "ufs_inv s" "ufs_inv s'" "\<And>a name. live s' a name \<longleftrightarrow> live s a name"
  shows "links s' = links s"
proof (rule ext)
  fix name
  show "links s' name = links s name"
    by (rule links_eqI [OF assms(2)]) (simp add: assms(3) links_iff [OF assms(1)])
qed

lemma abs_fs_error [simp]: "abs_fs (s\<lparr>u_error := e\<rparr>) = (abs_fs s)\<lparr>fs_error := e\<rparr>"
  by (simp add: abs_fs_def links_def open_at_def fun_eq_iff)

lemma laid_out_error [simp]: "laid_out (s\<lparr>u_error := e\<rparr>) = laid_out s"
  by (simp add: laid_out_def)

lemma abs_fs_simps [simp]:
  "fs_error (abs_fs s) = u_error s" "fs_links (abs_fs s) = links s"
  "fs_data (abs_fs s) a = map_option file_data (u_heap s a)"
  "fs_open (abs_fs s) fd = map_option desc_view (open_at s fd)"
  by (simp_all add: abs_fs_def)

lemma fs_eqI:
  fixes t t' :: fs
  assumes "fs_error t = fs_error t'" "\<And>n. fs_links t n = fs_links t' n" "\<And>a. fs_data t a = fs_data t' a"
    "\<And>fd. fs_open t fd = fs_open t' fd"
  shows "t = t'"
  using assms by (cases t; cases t') (auto intro!: ext)

text \<open>Descriptors by number, under the updates of the table.\<close>

lemma open_at_update:
  "i < length (u_fds s) \<Longrightarrow> u_fds s' = (u_fds s)[i := x] \<Longrightarrow>
     open_at s' fd = (if fd = int i + 1 then x else open_at s fd)"
  by (auto simp: open_at_def nth_list_update)

lemma open_at_padded:
  assumes "padded (u_fds s) fds" "u_fds s' = fds"
  shows "open_at s' = open_at s"
  using assms by (auto simp: open_at_def padded_def fun_eq_iff nth_append)

lemma open_at_cong: "u_fds s' = u_fds s \<Longrightarrow> open_at s' = open_at s"
  by (simp add: open_at_def fun_eq_iff)

lemma open_at_in_set: "open_at s fd = Some d \<Longrightarrow> Some d \<in> set (u_fds s)"
  by (auto simp: open_at_def split: if_splits dest: nth_mem)

lemma in_set_open_at: "Some d \<in> set (u_fds s) \<Longrightarrow> \<exists>fd. open_at s fd = Some d"
proof -
  assume "Some d \<in> set (u_fds s)"
  then obtain i where "i < length (u_fds s)" "u_fds s ! i = Some d" by (auto simp: in_set_conv_nth)
  then have "open_at s (int i + 1) = Some d" by (simp add: open_at_def)
  then show ?thesis ..
qed

lemma referenced_iff: "referenced (fs_open (abs_fs s)) a \<longleftrightarrow> refs_of (u_fds s) a \<noteq> 0"
proof -
  have "referenced (fs_open (abs_fs s)) a \<longleftrightarrow> (\<exists>fd d. open_at s fd = Some d \<and> d_file d = a)"
    by (auto simp: referenced_def desc_view_def)
  then show ?thesis
    unfolding refs_of_zero by (metis open_at_in_set in_set_open_at)
qed

lemma next_fd_least:
  assumes "least_free (u_fds s) idx"
  shows "next_fd (abs_fs s) (int idx + 1)"
  using assms by (force simp: next_fd_def least_free_def open_at_def)

subsection \<open>Opening\<close>

lemma MAX_FILE_SIZE_bound: "n \<le> MAX_FILE_SIZE \<Longrightarrow> n < 2 ^ 31"
  by (simp add: MAX_FILE_SIZE_def)

lemma laid_out_in_reach:
  assumes "laid_out s"
  shows "in_reach fd s"
proof -
  have "BLOCK_SIZE * length (f_blocks f) < 2 ^ 31" if "u_heap s a = Some f" for a f
  proof -
    have "layout (f_blocks f) (f_size f)" "f_size f \<le> MAX_FILE_SIZE"
      using assms that by (auto simp: laid_out_def)
    then have "length (f_blocks f) \<le> block_count MAX_FILE_SIZE"
      by (simp add: layoutD(1) block_count_mono)
    then have "length (f_blocks f) \<le> 204800"
      by (simp add: block_count_def BLOCK_SIZE_def MAX_FILE_SIZE_def)
    then show ?thesis by (simp add: BLOCK_SIZE_def)
  qed
  then show ?thesis by (auto simp: in_reach_def split: option.splits)
qed

lemma open_desc_abs:
  assumes inv: "ufs_inv s" and f: "u_heap s a = Some f" and laid: "laid_out s" and room: "\<not> table_full s"
  obtains fd s' where "open_desc a flags s = Some (fd, s')" "ufs_inv s'" "laid_out s'"
    "next_fd (abs_fs s) fd"
    "abs_fs s' = (abs_fs s)\<lparr>fs_open := (fs_open (abs_fs s))(fd \<mapsto> (a, flags, 0))\<rparr>"
proof -
  from open_desc_inv [OF inv f room, of flags] obtain idx s' fds where
    s': "open_desc a flags s = Some (int idx + 1, s')" "ufs_inv s'" and least: "least_free (u_fds s) idx"
    and fds: "padded (u_fds s) fds" "idx < length fds"
    "u_fds s' = fds[idx := Some \<lparr>d_file = a, d_open_flags = flags, d_offset = 0\<rparr>]"
    and heap: "u_heap s' = (u_heap s)(a \<mapsto> f\<lparr>f_refs := f_refs f + 1\<rparr>)" and err: "u_error s' = u_error s"
    by blast
  have live: "live s' b n = live s b n" for b n using heap f by (auto simp: live_def)
  have opened: "open_at s' fd = (if fd = int idx + 1 then Some \<lparr>d_file = a, d_open_flags = flags, d_offset = 0\<rparr>
      else open_at s fd)" for fd
    using open_at_update [of idx "s\<lparr>u_fds := fds\<rparr>" s'] fds open_at_padded [of s fds "s\<lparr>u_fds := fds\<rparr>"] by simp
  have "abs_fs s' = (abs_fs s)\<lparr>fs_open := (fs_open (abs_fs s))(int idx + 1 \<mapsto> (a, flags, 0))\<rparr>"
    by (rule fs_eqI)
      (auto simp: err links_cong [OF inv s'(2) live] heap f opened file_data_def desc_view_def)
  moreover have "laid_out s'"
    unfolding laid_out_def
  proof (intro conjI allI impI)
    fix b g assume "u_heap s' b = Some g"
    then show "layout (f_blocks g) (f_size g)" "f_size g \<le> MAX_FILE_SIZE"
      using laid f heap by (auto simp: laid_out_def split: if_splits)
  next
    fix d g assume "Some d \<in> set (u_fds s')" "u_heap s' (d_file d) = Some g"
    moreover have "d_offset d = 0 \<or> Some d \<in> set (u_fds s)"
      using set_update_subset_insert [of fds idx] calculation(1) fds by (fastforce simp: padded_def)
    ultimately show "d_offset d \<le> f_size g"
      using laid f heap by (auto simp: laid_out_def split: if_splits)
  qed
  ultimately show thesis using that s' next_fd_least [OF least] by blast
qed

lemma ufs_open_refines:
  assumes inv: "ufs_inv s" and laid: "laid_out s" and room: "\<not> table_full s"
  shows "\<exists>r s'. ufs_exec (Open name flags) s = Some (r, s') \<and> ufs_inv s' \<and> laid_out s' \<and>
     fs_step (abs_fs s) (Open name flags) r (abs_fs s')"
proof (cases rule: find_file_inv [OF inv, of name, case_names found missing])
  case (found a f)
  then have link: "fs_links (abs_fs s) name = Some a" by (simp add: links_def)
  obtain fd s' where open_s: "open_desc a (open_mode flags) s = Some (fd, s')" and s': "ufs_inv s'" "laid_out s'"
    and fd: "next_fd (abs_fs s) fd"
    and abs: "abs_fs s' = (abs_fs s)\<lparr>fs_open := (fs_open (abs_fs s))(fd \<mapsto> (a, open_mode flags, 0))\<rparr>"
    by (rule open_desc_abs [OF inv found(2) laid room])
  have "ufs_exec (Open name flags) s = Some ((fd, []), s')"
    using found(1) open_s by (simp add: ufs_open_def Let_def)
  moreover have "fs_step (abs_fs s) (Open name flags) (fd, []) (abs_fs s')"
    unfolding abs by (rule fs_step.open_existing [OF link fd])
  ultimately show ?thesis using s' by blast
next
  case missing
  then have link: "fs_links (abs_fs s) name = None" by (simp add: links_def)
  show ?thesis
  proof (cases "open_mode flags AND UFS_CREATE = 0")
    case True
    have "ufs_exec (Open name flags) s = Some ((-1, []), s\<lparr>u_error := UFS_ERR_NO_FILE\<rparr>)"
      using missing(1) True by (simp add: ufs_open_def Let_def)
    with inv laid fs_step.open_missing [OF link True] show ?thesis by fastforce
  next
    case False
    define c where "c = create_file name s"
    define a where "a = u_next s"
    have inv_c: "ufs_inv c" unfolding c_def using inv missing(2) by (rule create_file_inv)
    have fresh: "u_heap s a = None"
      using ufs_invD(1) [OF inv] by (force simp: list_inv_def a_def)
    have heap_c: "u_heap c = (u_heap s)(a \<mapsto> \<lparr>f_blocks = [], f_refs = 0, f_is_ghost = False,
        f_size = 0, f_name = name\<rparr>)" by (simp add: c_def create_file_def a_def)
    have c: "u_fds c = u_fds s" "u_error c = u_error s" by (simp_all add: c_def create_file_def)
    have "u_heap c a = Some \<lparr>f_blocks = [], f_refs = 0, f_is_ghost = False, f_size = 0, f_name = name\<rparr>"
      by (simp add: heap_c)
    moreover have "laid_out c"
      unfolding laid_out_def
    proof (intro conjI allI impI)
      fix b g assume "u_heap c b = Some g"
      then show "layout (f_blocks g) (f_size g)" "f_size g \<le> MAX_FILE_SIZE"
        using laid by (auto simp: laid_out_def heap_c split: if_splits)
    next
      fix d g assume d: "Some d \<in> set (u_fds c)" and g: "u_heap c (d_file d) = Some g"
      from d obtain f where "u_heap s (d_file d) = Some f"
        using ufs_invD(3) [OF inv] by (auto simp: desc_inv_def c(1))
      then have "d_file d \<noteq> a" using fresh by auto
      then show "d_offset d \<le> f_size g" using d g laid by (simp add: laid_out_def heap_c c(1))
    qed
    moreover have "\<not> table_full c" using room by (simp add: c_def)
    ultimately obtain fd s' where open_c: "open_desc a (open_mode flags) c = Some (fd, s')"
      and s': "ufs_inv s'" "laid_out s'" and fd: "next_fd (abs_fs c) fd"
      and abs: "abs_fs s' = (abs_fs c)\<lparr>fs_open := (fs_open (abs_fs c))(fd \<mapsto> (a, open_mode flags, 0))\<rparr>"
      by (rule open_desc_abs [OF inv_c])
    have exec: "ufs_exec (Open name flags) s = Some ((fd, []), s')"
      using missing(1) False open_c by (simp add: ufs_open_def Let_def c_def a_def)
    have live: "live c b n \<longleftrightarrow> (if b = a then n = name else live s b n)" for b n
      using fresh by (auto simp: live_def heap_c)
    have lnk: "links c n = (if n = name then Some a else links s n)" for n
    proof (rule links_eqI [OF inv_c])
      fix b
      have "live s b name = False" "live s a n = False"
        using missing(2) fresh by (auto simp: live_def)
      then show "live c b n \<longleftrightarrow> (if n = name then Some a else links s n) = Some b"
        by (auto simp: live links_iff [OF inv])
    qed
    have abs_c: "abs_fs c = (abs_fs s)\<lparr>fs_links := (fs_links (abs_fs s))(name \<mapsto> a),
        fs_data := (fs_data (abs_fs s))(a \<mapsto> [])\<rparr>"
      by (rule fs_eqI)
        (auto simp: c lnk heap_c open_at_cong [OF c(1)] file_data_def content_def flat_def)
    have "fs_data (abs_fs s) a = None" using fresh by simp
    moreover have "next_fd (abs_fs s) fd" using fd by (simp add: next_fd_def abs_c)
    ultimately have "fs_step (abs_fs s) (Open name flags) (fd, []) (abs_fs s')"
      unfolding abs abs_c using fs_step.open_create [OF link False] by simp
    with exec s' show ?thesis by blast
  qed
qed

subsection \<open>Operations on a descriptor\<close>

lemma abs_open_at: "open_at s fd = Some d \<Longrightarrow> fs_open (abs_fs s) fd = Some (d_file d, d_open_flags d, d_offset d)"
  by (simp add: desc_view_def)

text \<open>The abstraction after a call that replaced a file's blocks and a descriptor's offset.\<close>

lemma abs_update_desc:
  assumes inv: "ufs_inv s" "ufs_inv s'" and f: "u_heap s (d_file d) = Some f"
    and d: "i < length (u_fds s)" "u_fds s ! i = Some d" "fd = int i + 1"
    and s': "s' = s\<lparr>u_heap := (u_heap s)(d_file d \<mapsto> f\<lparr>f_blocks := bs, f_size := n\<rparr>),
       u_fds := (u_fds s)[i := Some (d\<lparr>d_offset := off\<rparr>)]\<rparr>"
  shows "abs_fs s' = (abs_fs s)\<lparr>fs_data := (fs_data (abs_fs s))(d_file d \<mapsto> content bs n),
     fs_open := (fs_open (abs_fs s))(fd \<mapsto> (d_file d, d_open_flags d, off))\<rparr>"
proof -
  have "live s' b n = live s b n" for b n using f by (auto simp: live_def s')
  from links_cong [OF inv this] show ?thesis
    by (intro fs_eqI) (auto simp: s' d(3) open_at_update [OF d(1)] desc_view_def file_data_def)
qed

lemma laid_out_update_desc:
  assumes laid: "laid_out s" and f: "u_heap s (d_file d) = Some f" and bs: "layout bs n" "n \<le> MAX_FILE_SIZE"
    and ge: "f_size f \<le> n" "off \<le> n"
  shows "laid_out (s\<lparr>u_heap := (u_heap s)(d_file d \<mapsto> f\<lparr>f_blocks := bs, f_size := n\<rparr>),
     u_fds := (u_fds s)[i := Some (d\<lparr>d_offset := off\<rparr>)]\<rparr>)"
proof -
  have "d_offset e \<le> f_size g"
    if "Some e \<in> set ((u_fds s)[i := Some (d\<lparr>d_offset := off\<rparr>)])"
      "((u_heap s)(d_file d \<mapsto> f\<lparr>f_blocks := bs, f_size := n\<rparr>)) (d_file e) = Some g" for e g
  proof -
    have "e = d\<lparr>d_offset := off\<rparr> \<or> Some e \<in> set (u_fds s)"
      using that(1) set_update_subset_insert by fastforce
    then show ?thesis using that(2) laid f ge by (fastforce simp: laid_out_def split: if_splits)
  qed
  moreover have "layout (f_blocks g) (f_size g) \<and> f_size g \<le> MAX_FILE_SIZE"
    if "((u_heap s)(d_file d \<mapsto> f\<lparr>f_blocks := bs, f_size := n\<rparr>)) b = Some g" for b g
    using that laid bs by (auto simp: laid_out_def split: if_splits)
  ultimately show ?thesis by (simp add: laid_out_def)
qed

text \<open>A write is at the tail of its file: in the partial last block, or at the end. An open need not double a table that
  cannot grow.\<close>

fun careful_call :: "ufs_call \<Rightarrow> ufs \<Rightarrow> bool" where
  "careful_call (Open name flags) s = (\<not> table_full s)"
| "careful_call (Write fd buf) s =
     (case open_at s fd of
        None \<Rightarrow> True
      | Some d \<Rightarrow>
          (case u_heap s (d_file d) of
             None \<Rightarrow> True
           | Some f \<Rightarrow> d_offset d div BLOCK_SIZE = f_size f div BLOCK_SIZE))"
| "careful_call _ s = True"

lemma laid_outD:
  assumes "ufs_inv s" "laid_out s" "u_heap s (d_file d) = Some f" "i < length (u_fds s)" "u_fds s ! i = Some d"
  shows "layout (f_blocks f) (f_size f)" "f_size f \<le> MAX_FILE_SIZE" "d_offset d \<le> f_size f"
  using assms by (auto simp: laid_out_def dest: nth_mem)

lemma length_file_data [simp]: "layout (f_blocks f) (f_size f) \<Longrightarrow> length (file_data f) = f_size f"
  by (simp add: file_data_def)

lemma ufs_write_refines:
  assumes inv: "ufs_inv s" and laid: "laid_out s" and ok: "call_ok (Write fd buf)"
    and tail: "careful_call (Write fd buf) s"
  shows "\<exists>r s'. ufs_exec (Write fd buf) s = Some (r, s') \<and> ufs_inv s' \<and> laid_out s' \<and>
     fs_step (abs_fs s) (Write fd buf) r (abs_fs s')"
proof -
  from ok have fd: "fd_ok fd" and len: "length buf < 2 ^ 62" by simp_all
  show ?thesis
  proof (cases rule: lookup_desc_cases [OF inv fd, case_names invalid valid])
    case invalid
    then have "fs_open (abs_fs s) fd = None" by simp
    from fs_step.write_bad_fd [OF this, of buf] invalid inv laid show ?thesis
      by (fastforce simp: ufs_write_def)
  next
    case (valid i d f)
    note L = laid_outD [OF inv laid valid(6,4,5)]
    have fd_i: "fd = int i + 1" using valid(1,3) by (auto simp: open_at_def split: if_splits)
    note opened = abs_open_at [OF valid(1)]
    have data: "fs_data (abs_fs s) (d_file d) = Some (file_data f)" using valid(6) by simp
    have size: "c_size (f_size f + length buf) = f_size f + length buf"
      using len L(2) by (intro c_size_id) (simp add: MAX_FILE_SIZE_def)
    consider "\<not> can_write (d_open_flags d)" | "can_write (d_open_flags d)" "buf = []"
      | "can_write (d_open_flags d)" "buf \<noteq> []" "f_size f + length buf > MAX_FILE_SIZE"
      | "can_write (d_open_flags d)" "buf \<noteq> []" "f_size f + length buf \<le> MAX_FILE_SIZE" by linarith
    then show ?thesis
    proof cases
      case 1
      from fs_step.write_denied [OF opened 1, of buf] 1 valid inv laid show ?thesis
        by (fastforce simp: ufs_write_def can_write_def)
    next
      case 2
      from fs_step.write_nothing [OF opened 2(1)] 2 valid inv laid show ?thesis
        by (fastforce simp: ufs_write_def can_write_def)
    next
      case 3
      have "length (file_data f) + length buf > MAX_FILE_SIZE" using 3 L(1) by simp
      from fs_step.write_full [OF opened 3(1,2) data this] 3 valid inv laid size show ?thesis
        by (fastforce simp: ufs_write_def can_write_def)
    next
      case 4
      let ?off = "d_offset d + length buf" and ?n = "max (f_size f) (d_offset d + length buf)"
      have "d_offset d div BLOCK_SIZE = f_size f div BLOCK_SIZE" using tail valid(1,6) by simp
      from file_write_layout [OF L(1,3) this, of buf] obtain bs where
        w: "file_write (f_blocks f) (f_size f) (d_offset d) buf = Some (length buf, bs, ?n, ?off)"
        and bs: "layout bs ?n" "content bs ?n = overwrite (file_data f) (d_offset d) (map Some buf)"
        by (auto simp: file_data_def)
      define s' where "s' = s\<lparr>u_heap := (u_heap s)(d_file d \<mapsto> f\<lparr>f_blocks := bs, f_size := ?n\<rparr>),
        u_fds := (u_fds s)[i := Some (d\<lparr>d_offset := ?off\<rparr>)]\<rparr>"
      have exec: "ufs_exec (Write fd buf) s = Some ((int (length buf), []), s')"
        using 4 valid w size len by (auto simp: ufs_write_def can_write_def s'_def)
      obtain r s'' where "ufs_write fd buf s = Some (r, s'')" "ufs_inv s''"
        using ufs_write_inv [OF inv fd] by blast
      with exec have inv': "ufs_inv s'" by simp
      have "?n \<le> MAX_FILE_SIZE" using 4(3) L(3) by linarith
      from laid_out_update_desc [OF laid valid(6) bs(1) this] have laid': "laid_out s'"
        by (simp add: s'_def)
      have "length (file_data f) + length buf \<le> MAX_FILE_SIZE" using 4 L(1) by simp
      from fs_step.write_ok [OF opened 4(1,2) data this]
      have "fs_step (abs_fs s) (Write fd buf) (int (length buf), []) (abs_fs s')"
        unfolding abs_update_desc [OF inv inv' valid(6,4,5) fd_i s'_def] bs(2) .
      with exec inv' laid' show ?thesis by blast
    qed
  qed
qed

lemma ufs_read_refines:
  assumes inv: "ufs_inv s" and laid: "laid_out s" and ok: "call_ok (Read fd sz)"
  shows "\<exists>r s'. ufs_exec (Read fd sz) s = Some (r, s') \<and> ufs_inv s' \<and> laid_out s' \<and>
     fs_step (abs_fs s) (Read fd sz) r (abs_fs s')"
proof -
  from ok have fd: "fd_ok fd" and sz: "sz < 2 ^ 63" by simp_all
  show ?thesis
  proof (cases rule: lookup_desc_cases [OF inv fd, case_names invalid valid])
    case invalid
    then have "fs_open (abs_fs s) fd = None" by simp
    from fs_step.read_bad_fd [OF this, of sz] invalid inv laid show ?thesis
      by (fastforce simp: ufs_read_def)
  next
    case (valid i d f)
    note L = laid_outD [OF inv laid valid(6,4,5)]
    have fd_i: "fd = int i + 1" using valid(1,3) by (auto simp: open_at_def split: if_splits)
    note opened = abs_open_at [OF valid(1)]
    have data: "fs_data (abs_fs s) (d_file d) = Some (file_data f)" using valid(6) by simp
    show ?thesis
    proof (cases "can_read (d_open_flags d)")
      case False
      from fs_step.read_denied [OF opened False, of sz] False valid inv laid show ?thesis
        by (fastforce simp: ufs_read_def can_read_def)
    next
      case True
      define out where "out = take sz (drop (d_offset d) (file_data f))"
      have len: "length out = min sz (f_size f - d_offset d)" using L(1) by (auto simp: out_def)
      define s' where "s' = s\<lparr>u_fds := (u_fds s)[i := Some (d\<lparr>d_offset := d_offset d + length out\<rparr>)]\<rparr>"
      have same: "f\<lparr>f_blocks := f_blocks f, f_size := f_size f\<rparr> = f" by simp
      have s'_eq: "s' = s\<lparr>u_heap := (u_heap s)(d_file d \<mapsto> f\<lparr>f_blocks := f_blocks f, f_size := f_size f\<rparr>),
          u_fds := (u_fds s)[i := Some (d\<lparr>d_offset := d_offset d + length out\<rparr>)]\<rparr>"
        unfolding same s'_def using valid(6) by (cases s) (simp add: fun_upd_idem)
      have "file_read (f_blocks f) (f_size f) (d_offset d) sz = Some (out, d_offset d + length out)"
        using file_read_layout [OF L(1) MAX_FILE_SIZE_bound [OF L(2)] sz L(3)]
        unfolding len by (simp add: out_def file_data_def)
      then have exec: "ufs_exec (Read fd sz) s = Some ((int (length out), out), s')"
        using True valid by (auto simp: ufs_read_def can_read_def s'_def)
      have inv': "ufs_inv s'"
        using ufs_read_inv [OF inv fd laid_out_in_reach [OF laid] sz] exec by auto
      have "laid_out s'"
        unfolding s'_eq using len L(3) by (intro laid_out_update_desc [OF laid valid(6) L(1,2)]) auto
      have "(fs_data (abs_fs s))(d_file d \<mapsto> content (f_blocks f) (f_size f)) = fs_data (abs_fs s)"
        using data by (auto simp: fun_eq_iff file_data_def)
      then have abs: "abs_fs s' = (abs_fs s)\<lparr>fs_open := (fs_open (abs_fs s))
          (fd \<mapsto> (d_file d, d_open_flags d, d_offset d + length out))\<rparr>"
        unfolding abs_update_desc [OF inv inv' valid(6,4,5) fd_i s'_eq] by simp
      have "fs_step (abs_fs s) (Read fd sz) (int (length out), out) (abs_fs s')"
        unfolding abs by (rule fs_step.read_ok [OF opened True data out_def])
      with exec inv' \<open>laid_out s'\<close> show ?thesis by blast
    qed
  qed
qed

end
