(* ===== verification/UFS_Refine.thy ===== *)
theory UFS_Refine
  imports UFS_Spec
begin

section \<open>UserFS: the C code implements the file system\<close>

text \<open>
  The remaining calls of \<^verbatim>\<open>hw3/userfs.c\<close> against \<^const>\<open>fs_step\<close>: closing, deleting, resizing and
  destroying; then \<open>ufs_exec_refines\<close> for any call and \<open>ufs_run_refines\<close> for any sequence of
  calls a careful client makes.
\<close>

subsection \<open>Closing and deleting\<close>

lemma linked_iff:
  assumes inv: "ufs_inv s" and f: "u_heap s a = Some f"
  shows "links s name = Some a \<longleftrightarrow> \<not> f_is_ghost f \<and> f_name f = name"
  using f by (auto simp: links_iff [OF inv] live_def)

lemma laid_out_sub:
  assumes "laid_out s"
    and "\<And>b g. u_heap s' b = Some g \<Longrightarrow>
      \<exists>g0. u_heap s b = Some g0 \<and> f_blocks g = f_blocks g0 \<and> f_size g = f_size g0"
    and "\<And>d. Some d \<in> set (u_fds s') \<Longrightarrow> Some d \<in> set (u_fds s)"
  shows "laid_out s'"
  unfolding laid_out_def
proof (intro conjI allI impI)
  fix b g assume "u_heap s' b = Some g"
  with assms(1,2) show "layout (f_blocks g) (f_size g)" "f_size g \<le> MAX_FILE_SIZE"
    by (metis laid_out_def)+
next
  fix d g assume "Some d \<in> set (u_fds s')" "u_heap s' (d_file d) = Some g"
  with assms show "d_offset d \<le> f_size g" by (metis laid_out_def)
qed

lemma set_close: "Some d \<in> set (fds[i := None]) \<Longrightarrow> Some d \<in> set fds"
  using set_update_subset_insert by fastforce

lemma ufs_close_refines:
  assumes inv: "ufs_inv s" and laid: "laid_out s" and ok: "call_ok (Close fd)"
  shows "\<exists>r s'. ufs_exec (Close fd) s = Some (r, s') \<and> ufs_inv s' \<and> laid_out s' \<and>
     fs_step (abs_fs s) (Close fd) r (abs_fs s')"
proof -
  from ok have fd: "fd_ok fd" by simp
  show ?thesis
  proof (cases rule: lookup_desc_cases [OF inv fd, case_names invalid valid])
    case invalid
    then have "fs_open (abs_fs s) fd = None" by simp
    from fs_step.close_bad_fd [OF this] invalid inv laid show ?thesis
      by (fastforce simp: ufs_close_def)
  next
    case (valid i d f)
    define a where "a = d_file d"
    define fds where "fds = (u_fds s)[i := None]"
    define gone where "gone \<longleftrightarrow> f_refs f - 1 \<le> 0 \<and> f_is_ghost f"
    define s' where "s' = (if gone
      then s\<lparr>u_heap := (u_heap s)(a := None), u_file_list := remove1 a (u_file_list s), u_fds := fds,
             u_used := u_used s - 1, u_freed := u_freed s @ file_pieces a f @ [Descriptor i]\<rparr>
      else s\<lparr>u_heap := (u_heap s)(a \<mapsto> f\<lparr>f_refs := f_refs f - 1\<rparr>), u_fds := fds, u_used := u_used s - 1,
             u_freed := u_freed s @ [Descriptor i]\<rparr>)"
    have fd_i: "fd = int i + 1" using valid(1,3) by (auto simp: open_at_def split: if_splits)
    have f: "u_heap s a = Some f" using valid(6) by (simp add: a_def)
    have "ufs_close fd s = Some (0, s')"
      using valid by (cases gone) (auto simp: ufs_close_def Let_def ufs_unlink_file_def ufs_free_file_def
          file_pieces_def s'_def gone_def a_def fds_def)
    with ufs_close_inv [OF inv fd] have exec: "ufs_exec (Close fd) s = Some ((0, []), s')" and inv': "ufs_inv s'"
      by auto
    have fds': "u_fds s' = fds" and err': "u_error s' = u_error s"
      and heap': "u_heap s' = (u_heap s)(a := if gone then None else Some (f\<lparr>f_refs := f_refs f - 1\<rparr>))"
      by (simp_all add: s'_def)
    have opened: "open_at s' k = (if k = fd then None else open_at s k)" for k
      using open_at_update [OF valid(4), of s' None] fds' by (simp add: fds_def fd_i)
    have "refs_of fds a + 1 = refs_of (u_fds s) a"
      using refs_of_update [OF valid(4), of None a] valid(5) by (simp add: fds_def a_def)
    then have refs: "f_refs f - 1 = int (refs_of fds a)"
      using valid(8) by (simp add: file_ok_def a_def)
    have live: "live s' b n = live s b n" for b n
      using f by (auto simp: live_def s'_def gone_def)
    have laid': "laid_out s'"
      using f set_close by (intro laid_out_sub [OF laid]) (auto simp: s'_def fds_def split: if_splits)
    define t where "t = (abs_fs s)\<lparr>fs_open := (fs_open (abs_fs s))(fd := None)\<rparr>"
    have "fs_open t = fs_open (abs_fs s')" by (auto simp: t_def opened)
    then have "referenced (fs_open t) a \<longleftrightarrow> refs_of fds a \<noteq> 0"
      by (simp only: referenced_iff fds')
    moreover have "(\<exists>name. fs_links t name = Some a) \<longleftrightarrow> \<not> f_is_ghost f"
      by (simp add: t_def linked_iff [OF inv f])
    ultimately have "(\<exists>name. fs_links t name = Some a) \<or> referenced (fs_open t) a \<longleftrightarrow> \<not> gone"
      using refs by (auto simp: gone_def)
    then have "abs_fs s' = drop_unused a t"
      by (intro fs_eqI) (auto simp: drop_unused_def t_def opened links_cong [OF inv inv' live] heap' err'
          f file_data_def)
    with fs_step.close_ok [OF abs_open_at [OF valid(1)]]
    have "fs_step (abs_fs s) (Close fd) (0, []) (abs_fs s')" by (simp add: t_def a_def)
    with exec inv' laid' show ?thesis by blast
  qed
qed

lemma ufs_delete_refines:
  assumes inv: "ufs_inv s" and laid: "laid_out s"
  shows "\<exists>r s'. ufs_exec (Delete name) s = Some (r, s') \<and> ufs_inv s' \<and> laid_out s' \<and>
     fs_step (abs_fs s) (Delete name) r (abs_fs s')"
proof (cases rule: find_file_inv [OF inv, of name, case_names found missing])
  case missing
  then have "fs_links (abs_fs s) name = None" by (simp add: links_def)
  from fs_step.delete_missing [OF this] missing(1) inv laid show ?thesis
    by (fastforce simp: ufs_delete_def)
next
  case (found a f)
  then have link: "fs_links (abs_fs s) name = Some a" by (simp add: links_def)
  define gone where "gone \<longleftrightarrow> f_refs f \<le> 0"
  define s' where "s' = (if gone
    then s\<lparr>u_file_list := remove1 a (u_file_list s), u_heap := (u_heap s)(a := None),
           u_freed := u_freed s @ file_pieces a f\<rparr>
    else s\<lparr>u_heap := (u_heap s)(a \<mapsto> f\<lparr>f_is_ghost := True\<rparr>)\<rparr>)"
  have "ufs_delete name s = Some (0, s')"
    using found by (cases gone) (auto simp: ufs_delete_def ufs_unlink_file_def ufs_free_file_def
      file_pieces_def s'_def gone_def)
  with ufs_delete_inv [OF inv, of name] have exec: "ufs_exec (Delete name) s = Some ((0, []), s')"
    and inv': "ufs_inv s'" by auto
  have live: "live s' b n \<longleftrightarrow> b \<noteq> a \<and> live s b n" for b n
    using found(2,3) by (auto simp: live_def s'_def)
  have lnk: "links s' n = (if n = name then None else links s n)" for n
  proof (rule links_eqI [OF inv'])
    fix b
    have "links s name = Some a" using link by simp
    then show "live s' b n \<longleftrightarrow> (if n = name then None else links s n) = Some b"
      using linked_iff [OF inv found(2), of n] found(3,4) by (auto simp: live links_iff [OF inv, symmetric])
  qed
  have opened: "open_at s' = open_at s" by (rule open_at_cong) (simp add: s'_def)
  have err': "u_error s' = u_error s"
    and heap': "u_heap s' = (u_heap s)(a := if gone then None else Some (f\<lparr>f_is_ghost := True\<rparr>))"
    by (simp_all add: s'_def)
  have laid': "laid_out s'"
    using found(2) by (intro laid_out_sub [OF laid]) (auto simp: s'_def split: if_splits)
  define t where "t = (abs_fs s)\<lparr>fs_links := (fs_links (abs_fs s))(name := None)\<rparr>"
  have "fs_links t n \<noteq> Some a" for n
    using linked_iff [OF inv found(2), of n] found(3,4) by (auto simp: t_def)
  moreover have "referenced (fs_open t) a \<longleftrightarrow> refs_of (u_fds s) a \<noteq> 0"
    using referenced_iff [of s a] by (simp add: t_def)
  moreover have "f_refs f = int (refs_of (u_fds s) a)"
    using ufs_invD(5) [OF inv found(2)] by (simp add: file_ok_def)
  ultimately have "(\<exists>n. fs_links t n = Some a) \<or> referenced (fs_open t) a \<longleftrightarrow> \<not> gone"
    by (auto simp: gone_def)
  then have "abs_fs s' = drop_unused a t"
    by (intro fs_eqI) (auto simp: drop_unused_def t_def opened lnk heap' err' found(2) file_data_def)
  with fs_step.delete_ok [OF link] have "fs_step (abs_fs s) (Delete name) (0, []) (abs_fs s')"
    by (simp add: t_def)
  with exec inv' laid' show ?thesis by blast
qed

subsection \<open>Resizing\<close>

lemma open_at_map:
  assumes "u_fds s' = map g (u_fds s)" "g None = None"
  shows "open_at s' fd = g (open_at s fd)"
  using assms by (auto simp: open_at_def)

lemma clamp_view: "map_option desc_view (clamp_desc a n d) = fs_clamp a n (map_option desc_view d)"
  by (auto simp: clamp_desc_def fs_clamp_def desc_view_def split: option.splits)

lemma clamp_desc_None [simp]: "clamp_desc a n None = None"
  by (simp add: clamp_desc_def)

lemma set_clamp:
  assumes "Some d \<in> clamp_desc a n ` set fds"
  shows "(d_file d = a \<longrightarrow> d_offset d \<le> n) \<and> (d_file d \<noteq> a \<longrightarrow> Some d \<in> set fds)"
proof -
  obtain x where x: "x \<in> set fds" "Some d = clamp_desc a n x" using assms by (rule imageE) blast
  obtain e where "x = Some e" using x(2) by (cases x) auto
  with x have e: "Some e \<in> set fds" "clamp_desc a n (Some e) = Some d" by simp_all
  show ?thesis
  proof (cases "d_file e = a \<and> d_offset e > n")
    case True
    with e(2) show ?thesis by (auto simp: clamp_desc_def)
  next
    case False
    with e show ?thesis by (auto simp: clamp_desc_def)
  qed
qed

lemma laid_out_resize:
  assumes laid: "laid_out s" and bs: "layout bs n" "n \<le> MAX_FILE_SIZE"
    and f: "u_heap s a = Some f"
    and heap: "u_heap s' = (u_heap s)(a \<mapsto> f\<lparr>f_blocks := bs, f_size := n\<rparr>)"
    and desc: "\<And>d. Some d \<in> set (u_fds s') \<Longrightarrow>
      (d_file d = a \<longrightarrow> d_offset d \<le> n) \<and> (d_file d \<noteq> a \<longrightarrow> Some d \<in> set (u_fds s))"
  shows "laid_out s'"
  unfolding laid_out_def
proof (intro conjI allI impI)
  fix b g assume "u_heap s' b = Some g"
  then show "layout (f_blocks g) (f_size g)" "f_size g \<le> MAX_FILE_SIZE"
    using laid bs by (auto simp: heap laid_out_def split: if_splits)
next
  fix d g assume "Some d \<in> set (u_fds s')" "u_heap s' (d_file d) = Some g"
  with desc [OF this(1)] laid show "d_offset d \<le> f_size g"
    by (auto simp: heap laid_out_def split: if_splits)
qed

lemma abs_resize:
  assumes inv: "ufs_inv s" "ufs_inv s'" and f: "u_heap s a = Some f"
    and s': "u_heap s' = (u_heap s)(a \<mapsto> f\<lparr>f_blocks := bs, f_size := n\<rparr>)" "u_error s' = u_error s"
    and opened: "\<And>fd. fs_open (abs_fs s') fd = opn fd"
  shows "abs_fs s' = (abs_fs s)\<lparr>fs_data := (fs_data (abs_fs s))(a \<mapsto> content bs n), fs_open := opn\<rparr>"
proof -
  have live: "live s' b m = live s b m" for b m using f by (auto simp: live_def s')
  show ?thesis
    by (rule fs_eqI) (use opened in \<open>auto simp: s' links_cong [OF inv live] file_data_def\<close>)
qed

lemma ufs_resize_refines:
  assumes inv: "ufs_inv s" and laid: "laid_out s" and ok: "call_ok (Resize fd n)"
  shows "\<exists>r s'. ufs_exec (Resize fd n) s = Some (r, s') \<and> ufs_inv s' \<and> laid_out s' \<and>
     fs_step (abs_fs s) (Resize fd n) r (abs_fs s')"
proof -
  from ok have fd: "fd_ok fd" by simp
  show ?thesis
  proof (cases rule: lookup_desc_cases [OF inv fd, case_names invalid valid])
    case invalid
    then have "fs_open (abs_fs s) fd = None" by simp
    from fs_step.resize_bad_fd [OF this] invalid inv laid show ?thesis
      by (fastforce simp: ufs_resize_def)
  next
    case (valid i d f)
    define a where "a = d_file d"
    have f: "u_heap s a = Some f" using valid(6) by (simp add: a_def)
    note L = laid_outD [OF inv laid valid(6,4,5)]
    have opened: "fs_open (abs_fs s) fd = Some (a, d_open_flags d, d_offset d)"
      using abs_open_at [OF valid(1)] by (simp add: a_def)
    have data: "fs_data (abs_fs s) a = Some (content (f_blocks f) (f_size f))"
      using f by (simp add: file_data_def)
    have len: "length (content (f_blocks f) (f_size f)) = f_size f" using L(1) by simp
    have below: "d_offset e \<le> f_size f" if "Some e \<in> set (u_fds s)" "d_file e = a" for e
      using laid that f by (auto simp: laid_out_def)
    obtain r0 s0 where inv0: "ufs_resize fd n s = Some (r0, s0)" "ufs_inv s0"
      using ufs_resize_inv [OF inv fd] by blast
    consider "n = f_size f" | "n < f_size f" | "f_size f < n" "MAX_FILE_SIZE < n"
      | "f_size f < n" "n \<le> MAX_FILE_SIZE" by linarith
    then show ?thesis
    proof cases
      case 1
      have exec: "ufs_exec (Resize fd n) s = Some ((0, []), s)"
        using 1 valid by (simp add: ufs_resize_def)
      have "fs_clamp a n (map_option desc_view (open_at s k)) = map_option desc_view (open_at s k)" for k
        using below open_at_in_set [of s k] 1
        by (cases "open_at s k") (force simp: fs_clamp_def desc_view_def)+
      then have "(abs_fs s)\<lparr>fs_data := (fs_data (abs_fs s))(a \<mapsto> take n (content (f_blocks f) (f_size f))),
          fs_open := fs_clamp a n \<circ> fs_open (abs_fs s)\<rparr> = abs_fs s"
        using data len 1 by (intro fs_eqI) (auto simp: comp_def)
      with fs_step.resize_down [OF opened data, of n] len 1 exec inv laid show ?thesis by fastforce
    next
      case 2
      obtain bs where bs: "file_shrink (f_blocks f) (f_size f) n = Some (bs, n)" "layout bs n"
        "content bs n = take n (content (f_blocks f) (f_size f))"
        using file_shrink_layout [OF L(1) 2] by blast
      define s' where "s' = s\<lparr>u_heap := (u_heap s)(a \<mapsto> f\<lparr>f_blocks := bs, f_size := n\<rparr>),
        u_fds := map (clamp_desc a n) (u_fds s), u_freed := u_freed s @ free_last_blocks a (length (f_blocks f))
          (block_count (f_size f) - block_count n)\<rparr>"
      have s': "u_heap s' = (u_heap s)(a \<mapsto> f\<lparr>f_blocks := bs, f_size := n\<rparr>)" "u_error s' = u_error s"
        "u_fds s' = map (clamp_desc a n) (u_fds s)" by (simp_all add: s'_def)
      have call: "ufs_resize fd n s = Some (0, s')"
        using 2 valid bs(1) f by (simp add: ufs_resize_def clamp_descs_all [OF ufs_inv_table(1) [OF inv]] s'_def a_def)
      with inv0 have inv': "ufs_inv s'" by simp
      have "n \<le> MAX_FILE_SIZE" using 2 L(2) by simp
      then have laid': "laid_out s'"
        by (rule laid_out_resize [OF laid bs(2) _ f s'(1)]) (simp add: s'(3) set_clamp)
      have "fs_open (abs_fs s') k = (fs_clamp a n \<circ> fs_open (abs_fs s)) k" for k
        by (simp add: open_at_map [OF s'(3)] clamp_view)
      note abs = abs_resize [OF inv inv' f s'(1,2), where opn = "fs_clamp a n \<circ> fs_open (abs_fs s)", OF this]
      have "fs_step (abs_fs s) (Resize fd n) (0, []) (abs_fs s')"
        unfolding abs bs(3) using 2 len by (intro fs_step.resize_down [OF opened data]) simp
      with call inv' laid' show ?thesis by fastforce
    next
      case 3
      with fs_step.resize_full [OF opened data, of n] len valid inv laid show ?thesis
        by (fastforce simp: ufs_resize_def)
    next
      case 4
      obtain bs where bs: "file_grow (f_blocks f) (f_size f) n = Some (bs, n)" "layout bs n"
        "content bs n = content (f_blocks f) (f_size f) @ fresh_tail (f_blocks f) (f_size f) n"
        using file_grow_layout [OF L(1) 4(1)] by blast
      define s' where "s' = s\<lparr>u_heap := (u_heap s)(a \<mapsto> f\<lparr>f_blocks := bs, f_size := n\<rparr>)\<rparr>"
      have s': "u_heap s' = (u_heap s)(a \<mapsto> f\<lparr>f_blocks := bs, f_size := n\<rparr>)" "u_error s' = u_error s"
        "u_fds s' = u_fds s" by (simp_all add: s'_def)
      have call: "ufs_resize fd n s = Some (0, s')"
        using 4 valid bs(1) f by (simp add: ufs_resize_def s'_def a_def)
      with inv0 have inv': "ufs_inv s'" by simp
      have "d_offset e \<le> n" if "Some e \<in> set (u_fds s)" "d_file e = a" for e
        using below [OF that] 4(1) by linarith
      then have laid': "laid_out s'"
        by (intro laid_out_resize [OF laid bs(2) 4(2) f s'(1)]) (auto simp: s'(3))
      have "fs_open (abs_fs s') k = fs_open (abs_fs s) k" for k
        using open_at_cong [OF s'(3)] by simp
      note abs = abs_resize [OF inv inv' f s'(1,2), where opn = "fs_open (abs_fs s)", OF this]
      have abs: "abs_fs s' = (abs_fs s)\<lparr>fs_data := (fs_data (abs_fs s))(a \<mapsto> content bs n)\<rparr>"
        unfolding abs by (rule fs_eqI) simp_all
      have "length (content bs n) = n" using bs(2) by simp
      then have "length (fresh_tail (f_blocks f) (f_size f) n) = n - f_size f"
        using len unfolding bs(3) by simp
      with fs_step.resize_up [OF opened data, of n "fresh_tail (f_blocks f) (f_size f) n"] len 4
        fresh_tail_zero [OF L(1) _ 4(1)]
      have "fs_step (abs_fs s) (Resize fd n) (0, []) (abs_fs s')" by (simp add: abs bs(3))
      with call inv' laid' show ?thesis by fastforce
    qed
  qed
qed

subsection \<open>Every call, and sequences of calls\<close>

lemma ufs_destroy_refines:
  assumes inv: "ufs_inv s"
  shows "\<exists>r s'. ufs_exec Destroy s = Some (r, s') \<and> ufs_inv s' \<and> laid_out s' \<and>
     fs_step (abs_fs s) Destroy r (abs_fs s')"
proof -
  define s' where "s' = s\<lparr>u_heap := Map.empty, u_file_list := [], u_fds := [], u_used := 0, u_capacity := 0,
    u_freed := u_freed s @ table_pieces (u_fds s) @ files_pieces (u_heap s) (u_file_list s)\<rparr>"
  have exec: "ufs_exec Destroy s = Some ((0, []), s')" by (simp add: ufs_destroy_eq [OF inv] s'_def)
  have inv': "ufs_inv s'" using ufs_destroy_inv [OF inv] by (simp add: ufs_destroy_eq [OF inv] s'_def)
  have "abs_fs s' = (abs_fs s)\<lparr>fs_links := Map.empty, fs_data := Map.empty, fs_open := (\<lambda>_. None)\<rparr>"
    by (rule fs_eqI) (auto simp: s'_def links_def open_at_def)
  then have "fs_step (abs_fs s) Destroy (0, []) (abs_fs s')" using fs_step.destroy by simp
  with exec inv' show ?thesis by (auto simp: s'_def laid_out_def)
qed

lemma ufs_exec_refines:
  assumes "ufs_inv s" "laid_out s" "call_ok c" "careful_call c s"
  shows "\<exists>r s'. ufs_exec c s = Some (r, s') \<and> ufs_inv s' \<and> laid_out s' \<and>
     fs_step (abs_fs s) c r (abs_fs s')"
proof (cases c)
  case (Open name flags) with assms ufs_open_refines show ?thesis by simp
next
  case (Write fd buf) with assms ufs_write_refines show ?thesis by blast
next
  case (Read fd sz) with assms ufs_read_refines show ?thesis by blast
next
  case (Close fd) with assms ufs_close_refines show ?thesis by blast
next
  case (Delete name) with assms ufs_delete_refines show ?thesis by simp
next
  case (Resize fd n) with assms ufs_resize_refines show ?thesis by blast
next
  case Destroy with assms ufs_destroy_refines show ?thesis by simp
qed

fun ufs_run :: "ufs_call list \<Rightarrow> ufs \<Rightarrow> (ufs_result list \<times> ufs) option" where
  "ufs_run [] s = Some ([], s)"
| "ufs_run (c # cs) s =
     do { (r, s1) \<leftarrow> ufs_exec c s; (rs, s2) \<leftarrow> ufs_run cs s1; Some (r # rs, s2) }"

inductive fs_run :: "fs \<Rightarrow> ufs_call list \<Rightarrow> ufs_result list \<Rightarrow> fs \<Rightarrow> bool" where
  fs_run_Nil: "fs_run t [] [] t"
| fs_run_Cons: "userfs_step t c r t1 \<Longrightarrow> fs_run t1 cs rs t2 \<Longrightarrow> fs_run t (c # cs) (r # rs) t2"

text \<open>A careful client: its calls are within C's ranges, and each keeps the rules above in the state it is made in. A
  call that is undefined ends the list, so nothing is asked of the calls after it.\<close>

fun careful :: "ufs_call list \<Rightarrow> ufs \<Rightarrow> bool" where
  "careful [] s = True"
| "careful (c # cs) s \<longleftrightarrow> call_ok c \<and> careful_call c s \<and> header_call c (abs_fs s) \<and>
     (case ufs_exec c s of None \<Rightarrow> True | Some (_, s') \<Rightarrow> careful cs s')"

lemma ufs_run_refines:
  assumes "ufs_inv s" "laid_out s" "careful cs s"
  shows "\<exists>rs s'. ufs_run cs s = Some (rs, s') \<and> ufs_inv s' \<and> laid_out s' \<and>
     fs_run (abs_fs s) cs rs (abs_fs s')"
  using assms
proof (induction cs arbitrary: s)
  case Nil
  then show ?case by (auto intro: fs_run_Nil)
next
  case (Cons c cs)
  then obtain r s1 where s1: "ufs_exec c s = Some (r, s1)" "ufs_inv s1" "laid_out s1"
    "fs_step (abs_fs s) c r (abs_fs s1)"
    using ufs_exec_refines [of s c] by auto
  with Cons.prems have "careful cs s1" by simp
  moreover have "userfs_step (abs_fs s) c r (abs_fs s1)" using s1(4) Cons.prems(3) by (auto intro: fs_step_header)
  ultimately show ?case using Cons.IH [OF s1(2,3)] s1(1) by (fastforce intro: fs_run_Cons)
qed

lemma laid_out_init: "laid_out ufs_init"
  by (simp add: laid_out_def ufs_init_def)

end
