(* ===== verification/UFS_Correct.thy ===== *)
theory UFS_Correct
  imports UFS_Refine
begin

section \<open>UserFS: what the calls guarantee\<close>

text \<open>
  The properties of \<^verbatim>\<open>hw3/userfs.c\<close>, over the definitions of the theories \<open>UFS_File\<close> and
  \<open>UFS\<close>. The invariant is an instance of the locale \<open>invariant_system\<close>; the functional
  properties come from the refinement of \<open>UFS_Refine\<close> by inverting the abstract step.
\<close>

subsection \<open>The reachable states\<close>

definition ufs_step :: "ufs \<Rightarrow> ufs \<Rightarrow> bool" where
  "ufs_step s s' \<longleftrightarrow> (\<exists>c r. call_ok c \<and> ufs_exec c s = Some (r, s'))"

interpretation ufs_sys: invariant_system "\<lambda>s. s = ufs_init" ufs_step ufs_inv
proof
  fix s :: ufs
  assume "s = ufs_init"
  then show "ufs_inv s" by (simp add: ufs_inv_init)
next
  fix s t
  assume "ufs_inv s" "ufs_step s t"
  then show "ufs_inv t" unfolding ufs_step_def using ufs_exec_Some_inv by blast
qed

inductive_cases fs_write_cases: "fs_step t (Write fd buf) r t'"
inductive_cases fs_open_cases: "fs_step t (Open name fl) r t'"
inductive_cases fs_resize_cases: "fs_step t (Resize fd n) r t'"
inductive_cases fs_close_cases: "fs_step t (Close fd) r t'"

lemma fs_open_at: "fs_open (abs_fs s) fd = Some (a, fl, off) \<longleftrightarrow>
    (\<exists>d. open_at s fd = Some d \<and> d_file d = a \<and> d_open_flags d = fl \<and> d_offset d = off)"
  by (auto simp: desc_view_def)


lemma ufs_free_file_fds: "ufs_free_file a s = Some s' \<Longrightarrow> u_fds s' = u_fds s"
  by (auto simp: ufs_free_file_def split: option.splits)


subsection \<open>A write into a full block\<close>

text \<open>The branch of the write loop that a write behind the last block's start takes: the data goes to a
  new block at the end of the file.\<close>

lemma full_block_write:
  assumes lay: "layout bs n" and off: "off div BLOCK_SIZE < n div BLOCK_SIZE"
    and buf: "buf \<noteq> []" "off mod BLOCK_SIZE + length buf \<le> BLOCK_SIZE"
  shows "\<exists>b. file_write bs n off buf = Some (length buf, bs @ [b], n, off + length buf) \<and>
     length (b_memory b) = BLOCK_SIZE \<and> b_occupied b = Some (int (off mod BLOCK_SIZE + length buf))"
proof -
  note D = layoutD [OF lay]
  let ?k = "off div BLOCK_SIZE" and ?j = "off mod BLOCK_SIZE"
  define b where "b = malloc_block\<lparr>b_memory := overwrite (b_memory malloc_block) ?j (map Some buf),
    b_occupied := Some (max 0 (int (?j + length buf)))\<rparr>"
  have "BLOCK_SIZE * Suc ?k \<le> BLOCK_SIZE * (n div BLOCK_SIZE)"
    by (rule mult_le_mono2) (use off in linarith)
  moreover have "BLOCK_SIZE * (n div BLOCK_SIZE) \<le> n" by simp
  ultimately have fits: "BLOCK_SIZE * Suc ?k \<le> n" by linarith
  then have "BLOCK_SIZE * ?k < n" using BLOCK_SIZE_pos unfolding mult_Suc_right by linarith
  then have k: "?k < length bs" using D(1) by (simp add: block_count_less)
  have occ: "b_occupied (bs ! ?k) = Some (int BLOCK_SIZE)"
    using D(4) [OF k] fits unfolding mult_Suc_right by simp
  have "off + length buf \<le> n"
    using buf(2) fits mult_div_mod_eq [of BLOCK_SIZE off] unfolding mult_Suc_right by linarith
  then have size: "(if off + length buf > n then off + length buf else n) = n" by simp
  have walk: "write_walk bs ?k (first_block bs) = Some (Some ?k)"
    using k by (simp add: write_walk_first)
  have chunk: "write_chunk buf 0 off = length buf" using buf(2) by (simp add: write_chunk_def)
  have "block_write malloc_block ?j buf = Some b"
    unfolding b_def using buf(2) by (intro block_write_Some) (simp_all add: malloc_block_def)
  then have "write_iter buf 0 bs (Some ?k) off = Some (bs @ [b], length bs)"
    using k occ by (simp add: write_iter_def write_target_def chunk)
  then have "write_loop buf 0 bs (Some ?k) off = Some (length buf, bs @ [b], off + length buf)"
    using buf(1) chunk by (subst write_loop.simps) (simp, subst write_loop.simps, simp)
  with walk size have "file_write bs n off buf = Some (length buf, bs @ [b], n, off + length buf)"
    by (simp add: file_write_def)
  moreover have "length (b_memory b) = BLOCK_SIZE" "b_occupied b = Some (int (?j + length buf))"
    using buf(2) by (simp_all add: b_def malloc_block_def)
  ultimately show ?thesis by blast
qed


subsection \<open>A file system with one open file\<close>

text \<open>A reachable state the properties are applied to: \<open>demo\<close> has the file \<^verbatim>\<open>"a"\<close>, just created and open
  as descriptor 1, \<open>demo2\<close> has it open a second time, for reading only.\<close>

definition demo_file :: "int \<Rightarrow> ufile" where
  "demo_file refs = \<lparr>f_blocks = [], f_refs = refs, f_is_ghost = False, f_size = 0, f_name = ''a''\<rparr>"

definition demo_desc :: "open_flags \<Rightarrow> filedesc" where
  "demo_desc fl = \<lparr>d_file = 0, d_open_flags = fl, d_offset = 0\<rparr>"

definition demo :: ufs where
  "demo = \<lparr>u_error = UFS_ERR_NO_ERR, u_heap = Map.empty(0 \<mapsto> demo_file 1), u_next = 1, u_file_list = [0],
     u_fds = Some (demo_desc 9) # replicate 9 None, u_used = 1, u_capacity = 10, u_freed = []\<rparr>"

definition demo2 :: ufs where
  "demo2 = demo\<lparr>u_heap := Map.empty(0 \<mapsto> demo_file 2),
     u_fds := Some (demo_desc 9) # Some (demo_desc 2) # replicate 8 None, u_used := 2\<rparr>"

lemma demo_opened: "ufs_exec (Open ''a'' 1) ufs_init = Some ((1, []), demo)"
proof -
  have "find_slot (replicate 10 None) 0 10 = Some (Some 0)" by (subst find_slot.simps) simp
  moreover have "(replicate 10 None)[0 := Some x] = Some x # replicate 9 None" for x :: filedesc
    by (simp add: eval_nat_numeral)
  ultimately show ?thesis
    by (simp add: ufs_open_def open_desc_def install_desc_def init_table_def create_file_def ufs_init_def
        demo_def demo_file_def demo_desc_def open_mode_def UFS_CREATE_def UFS_READ_ONLY_def
        UFS_WRITE_ONLY_def UFS_READ_WRITE_def Let_def int_add_def)
qed

lemma demo2_opened: "ufs_exec (Open ''a'' 2) demo = Some ((2, []), demo2)"
proof -
  have "find_slot (Some x # replicate 9 None) 0 10 = Some (Some 1)" for x
    by (subst find_slot.simps) (simp, subst find_slot.simps, simp)
  moreover have "(Some x # replicate 9 None)[1 := Some y] = Some x # Some y # replicate 8 None" for x y :: filedesc
    by (simp add: eval_nat_numeral)
  ultimately show ?thesis
    by (simp add: ufs_open_def open_desc_def install_desc_def init_table_def demo2_def
        demo_def demo_file_def demo_desc_def open_mode_def UFS_CREATE_def UFS_READ_ONLY_def
        UFS_WRITE_ONLY_def UFS_READ_WRITE_def Let_def int_add_def)
qed

lemma demo_room [simp]: "\<not> table_full ufs_init" "\<not> table_full demo" "\<not> table_full demo2"
  by (simp_all add: table_full_def ufs_init_def demo_def demo2_def)

lemma demo_ok: "ufs_inv demo" "laid_out demo" "ufs_inv demo2" "laid_out demo2"
proof -
  show one: "ufs_inv demo" "laid_out demo"
    using ufs_exec_refines [OF ufs_inv_init laid_out_init, of "Open ''a'' 1"] demo_opened by auto
  show "ufs_inv demo2" "laid_out demo2"
    using ufs_exec_refines [OF one, of "Open ''a'' 2"] demo2_opened by auto
qed

lemma demo_at [simp]:
  "open_at demo 1 = Some (demo_desc 9)" "open_at demo2 1 = Some (demo_desc 9)"
  "open_at demo2 2 = Some (demo_desc 2)" "u_heap demo 0 = Some (demo_file 1)"
  "u_heap demo2 0 = Some (demo_file 2)"
  by (simp_all add: open_at_def demo_def demo2_def)

lemma demo_desc_simps [simp]:
  "d_file (demo_desc fl) = 0" "d_open_flags (demo_desc fl) = fl" "d_offset (demo_desc fl) = 0"
  "f_size (demo_file r) = 0" "file_data (demo_file r) = []" "f_blocks (demo_file r) = []"
  by (simp_all add: demo_desc_def demo_file_def file_data_def content_def)

lemma demo_flags [simp]: "can_write 9" "can_read 2" "\<not> can_write 2" "fd_ok 1" "fd_ok 2"
  by (simp_all add: can_write_def can_read_def fd_ok_def UFS_READ_ONLY_def UFS_WRITE_ONLY_def UFS_READ_WRITE_def)

lemma demo_links: "links demo ''a'' = Some 0" "links demo2 ''a'' = Some 0"
  by (simp_all add: links_def demo_def demo2_def demo_file_def)

subsection \<open>The properties\<close>

text \<open>C1: Any sequence of calls of \<^verbatim>\<open>hw3/userfs.c\<close> that a careful client makes from the initial state is well
  defined, and returns to the caller what the abstract file system of \<^verbatim>\<open>hw3/userfs.h\<close> (names, byte strings,
  descriptors with offsets) may return. The client's rules are on the calls alone: arguments within C's ranges; a
  write starts in the block its file ends in; a resize goes through a descriptor that may write, and grows a file
  only from a whole number of blocks; an open does not double a table of a billion descriptors.\<close>

theorem ufs_implements_file_system:
  assumes "careful cs ufs_init"
  shows "\<exists>rs s'. ufs_run cs ufs_init = Some (rs, s') \<and> fs_run (abs_fs ufs_init) cs rs (abs_fs s')"
  using ufs_run_refines [OF ufs_inv_init laid_out_init assms] by blast

theorem ufs_implements_file_system_witness:
  "\<exists>rs s'. ufs_run [Open ''a'' 1, Open ''a'' 2, Write 1 [7, 8], Resize 1 1, Close 1, Delete ''a'', Destroy] ufs_init = Some (rs, s') \<and>
     fs_run (abs_fs ufs_init) [Open ''a'' 1, Open ''a'' 2, Write 1 [7, 8], Resize 1 1, Close 1, Delete ''a'', Destroy] rs (abs_fs s')"
proof (rule ufs_implements_file_system)
  have ok: "ufs_inv demo2" "laid_out demo2" by (rule demo_ok)+
  have "call_ok (Write 1 [7, 8])" "careful_call (Write 1 [7, 8]) demo2" by simp_all
  with ufs_exec_refines [OF ok] obtain r1 s1 where 1: "ufs_exec (Write 1 [7, 8]) demo2 = Some (r1, s1)"
    and step: "fs_step (abs_fs demo2) (Write 1 [7, 8]) r1 (abs_fs s1)" by blast
  have "abs_fs s1 = (abs_fs demo2)\<lparr>fs_data := (fs_data (abs_fs demo2))(0 \<mapsto> [Some 7, Some 8]),
      fs_open := (fs_open (abs_fs demo2))(1 \<mapsto> (0, 9, 2))\<rparr>"
    using step by (auto elim!: fs_write_cases simp: overwrite_def desc_view_def MAX_FILE_SIZE_def numeral_2_eq_2)
  then have "header_call (Resize 1 1) (abs_fs s1)" by (simp del: abs_fs_simps)
  with 1 show "careful [Open ''a'' 1, Open ''a'' 2, Write 1 [7, 8], Resize 1 1, Close 1, Delete ''a'', Destroy] ufs_init"
    by (simp add: demo_opened demo2_opened del: ufs_exec.simps header_call.simps(1) abs_fs_simps split: option.split)
qed

text \<open>C5: No reachable state of the file system makes a call within the limits undefined: whatever calls came before (a
  write may be anywhere in its file), the next one dereferences no null or freed pointer, stays in its
  buffers, overflows no \<^verbatim>\<open>int\<close>, fails no assertion, ends, and leaves a well-formed state. The two limits are those of
  \<open>within_limits\<close>: a read of a file whose blocks span more than \<^verbatim>\<open>INT_MAX\<close> bytes, and an open that has to double
  a full table beyond \<^verbatim>\<open>INT_MAX\<close> entries, are left out.\<close>

theorem ufs_calls_defined:
  assumes "reachable (\<lambda>s. s = ufs_init) ufs_step s" "call_ok c" "within_limits c s"
  shows "\<exists>r s'. ufs_exec c s = Some (r, s') \<and> ufs_inv s'"
  using ufs_exec_inv [OF ufs_sys.inv_reachable [OF assms(1)] assms(2,3)] by (auto simp: exec_ok_def)

theorem ufs_calls_defined_witness:
  "reachable (\<lambda>s. s = ufs_init) ufs_step demo \<and> (\<exists>r s'. ufs_exec (Read 1 5) demo = Some (r, s') \<and> ufs_inv s')"
proof -
  have "ufs_step ufs_init demo" unfolding ufs_step_def using demo_opened call_ok.simps(5) by blast
  with reachable_init have "reachable (\<lambda>s. s = ufs_init) ufs_step demo" by (rule reachable_step) simp
  moreover have "within_limits (Read 1 5) demo" using laid_out_in_reach [OF demo_ok(2)] by simp
  ultimately show ?thesis using ufs_calls_defined [of demo "Read 1 5"] by simp
qed



text \<open>C20: In every state that keeps the invariant (so in every reachable one, however its files came about), a call
  within the limits of the \<^verbatim>\<open>int\<close>s that returns -1 returns no data and changes nothing at all but the error code, which
  is then one of "no file", "no memory" and "no permission"; any other call leaves the error code
  alone and returns a non-negative number. The code \<^verbatim>\<open>UFS_ERR_NOT_IMPLEMENTED\<close> is never set.\<close>

theorem ufs_errors:
  assumes "ufs_inv s" "call_ok c" "within_limits c s"
  shows "\<exists>r data s'. ufs_exec c s = Some ((r, data), s') \<and>
     (if r = -1
      then data = [] \<and> s' = s\<lparr>u_error := u_error s'\<rparr> \<and>
           (u_error s' = UFS_ERR_NO_FILE \<or> u_error s' = UFS_ERR_NO_MEM \<or> u_error s' = UFS_ERR_NO_PERMISSION)
      else 0 \<le> r \<and> u_error s' = u_error s)"
proof -
  obtain r s' where "ufs_exec c s = Some (r, s')" "exec_ok s r s'" using ufs_exec_inv [OF assms] by blast
  then show ?thesis
    by (intro exI [of _ "fst r"] exI [of _ "snd r"] exI [of _ s']) (auto simp: exec_ok_def reports_def)
qed

theorem ufs_errors_witness:
  "\<exists>r data s'. ufs_exec (Write 2 [1]) demo2 = Some ((r, data), s') \<and>
     (if r = -1
      then data = [] \<and> s' = demo2\<lparr>u_error := u_error s'\<rparr> \<and>
           (u_error s' = UFS_ERR_NO_FILE \<or> u_error s' = UFS_ERR_NO_MEM \<or> u_error s' = UFS_ERR_NO_PERMISSION)
      else 0 \<le> r \<and> u_error s' = u_error demo2)"
  by (rule ufs_errors [OF demo_ok(3)]) simp_all

text \<open>C21: \<open>ufs_open\<close> fails only for a missing file that it was not asked to create; otherwise it returns the
  least descriptor number that is not in use, which is then open at the start of the file, with
  read and write access when the flags name neither, and no other descriptor changes. The one exception is a full
  table whose doubled capacity is no \<^verbatim>\<open>int\<close>: there the call overflows.\<close>

theorem ufs_open_least_descriptor:
  assumes inv: "ufs_inv s"
  shows "if table_full s \<and> \<not> (links s name = None \<and> open_mode flags AND UFS_CREATE = 0) then ufs_open name flags s = None
    else \<exists>fd s'. ufs_open name flags s = Some (fd, s') \<and>
     (if links s name = None \<and> open_mode flags AND UFS_CREATE = 0
      then fd = -1 \<and> s' = s\<lparr>u_error := UFS_ERR_NO_FILE\<rparr>
      else 1 \<le> fd \<and> open_at s fd = None \<and> (\<forall>k. 1 \<le> k \<and> k < fd \<longrightarrow> open_at s k \<noteq> None) \<and>
           (\<exists>a. open_at s' fd = Some \<lparr>d_file = a, d_open_flags = open_mode flags, d_offset = 0\<rparr> \<and>
                (\<forall>b. links s name = Some b \<longrightarrow> a = b)) \<and>
           (\<forall>k. k \<noteq> fd \<longrightarrow> open_at s' k = open_at s k))"
proof -
  have opened: "\<exists>fd s'. open_desc a fl t = Some (fd, s') \<and> 1 \<le> fd \<and> open_at s fd = None \<and>
      (\<forall>k. 1 \<le> k \<and> k < fd \<longrightarrow> open_at s k \<noteq> None) \<and>
      open_at s' fd = Some \<lparr>d_file = a, d_open_flags = fl, d_offset = 0\<rparr> \<and>
      (\<forall>k. k \<noteq> fd \<longrightarrow> open_at s' k = open_at s k)"
    if inv_t: "ufs_inv t" "u_heap t a = Some f" "\<not> table_full t" and same: "u_fds t = u_fds s" for t a fl f
  proof -
    from open_desc_inv [OF inv_t, of fl] obtain idx s' fds where
      s': "open_desc a fl t = Some (int idx + 1, s')" and least: "least_free (u_fds t) idx"
      and fds: "padded (u_fds t) fds" "idx < length fds"
      "u_fds s' = fds[idx := Some \<lparr>d_file = a, d_open_flags = fl, d_offset = 0\<rparr>]" by blast
    have "open_at s' k = (if k = int idx + 1 then Some \<lparr>d_file = a, d_open_flags = fl, d_offset = 0\<rparr>
        else open_at t k)" for k
      using open_at_update [of idx "t\<lparr>u_fds := fds\<rparr>" s'] fds open_at_padded [of t fds "t\<lparr>u_fds := fds\<rparr>"] by simp
    moreover have "open_at s = open_at t" using same by (intro open_at_cong) simp
    moreover have "next_fd (abs_fs t) (int idx + 1)" using least by (rule next_fd_least)
    ultimately show ?thesis using s' by (auto simp: next_fd_def)
  qed
  show ?thesis
  proof (cases "table_full s")
    case True
    from ufs_open_full [OF inv True, of name flags] True show ?thesis
      by (cases rule: find_file_inv [OF inv, of name]) (auto simp: links_def)
  next
    case room: False
    show ?thesis
    proof (cases rule: find_file_inv [OF inv, of name, case_names found missing])
      case (found a f)
      with opened [OF inv found(2) room refl, of "open_mode flags"] room show ?thesis
        by (auto simp: ufs_open_def Let_def links_def)
    next
      case missing
      have "ufs_inv (create_file name s)" using inv missing(2) by (rule create_file_inv)
      then have create: "\<exists>fd s'. open_desc (u_next s) (open_mode flags) (create_file name s) = Some (fd, s') \<and> 1 \<le> fd \<and>
          open_at s fd = None \<and> (\<forall>k. 1 \<le> k \<and> k < fd \<longrightarrow> open_at s k \<noteq> None) \<and>
          open_at s' fd = Some \<lparr>d_file = u_next s, d_open_flags = open_mode flags, d_offset = 0\<rparr> \<and>
          (\<forall>k. k \<noteq> fd \<longrightarrow> open_at s' k = open_at s k)"
        by (rule opened) (use room in \<open>simp_all add: create_file_def table_full_def\<close>)
      have "links s name = None" using missing(1) by (simp add: links_def)
      with missing(1) create room show ?thesis
        by (cases "open_mode flags AND UFS_CREATE = 0") (auto simp: ufs_open_def Let_def)
    qed
  qed
qed

theorem ufs_open_least_descriptor_witness:
  "\<exists>fd s'. ufs_open ''b'' 1 demo = Some (fd, s') \<and>
     (if links demo ''b'' = None \<and> open_mode 1 AND UFS_CREATE = 0
      then fd = -1 \<and> s' = demo\<lparr>u_error := UFS_ERR_NO_FILE\<rparr>
      else 1 \<le> fd \<and> open_at demo fd = None \<and> (\<forall>k. 1 \<le> k \<and> k < fd \<longrightarrow> open_at demo k \<noteq> None) \<and>
           (\<exists>a. open_at s' fd = Some \<lparr>d_file = a, d_open_flags = open_mode 1, d_offset = 0\<rparr> \<and>
                (\<forall>b. links demo ''b'' = Some b \<longrightarrow> a = b)) \<and>
           (\<forall>k. k \<noteq> fd \<longrightarrow> open_at s' k = open_at demo k))"
  using ufs_open_least_descriptor [OF demo_ok(1), of "''b''" 1] by simp

text \<open>C23: Deleting a file removes its name at once; while a descriptor of it is open, the file itself and
  what its descriptors see stay as they were.\<close>

theorem ufs_delete_keeps_open_file:
  assumes "ufs_inv s" "laid_out s" "links s name = Some (d_file d)" "open_at s fd = Some d"
  shows "\<exists>s'. ufs_delete name s = Some (0, s') \<and> ufs_inv s' \<and> links s' name = None \<and> open_at s' = open_at s \<and>
     map_option file_data (u_heap s' (d_file d)) = map_option file_data (u_heap s (d_file d)) \<and>
     u_heap s' (d_file d) \<noteq> None"
proof -
  from ufs_delete_refines [OF assms(1,2), of name] obtain r s' where
    s': "ufs_exec (Delete name) s = Some (r, s')" "ufs_inv s'" "fs_step (abs_fs s) (Delete name) r (abs_fs s')"
    by blast
  have fds: "u_fds s' = u_fds s"
    using s'(1) by (auto simp: ufs_delete_def ufs_unlink_file_def bind_eq_Some_iff
        split: option.splits if_splits dest!: ufs_free_file_fds)
  define a where "a = d_file d"
  have "referenced (fs_open (abs_fs s)) a"
    using abs_open_at [OF assms(4)] unfolding referenced_def a_def by blast
  then have kept: "drop_unused a ((abs_fs s)\<lparr>fs_links := g\<rparr>) = (abs_fs s)\<lparr>fs_links := g\<rparr>" for g
    by (simp add: drop_unused_def)
  from s'(3) have r: "r = (0, [])" and abs: "abs_fs s' = (abs_fs s)\<lparr>fs_links := (fs_links (abs_fs s))(name := None)\<rparr>"
    using assms(3) kept by (cases rule: fs_step.cases; auto simp: a_def)+
  have "links s' name = None" using arg_cong [OF abs, of fs_links] by (simp add: fun_eq_iff)
  moreover have data: "map_option file_data (u_heap s' a) = map_option file_data (u_heap s a)"
    using arg_cong [OF abs, of "\<lambda>t. fs_data t a"] by simp
  moreover have "u_heap s a \<noteq> None"
    using ufs_invD(3) [OF assms(1)] open_at_in_set [OF assms(4)] by (auto simp: desc_inv_def a_def)
  ultimately show ?thesis using s'(1,2) r open_at_cong [OF fds] by (auto simp: a_def)
qed

theorem ufs_delete_keeps_open_file_witness:
  "\<exists>s'. ufs_delete ''a'' demo = Some (0, s') \<and> links s' ''a'' = None \<and> open_at s' = open_at demo"
  using ufs_delete_keeps_open_file [OF demo_ok(1,2) _ demo_at(1), of "''a''"] demo_links by auto

text \<open>C22: \<open>ufs_close\<close> frees the slot of its descriptor and nothing else of the table, and it frees the file exactly
  when no name and no other descriptor leads to it any more.\<close>

theorem ufs_close_frees_last_reference:
  assumes inv: "ufs_inv s" and laid: "laid_out s" and fd: "fd_ok fd" and d: "open_at s fd = Some d"
  shows "\<exists>s'. ufs_close fd s = Some (0, s') \<and> ufs_inv s' \<and> open_at s' = (open_at s)(fd := None) \<and>
     (u_heap s' (d_file d) = None \<longleftrightarrow>
        (\<forall>name. links s name \<noteq> Some (d_file d)) \<and>
        (\<forall>k e. k \<noteq> fd \<and> open_at s k = Some e \<longrightarrow> d_file e \<noteq> d_file d))"
proof -
  have "call_ok (Close fd)" using fd by simp
  from ufs_close_refines [OF inv laid this] obtain r s' where
    s': "ufs_exec (Close fd) s = Some (r, s')" "ufs_inv s'" "fs_step (abs_fs s) (Close fd) r (abs_fs s')"
    by blast
  define t where "t = (abs_fs s)\<lparr>fs_open := (fs_open (abs_fs s))(fd := None)\<rparr>"
  from s'(3) have r: "r = (0, [])" and abs: "abs_fs s' = drop_unused (d_file d) t"
    using abs_open_at [OF d] by (auto elim: fs_close_cases simp: t_def)
  have "\<exists>i. i < length (u_fds s) \<and> fd = int i + 1 \<and> u_fds s' = (u_fds s)[i := None]"
    using s'(1) d lookup_desc_eq [OF inv fd]
    by (auto simp: ufs_close_def Let_def bind_eq_Some_iff ufs_free_file_def ufs_unlink_file_def open_at_def
        split: option.splits if_splits)
  then have opened: "open_at s' = (open_at s)(fd := None)" by (auto simp: fun_eq_iff open_at_update)
  have heap: "u_heap s (d_file d) \<noteq> None"
    using ufs_invD(3) [OF inv] open_at_in_set [OF d] by (auto simp: desc_inv_def)
  have "u_heap s' (d_file d) = None \<longleftrightarrow> fs_data (drop_unused (d_file d) t) (d_file d) = None"
    using arg_cong [OF abs, of "\<lambda>t. fs_data t (d_file d)"] by (metis abs_fs_simps(3) map_option_is_None)
  also have "\<dots> \<longleftrightarrow> \<not> ((\<exists>name. fs_links t name = Some (d_file d)) \<or> referenced (fs_open t) (d_file d))"
    using heap by (auto simp: drop_unused_def t_def)
  also have "\<dots> \<longleftrightarrow> (\<forall>name. links s name \<noteq> Some (d_file d)) \<and>
      (\<forall>k e. k \<noteq> fd \<and> open_at s k = Some e \<longrightarrow> d_file e \<noteq> d_file d)"
    by (auto simp: t_def referenced_def desc_view_def)
  finally show ?thesis using s'(1,2) r opened by auto
qed

theorem ufs_close_frees_last_reference_witness:
  "\<exists>s'. ufs_close 1 demo = Some (0, s') \<and> open_at s' = (open_at demo)(1 := None) \<and> u_heap s' 0 \<noteq> None"
  using ufs_close_frees_last_reference [OF demo_ok(1,2) demo_flags(4) demo_at(1)] demo_links by auto

text \<open>What a state has allocated: the struct and the name of each file, the struct and the memory of each of its
  blocks, the open descriptors and their array.\<close>

definition owned :: "ufs \<Rightarrow> piece set" where
  "owned s = (\<Union>a \<in> dom (u_heap s). {File_struct a, File_name a}) \<union>
     {p. \<exists>a f i. u_heap s a = Some f \<and> i < length (f_blocks f) \<and> p \<in> {Block_struct a i, Block_memory a i}} \<union>
     {Descriptor i |i. i < length (u_fds s) \<and> u_fds s ! i \<noteq> None} \<union>
     (if u_fds s = [] then {} else {Descriptor_array})"

lemma free_blocks_pieces: "distinct (free_blocks a i bs) \<and>
    set (free_blocks a i bs) = {p. \<exists>k. i \<le> k \<and> k < i + length bs \<and> p \<in> {Block_struct a k, Block_memory a k}}"
proof (induction bs arbitrary: i)
  case Nil
  then show ?case by simp
next
  case (Cons b bs)
  have "(\<exists>k. i \<le> k \<and> k < i + length (b # bs) \<and> P k) \<longleftrightarrow> P i \<or> (\<exists>k. Suc i \<le> k \<and> k < Suc i + length bs \<and> P k)" for P
    by (auto simp: le_eq_less_or_eq [of i] Suc_le_eq)
  then show ?case using Cons.IH [of "Suc i"] by auto
qed

lemma free_descs_pieces: "distinct (free_descs i ds) \<and>
    set (free_descs i ds) = {Descriptor (i + k) |k. k < length ds \<and> ds ! k \<noteq> None}"
proof (induction ds arbitrary: i)
  case Nil
  then show ?case by simp
next
  case (Cons d ds)
  have "{Descriptor (i + k) |k. k < length (d # ds) \<and> (d # ds) ! k \<noteq> None}
      = (if d = None then {} else {Descriptor i}) \<union> {Descriptor (Suc i + k) |k. k < length ds \<and> ds ! k \<noteq> None}"
    by (auto simp: less_Suc_eq_0_disj)
  then show ?case using Cons.IH [of "Suc i"] by auto
qed

lemma file_pieces_pieces: "distinct (file_pieces a f) \<and>
    set (file_pieces a f) = {File_struct a, File_name a} \<union>
      {p. \<exists>k. k < length (f_blocks f) \<and> p \<in> {Block_struct a k, Block_memory a k}}"
  using free_blocks_pieces [of a 0 "f_blocks f"] by (auto simp: file_pieces_def)

lemma files_pieces_pieces:
  assumes "distinct as" "set as \<subseteq> dom h"
  shows "distinct (files_pieces h as) \<and>
    set (files_pieces h as) = (\<Union>a \<in> set as. {File_struct a, File_name a}) \<union>
      {p. \<exists>a f k. a \<in> set as \<and> h a = Some f \<and> k < length (f_blocks f) \<and> p \<in> {Block_struct a k, Block_memory a k}}"
  using assms
proof (induction as)
  case Nil
  then show ?case by (simp add: files_pieces_def)
next
  case (Cons a as)
  then obtain f where f: "h a = Some f" by auto
  have split: "files_pieces h (a # as) = file_pieces a f @ files_pieces h as" using f by (simp add: files_pieces_def)
  note IH = Cons.IH [OF distinct.simps(2) [THEN iffD1, OF Cons.prems(1), THEN conjunct2]]
  have rest: "distinct (files_pieces h as)"
    "set (files_pieces h as) = (\<Union>a \<in> set as. {File_struct a, File_name a}) \<union>
      {p. \<exists>a f k. a \<in> set as \<and> h a = Some f \<and> k < length (f_blocks f) \<and> p \<in> {Block_struct a k, Block_memory a k}}"
    using IH Cons.prems(2) by auto
  have "set (file_pieces a f) \<inter> set (files_pieces h as) = {}"
    using file_pieces_pieces [of a f] rest(2) Cons.prems(1) by auto
  then show ?case using file_pieces_pieces [of a f] rest f unfolding split by auto
qed

text \<open>C24: \<open>ufs_destroy\<close> frees everything a reachable state has allocated, each piece exactly once, and nothing else:
  the struct and the name of every file (with or without a name to reach it by), the struct and the memory of
  each of its blocks, every open descriptor and the array of descriptors. The next call starts from the initial
  state but for the error code.\<close>

theorem ufs_destroy_frees_all:
  assumes "reachable (\<lambda>s. s = ufs_init) ufs_step s"
  shows "\<exists>freed. ufs_destroy s = Some (ufs_init\<lparr>u_error := u_error s, u_next := u_next s, u_freed := u_freed s @ freed\<rparr>) \<and>
     distinct freed \<and> set freed = owned s"
proof -
  have inv: "ufs_inv s" using assms by (rule ufs_sys.inv_reachable)
  define fs where "fs = files_pieces (u_heap s) (u_file_list s)"
  define ds where "ds = table_pieces (u_fds s)"
  have list: "distinct (u_file_list s)" "set (u_file_list s) = dom (u_heap s)"
    using ufs_invD(1) [OF inv] by (simp_all add: list_inv_def)
  have fs: "distinct fs" "set fs = (\<Union>a \<in> dom (u_heap s). {File_struct a, File_name a}) \<union>
     {p. \<exists>a f i. u_heap s a = Some f \<and> i < length (f_blocks f) \<and> p \<in> {Block_struct a i, Block_memory a i}}"
    using files_pieces_pieces [of "u_file_list s" "u_heap s"] list by (auto simp: fs_def)
  have ds: "distinct ds" "set ds = {Descriptor i |i. i < length (u_fds s) \<and> u_fds s ! i \<noteq> None} \<union>
     (if u_fds s = [] then {} else {Descriptor_array})"
    using free_descs_pieces [of 0 "u_fds s"] by (auto simp: ds_def table_pieces_def)
  have "distinct (ds @ fs)" "set (ds @ fs) = owned s" using fs ds by (auto simp: owned_def)
  moreover have "ufs_destroy s = Some (ufs_init\<lparr>u_error := u_error s, u_next := u_next s, u_freed := u_freed s @ ds @ fs\<rparr>)"
    unfolding ufs_destroy_eq [OF inv] ds_def fs_def by (cases s) (simp add: ufs_init_def)
  ultimately show ?thesis by blast
qed

theorem ufs_destroy_frees_all_witness:
  "\<exists>freed. ufs_destroy demo2 = Some (ufs_init\<lparr>u_error := UFS_ERR_NO_ERR, u_next := 1, u_freed := freed\<rparr>) \<and>
     distinct freed \<and> set freed = {File_struct 0, File_name 0, Descriptor 0, Descriptor 1, Descriptor_array}"
proof -
  have step: "ufs_step ufs_init demo" "ufs_step demo demo2"
    unfolding ufs_step_def using demo_opened call_ok.simps(5) apply blast using demo2_opened call_ok.simps(5) by blast
  have "reachable (\<lambda>s. s = ufs_init) ufs_step demo" using reachable_init step(1) by (rule reachable_step) simp
  then have "reachable (\<lambda>s. s = ufs_init) ufs_step demo2" using step(2) by (rule reachable_step)
  from ufs_destroy_frees_all [OF this] obtain freed where
    freed: "ufs_destroy demo2 = Some (ufs_init\<lparr>u_error := u_error demo2, u_next := u_next demo2, u_freed := u_freed demo2 @ freed\<rparr>)"
    "distinct freed" "set freed = owned demo2" by blast
  have "i < 10 \<and> (Some (demo_desc 9) # Some (demo_desc 2) # replicate 8 None) ! i \<noteq> None \<longleftrightarrow> i = 0 \<or> i = 1" for i
    by (auto simp: nth_Cons' split: if_splits)
  then have "{Descriptor i |i. i < length (u_fds demo2) \<and> u_fds demo2 ! i \<noteq> None} = {Descriptor 0, Descriptor 1}"
    by (auto simp: demo2_def demo_def)
  moreover have "{p. \<exists>a f i. u_heap demo2 a = Some f \<and> i < length (f_blocks f) \<and> p \<in> {Block_struct a i, Block_memory a i}} = {}"
    by (auto simp: demo2_def split: if_splits)
  ultimately have "owned demo2 = {File_struct 0, File_name 0, Descriptor 0, Descriptor 1, Descriptor_array}"
    unfolding owned_def by (auto simp: demo2_def demo_def)
  with freed show ?thesis by (auto simp: demo2_def demo_def)
qed


definition full_block :: block where
  "full_block = \<lparr>b_memory = replicate BLOCK_SIZE (Some 0), b_occupied = Some (int BLOCK_SIZE)\<rparr>"

lemma full_block_layout: "layout [full_block] 512"
  by (simp add: layout_def full_block_def block_count_def BLOCK_SIZE_def)


lemma read_full_blocks:
  assumes "i < length bs" "\<And>k. k < length bs \<Longrightarrow> length (b_memory (bs ! k)) = BLOCK_SIZE"
    and "\<And>k. Suc k < length bs \<Longrightarrow> b_occupied (bs ! k) = Some (int BLOCK_SIZE)"
    and "b_occupied (last bs) = Some (int m)" "0 < m" "m \<le> BLOCK_SIZE"
    and "BLOCK_SIZE * length bs < 2 ^ 31" "sz < 2 ^ 63" "length acc + BLOCK_SIZE * (length bs - i) \<le> sz"
  shows "\<exists>data. read_loop bs sz (Some i) (BLOCK_SIZE * i) acc = Some (acc @ data, BLOCK_SIZE * i + length data) \<and>
     length data = BLOCK_SIZE * (length bs - i - 1) + m"
  using assms
proof (induction "length bs - i" arbitrary: i acc)
  case 0
  then show ?case by simp
next
  case (Suc k)
  let ?b = "bs ! i"
  have last: "?b = last bs" if "Suc i = length bs"
  proof -
    have "bs \<noteq> []" "i = length bs - 1" using that by auto
    then show ?thesis by (metis last_conv_nth)
  qed
  define occ where "occ = (if Suc i = length bs then m else BLOCK_SIZE)"
  have occ_i: "b_occupied ?b = Some (int occ)"
    using Suc.prems(3) [of i] Suc.prems(1,4) last by (auto simp: occ_def)
  have occ: "0 < occ" "occ \<le> BLOCK_SIZE" using Suc.prems(5,6) by (auto simp: occ_def)
  have "BLOCK_SIZE * i \<le> BLOCK_SIZE * length bs" using Suc.prems(1) by simp
  then have off: "BLOCK_SIZE * i < 2 ^ 31" using Suc.prems(7) by linarith
  have "BLOCK_SIZE * 1 \<le> BLOCK_SIZE * (length bs - i)" using Suc.prems(1) by (intro mult_le_mono2) linarith
  then have room: "length acc + occ \<le> sz" using Suc.prems(9) occ(2) by linarith
  have ssize: "c_ssize (int sz) = int sz" using Suc.prems(8) by simp
  have mod: "BLOCK_SIZE * i mod BLOCK_SIZE = 0" by simp
  define d where "d = take occ (b_memory ?b)"
  have ld: "length d = occ" using Suc.prems(2) [OF Suc.prems(1)] occ(2) by (simp add: d_def)
  have "read_loop bs sz (Some i) (BLOCK_SIZE * i) acc
      = read_loop bs sz (next_block bs i) (BLOCK_SIZE * i + occ) (acc @ d)"
    using read_loop_step [OF Suc.prems(1) occ_i, of acc sz "BLOCK_SIZE * i"] Suc.prems(2) [OF Suc.prems(1)]
      off occ room ssize
    unfolding mod d_def by (simp add: min_absorb1)
  note step = this
  show ?case
  proof (cases "Suc i = length bs")
    case True
    then have "next_block bs i = None" by (simp add: next_block_def)
    moreover have "length bs - i - 1 = 0" using True by simp
    ultimately show ?thesis unfolding step using ld True by (auto simp: occ_def)
  next
    case False
    then have "Suc i < length bs" using Suc.prems(1) by simp
    have eq: "length bs - i = Suc (length bs - Suc i)" using \<open>Suc i < length bs\<close> by simp
    have "length (acc @ d) + BLOCK_SIZE * (length bs - Suc i) \<le> sz"
      using Suc.prems(9) ld False unfolding eq mult_Suc_right by (simp add: occ_def)
    from Suc.hyps(1) [OF _ \<open>Suc i < length bs\<close> Suc.prems(2-8) this] Suc.hyps(2)
    obtain data where data: "read_loop bs sz (Some (Suc i)) (BLOCK_SIZE * Suc i) (acc @ d)
        = Some ((acc @ d) @ data, BLOCK_SIZE * Suc i + length data)"
      "length data = BLOCK_SIZE * (length bs - Suc i - 1) + m" by force
    have "occ = BLOCK_SIZE" using False by (simp add: occ_def)
    moreover have "next_block bs i = Some (Suc i)" using \<open>Suc i < length bs\<close> by (simp add: next_block_def)
    moreover have "length bs - i - 1 = Suc (length bs - Suc i - 1)" using \<open>Suc i < length bs\<close> by simp
    ultimately show ?thesis
      using data ld unfolding step by (intro exI [of _ "d @ data"]) (simp add: add.commute add.left_commute)
  qed
qed

text \<open>After such a write to a file of whole blocks, \<open>ufs_read\<close> from the start returns more bytes than the
  file has: the added block is read too.\<close>

lemma file_read_past_size:
  assumes lay: "layout bs n" and n: "n mod BLOCK_SIZE = 0" "0 < n" "n + BLOCK_SIZE < 2 ^ 31"
    and off: "off < n" and buf: "buf \<noteq> []" "off mod BLOCK_SIZE + length buf \<le> BLOCK_SIZE"
    and sz: "n + BLOCK_SIZE \<le> sz" "sz < 2 ^ 63"
  shows "\<exists>bs' data off'. file_write bs n off buf = Some (length buf, bs', n, off + length buf) \<and>
     file_read bs' n 0 sz = Some (data, off') \<and> length data > n"
proof -
  note D = layoutD [OF lay]
  have "n = BLOCK_SIZE * (n div BLOCK_SIZE)" using n(1) by auto
  then have full: "off div BLOCK_SIZE < n div BLOCK_SIZE"
    using off by (metis BLOCK_SIZE_pos less_mult_imp_div_less mult.commute)
  from full_block_write [OF lay full buf] obtain b where
    b: "file_write bs n off buf = Some (length buf, bs @ [b], n, off + length buf)"
    "length (b_memory b) = BLOCK_SIZE" "b_occupied b = Some (int (off mod BLOCK_SIZE + length buf))" by blast
  have len: "BLOCK_SIZE * length bs = n"
    using n(1) D(1) mult_div_mod_eq [of BLOCK_SIZE n] by (simp only: block_count_div refl if_True add_0_right)
  have occ: "b_occupied ((bs @ [b]) ! k) = Some (int BLOCK_SIZE)" if "Suc k < length (bs @ [b])" for k
  proof -
    have "BLOCK_SIZE * Suc k \<le> BLOCK_SIZE * length bs" by (rule mult_le_mono2) (use that in simp)
    then have "min BLOCK_SIZE (n - BLOCK_SIZE * k) = BLOCK_SIZE" unfolding len mult_Suc_right by linarith
    with that D(4) [of k] show ?thesis by (simp add: nth_append)
  qed
  have mem: "length (b_memory ((bs @ [b]) ! k)) = BLOCK_SIZE" if "k < length (bs @ [b])" for k
    using that D(5) [of k] b(2) by (cases "k < length bs") (auto simp: nth_append less_Suc_eq)
  have "\<exists>data. read_loop (bs @ [b]) sz (Some 0) (BLOCK_SIZE * 0) [] = Some ([] @ data, BLOCK_SIZE * 0 + length data) \<and>
      length data = BLOCK_SIZE * (length (bs @ [b]) - 0 - 1) + (off mod BLOCK_SIZE + length buf)"
    by (rule read_full_blocks [OF _ mem occ]) (use b(3) buf n(3) sz len in \<open>simp_all add: algebra_simps\<close>)
  then obtain data where "read_loop (bs @ [b]) sz (Some 0) 0 [] = Some (data, length data)"
    "length data = n + (off mod BLOCK_SIZE + length buf)" using len by auto
  moreover from this have "length data > n" using buf(1) by simp
  ultimately show ?thesis using b(1) n(2) by (force simp: file_read_def first_block_def)
qed

lemma file_read_past_size_example:
  "\<exists>bs' data off'. file_write [full_block] 512 0 [7] = Some (1, bs', 512, 1) \<and>
     file_read bs' 512 0 1024 = Some (data, off') \<and> length data > 512"
  using file_read_past_size [OF full_block_layout, of 0 "[7]" 1024] by (simp add: BLOCK_SIZE_def)



text \<open>Shrinking a file within its last block and growing it back restores the bytes that were cut
  off: growing does not clear the rest of the last block.\<close>

lemma file_shrink_grow_restores:
  assumes lay: "layout bs n" and m: "m < n" and same: "block_count m = block_count n"
  shows "\<exists>bs1 bs2. file_shrink bs n m = Some (bs1, m) \<and> file_grow bs1 m n = Some (bs2, n) \<and>
     content bs1 m = take m (content bs n) \<and> content bs2 n = content bs n"
proof -
  from file_shrink_layout [OF lay m] obtain bs1 where
    1: "file_shrink bs n m = Some (bs1, m)" "layout bs1 m" "content bs1 m = take m (content bs n)" by blast
  from file_grow_layout [OF 1(2) m] obtain bs2 where
    2: "file_grow bs1 m n = Some (bs2, n)" "content bs2 n = content bs1 m @ fresh_tail bs1 m n" by blast
  have "bs \<noteq> []" using layoutD(1) [OF lay] m by auto
  with 1(1) same have "bs1 = set_last_occupied (last_block_occupied m) bs"
    by (simp add: file_shrink_def)
  then have flat: "flat bs1 = flat bs" unfolding flat_def by (simp only: memory_set_last_occupied)
  have "fresh_tail bs1 m n = take (n - m) (drop m (flat bs))"
    by (simp add: fresh_tail_def same flat)
  then have "content bs2 n = take n (flat bs)"
    using 2(2) 1(3) m by (simp add: content_def min_absorb1 less_imp_le flip: take_add)
  with 1 2(1) show ?thesis by (auto simp: content_def)
qed

lemma file_shrink_grow_restores_example:
  "\<exists>bs1 bs2. file_shrink [full_block] 512 3 = Some (bs1, 3) \<and> file_grow bs1 3 512 = Some (bs2, 512) \<and>
     content bs1 3 = take 3 (content [full_block] 512) \<and> content bs2 512 = content [full_block] 512"
  by (rule file_shrink_grow_restores [OF full_block_layout]) (simp_all add: block_count_def BLOCK_SIZE_def)

end
