(* ===== verification/Growable.thy ===== *)
theory Growable
  imports Prelude
begin

section \<open>Growable arrays\<close>

text \<open>
  The arrays that the C programs grow with \<^verbatim>\<open>realloc\<close>: the interface \<open>growable\<close> (what a client
  of such an array relies on) and the array of \<^verbatim>\<open>hw2/parser.c\<close> with 32-bit size and capacity
  (\<^verbatim>\<open>token_append\<close>, \<^verbatim>\<open>command_append_arg\<close>), which provides it. \<^verbatim>\<open>realloc\<close> keeps the common prefix
  and leaves the rest indeterminate (\<^const>\<open>None\<close>).
\<close>

subsection \<open>The interface\<close>

locale growable =
  fixes items :: "'v \<Rightarrow> 'a list"
    and append :: "'v \<Rightarrow> 'a \<Rightarrow> 'v option"
    and wf :: "'v \<Rightarrow> bool"
    and limit :: nat
  assumes append_ok: "wf v \<Longrightarrow> length (items v) < limit \<Longrightarrow>
    \<exists>v'. append v x = Some v' \<and> wf v' \<and> items v' = items v @ [x]"
begin

primrec append_list :: "'v \<Rightarrow> 'a list \<Rightarrow> 'v option" where
  "append_list v [] = Some v"
| "append_list v (x # xs) = Option.bind (append v x) (\<lambda>v'. append_list v' xs)"

lemma append_list_ok:
  "wf v \<Longrightarrow> length (items v) + length xs \<le> limit \<Longrightarrow>
     \<exists>v'. append_list v xs = Some v' \<and> wf v' \<and> items v' = items v @ xs"
proof (induction xs arbitrary: v)
  case Nil
  then show ?case by simp
next
  case (Cons x xs)
  then obtain v1 where "append v x = Some v1" "wf v1" "items v1 = items v @ [x]"
    using append_ok [of v x] by auto
  with Cons.IH [of v1] Cons.prems show ?case by auto
qed

lemma appendE:
  assumes "wf v" "length (items v) < limit"
  obtains v' where "append v x = Some v'" "wf v'" "items v' = items v @ [x]"
  using append_ok [OF assms] by blast

end

subsection \<open>The array of the parser\<close>

record 'a vec =
  v_mem :: "'a option list"
  v_size :: "32 word"
  v_cap :: "32 word"

definition vec_new :: "'a vec" where
  "vec_new = \<lparr>v_mem = [], v_size = 0, v_cap = 0\<rparr>"

definition realloc :: "'a option list \<Rightarrow> nat \<Rightarrow> 'a option list" where
  "realloc mem n = take n mem @ replicate (n - length mem) None"

definition vec_store :: "'a vec \<Rightarrow> 'a \<Rightarrow> 'a vec option" where
  "vec_store v x =
     (if unat (v_size v) < length (v_mem v)
      then Some (v\<lparr>v_mem := (v_mem v)[unat (v_size v) := Some x], v_size := v_size v + 1\<rparr>) else None)"

definition vec_append :: "'a vec \<Rightarrow> 'a \<Rightarrow> 'a vec option" where
  "vec_append v x =
     (if v_size v = v_cap v then
        let cap = (v_cap v + 1) * 2 in
        vec_store (v\<lparr>v_cap := cap, v_mem := realloc (v_mem v) (unat cap)\<rparr>) x
      else if v_size v < v_cap v then vec_store v x
      else None)"

definition vec_clear :: "'a vec \<Rightarrow> 'a vec" where
  "vec_clear v = v\<lparr>v_size := 0\<rparr>"

definition vec_items :: "'a vec \<Rightarrow> 'a list" where
  "vec_items v = map the (take (unat (v_size v)) (v_mem v))"

text \<open>The capacities are 0, 2, 6, 14 and so on up to \<open>2 ^ 32 - 2\<close>.\<close>

definition vec_wf :: "'a vec \<Rightarrow> bool" where
  "vec_wf v \<longleftrightarrow> length (v_mem v) = unat (v_cap v) \<and> v_size v \<le> v_cap v \<and>
     (\<exists>k. 1 \<le> k \<and> k \<le> 32 \<and> unat (v_cap v) + 2 = 2 ^ k)"

lemma length_realloc [simp]: "length (realloc mem n) = n"
  by (simp add: realloc_def)

lemma take_realloc: "k \<le> length mem \<Longrightarrow> k \<le> n \<Longrightarrow> take k (realloc mem n) = take k mem"
  by (simp add: realloc_def min_def)

lemma vec_wf_new [simp]: "vec_wf vec_new"
  by (auto simp: vec_wf_def vec_new_def intro!: exI [of _ 1])

lemma vec_items_new [simp]: "vec_items vec_new = []"
  by (simp add: vec_items_def vec_new_def)

lemma vec_wf_clear [simp]: "vec_wf v \<Longrightarrow> vec_wf (vec_clear v)"
  by (simp add: vec_wf_def vec_clear_def)

lemma vec_items_clear [simp]: "vec_items (vec_clear v) = []"
  by (simp add: vec_items_def vec_clear_def)

lemma v_size_clear [simp]: "v_size (vec_clear v) = 0"
  by (simp add: vec_clear_def)

lemma length_vec_items: "vec_wf v \<Longrightarrow> length (vec_items v) = unat (v_size v)"
  by (simp add: vec_wf_def vec_items_def word_le_nat_alt)

lemma vec_size_pos: "vec_wf v \<Longrightarrow> (0 < v_size v) = (vec_items v \<noteq> [])"
  by (metis length_vec_items length_greater_0_conv unat_gt_0 word_gt_0)

lemma vec_store_items:
  assumes "unat (v_size v) < length (v_mem v)" "unat (v_size v) + 1 < 2 ^ 32"
  shows "\<exists>v'. vec_store v x = Some v' \<and> vec_items v' = vec_items v @ [x] \<and>
     v_cap v' = v_cap v \<and> unat (v_size v') = unat (v_size v) + 1 \<and> length (v_mem v') = length (v_mem v)"
proof -
  have "unat (v_size v + 1) = unat (v_size v) + 1"
    using assms(2) by (subst unat_plus_simple [THEN iffD1]) (auto simp: unat_plus_if_size word_size word_le_nat_alt)
  with assms(1) show ?thesis
    by (auto simp: vec_store_def vec_items_def take_Suc_conv_app_nth)
qed

text \<open>Doubling a capacity of the sequence below the last one gives the next, without wrapping.\<close>

lemma next_capacity:
  assumes "unat (c :: 32 word) + 2 = 2 ^ k" "1 \<le> k" "k < 32"
  shows "unat ((c + 1) * 2) + 2 = 2 ^ Suc k"
proof -
  have "(2 :: nat) ^ Suc k \<le> 2 ^ 32" using assms(3) by (intro power_increasing) auto
  then have le: "2 * (unat c + 2) \<le> 2 ^ 32" using assms(1) by simp
  then have "unat (c + 1) = unat c + 1"
    by (subst unat_plus_simple [THEN iffD1]) (auto simp: unat_plus_if_size word_size word_le_nat_alt)
  moreover from this le have "unat ((c + 1) * 2) = unat (c + 1) * 2"
    by (subst unat_mult_lem [THEN iffD1]) auto
  ultimately show ?thesis using assms(1) by simp
qed

lemma vec_append_ok:
  assumes wf: "vec_wf v" and len: "length (vec_items v) < 2 ^ 32 - 2"
  shows "\<exists>v'. vec_append v x = Some v' \<and> vec_wf v' \<and> vec_items v' = vec_items v @ [x]"
proof -
  obtain k where k: "1 \<le> k" "k \<le> 32" "unat (v_cap v) + 2 = 2 ^ k"
    and mem: "length (v_mem v) = unat (v_cap v)" and le: "v_size v \<le> v_cap v"
    using wf by (auto simp: vec_wf_def)
  have size: "unat (v_size v) < 2 ^ 32 - 2" using len length_vec_items [OF wf] by simp
  show ?thesis
  proof (cases "v_size v = v_cap v")
    case False
    then have less: "v_size v < v_cap v" using le by simp
    then have lt: "unat (v_size v) < length (v_mem v)" by (simp add: mem word_less_nat_alt)
    obtain v' where v': "vec_store v x = Some v'" "vec_items v' = vec_items v @ [x]" "v_cap v' = v_cap v"
      "unat (v_size v') = unat (v_size v) + 1" "length (v_mem v') = length (v_mem v)"
      using vec_store_items [OF lt, of x] size by auto
    moreover have "vec_wf v'"
      using v' k mem lt by (auto simp: vec_wf_def word_le_nat_alt)
    ultimately show ?thesis using False less by (auto simp: vec_append_def)
  next
    case True
    have "k \<noteq> 32" using size True k(3) by auto
    then have k32: "k < 32" using k(2) by simp
    define c where "c = (v_cap v + 1) * 2"
    have c: "unat c + 2 = 2 ^ Suc k" unfolding c_def using k(3,1) k32 by (rule next_capacity)
    then have "unat (v_cap v) < unat c" using k(3) by simp
    define w where "w = v\<lparr>v_cap := c, v_mem := realloc (v_mem v) (unat c)\<rparr>"
    have "vec_items w = vec_items v"
      using \<open>unat (v_cap v) < unat c\<close> True mem by (simp add: w_def vec_items_def take_realloc)
    moreover have lt: "unat (v_size w) < length (v_mem w)"
      using \<open>unat (v_cap v) < unat c\<close> True by (simp add: w_def)
    moreover have "unat (v_size w) + 1 < 2 ^ 32" using size by (simp add: w_def)
    ultimately obtain v' where v': "vec_store w x = Some v'" "vec_items v' = vec_items v @ [x]" "v_cap v' = c"
      "unat (v_size v') = unat (v_size w) + 1" "length (v_mem v') = unat c"
      using vec_store_items [of w x] by (auto simp: w_def)
    moreover have "vec_wf v'"
      using v' c k32 lt by (auto simp: vec_wf_def word_le_nat_alt w_def intro!: exI [of _ "Suc k"])
    ultimately show ?thesis using True by (auto simp: vec_append_def Let_def c_def w_def)
  qed
qed

interpretation vec: growable vec_items vec_append vec_wf "2 ^ 32 - 2"
  by unfold_locales (rule vec_append_ok)

end
