(* ===== verification/Shell_Lexer.thy ===== *)
theory Shell_Lexer
  imports Growable
begin

section \<open>Shell: the tokenizer\<close>

text \<open>
  The tokens of \<^verbatim>\<open>hw2/parser.c\<close> and \<^verbatim>\<open>parse_token\<close>. The pointers \<^verbatim>\<open>pos\<close> and \<^verbatim>\<open>end\<close> are the text
  between them and the number of characters read so far, \<^verbatim>\<open>pos - begin\<close>. A result of 0 means
  that the text ends within the token; a failed \<^verbatim>\<open>assert\<close> is \<^const>\<open>None\<close>. \<^verbatim>\<open>isspace\<close> is the one of
  the C locale.

  \<open>lex_token\<close> is the same tokenizer on lists, without the growing buffer of the token; \<open>parse_token_lex\<close>
  relates the two. On it rest stability under zs input, the bounds, and the round trips with
  \<open>quote\<close>.
\<close>

subsection \<open>Tokens\<close>

datatype token_type =
    TOKEN_TYPE_NONE
  | TOKEN_TYPE_STR
  | TOKEN_TYPE_NEW_LINE
  | TOKEN_TYPE_PIPE
  | TOKEN_TYPE_AND
  | TOKEN_TYPE_OR
  | TOKEN_TYPE_OUT_NEW
  | TOKEN_TYPE_OUT_APPEND
  | TOKEN_TYPE_BACKGROUND

record token =
  t_type :: token_type
  t_data :: "char vec"

definition token_zero :: token where
  "token_zero = \<lparr>t_type = TOKEN_TYPE_NONE, t_data = vec_new\<rparr>"

definition token_strdup :: "token \<Rightarrow> string option" where
  "token_strdup t =
     (if t_type t = TOKEN_TYPE_STR \<and> v_size (t_data t) > 0 then Some (vec_items (t_data t)) else None)"

definition token_append :: "token \<Rightarrow> char \<Rightarrow> token option" where
  "token_append t c = do { d \<leftarrow> vec_append (t_data t) c; Some (t\<lparr>t_data := d\<rparr>) }"

definition token_reset :: "token \<Rightarrow> token" where
  "token_reset t = t\<lparr>t_data := vec_clear (t_data t), t_type := TOKEN_TYPE_NONE\<rparr>"

subsection \<open>parse_token\<close>

abbreviation SQ :: char where "SQ \<equiv> CHR 0x27"
abbreviation DQ :: char where "DQ \<equiv> CHR 0x22"
abbreviation BS :: char where "BS \<equiv> CHR 0x5C"

text \<open>The loop over leading white space: \<open>Inl\<close> the characters up to a new line, or \<open>Inr\<close> the position
  reached and the text from there.\<close>

fun skip_space :: "string \<Rightarrow> nat \<Rightarrow> nat + nat \<times> string" where
  "skip_space [] n = Inr (n, [])"
| "skip_space (c # cs) n =
     (if \<not> isspace c then Inr (n, c # cs)
      else if c = NL then Inl (n + 1)
      else skip_space cs (n + 1))"

text \<open>The loop over a comment.\<close>

fun skip_comment :: "string \<Rightarrow> nat \<Rightarrow> nat option" where
  "skip_comment [] n = None"
| "skip_comment (c # cs) n = (if c = NL then Some (n + 1) else skip_comment cs (n + 1))"

definition operator_type :: "char \<Rightarrow> bool \<Rightarrow> token_type" where
  "operator_type c double =
     (if c = CHR ''&'' then (if double then TOKEN_TYPE_AND else TOKEN_TYPE_BACKGROUND)
      else if c = CHR ''|'' then (if double then TOKEN_TYPE_OR else TOKEN_TYPE_PIPE)
      else (if double then TOKEN_TYPE_OUT_APPEND else TOKEN_TYPE_OUT_NEW))"

text \<open>What one iteration of the main loop does with the character \<open>c\<close> at \<^verbatim>\<open>pos\<close>, \<open>cs\<close> being the text after it:
  append characters and go on behind \<open>k\<close> of them, perhaps with another \<^verbatim>\<open>quote\<close> (\<^const>\<open>None\<close> for 0);
  return a token that ends behind \<open>k\<close> of them; return 0; or fail an assertion.\<close>

datatype action =
    Append "char option" string nat
  | Emit token_type nat
  | End_of_text
  | Assert_fails

abbreviation append_and_next :: "char option \<Rightarrow> char \<Rightarrow> action" where
  "append_and_next q c \<equiv> Append q [c] 1"

definition quote_action :: "char option \<Rightarrow> char \<Rightarrow> string \<Rightarrow> action" where
  "quote_action q c cs =
     (case q of
        None \<Rightarrow> if cs = [] then End_of_text else Append (Some c) [] 1
      | Some q' \<Rightarrow> if q' \<noteq> c then append_and_next q c else Emit TOKEN_TYPE_STR 1)"

definition escape_action :: "char option \<Rightarrow> string \<Rightarrow> action" where
  "escape_action q cs =
     (if q = Some SQ then append_and_next q BS
      else case cs of
        [] \<Rightarrow> End_of_text
      | d # _ \<Rightarrow>
          if q = Some DQ then
            (if d = BS then Append q [d] 2
             else if d = NL then Append q [] 2
             else if d = DQ then Append q [d] 2
             else Append q [BS, d] 2)
          else if d = NL then Append q [] 2
          else Append q [d] 2)"

definition operator_action :: "char option \<Rightarrow> bool \<Rightarrow> char \<Rightarrow> string \<Rightarrow> action" where
  "operator_action q nonempty c cs =
     (if q \<noteq> None then append_and_next q c
      else if nonempty then Emit TOKEN_TYPE_STR 0
      else case cs of
        [] \<Rightarrow> End_of_text
      | d # _ \<Rightarrow> if d = c then Emit (operator_type c True) 2 else Emit (operator_type c False) 1)"

definition comment_action :: "char option \<Rightarrow> bool \<Rightarrow> string \<Rightarrow> action" where
  "comment_action q nonempty cs =
     (if q \<noteq> None then append_and_next q CHR ''#''
      else if nonempty then Emit TOKEN_TYPE_STR 0
      else case skip_comment cs 1 of
        None \<Rightarrow> End_of_text
      | Some k \<Rightarrow> Emit TOKEN_TYPE_NEW_LINE k)"

definition token_action :: "char option \<Rightarrow> bool \<Rightarrow> char \<Rightarrow> string \<Rightarrow> action" where
  "token_action q nonempty c cs =
     (if c = SQ \<or> c = DQ then quote_action q c cs
      else if c = BS then escape_action q cs
      else if c = CHR ''&'' \<or> c = CHR ''|'' \<or> c = CHR ''>'' then operator_action q nonempty c cs
      else if c = CHR '' '' \<or> c = CHR 0x09 \<or> c = CHR 0x0D then
        (if q \<noteq> None then append_and_next q c
         else if nonempty then Emit TOKEN_TYPE_STR 1 else Assert_fails)
      else if c = NL then
        (if q \<noteq> None then append_and_next q c
         else if nonempty then Emit TOKEN_TYPE_STR 0 else Assert_fails)
      else if c = CHR ''#'' then comment_action q nonempty cs
      else append_and_next q c)"

primrec token_appends :: "token \<Rightarrow> string \<Rightarrow> token option" where
  "token_appends t [] = Some t"
| "token_appends t (c # cs) = do { t' \<leftarrow> token_append t c; token_appends t' cs }"

lemma quote_action_Append: "quote_action q c cs = Append q' w k \<Longrightarrow> k = 1 \<and> length w \<le> 1"
  by (auto simp: quote_action_def split: option.splits if_splits)

lemma escape_action_Append:
  "escape_action q cs = Append q' w k \<Longrightarrow> 1 \<le> k \<and> k \<le> length cs + 1 \<and> length w \<le> k"
  unfolding escape_action_def by (cases cs) (auto split: if_splits)

lemma operator_action_Append: "operator_action q ne c cs = Append q' w k \<Longrightarrow> k = 1 \<and> length w \<le> 1"
  by (auto simp: operator_action_def split: if_splits list.splits)

lemma comment_action_Append: "comment_action q ne cs = Append q' w k \<Longrightarrow> k = 1 \<and> length w \<le> 1"
  by (auto simp: comment_action_def split: if_splits option.splits)

text \<open>The branches of the \<^verbatim>\<open>switch\<close>, as a rule for proofs by cases.\<close>

lemma token_action_cases [consumes 1, case_names quote escape operator plain space newline comment]:
  assumes act: "token_action q ne c cs = a"
    and quote: "c = SQ \<or> c = DQ \<Longrightarrow> quote_action q c cs = a \<Longrightarrow> P"
    and escape: "c = BS \<Longrightarrow> escape_action q cs = a \<Longrightarrow> P"
    and operator: "operator_action q ne c cs = a \<Longrightarrow> P"
    and plain: "a = Append q [c] 1 \<Longrightarrow> P"
    and space: "q = None \<Longrightarrow> a = (if ne then Emit TOKEN_TYPE_STR 1 else Assert_fails) \<Longrightarrow> P"
    and newline: "q = None \<Longrightarrow> a = (if ne then Emit TOKEN_TYPE_STR 0 else Assert_fails) \<Longrightarrow> P"
    and comment: "comment_action q ne cs = a \<Longrightarrow> P"
  shows P
proof -
  consider "c = SQ \<or> c = DQ" | "c = BS"
    | "\<not> (c = SQ \<or> c = DQ)" "c \<noteq> BS" "c = CHR ''&'' \<or> c = CHR ''|'' \<or> c = CHR ''>''"
    | "\<not> (c = SQ \<or> c = DQ)" "c \<noteq> BS" "\<not> (c = CHR ''&'' \<or> c = CHR ''|'' \<or> c = CHR ''>'')"
    by blast
  then show P
  proof cases
    case 1 with act quote show P by (simp only: token_action_def if_True)
  next
    case 2 with act escape show P by (simp add: token_action_def)
  next
    case 3 with act operator show P by (simp only: token_action_def if_True if_False simp_thms)
  next
    case 4
    then have act': "(if c = CHR '' '' \<or> c = CHR 0x09 \<or> c = CHR 0x0D then
        (if q \<noteq> None then append_and_next q c
         else if ne then Emit TOKEN_TYPE_STR 1 else Assert_fails)
      else if c = NL then
        (if q \<noteq> None then append_and_next q c
         else if ne then Emit TOKEN_TYPE_STR 0 else Assert_fails)
      else if c = CHR ''#'' then comment_action q ne cs
      else append_and_next q c) = a"
      using act by (simp only: token_action_def if_False)
    show P
    proof (cases "c = CHR '' '' \<or> c = CHR 0x09 \<or> c = CHR 0x0D")
      case True
      from act' have "(if q \<noteq> None then append_and_next q c
          else if ne then Emit TOKEN_TYPE_STR 1 else Assert_fails) = a" unfolding if_P [OF True] .
      with plain space show P by (cases "q = None") auto
    next
      case no_space: False
      show P
      proof (cases "c = NL")
        case True
        from act' have "(if q \<noteq> None then append_and_next q c
            else if ne then Emit TOKEN_TYPE_STR 0 else Assert_fails) = a"
          unfolding if_not_P [OF no_space] if_P [OF True] .
        with plain newline show P by (cases "q = None") auto
      next
        case False
        from act' have "(if c = CHR ''#'' then comment_action q ne cs else append_and_next q c) = a"
          unfolding if_not_P [OF no_space] if_not_P [OF False] .
        with plain comment show P by (simp split: if_splits)
      qed
    qed
  qed
qed

lemma token_action_Append:
  "token_action q ne c cs = Append q' w k \<Longrightarrow> 1 \<le> k \<and> k \<le> length (c # cs) \<and> length w \<le> k"
  by (erule token_action_cases)
    (auto dest: quote_action_Append escape_action_Append operator_action_Append comment_action_Append
      split: if_splits)

function token_loop :: "char option \<Rightarrow> string \<Rightarrow> nat \<Rightarrow> token \<Rightarrow> (nat \<times> token) option" where
  "token_loop q [] n t = Some (0, t)"
| "token_loop q (c # cs) n t =
     (case token_action q (v_size (t_data t) > 0) c cs of
        Append q' w k \<Rightarrow>
          do { t' \<leftarrow> token_appends t w; token_loop q' (drop k (c # cs)) (n + k) t' }
      | Emit ty k \<Rightarrow> Some (n + k, t\<lparr>t_type := ty\<rparr>)
      | End_of_text \<Rightarrow> Some (0, t)
      | Assert_fails \<Rightarrow> None)"
  by pat_completeness auto
termination
  by (relation "measure (\<lambda>(q, cs, n, t). length cs)") (auto dest: token_action_Append)

definition parse_token :: "string \<Rightarrow> token \<Rightarrow> (nat \<times> token) option" where
  "parse_token text t0 =
     (let t = token_reset t0 in
      case skip_space text 0 of
        Inl n \<Rightarrow> Some (n, t\<lparr>t_type := TOKEN_TYPE_NEW_LINE\<rparr>)
      | Inr (n, rest) \<Rightarrow> token_loop None rest n t)"

subsection \<open>The tokenizer on lists\<close>

text \<open>The same loop with the token's characters in a list.\<close>

datatype lexed =
    Token token_type string nat    \<comment> \<open>type, characters, number of characters used\<close>
  | More
  | Fails

function lex_loop :: "char option \<Rightarrow> string \<Rightarrow> nat \<Rightarrow> string \<Rightarrow> lexed" where
  "lex_loop q [] n w = More"
| "lex_loop q (c # cs) n w =
     (case token_action q (w \<noteq> []) c cs of
        Append q' v k \<Rightarrow> lex_loop q' (drop k (c # cs)) (n + k) (w @ v)
      | Emit ty k \<Rightarrow> Token ty w (n + k)
      | End_of_text \<Rightarrow> More
      | Assert_fails \<Rightarrow> Fails)"
  by pat_completeness auto
termination
  by (relation "measure (\<lambda>(q, cs, n, w). length cs)") (auto dest: token_action_Append)

definition lex_token :: "string \<Rightarrow> lexed" where
  "lex_token text =
     (case skip_space text 0 of
        Inl n \<Rightarrow> Token TOKEN_TYPE_NEW_LINE [] n
      | Inr (n, rest) \<Rightarrow> lex_loop None rest n [])"

declare token_loop.simps(2) [simp del] lex_loop.simps(2) [simp del]

subsection \<open>parse_token implements lex_token\<close>

definition token_is :: "token \<Rightarrow> token_type \<Rightarrow> string \<Rightarrow> bool" where
  "token_is t ty w \<longleftrightarrow> vec_wf (t_data t) \<and> t_type t = ty \<and> vec_items (t_data t) = w"

lemma token_is_reset: "vec_wf (t_data t) \<Longrightarrow> token_is (token_reset t) TOKEN_TYPE_NONE []"
  by (simp add: token_is_def token_reset_def)

lemma token_is_type [simp]: "token_is (t\<lparr>t_type := ty\<rparr>) ty' w \<longleftrightarrow> ty' = ty \<and> token_is t (t_type t) w"
  by (auto simp: token_is_def)

lemma token_appends_is:
  "token_is t ty w \<Longrightarrow> length w + length v \<le> 2 ^ 32 - 2 \<Longrightarrow>
     \<exists>t'. token_appends t v = Some t' \<and> token_is t' ty (w @ v)"
proof (induction v arbitrary: t w)
  case Nil
  then show ?case by simp
next
  case (Cons c v)
  then have "vec_wf (t_data t)" "length (vec_items (t_data t)) < 2 ^ 32 - 2"
    by (simp_all add: token_is_def)
  from vec_append_ok [OF this, of c] obtain d where "vec_append (t_data t) c = Some d"
    "vec_wf d" "vec_items d = vec_items (t_data t) @ [c]" by blast
  with Cons.prems(1) have "token_append t c = Some (t\<lparr>t_data := d\<rparr>)" "token_is (t\<lparr>t_data := d\<rparr>) ty (w @ [c])"
    by (auto simp: token_append_def token_is_def)
  with Cons.IH [of "t\<lparr>t_data := d\<rparr>" "w @ [c]"] Cons.prems(2) show ?case by simp
qed

text \<open>What a call of the tokenizer gives, next to the result of \<open>lex_token\<close>.\<close>

definition token_result :: "lexed \<Rightarrow> (nat \<times> token) option \<Rightarrow> bool" where
  "token_result r x \<longleftrightarrow>
     (case r of
        Token ty w n \<Rightarrow> (\<exists>t. x = Some (n, t) \<and> token_is t ty w)
      | More \<Rightarrow> (\<exists>t ty w. x = Some (0, t) \<and> token_is t ty w)
      | Fails \<Rightarrow> x = None)"

lemma token_size_pos: "token_is t ty w \<Longrightarrow> (0 < v_size (t_data t)) = (w \<noteq> [])"
  by (auto simp: token_is_def vec_size_pos)

lemma token_loop_lex:
  "token_is t ty w \<Longrightarrow> length w + length cs \<le> 2 ^ 32 - 2 \<Longrightarrow>
     token_result (lex_loop q cs n w) (token_loop q cs n t)"
proof (induction q cs n w arbitrary: t rule: lex_loop.induct)
  case (1 q n w)
  then show ?case by (auto simp: token_result_def)
next
  case (2 q c cs n w)
  have size: "(0 < v_size (t_data t)) = (w \<noteq> [])" using 2 by (intro token_size_pos)
  show ?case
  proof (cases "token_action q (w \<noteq> []) c cs")
    case (Append q' v k)
    note k = token_action_Append [OF Append]
    then have "length (w @ v) + length (drop k (c # cs)) \<le> 2 ^ 32 - 2"
      using "2.prems"(2) by (auto simp: le_diff_conv2)
    moreover obtain t' where "token_appends t v = Some t'" "token_is t' ty (w @ v)"
      using token_appends_is [OF "2.prems"(1), of v] "2.prems"(2) k by auto
    ultimately show ?thesis
      using "2.IH" [OF Append] Append size by (simp add: token_loop.simps(2) lex_loop.simps(2))
  qed (use 2 size in \<open>auto simp: token_loop.simps(2) lex_loop.simps(2) token_result_def token_is_def\<close>)
qed

lemma skip_space_length: "skip_space cs n = Inr (m, rest) \<Longrightarrow> n \<le> m \<and> length rest + (m - n) = length cs"
  by (induction cs n rule: skip_space.induct) (auto split: if_splits)

lemma parse_token_lex:
  assumes "vec_wf (t_data t)" "length text \<le> 2 ^ 32 - 2"
  shows "token_result (lex_token text) (parse_token text t)"
proof (cases "skip_space text 0")
  case (Inl n)
  then show ?thesis
    using token_is_reset [OF assms(1)] by (auto simp: lex_token_def parse_token_def token_result_def token_is_def Let_def)
next
  case (Inr x)
  then obtain n rest where "skip_space text 0 = Inr (n, rest)" by (cases x) auto
  with token_loop_lex [OF token_is_reset [OF assms(1)], of rest None n] skip_space_length [OF this] assms(2)
  show ?thesis by (simp add: lex_token_def parse_token_def Let_def)
qed

subsection \<open>How much of the text a token uses\<close>

lemma skip_comment_bounds: "skip_comment cs n = Some m \<Longrightarrow> n < m \<and> m \<le> n + length cs"
  by (induction cs n rule: skip_comment.induct) (auto split: if_splits)

lemma token_action_Emit:
  assumes "token_action q ne c cs = Emit ty k"
  shows "k \<le> length (c # cs) \<and> (k = 0 \<longrightarrow> ne)"
  using assms
  by (cases rule: token_action_cases)
    (auto simp: quote_action_def escape_action_def operator_action_def comment_action_def
      dest: skip_comment_bounds split: if_splits option.splits list.splits)

lemma lex_loop_bounds:
  "lex_loop q cs n w = Token ty v m \<Longrightarrow> n \<le> m \<and> m \<le> n + length cs \<and> (w = [] \<longrightarrow> n < m)"
proof (induction q cs n w rule: lex_loop.induct)
  case (1 q n w)
  then show ?case by simp
next
  case (2 q c cs n w)
  show ?case
  proof (cases "token_action q (w \<noteq> []) c cs")
    case (Append q' u k)
    note k = token_action_Append [OF Append]
    from "2.prems" Append have "lex_loop q' (drop k (c # cs)) (n + k) (w @ u) = Token ty v m"
      by (simp add: lex_loop.simps(2))
    from "2.IH" [OF Append this] k have "n + k \<le> m \<and> m \<le> n + k + length (drop k (c # cs))" by blast
    with k show ?thesis unfolding length_drop by linarith
  next
    case (Emit ty' k)
    with "2.prems" token_action_Emit [OF Emit] show ?thesis by (auto simp: lex_loop.simps(2))
  qed (use "2.prems" in \<open>auto simp: lex_loop.simps(2)\<close>)
qed

lemma skip_space_Inl: "skip_space cs n = Inl m \<Longrightarrow> n < m \<and> m \<le> n + length cs"
  by (induction cs n rule: skip_space.induct) (auto split: if_splits)

lemma lex_bounds [bounds]:
  assumes "lex_token text = Token ty w n"
  shows "1 \<le> n" "n \<le> length text"
  using assms skip_space_length [where n = 0] lex_loop_bounds [of None _ _ "[]" ty w n]
  by (fastforce simp: lex_token_def dest: skip_space_Inl split: sum.splits prod.splits)+

lemma lex_shorter: "lex_token s = Token ty w k \<Longrightarrow> length s - k < length s"
  using lex_bounds [of s ty w k] by linarith

subsection \<open>More input does not change a token\<close>

lemma skip_comment_append: "skip_comment cs n = Some m \<Longrightarrow> skip_comment (cs @ zs) n = Some m"
  by (induction cs n rule: skip_comment.induct) (auto split: if_splits)

lemma case_list_append:
  "(case cs @ zs of [] \<Rightarrow> a | d # _ \<Rightarrow> f d) = (case cs of [] \<Rightarrow> (case zs of [] \<Rightarrow> a | d # _ \<Rightarrow> f d) | d # _ \<Rightarrow> f d)"
  by (cases cs) auto

lemma sub_actions_append:
  "quote_action q c cs \<noteq> End_of_text \<Longrightarrow> quote_action q c (cs @ zs) = quote_action q c cs"
  "escape_action q cs \<noteq> End_of_text \<Longrightarrow> escape_action q (cs @ zs) = escape_action q cs"
  "operator_action q ne c cs \<noteq> End_of_text \<Longrightarrow> operator_action q ne c (cs @ zs) = operator_action q ne c cs"
  "comment_action q ne cs \<noteq> End_of_text \<Longrightarrow> comment_action q ne (cs @ zs) = comment_action q ne cs"
  by (auto simp: quote_action_def escape_action_def operator_action_def comment_action_def
      skip_comment_append split: if_splits option.splits list.splits)

lemma token_action_append:
  assumes "token_action q ne c cs \<noteq> End_of_text"
  shows "token_action q ne c (cs @ zs) = token_action q ne c cs"
proof -
  let ?act = "\<lambda>cs. token_action q ne c cs"
  show ?thesis
    unfolding token_action_def
    using assms [unfolded token_action_def]
    by (intro if_cong refl) (auto intro!: sub_actions_append split: if_splits)
qed

lemma lex_loop_append:
  "lex_loop q cs n w \<noteq> More \<Longrightarrow> lex_loop q (cs @ zs) n w = lex_loop q cs n w"
proof (induction q cs n w rule: lex_loop.induct)
  case (1 q n w)
  then show ?case by simp
next
  case (2 q c cs n w)
  have "token_action q (w \<noteq> []) c cs \<noteq> End_of_text"
    using "2.prems" by (auto simp: lex_loop.simps(2))
  note act = token_action_append [OF this, of zs]
  show ?case
  proof (cases "token_action q (w \<noteq> []) c cs")
    case (Append q' v k)
    have "k \<le> length (c # cs)" using token_action_Append [OF Append] by simp
    then have "drop k ((c # cs) @ zs) = drop k (c # cs) @ zs" unfolding drop_append by simp
    then show ?thesis
      using "2.IH" [OF Append] "2.prems" act Append by (simp add: lex_loop.simps(2))
  qed (use act in \<open>simp_all add: lex_loop.simps(2)\<close>)
qed

lemma skip_space_append:
  "skip_space cs n = Inl m \<Longrightarrow> skip_space (cs @ zs) n = Inl m"
  "skip_space cs n = Inr (m, rest) \<Longrightarrow> rest \<noteq> [] \<Longrightarrow> skip_space (cs @ zs) n = Inr (m, rest @ zs)"
  by (induction cs n rule: skip_space.induct) (auto split: if_splits)

lemma lex_append:
  assumes "lex_token text \<noteq> More"
  shows "lex_token (text @ zs) = lex_token text"
proof (cases "skip_space text 0")
  case (Inl n)
  then show ?thesis by (simp add: lex_token_def skip_space_append)
next
  case (Inr x)
  then obtain n rest where skip: "skip_space text 0 = Inr (n, rest)" by (cases x) auto
  with assms have zs: "lex_loop None rest n [] \<noteq> More" by (simp add: lex_token_def)
  then have "rest \<noteq> []" by auto
  with skip zs show ?thesis by (simp add: lex_token_def skip_space_append lex_loop_append)
qed

subsection \<open>When the assertions hold\<close>

lemma escape_not_fails: "escape_action q cs \<noteq> Assert_fails"
  by (auto simp: escape_action_def split: list.splits)

lemma sub_actions_not_fail:
  "quote_action q c cs \<noteq> Assert_fails" "operator_action q ne c cs \<noteq> Assert_fails"
  "comment_action q ne cs \<noteq> Assert_fails"
  by (auto simp: quote_action_def operator_action_def comment_action_def split: list.splits option.splits)

lemma token_action_fails:
  assumes "token_action q ne c cs = Assert_fails"
  shows "q = None \<and> \<not> ne \<and> isspace c"
proof -
  have "isspace c" if "c = CHR '' '' \<or> c = CHR 0x09 \<or> c = CHR 0x0D \<or> c = NL"
    using that by (auto simp: isspace_def)
  then show ?thesis
    using assms escape_not_fails sub_actions_not_fail unfolding token_action_def
    by (metis action.distinct(5) action.distinct(9))
qed

lemma token_action_no_escape:
  assumes "token_action q ne c cs = Append q' v k" "c \<noteq> BS" "q = None"
  shows "q' \<noteq> None \<or> v \<noteq> []"
  using assms(1)
  by (cases rule: token_action_cases)
    (use assms(2,3) in \<open>auto simp: quote_action_def operator_action_def comment_action_def
      split: if_splits option.splits list.splits\<close>)

lemma token_action_quoted:
  assumes "token_action q ne c cs = Append q' v k" "q \<noteq> None"
  shows "q' = q"
  using assms(1)
  by (cases rule: token_action_cases)
    (use assms(2) in \<open>auto simp: quote_action_def escape_action_def operator_action_def comment_action_def
      split: if_splits option.splits list.splits\<close>)

lemma lex_loop_no_escape:
  "BS \<notin> set cs \<Longrightarrow> q \<noteq> None \<or> w \<noteq> [] \<or> cs = [] \<or> \<not> isspace (hd cs) \<Longrightarrow> lex_loop q cs n w \<noteq> Fails"
proof (induction q cs n w rule: lex_loop.induct)
  case (1 q n w)
  then show ?case by simp
next
  case (2 q c cs n w)
  show ?case
  proof (cases "token_action q (w \<noteq> []) c cs")
    case (Append q' v k)
    have "q' \<noteq> None \<or> w @ v \<noteq> []"
      using token_action_no_escape [OF Append] token_action_quoted [OF Append] "2.prems"(1) by auto
    moreover have "BS \<notin> set (drop k (c # cs))" using "2.prems"(1) by (auto dest: in_set_dropD)
    ultimately have "lex_loop q' (drop k (c # cs)) (n + k) (w @ v) \<noteq> Fails" by (intro "2.IH" [OF Append]) blast+
    with Append show ?thesis by (simp add: lex_loop.simps(2))
  next
    case Assert_fails
    with token_action_fails [OF Assert_fails] "2.prems"(2) show ?thesis by auto
  qed (simp_all add: lex_loop.simps(2))
qed

lemma skip_space_rest: "skip_space cs n = Inr (m, rest) \<Longrightarrow> set rest \<subseteq> set cs \<and> (rest = [] \<or> \<not> isspace (hd rest))"
  by (induction cs n rule: skip_space.induct) (auto split: if_splits)

lemma lex_no_escape: "BS \<notin> set text \<Longrightarrow> lex_token text \<noteq> Fails"
  using lex_loop_no_escape [of _ None "[]"] skip_space_rest [where n = 0]
  by (fastforce simp: lex_token_def split: sum.splits)

subsection \<open>Writing words and operators so that they are read back\<close>

text \<open>A word in double quotes, with the two characters escaped that are special there.\<close>

definition escape :: "char \<Rightarrow> string" where
  "escape c = (if c = BS \<or> c = DQ then [BS, c] else [c])"

definition quote :: "string \<Rightarrow> string" where
  "quote w = DQ # concat (map escape w) @ [DQ]"

lemma escape_step:
  "lex_loop (Some DQ) (escape c @ cs) n w = lex_loop (Some DQ) cs (n + length (escape c)) (w @ [c])"
proof (cases "c = BS \<or> c = DQ")
  case True
  then show ?thesis
    by (auto simp: escape_def lex_loop.simps(2) token_action_def escape_action_def)
next
  case False
  then have "token_action (Some DQ) ne c cs = Append (Some DQ) [c] 1" for ne
    by (simp add: token_action_def quote_action_def operator_action_def comment_action_def)
  with False show ?thesis by (simp add: escape_def lex_loop.simps(2))
qed

lemma lex_loop_escaped:
  "lex_loop (Some DQ) (concat (map escape v) @ DQ # cs) n w
     = Token TOKEN_TYPE_STR (w @ v) (n + length (concat (map escape v)) + 1)"
proof (induction v arbitrary: n w)
  case Nil
  then show ?case by (simp add: lex_loop.simps(2) token_action_def quote_action_def)
next
  case (Cons c v)
  then show ?case by (simp add: escape_step)
qed

lemma lex_quote: "lex_token (quote w @ cs) = Token TOKEN_TYPE_STR w (length (quote w))"
proof -
  have "skip_space (quote w @ cs) 0 = Inr (0, quote w @ cs)" by (simp add: quote_def isspace_def)
  then have "lex_token (quote w @ cs) = lex_loop (Some DQ) (concat (map escape w) @ DQ # cs) 1 []"
    by (simp add: lex_token_def quote_def lex_loop.simps(2) token_action_def quote_action_def)
  then show ?thesis by (simp add: lex_loop_escaped quote_def)
qed

definition shift_used :: "nat \<Rightarrow> lexed \<Rightarrow> lexed" where
  "shift_used k r = (case r of Token ty w n \<Rightarrow> Token ty w (n + k) | _ \<Rightarrow> r)"

lemma lex_loop_shift: "lex_loop q cs (n + k) w = shift_used k (lex_loop q cs n w)"
proof (induction q cs n w rule: lex_loop.induct)
  case (1 q n w)
  then show ?case by (simp add: shift_used_def)
next
  case (2 q c cs n w)
  show ?case
  proof (cases "token_action q (w \<noteq> []) c cs")
    case (Append q' v m)
    have "n + k + m = n + m + k" by simp
    with "2.IH" [OF Append] Append show ?thesis by (simp only: lex_loop.simps(2) action.case)
  qed (simp_all add: lex_loop.simps(2) shift_used_def)
qed

lemma skip_space_shift:
  "skip_space cs (n + k) = map_sum (\<lambda>m. m + k) (\<lambda>(m, rest). (m + k, rest)) (skip_space cs n)"
proof (induction cs n rule: skip_space.induct)
  case (1 n)
  then show ?case by simp
next
  case (2 c cs n)
  have "n + k + 1 = n + 1 + k" by simp
  with 2 show ?case by (simp only: skip_space.simps split: if_split) auto
qed

lemma lex_space: "lex_token (CHR '' '' # cs) = shift_used 1 (lex_token cs)"
proof -
  have "skip_space (CHR '' '' # cs) 0 = skip_space cs (0 + 1)" by (simp add: isspace_def)
  also have "\<dots> = map_sum (\<lambda>m. m + 1) (\<lambda>(m, rest). (m + 1, rest)) (skip_space cs 0)"
    by (rule skip_space_shift)
  finally show ?thesis
    using lex_loop_shift [of None _ _ 1 "[]"]
    by (auto simp: lex_token_def shift_used_def split: sum.splits)
qed

lemma lex_newline [simp]: "lex_token (NL # cs) = Token TOKEN_TYPE_NEW_LINE [] 1"
  by (simp add: lex_token_def isspace_def)

lemma lex_operator:
  assumes "c \<in> {CHR ''&'', CHR ''|'', CHR ''>''}"
  shows "lex_token (c # c # cs) = Token (operator_type c True) [] 2"
    and "d \<noteq> c \<Longrightarrow> lex_token (c # d # cs) = Token (operator_type c False) [] 1"
proof -
  have "token_action None False c zs = operator_action None False c zs" "\<not> isspace c" for zs
    using assms by (auto simp: token_action_def isspace_def)
  note act = this
  show "lex_token (c # c # cs) = Token (operator_type c True) [] 2"
    using act by (simp add: lex_token_def lex_loop.simps(2) operator_action_def)
  show "lex_token (c # d # cs) = Token (operator_type c False) [] 1" if "d \<noteq> c"
    using act that by (simp add: lex_token_def lex_loop.simps(2) operator_action_def)
qed

text \<open>Words without special characters need no quotes.\<close>

definition plain_char :: "char \<Rightarrow> bool" where
  "plain_char c \<longleftrightarrow> \<not> isspace c \<and> c \<notin> {SQ, DQ, BS, CHR ''&'', CHR ''|'', CHR ''>'', CHR ''#''}"

lemma plain_action:
  assumes "plain_char c"
  shows "token_action None ne c cs = Append None [c] 1"
  using assms by (simp add: plain_char_def token_action_def isspace_def)

lemma lex_loop_plain:
  "list_all plain_char v \<Longrightarrow> lex_loop None (v @ cs) n w = lex_loop None cs (n + length v) (w @ v)"
  by (induction v arbitrary: n w) (auto simp: lex_loop.simps(2) plain_action)

lemma lex_plain:
  assumes "list_all plain_char w" "w \<noteq> []"
  shows "lex_token (w @ CHR '' '' # cs) = Token TOKEN_TYPE_STR w (length w + 1)"
    and "lex_token (w @ NL # cs) = Token TOKEN_TYPE_STR w (length w)"
    and "c \<in> {CHR ''&'', CHR ''|'', CHR ''>'', CHR ''#''} \<Longrightarrow> lex_token (w @ c # cs) = Token TOKEN_TYPE_STR w (length w)"
proof -
  have "\<not> isspace (hd w)" using assms by (cases w) (auto simp: plain_char_def)
  then have skip: "skip_space (w @ zs) 0 = Inr (0, w @ zs)" for zs using assms(2) by (cases w) auto
  show "lex_token (w @ CHR '' '' # cs) = Token TOKEN_TYPE_STR w (length w + 1)"
    "lex_token (w @ NL # cs) = Token TOKEN_TYPE_STR w (length w)"
    using assms by (simp_all add: lex_token_def skip lex_loop_plain lex_loop.simps(2) token_action_def)
  show "lex_token (w @ c # cs) = Token TOKEN_TYPE_STR w (length w)"
    if "c \<in> {CHR ''&'', CHR ''|'', CHR ''>'', CHR ''#''}"
    using that assms
    by (auto simp: lex_token_def skip lex_loop_plain lex_loop.simps(2) token_action_def operator_action_def
        comment_action_def)
qed

end
