(* ===== verification/Shell_Parser.thy ===== *)
theory Shell_Parser
  imports Shell_Lexer
begin

section \<open>Shell: the parser\<close>

text \<open>
  The parser of \<^verbatim>\<open>hw2/parser.c\<close>: its buffer with 32-bit size and capacity (\<^verbatim>\<open>parser_feed\<close>,
  \<^verbatim>\<open>parser_consume\<close>) and \<^verbatim>\<open>parser_pop_next\<close>, which reads tokens from the buffer until it has a whole
  command line. The linked list of expressions is the list from \<^verbatim>\<open>line->head\<close> to \<^verbatim>\<open>line->tail\<close>; the type
  parameter of an expression is the container of its arguments (\<open>vec\<close> in the code, a list in the
  specification of theory \<open>Shell_Grammar\<close>). A call that fails an assertion has no result.
\<close>

subsection \<open>Command lines\<close>

datatype parser_error =
    PARSER_ERR_NONE
  | PARSER_ERR_PIPE_WITH_NO_LEFT_ARG
  | PARSER_ERR_PIPE_WITH_LEFT_ARG_NOT_A_COMMAND
  | PARSER_ERR_AND_WITH_NO_LEFT_ARG
  | PARSER_ERR_AND_WITH_LEFT_ARG_NOT_A_COMMAND
  | PARSER_ERR_OR_WITH_NO_LEFT_ARG
  | PARSER_ERR_OR_WITH_LEFT_ARG_NOT_A_COMMAND
  | PARSER_ERR_OUTOUT_REDIRECT_BAD_ARG
  | PARSER_ERR_TOO_LATE_ARGUMENTS
  | PARSER_ERR_ENDS_NOT_WITH_A_COMMAND

datatype 'v expr =
    EXPR_TYPE_COMMAND (exe: string) (args: 'v)
  | EXPR_TYPE_PIPE
  | EXPR_TYPE_AND
  | EXPR_TYPE_OR

datatype output_type =
    OUTPUT_TYPE_STDOUT
  | OUTPUT_TYPE_FILE_NEW
  | OUTPUT_TYPE_FILE_APPEND

record 'v command_line =
  l_exprs :: "'v expr list"
  l_out_type :: output_type
  l_out_file :: "string option"
  l_is_background :: bool

type_synonym code_line = "string vec command_line"

fun is_command :: "'v expr \<Rightarrow> bool" where
  "is_command (EXPR_TYPE_COMMAND e as) = True"
| "is_command _ = False"

definition empty_line :: "'v command_line" where
  "empty_line = \<lparr>l_exprs = [], l_out_type = OUTPUT_TYPE_STDOUT, l_out_file = None, l_is_background = False\<rparr>"

definition command_line_append :: "'v expr \<Rightarrow> 'v command_line \<Rightarrow> 'v command_line" where
  "command_line_append e line = line\<lparr>l_exprs := l_exprs line @ [e]\<rparr>"

text \<open>Appending to the arguments of the command at \<^verbatim>\<open>line->tail\<close>.\<close>

definition command_append_arg :: "string \<Rightarrow> code_line \<Rightarrow> code_line option" where
  "command_append_arg arg line =
     (case last (l_exprs line) of
        EXPR_TYPE_COMMAND e as \<Rightarrow>
          do { as' \<leftarrow> vec_append as arg;
               Some (line\<lparr>l_exprs := butlast (l_exprs line) @ [EXPR_TYPE_COMMAND e as']\<rparr>) }
      | _ \<Rightarrow> None)"

text \<open>A null line is a null dereference.\<close>

definition command_line_delete :: "'v command_line option \<Rightarrow> unit option" where
  "command_line_delete line = (case line of None \<Rightarrow> None | Some _ \<Rightarrow> Some ())"

subsection \<open>The buffer\<close>

record parser =
  p_buffer :: "char option list"
  p_size :: "32 word"
  p_capacity :: "32 word"

definition parser_new :: parser where
  "parser_new = \<lparr>p_buffer = [], p_size = 0, p_capacity = 0\<rparr>"

text \<open>Making room for \<open>len\<close> more characters; the arithmetic is that of \<^verbatim>\<open>uint32_t\<close>.\<close>

definition parser_reserve :: "32 word \<Rightarrow> parser \<Rightarrow> parser" where
  "parser_reserve len p =
     (if p_capacity p - p_size p < len then
        let double = (p_capacity p + 1) * 2;
            new_capacity = (if double - p_size p < len then p_size p + len else double)
        in p\<lparr>p_buffer := realloc (p_buffer p) (unat new_capacity), p_capacity := new_capacity\<rparr>
      else p)"

definition parser_feed :: "string \<Rightarrow> parser \<Rightarrow> parser option" where
  "parser_feed str p0 =
     (let len = of_nat (length str); p = parser_reserve len p0 in
      do { mem \<leftarrow> memcpy_into (p_buffer p) (unat (p_size p)) (map Some str);
           let size = p_size p + len;
           if size \<le> p_capacity p then Some (p\<lparr>p_buffer := mem, p_size := size\<rparr>) else None })"

definition parser_consume :: "nat \<Rightarrow> parser \<Rightarrow> parser option" where
  "parser_consume used p =
     (let size = of_nat used in
      if \<not> p_size p \<ge> size then None
      else if size = p_size p then Some (p\<lparr>p_size := 0\<rparr>)
      else do { rest \<leftarrow> memcpy_from (p_buffer p) (int (unat size)) (unat (p_size p - size));
                mem \<leftarrow> memcpy_into (p_buffer p) 0 rest;
                Some (p\<lparr>p_buffer := mem, p_size := p_size p - size\<rparr>) })"

text \<open>The text in the buffer; reading outside the allocation or an indeterminate byte is undefined.\<close>

definition parser_text :: "parser \<Rightarrow> string option" where
  "parser_text p =
     (let cells = take (unat (p_size p)) (p_buffer p) in
      if unat (p_size p) \<le> length (p_buffer p) \<and> list_all (\<lambda>c. c \<noteq> None) cells
      then Some (map the cells) else None)"

subsection \<open>parser_pop_next\<close>

text \<open>The \<^verbatim>\<open>switch\<close> on a token: go on with a line, leave the loop to close the line, or fail.\<close>

datatype 'l line_step =
    Go 'l
  | Stop
  | Fail parser_error

definition add_operator ::
    "'v expr \<Rightarrow> parser_error \<Rightarrow> parser_error \<Rightarrow> 'v command_line \<Rightarrow> 'v command_line line_step" where
  "add_operator op no_left not_command line =
     (if l_exprs line = [] then Fail no_left
      else if \<not> is_command (last (l_exprs line)) then Fail not_command
      else Go (command_line_append op line))"

definition add_token :: "token \<Rightarrow> code_line \<Rightarrow> code_line line_step option" where
  "add_token t line =
     (case t_type t of
        TOKEN_TYPE_STR \<Rightarrow>
          if l_exprs line \<noteq> [] \<and> is_command (last (l_exprs line)) then
            do { w \<leftarrow> token_strdup t; line' \<leftarrow> command_append_arg w line; Some (Go line') }
          else do { w \<leftarrow> token_strdup t; Some (Go (command_line_append (EXPR_TYPE_COMMAND w vec_new) line)) }
      | TOKEN_TYPE_NEW_LINE \<Rightarrow> Some (if l_exprs line = [] then Go line else Stop)
      | TOKEN_TYPE_PIPE \<Rightarrow> Some (add_operator EXPR_TYPE_PIPE PARSER_ERR_PIPE_WITH_NO_LEFT_ARG
          PARSER_ERR_PIPE_WITH_LEFT_ARG_NOT_A_COMMAND line)
      | TOKEN_TYPE_AND \<Rightarrow> Some (add_operator EXPR_TYPE_AND PARSER_ERR_AND_WITH_NO_LEFT_ARG
          PARSER_ERR_AND_WITH_LEFT_ARG_NOT_A_COMMAND line)
      | TOKEN_TYPE_OR \<Rightarrow> Some (add_operator EXPR_TYPE_OR PARSER_ERR_OR_WITH_NO_LEFT_ARG
          PARSER_ERR_OR_WITH_LEFT_ARG_NOT_A_COMMAND line)
      | TOKEN_TYPE_OUT_NEW \<Rightarrow> Some Stop
      | TOKEN_TYPE_OUT_APPEND \<Rightarrow> Some Stop
      | TOKEN_TYPE_BACKGROUND \<Rightarrow> Some Stop
      | TOKEN_TYPE_NONE \<Rightarrow> None)"

text \<open>
  Where the code is in the buffer: the text from \<^verbatim>\<open>pos\<close> to \<^verbatim>\<open>end\<close>, the number of characters before it,
  the token and the line. \<open>next_token\<close> is the pair of statements that read a token and advance;
  \<open>Inl\<close> leaves for \<^verbatim>\<open>return_no_line\<close> or \<^verbatim>\<open>return_error\<close>, \<open>Inr\<close> goes on.
\<close>

datatype exit =
    No_line
  | Syntax parser_error string nat token

record cursor =
  rest :: string
  used :: nat
  tok :: token

definition next_token :: "cursor \<Rightarrow> (cursor option) option" where
  "next_token c =
     do { (n, t) \<leftarrow> parse_token (rest c) (tok c);
          Some (if n = 0 then None
                else Some \<lparr>rest = drop n (rest c), used = used c + n, tok = t\<rparr>) }"

lemma next_token_shorter:
  assumes "next_token c = Some (Some c')" "rest c \<noteq> []"
  shows "length (rest c') < length (rest c)"
  using assms by (auto simp: next_token_def bind_eq_Some_iff split: if_splits)

function pop_loop :: "cursor \<Rightarrow> code_line \<Rightarrow> (exit + cursor \<times> code_line) option" where
  "pop_loop c line =
     (if rest c = [] then Some (Inl No_line)
      else do { r \<leftarrow> next_token c;
                case r of
                  None \<Rightarrow> Some (Inl No_line)
                | Some c' \<Rightarrow>
                    do { st \<leftarrow> add_token (tok c') line;
                         case st of
                           Go line' \<Rightarrow> pop_loop c' line'
                         | Stop \<Rightarrow> Some (Inr (c', line))
                         | Fail e \<Rightarrow> Some (Inl (Syntax e (rest c') (used c') (tok c'))) } })"
  by pat_completeness auto
termination
  by (relation "measure (\<lambda>(c, line). length (rest c))") (auto dest: next_token_shorter)

declare pop_loop.simps [simp del]

definition close_redirect :: "cursor \<Rightarrow> code_line \<Rightarrow> (exit + cursor \<times> code_line) option" where
  "close_redirect c line =
     (if t_type (tok c) = TOKEN_TYPE_OUT_NEW \<or> t_type (tok c) = TOKEN_TYPE_OUT_APPEND then
        let line1 = line\<lparr>l_out_type := if t_type (tok c) = TOKEN_TYPE_OUT_NEW then OUTPUT_TYPE_FILE_NEW
                                       else OUTPUT_TYPE_FILE_APPEND\<rparr> in
        do { r \<leftarrow> next_token c;
             case r of
               None \<Rightarrow> Some (Inl No_line)
             | Some c1 \<Rightarrow>
                 if t_type (tok c1) \<noteq> TOKEN_TYPE_STR then
                   Some (Inl (Syntax PARSER_ERR_OUTOUT_REDIRECT_BAD_ARG (rest c1) (used c1) (tok c1)))
                 else
                   do { w \<leftarrow> token_strdup (tok c1);
                        r2 \<leftarrow> next_token c1;
                        case r2 of
                          None \<Rightarrow> Some (Inl No_line)
                        | Some c2 \<Rightarrow> Some (Inr (c2, line1\<lparr>l_out_file := Some w\<rparr>)) } }
      else Some (Inr (c, line)))"

definition close_background :: "cursor \<Rightarrow> code_line \<Rightarrow> (exit + cursor \<times> code_line) option" where
  "close_background c line =
     (if t_type (tok c) = TOKEN_TYPE_BACKGROUND then
        do { r \<leftarrow> next_token c;
             case r of
               None \<Rightarrow> Some (Inl No_line)
             | Some c1 \<Rightarrow> Some (Inr (c1, line\<lparr>l_is_background := True\<rparr>)) }
      else Some (Inr (c, line)))"

text \<open>The label \<^verbatim>\<open>return_error\<close>: skip to the end of the line; \<^const>\<open>None\<close> inside when it is not there yet.\<close>

function skip_line :: "cursor \<Rightarrow> (nat option) option" where
  "skip_line c =
     (if rest c = [] then Some None
      else do { r \<leftarrow> next_token c;
                case r of
                  None \<Rightarrow> Some None
                | Some c' \<Rightarrow>
                    if t_type (tok c') = TOKEN_TYPE_NEW_LINE then Some (Some (used c')) else skip_line c' })"
  by pat_completeness auto
termination
  by (relation "measure (\<lambda>c. length (rest c))") (auto dest: next_token_shorter)

declare skip_line.simps [simp del]

text \<open>The error code, the line if there is one, and how many characters \<^verbatim>\<open>parser_consume\<close> drops.\<close>

type_synonym 'v popped = "parser_error \<times> 'v command_line option \<times> nat"

definition return_exit :: "exit \<Rightarrow> string vec popped option" where
  "return_exit e =
     (case e of
        No_line \<Rightarrow> Some (PARSER_ERR_NONE, None, 0)
      | Syntax err text n t \<Rightarrow>
          do { r \<leftarrow> skip_line \<lparr>rest = text, used = n, tok = t\<rparr>;
               Some (case r of
                       Some m \<Rightarrow> (err, None, m)
                     | None \<Rightarrow> (PARSER_ERR_NONE, None, 0)) })"

definition close_line :: "cursor \<Rightarrow> code_line \<Rightarrow> string vec popped option" where
  "close_line c line =
     (if t_type (tok c) = TOKEN_TYPE_NEW_LINE then
        if l_exprs line = [] then None
        else if \<not> is_command (last (l_exprs line))
        then Some (PARSER_ERR_ENDS_NOT_WITH_A_COMMAND, None, used c)
        else Some (PARSER_ERR_NONE, Some line, used c)
      else return_exit (Syntax PARSER_ERR_TOO_LATE_ARGUMENTS (rest c) (used c) (tok c)))"

definition pop_text :: "string \<Rightarrow> string vec popped option" where
  "pop_text text =
     do { r \<leftarrow> pop_loop \<lparr>rest = text, used = 0, tok = token_zero\<rparr> empty_line;
          case r of
            Inl e \<Rightarrow> return_exit e
          | Inr (c, line) \<Rightarrow>
              do { r1 \<leftarrow> close_redirect c line;
                   case r1 of
                     Inl e \<Rightarrow> return_exit e
                   | Inr (c1, line1) \<Rightarrow>
                       do { r2 \<leftarrow> close_background c1 line1;
                            case r2 of
                              Inl e \<Rightarrow> return_exit e
                            | Inr (c2, line2) \<Rightarrow> close_line c2 line2 } } }"

definition parser_pop_next :: "parser \<Rightarrow> ((parser_error \<times> code_line option) \<times> parser) option" where
  "parser_pop_next p =
     do { text \<leftarrow> parser_text p;
          (err, line, n) \<leftarrow> pop_text text;
          p' \<leftarrow> (if n = 0 then Some p else parser_consume n p);
          Some ((err, line), p') }"

end
