(* ===== verification/Shell_Grammar.thy ===== *)
theory Shell_Grammar
  imports Shell_Parser
begin

section \<open>Shell: the specification of the parser\<close>

text \<open>
  \<open>pop_spec\<close> says what \<^verbatim>\<open>parser_pop_next\<close> does with the text in the buffer, in terms of
  \<open>lex_token\<close> and of lines whose arguments are lists. \<open>pop_text_spec\<close> is the refinement: the parser of
  theory \<open>Shell_Parser\<close>, with its growing arrays, computes exactly that for every text a 32-bit
  size can describe.
\<close>

subsection \<open>The specification\<close>

type_synonym spec_line = "string list command_line"

definition add_arg :: "string \<Rightarrow> spec_line \<Rightarrow> spec_line option" where
  "add_arg w line =
     (case last (l_exprs line) of
        EXPR_TYPE_COMMAND e as \<Rightarrow> Some (line\<lparr>l_exprs := butlast (l_exprs line) @ [EXPR_TYPE_COMMAND e (as @ [w])]\<rparr>)
      | _ \<Rightarrow> None)"

definition add_word :: "token_type \<Rightarrow> string \<Rightarrow> spec_line \<Rightarrow> spec_line line_step option" where
  "add_word ty w line =
     (case ty of
        TOKEN_TYPE_STR \<Rightarrow>
          if w = [] then None
          else if l_exprs line \<noteq> [] \<and> is_command (last (l_exprs line))
          then map_option Go (add_arg w line)
          else Some (Go (command_line_append (EXPR_TYPE_COMMAND w []) line))
      | TOKEN_TYPE_NEW_LINE \<Rightarrow> Some (if l_exprs line = [] then Go line else Stop)
      | TOKEN_TYPE_PIPE \<Rightarrow> Some (add_operator EXPR_TYPE_PIPE PARSER_ERR_PIPE_WITH_NO_LEFT_ARG
          PARSER_ERR_PIPE_WITH_LEFT_ARG_NOT_A_COMMAND line)
      | TOKEN_TYPE_AND \<Rightarrow> Some (add_operator EXPR_TYPE_AND PARSER_ERR_AND_WITH_NO_LEFT_ARG
          PARSER_ERR_AND_WITH_LEFT_ARG_NOT_A_COMMAND line)
      | TOKEN_TYPE_OR \<Rightarrow> Some (add_operator EXPR_TYPE_OR PARSER_ERR_OR_WITH_NO_LEFT_ARG
          PARSER_ERR_OR_WITH_LEFT_ARG_NOT_A_COMMAND line)
      | TOKEN_TYPE_NONE \<Rightarrow> None
      | _ \<Rightarrow> Some Stop)"

datatype spec_exit =
    No_line_spec
  | Syntax_spec parser_error string nat

text \<open>A position: the type of the last token, the text after it and the number of characters before
  that.\<close>

type_synonym place = "token_type \<times> string \<times> nat"

type_synonym spec_loop = "(spec_exit + place \<times> spec_line) option"

function read_line :: "string \<Rightarrow> nat \<Rightarrow> spec_line \<Rightarrow> spec_loop" where
  "read_line text n line =
     (case lex_token text of
        More \<Rightarrow> Some (Inl No_line_spec)
      | Fails \<Rightarrow> None
      | Token ty w k \<Rightarrow>
          (case add_word ty w line of
             None \<Rightarrow> None
           | Some (Go line') \<Rightarrow> read_line (drop k text) (n + k) line'
           | Some Stop \<Rightarrow> Some (Inr ((ty, drop k text, n + k), line))
           | Some (Fail e) \<Rightarrow> Some (Inl (Syntax_spec e (drop k text) (n + k)))))"
  by pat_completeness auto
termination
  by (relation "measure (\<lambda>(text, n, line). length text)") (auto dest: lex_shorter)

declare read_line.simps [simp del]

definition read_redirect :: "place \<Rightarrow> spec_line \<Rightarrow> spec_loop" where
  "read_redirect = (\<lambda>(ty, text, n) line.
     if ty = TOKEN_TYPE_OUT_NEW \<or> ty = TOKEN_TYPE_OUT_APPEND then
       (case lex_token text of
          More \<Rightarrow> Some (Inl No_line_spec)
        | Fails \<Rightarrow> None
        | Token ty1 w k \<Rightarrow>
            if ty1 \<noteq> TOKEN_TYPE_STR
            then Some (Inl (Syntax_spec PARSER_ERR_OUTOUT_REDIRECT_BAD_ARG (drop k text) (n + k)))
            else if w = [] then None
            else
              (case lex_token (drop k text) of
                 More \<Rightarrow> Some (Inl No_line_spec)
               | Fails \<Rightarrow> None
               | Token ty2 _ k2 \<Rightarrow>
                   Some (Inr ((ty2, drop k2 (drop k text), n + k + k2),
                     line\<lparr>l_out_type := if ty = TOKEN_TYPE_OUT_NEW then OUTPUT_TYPE_FILE_NEW
                                       else OUTPUT_TYPE_FILE_APPEND, l_out_file := Some w\<rparr>))))
     else Some (Inr ((ty, text, n), line)))"

definition read_background :: "place \<Rightarrow> spec_line \<Rightarrow> spec_loop" where
  "read_background = (\<lambda>(ty, text, n) line.
     if ty = TOKEN_TYPE_BACKGROUND then
       (case lex_token text of
          More \<Rightarrow> Some (Inl No_line_spec)
        | Fails \<Rightarrow> None
        | Token ty1 _ k \<Rightarrow> Some (Inr ((ty1, drop k text, n + k), line\<lparr>l_is_background := True\<rparr>)))
     else Some (Inr ((ty, text, n), line)))"

text \<open>The end of the current line, if it is in the text.\<close>

function end_of_line :: "string \<Rightarrow> nat \<Rightarrow> nat option option" where
  "end_of_line text n =
     (case lex_token text of
        More \<Rightarrow> Some None
      | Fails \<Rightarrow> None
      | Token ty w k \<Rightarrow>
          if ty = TOKEN_TYPE_NEW_LINE then Some (Some (n + k)) else end_of_line (drop k text) (n + k))"
  by pat_completeness auto
termination
  by (relation "measure (\<lambda>(text, n). length text)") (auto dest: lex_shorter)

declare end_of_line.simps [simp del]

definition spec_return :: "spec_exit \<Rightarrow> string list popped option" where
  "spec_return e =
     (case e of
        No_line_spec \<Rightarrow> Some (PARSER_ERR_NONE, None, 0)
      | Syntax_spec err text n \<Rightarrow>
          map_option (\<lambda>r. case r of Some m \<Rightarrow> (err, None, m) | None \<Rightarrow> (PARSER_ERR_NONE, None, 0))
            (end_of_line text n))"

definition spec_close :: "place \<Rightarrow> spec_line \<Rightarrow> string list popped option" where
  "spec_close = (\<lambda>(ty, text, n) line.
     if ty = TOKEN_TYPE_NEW_LINE then
       if l_exprs line = [] then None
       else if \<not> is_command (last (l_exprs line)) then Some (PARSER_ERR_ENDS_NOT_WITH_A_COMMAND, None, n)
       else Some (PARSER_ERR_NONE, Some line, n)
     else spec_return (Syntax_spec PARSER_ERR_TOO_LATE_ARGUMENTS text n))"

definition spec_then :: "spec_loop \<Rightarrow> (place \<Rightarrow> spec_line \<Rightarrow> string list popped option) \<Rightarrow> string list popped option" where
  "spec_then r f = (case r of None \<Rightarrow> None | Some (Inl e) \<Rightarrow> spec_return e | Some (Inr (p, line)) \<Rightarrow> f p line)"

definition pop_spec :: "string \<Rightarrow> string list popped option" where
  "pop_spec text =
     spec_then (read_line text 0 empty_line) (\<lambda>p line.
       spec_then (read_redirect p line) (\<lambda>p1 line1.
         spec_then (read_background p1 line1) spec_close))"

subsection \<open>The parser implements it\<close>

definition view :: "code_line \<Rightarrow> spec_line" where
  "view line = \<lparr>l_exprs = map (map_expr vec_items) (l_exprs line), l_out_type = l_out_type line,
     l_out_file = l_out_file line, l_is_background = l_is_background line\<rparr>"

text \<open>The arrays of a line are well formed, and no longer than the text read so far.\<close>

definition line_ok :: "nat \<Rightarrow> code_line \<Rightarrow> bool" where
  "line_ok n line \<longleftrightarrow> (\<forall>e as. EXPR_TYPE_COMMAND e as \<in> set (l_exprs line) \<longrightarrow>
     vec_wf as \<and> length (vec_items as) \<le> n)"

definition cursor_ok :: "cursor \<Rightarrow> bool" where
  "cursor_ok c \<longleftrightarrow> vec_wf (t_data (tok c)) \<and> used c + length (rest c) \<le> 2 ^ 32 - 2"

inductive same_loop :: "(exit + cursor \<times> code_line) option \<Rightarrow> spec_loop \<Rightarrow> bool" where
  same_crash: "same_loop None None"
| same_no_line: "same_loop (Some (Inl No_line)) (Some (Inl No_line_spec))"
| same_syntax: "vec_wf (t_data t) \<Longrightarrow> n + length text \<le> 2 ^ 32 - 2 \<Longrightarrow>
    same_loop (Some (Inl (Syntax e text n t))) (Some (Inl (Syntax_spec e text n)))"
| same_close: "cursor_ok c \<Longrightarrow> line_ok (used c) line \<Longrightarrow>
    same_loop (Some (Inr (c, line))) (Some (Inr ((t_type (tok c), rest c, used c), view line)))"

lemma view_simps [simp]:
  "l_exprs (view line) = map (map_expr vec_items) (l_exprs line)"
  "view (line\<lparr>l_out_type := ot\<rparr>) = (view line)\<lparr>l_out_type := ot\<rparr>"
  "view (line\<lparr>l_out_file := file\<rparr>) = (view line)\<lparr>l_out_file := file\<rparr>"
  "view (line\<lparr>l_is_background := b\<rparr>) = (view line)\<lparr>l_is_background := b\<rparr>"
  "view (line\<lparr>l_exprs := es\<rparr>) = (view line)\<lparr>l_exprs := map (map_expr vec_items) es\<rparr>"
  by (simp_all add: view_def)

lemma is_command_map [simp]: "is_command (map_expr f e) = is_command e"
  by (cases e) auto

lemma line_ok_simps [simp]:
  "line_ok n (line\<lparr>l_out_type := ot\<rparr>) = line_ok n line"
  "line_ok n (line\<lparr>l_out_file := file\<rparr>) = line_ok n line"
  "line_ok n (line\<lparr>l_is_background := b\<rparr>) = line_ok n line"
  by (simp_all add: line_ok_def)

lemma line_ok_mono: "line_ok m line \<Longrightarrow> m \<le> n \<Longrightarrow> line_ok n line"
  by (fastforce simp: line_ok_def)

lemma next_token_lex:
  assumes "cursor_ok c"
  shows "case lex_token (rest c) of
      Token ty w n \<Rightarrow> (\<exists>t. next_token c = Some (Some \<lparr>rest = drop n (rest c), used = used c + n, tok = t\<rparr>) \<and>
        token_is t ty w \<and> cursor_ok \<lparr>rest = drop n (rest c), used = used c + n, tok = t\<rparr>)
    | More \<Rightarrow> next_token c = Some None
    | Fails \<Rightarrow> next_token c = None"
proof -
  have "token_result (lex_token (rest c)) (parse_token (rest c) (tok c))"
    using assms by (intro parse_token_lex) (auto simp: cursor_ok_def)
  then show ?thesis
    using assms lex_bounds [of "rest c"]
    by (auto simp: token_result_def next_token_def cursor_ok_def token_is_def split: lexed.splits)
qed

lemma token_strdup_is: "token_is t TOKEN_TYPE_STR w \<Longrightarrow> token_strdup t = (if w = [] then None else Some w)"
  using token_size_pos [of t TOKEN_TYPE_STR w] by (auto simp: token_strdup_def token_is_def)

text \<open>One token: the two lines take the same step.\<close>

lemma view_append [simp]: "view (command_line_append e line) = command_line_append (map_expr vec_items e) (view line)"
  by (simp add: command_line_append_def)

lemma line_ok_append: "line_ok n (command_line_append e line) \<longleftrightarrow>
    line_ok n line \<and> (\<forall>x as. e = EXPR_TYPE_COMMAND x as \<longrightarrow> vec_wf as \<and> length (vec_items as) \<le> n)"
  by (auto simp: line_ok_def command_line_append_def)

lemma append_arg_view:
  assumes ok: "line_ok n line" "n < 2 ^ 32 - 2" and es: "l_exprs line \<noteq> []" "is_command (last (l_exprs line))"
  shows "\<exists>line'. command_append_arg w line = Some line' \<and> add_arg w (view line) = Some (view line') \<and>
     line_ok (Suc n) line'"
proof -
  obtain e as where last: "last (l_exprs line) = EXPR_TYPE_COMMAND e as"
    using es(2) by (cases "last (l_exprs line)") auto
  then have "EXPR_TYPE_COMMAND e as \<in> set (l_exprs line)" using es(1) by (metis last_in_set)
  with ok have as: "vec_wf as" "length (vec_items as) \<le> n" by (auto simp: line_ok_def)
  then obtain as' where as': "vec_append as w = Some as'" "vec_wf as'" "vec_items as' = vec_items as @ [w]"
    using vec_append_ok [of as w] ok(2) by auto
  let ?line = "line\<lparr>l_exprs := butlast (l_exprs line) @ [EXPR_TYPE_COMMAND e as']\<rparr>"
  have "line_ok (Suc n) ?line"
    using ok(1) as as' by (fastforce simp: line_ok_def dest: in_set_butlastD)
  moreover have "last (l_exprs (view line)) = EXPR_TYPE_COMMAND e (vec_items as)"
    using es(1) last by (simp add: last_map)
  then have "add_arg w (view line) = Some (view ?line)"
    by (simp add: add_arg_def as' map_butlast)
  ultimately show ?thesis using last as' by (simp add: command_append_arg_def)
qed

inductive same_step :: "nat \<Rightarrow> code_line line_step option \<Rightarrow> spec_line line_step option \<Rightarrow> bool" for n where
  step_crash: "same_step n None None"
| step_go: "line_ok n line \<Longrightarrow> same_step n (Some (Go line)) (Some (Go (view line)))"
| step_stop: "same_step n (Some Stop) (Some Stop)"
| step_fail: "same_step n (Some (Fail e)) (Some (Fail e))"

lemma add_operator_same:
  assumes "line_ok n line" "\<not> is_command op" "op' = map_expr vec_items op"
  shows "same_step n (Some (add_operator op e1 e2 line)) (Some (add_operator op' e1 e2 (view line)))"
proof -
  have "line_ok n (command_line_append op line)"
    using assms by (auto simp: line_ok_append)
  then show ?thesis
    using step_go [of n "command_line_append op line"] assms(3)
    by (auto simp: add_operator_def last_map intro: same_step.intros)
qed

lemma add_token_same:
  assumes t: "token_is t ty w" and ok: "line_ok n line" "n < 2 ^ 32 - 2"
  shows "same_step (Suc n) (add_token t line) (add_word ty w (view line))"
proof -
  have ty: "t_type t = ty" using t by (simp add: token_is_def)
  have ok': "line_ok (Suc n) line" using ok(1) by (rule line_ok_mono) simp
  note op = add_operator_same [OF ok'] same_step.intros
  show ?thesis
  proof (cases "ty = TOKEN_TYPE_STR")
    case True
    note dup = token_strdup_is [OF t [unfolded True]]
    show ?thesis
    proof (cases "l_exprs line \<noteq> [] \<and> is_command (last (l_exprs line)) \<and> w \<noteq> []")
      case last: True
      with append_arg_view [OF ok, of w] obtain line' where "command_append_arg w line = Some line'"
        "add_arg w (view line) = Some (view line')" "line_ok (Suc n) line'" by blast
      with last True ty dup show ?thesis
        by (auto simp: add_token_def add_word_def last_map intro: step_go)
    next
      case False
      define line' where "line' = command_line_append (EXPR_TYPE_COMMAND w vec_new) line"
      have "line_ok (Suc n) line'" using ok' by (simp add: line'_def line_ok_append)
      moreover have "command_line_append (EXPR_TYPE_COMMAND w []) (view line) = view line'"
        by (simp add: line'_def)
      ultimately show ?thesis
        using False True ty dup
        by (auto simp: add_token_def add_word_def last_map line'_def [symmetric] intro: same_step.intros)
    qed
  next
    case False
    then show ?thesis
      using ok' by (cases ty) (auto simp: add_token_def add_word_def ty intro!: op)
  qed
qed

text \<open>The loop and the two optional parts at the end of a line.\<close>

lemma pop_loop_same:
  "cursor_ok c \<Longrightarrow> line_ok (used c) line \<Longrightarrow> same_loop (pop_loop c line) (read_line (rest c) (used c) (view line))"
proof (induction c line rule: pop_loop.induct)
  case (1 c line)
  show ?case
  proof (cases "rest c = []")
    case True
    then show ?thesis
      by (subst pop_loop.simps, subst read_line.simps) (simp add: lex_token_def same_no_line)
  next
    case ne: False
    show ?thesis
    proof (cases "lex_token (rest c)")
      case (Token ty w k)
      with next_token_lex [OF "1.prems"(1)] obtain t where
        nxt: "next_token c = Some (Some \<lparr>rest = drop k (rest c), used = used c + k, tok = t\<rparr>)"
        and t: "token_is t ty w" and ok: "cursor_ok \<lparr>rest = drop k (rest c), used = used c + k, tok = t\<rparr>"
        by auto
      define c' where "c' = \<lparr>rest = drop k (rest c), used = used c + k, tok = t\<rparr>"
      note k = lex_bounds [OF Token]
      have "used c < 2 ^ 32 - 2" using "1.prems"(1) k by (auto simp: cursor_ok_def)
      from add_token_same [OF t "1.prems"(2) this]
      show ?thesis
      proof cases
        case step_crash
        then show ?thesis using ne nxt Token
          by (subst pop_loop.simps, subst read_line.simps) (simp add: same_crash)
      next
        case (step_go line')
        have "line_ok (used c') line'" using step_go(3) by (rule line_ok_mono) (use k in \<open>simp add: c'_def\<close>)
        with "1.IH" [OF ne nxt refl] step_go(1) ok
        have "same_loop (pop_loop c' line') (read_line (rest c') (used c') (view line'))" by (simp add: c'_def)
        with step_go(1,2) ne nxt Token show ?thesis
          by (subst pop_loop.simps, subst read_line.simps) (simp add: c'_def)
      next
        case step_stop
        have "line_ok (used c') line" using "1.prems"(2) by (rule line_ok_mono) (simp add: c'_def)
        from same_close [OF ok [folded c'_def] this] step_stop ne nxt Token t show ?thesis
          by (subst pop_loop.simps, subst read_line.simps) (simp add: c'_def token_is_def)
      next
        case (step_fail e)
        then show ?thesis using ne nxt Token ok
          by (subst pop_loop.simps, subst read_line.simps) (auto simp: cursor_ok_def intro: same_syntax)
      qed
    next
      case More
      with next_token_lex [OF "1.prems"(1)] ne show ?thesis
        by (subst pop_loop.simps, subst read_line.simps) (simp add: same_no_line)
    next
      case Fails
      with next_token_lex [OF "1.prems"(1)] ne show ?thesis
        by (subst pop_loop.simps, subst read_line.simps) (simp add: same_crash)
    qed
  qed
qed

lemma next_tokenE:
  assumes "cursor_ok c"
  obtains (token) ty w n c' where "lex_token (rest c) = Token ty w n" "next_token c = Some (Some c')"
      "cursor_ok c'" "token_is (tok c') ty w" "rest c' = drop n (rest c)" "used c' = used c + n"
    | (no_more) "lex_token (rest c) = More" "next_token c = Some None"
    | (fails) "lex_token (rest c) = Fails" "next_token c = None"
  using next_token_lex [OF assms] by (cases "lex_token (rest c)") (fastforce intro: token no_more fails)+

lemma close_redirect_same:
  assumes ok: "cursor_ok c" "line_ok (used c) line"
  shows "same_loop (close_redirect c line) (read_redirect (t_type (tok c), rest c, used c) (view line))"
proof (cases "t_type (tok c) = TOKEN_TYPE_OUT_NEW \<or> t_type (tok c) = TOKEN_TYPE_OUT_APPEND")
  case False
  with same_close [OF ok] show ?thesis by (auto simp: close_redirect_def read_redirect_def)
next
  case True
  define line1 where "line1 = line\<lparr>l_out_type := if t_type (tok c) = TOKEN_TYPE_OUT_NEW
      then OUTPUT_TYPE_FILE_NEW else OUTPUT_TYPE_FILE_APPEND\<rparr>"
  show ?thesis
  proof (cases rule: next_tokenE [OF ok(1), case_names token no_more fails])
    case (token ty w n c1)
    have ty: "t_type (tok c1) = ty" using token(4) by (simp add: token_is_def)
    show ?thesis
    proof (cases "ty = TOKEN_TYPE_STR")
      case False
      have "vec_wf (t_data (tok c1))" "used c1 + length (rest c1) \<le> 2 ^ 32 - 2"
        using token(3) by (simp_all add: cursor_ok_def)
      from same_syntax [OF this, of PARSER_ERR_OUTOUT_REDIRECT_BAD_ARG] True False token ty show ?thesis
        by (simp add: close_redirect_def read_redirect_def)
    next
      case str: True
      note dup = token_strdup_is [OF token(4) [unfolded str]]
      show ?thesis
      proof (cases "w = []")
        case w: True
        with True str token ty dup show ?thesis
          by (simp add: close_redirect_def read_redirect_def same_crash)
      next
        case w: False
        show ?thesis
        proof (cases rule: next_tokenE [OF token(3), case_names token no_more fails])
          case token2: (token ty2 w2 n2 c2)
          have "line_ok (used c2) (line1\<lparr>l_out_file := Some w\<rparr>)"
            using ok(2) token token2 by (auto simp: line1_def intro: line_ok_mono)
          note same = same_close [OF token2(3) this]
          have "t_type (tok c2) = ty2" using token2(4) by (simp add: token_is_def)
          with same True str w token token2 ty dup show ?thesis
            by (auto simp: close_redirect_def read_redirect_def line1_def)
        next
          case no_more
          with True str w token ty dup show ?thesis
            by (simp add: close_redirect_def read_redirect_def same_no_line)
        next
          case fails
          with True str w token ty dup show ?thesis
            by (simp add: close_redirect_def read_redirect_def same_crash)
        qed
      qed
    qed
  next
    case no_more
    with True show ?thesis by (simp add: close_redirect_def read_redirect_def same_no_line)
  next
    case fails
    with True show ?thesis by (simp add: close_redirect_def read_redirect_def same_crash)
  qed
qed

lemma close_background_same:
  assumes ok: "cursor_ok c" "line_ok (used c) line"
  shows "same_loop (close_background c line) (read_background (t_type (tok c), rest c, used c) (view line))"
proof (cases "t_type (tok c) = TOKEN_TYPE_BACKGROUND")
  case False
  with same_close [OF ok] show ?thesis by (auto simp: close_background_def read_background_def)
next
  case True
  show ?thesis
  proof (cases rule: next_tokenE [OF ok(1), case_names token no_more fails])
    case (token ty w n c1)
    have "line_ok (used c1) (line\<lparr>l_is_background := True\<rparr>)"
      using ok(2) token by (auto intro: line_ok_mono)
    with same_close [OF token(3) this] token True show ?thesis
      by (auto simp: close_background_def read_background_def token_is_def)
  qed (use True in \<open>simp_all add: close_background_def read_background_def same_no_line same_crash\<close>)
qed

lemma skip_line_same: "cursor_ok c \<Longrightarrow> skip_line c = end_of_line (rest c) (used c)"
proof (induction c rule: skip_line.induct)
  case (1 c)
  show ?case
  proof (cases "rest c = []")
    case True
    then show ?thesis by (subst skip_line.simps, subst end_of_line.simps) (simp add: lex_token_def)
  next
    case ne: False
    show ?thesis
    proof (cases rule: next_tokenE [OF "1.prems", case_names token no_more fails])
      case (token ty w n c1)
      then have "t_type (tok c1) = ty" by (simp add: token_is_def)
      with "1.IH" [OF ne token(2) refl] token ne show ?thesis
        by (subst skip_line.simps, subst end_of_line.simps) simp
    next
      case no_more
      with ne show ?thesis by (subst skip_line.simps, subst end_of_line.simps) simp
    next
      case fails
      with ne show ?thesis by (subst skip_line.simps, subst end_of_line.simps) simp
    qed
  qed
qed

text \<open>What a call returns, seen through \<open>view\<close>.\<close>

definition popped_view :: "string vec popped option \<Rightarrow> string list popped option" where
  "popped_view = map_option (\<lambda>(e, line, n). (e, map_option view line, n))"

lemma return_exit_same:
  "same_loop (Some (Inl e)) (Some (Inl e')) \<Longrightarrow> popped_view (return_exit e) = spec_return e'"
proof (erule same_loop.cases)
  fix t :: token and n s err
  assume "Some (Inl e) = Some (Inl (Syntax err s n t))" "Some (Inl e') = Some (Inl (Syntax_spec err s n))"
    and "vec_wf (t_data t)" "n + length s \<le> 2 ^ 32 - 2"
  then show "popped_view (return_exit e) = spec_return e'"
    using skip_line_same [of "\<lparr>rest = s, used = n, tok = t\<rparr>"]
    by (cases "end_of_line s n") (auto simp: return_exit_def spec_return_def popped_view_def cursor_ok_def split: option.splits)
qed (auto simp: return_exit_def spec_return_def popped_view_def)

lemma close_line_same:
  assumes ok: "cursor_ok c" "line_ok (used c) line"
  shows "popped_view (close_line c line) = spec_close (t_type (tok c), rest c, used c) (view line)"
proof (cases "t_type (tok c) = TOKEN_TYPE_NEW_LINE")
  case True
  then show ?thesis by (auto simp: close_line_def spec_close_def popped_view_def last_map)
next
  case False
  have "vec_wf (t_data (tok c))" "used c + length (rest c) \<le> 2 ^ 32 - 2"
    using ok(1) by (simp_all add: cursor_ok_def)
  from return_exit_same [OF same_syntax [OF this]] False show ?thesis
    by (simp add: close_line_def spec_close_def)
qed

lemma same_loop_then:
  assumes "same_loop r r'"
    and "\<And>c line. cursor_ok c \<Longrightarrow> line_ok (used c) line \<Longrightarrow>
      popped_view (f c line) = g (t_type (tok c), rest c, used c) (view line)"
  shows "popped_view (do { x \<leftarrow> r; case x of Inl e \<Rightarrow> return_exit e | Inr (c, line) \<Rightarrow> f c line }) = spec_then r' g"
  using assms(1)
proof cases
  case same_crash
  then show ?thesis by (simp add: spec_then_def popped_view_def)
next
  case same_no_line
  with return_exit_same [of No_line No_line_spec] assms(1) show ?thesis by (simp add: spec_then_def)
next
  case (same_syntax t n s e)
  with return_exit_same [of "Syntax e s n t" "Syntax_spec e s n"] assms(1) show ?thesis
    by (simp add: spec_then_def)
next
  case (same_close c line)
  with assms(2) [of c line] show ?thesis by (simp add: spec_then_def)
qed

lemma pop_text_spec:
  assumes "length s \<le> 2 ^ 32 - 2"
  shows "popped_view (pop_text s) = pop_spec s"
proof -
  have start: "cursor_ok \<lparr>rest = s, used = 0, tok = token_zero\<rparr>" "line_ok 0 empty_line" "view empty_line = empty_line"
    using assms by (simp_all add: cursor_ok_def token_zero_def line_ok_def empty_line_def view_def)
  note loop = pop_loop_same [OF start(1), of empty_line]
  show ?thesis
    unfolding pop_text_def pop_spec_def
    using loop start
    by (intro same_loop_then close_redirect_same close_background_same close_line_same) simp_all
qed

end
