(* ===== verification/Shell_Print.thy ===== *)
theory Shell_Print
  imports Shell_Grammar
begin

section \<open>Shell: what the specification of the parser gives\<close>

text \<open>
  Facts about \<open>pop_spec\<close>: how much of the text it uses, that more input does not change a result
  once there is one, that the lines it returns are well formed, and that a line written by
  \<open>print_line\<close> is read back.
\<close>

subsection \<open>More input\<close>

fun extend_exit :: "string \<Rightarrow> spec_exit \<Rightarrow> spec_exit" where
  "extend_exit zs No_line_spec = No_line_spec"
| "extend_exit zs (Syntax_spec e s n) = Syntax_spec e (s @ zs) n"

definition extend_loop :: "string \<Rightarrow> spec_loop \<Rightarrow> spec_loop" where
  "extend_loop zs = map_option (map_sum (extend_exit zs) (\<lambda>((ty, s, n), line). ((ty, s @ zs, n), line)))"

abbreviation incomplete :: "spec_loop \<Rightarrow> bool" where
  "incomplete r \<equiv> r = Some (Inl No_line_spec)"

lemma drop_append_le: "k \<le> length s \<Longrightarrow> drop k (s @ zs) = drop k s @ zs"
  by simp

lemma read_line_append:
  "\<not> incomplete (read_line s n line) \<Longrightarrow> read_line (s @ zs) n line = extend_loop zs (read_line s n line)"
proof (induction s n line rule: read_line.induct)
  case (1 s n line)
  show ?case
  proof (cases "lex_token s")
    case (Token ty w k)
    note k = lex_bounds(2) [OF Token]
    have lex: "lex_token (s @ zs) = Token ty w k" using Token by (simp add: lex_append)
    show ?thesis
    proof (cases "add_word ty w line")
      case None
      then show ?thesis
        using Token lex by (simp add: read_line.simps [of s] read_line.simps [of "s @ zs"] extend_loop_def)
    next
      case (Some st)
      show ?thesis
      proof (cases st)
        case (Go line')
        with Some Token have step: "read_line s n line = read_line (drop k s) (n + k) line'"
          by (subst read_line.simps) simp
        have "read_line (s @ zs) n line = read_line (drop k s @ zs) (n + k) line'"
          using Some Go lex k by (subst read_line.simps) simp
        with "1.IH" [OF Token Some Go] "1.prems" step show ?thesis by simp
      qed (use Some Token lex k in \<open>simp_all add: read_line.simps [of s] read_line.simps [of "s @ zs"] extend_loop_def\<close>)
    qed
  next
    case More
    with "1.prems" show ?thesis by (subst (asm) read_line.simps) simp
  next
    case Fails
    then have "lex_token (s @ zs) = Fails" by (simp add: lex_append)
    with Fails show ?thesis by (simp add: read_line.simps [of s] read_line.simps [of "s @ zs"] extend_loop_def)
  qed
qed

lemma read_redirect_append:
  assumes "\<not> incomplete (read_redirect (ty, s, n) line)"
  shows "read_redirect (ty, s @ zs, n) line = extend_loop zs (read_redirect (ty, s, n) line)"
proof (cases "ty = TOKEN_TYPE_OUT_NEW \<or> ty = TOKEN_TYPE_OUT_APPEND")
  case False
  then show ?thesis by (auto simp: read_redirect_def extend_loop_def)
next
  case True
  then have "lex_token s \<noteq> More" using assms by (auto simp: read_redirect_def)
  note lex = lex_append [OF this]
  show ?thesis
  proof (cases "lex_token s")
    case (Token ty1 w k)
    note k = lex_bounds(2) [OF Token]
    show ?thesis
    proof (cases "ty1 = TOKEN_TYPE_STR \<and> w \<noteq> []")
      case str: True
      then have "lex_token (drop k s) \<noteq> More" using assms True Token by (auto simp: read_redirect_def)
      note lex2 = lex_append [OF this]
      show ?thesis
        using True str Token k lex [of zs] lex2 [of zs] lex_bounds(2) [of "drop k s"]
        by (cases "lex_token (drop k s)") (auto simp: read_redirect_def extend_loop_def)
    next
      case False
      with True Token k lex [of zs] show ?thesis by (auto simp: read_redirect_def extend_loop_def)
    qed
  qed (use True lex [of zs] \<open>lex_token s \<noteq> More\<close> in \<open>auto simp: read_redirect_def extend_loop_def\<close>)
qed

lemma read_background_append:
  assumes "\<not> incomplete (read_background (ty, s, n) line)"
  shows "read_background (ty, s @ zs, n) line = extend_loop zs (read_background (ty, s, n) line)"
proof (cases "ty = TOKEN_TYPE_BACKGROUND")
  case False
  then show ?thesis by (simp add: read_background_def extend_loop_def)
next
  case True
  then have "lex_token s \<noteq> More" using assms by (auto simp: read_background_def)
  with True lex_append [OF this, of zs] lex_bounds(2) [of s] show ?thesis
    by (cases "lex_token s") (auto simp: read_background_def extend_loop_def)
qed

lemma end_of_line_append:
  "end_of_line s n \<noteq> Some None \<Longrightarrow> end_of_line (s @ zs) n = end_of_line s n"
proof (induction s n rule: end_of_line.induct)
  case (1 s n)
  show ?case
  proof (cases "lex_token s")
    case (Token ty w k)
    note k = lex_bounds(2) [OF Token]
    have lex: "lex_token (s @ zs) = Token ty w k" using Token by (simp add: lex_append)
    show ?thesis
    proof (cases "ty = TOKEN_TYPE_NEW_LINE")
      case True
      with Token lex show ?thesis by (simp add: end_of_line.simps [of s] end_of_line.simps [of "s @ zs"])
    next
      case False
      with "1.prems" Token have "end_of_line (drop k s) (n + k) \<noteq> Some None"
        by (subst (asm) end_of_line.simps) simp
      from "1.IH" [OF Token False this] False Token lex k show ?thesis
        by (simp add: end_of_line.simps [of s] end_of_line.simps [of "s @ zs"])
    qed
  next
    case More
    with "1.prems" show ?thesis by (subst (asm) end_of_line.simps) simp
  next
    case Fails
    then have "lex_token (s @ zs) = Fails" by (simp add: lex_append)
    with Fails show ?thesis by (simp add: end_of_line.simps [of s] end_of_line.simps [of "s @ zs"])
  qed
qed

text \<open>A result that drops no characters is "no line yet".\<close>

definition waiting :: "'v popped option \<Rightarrow> bool" where
  "waiting r \<longleftrightarrow> (\<exists>e line. r = Some (e, line, 0))"

lemma spec_return_append:
  "\<not> waiting (spec_return e) \<Longrightarrow> spec_return (extend_exit zs e) = spec_return e"
proof (cases e)
  case No_line_spec
  then show "\<not> waiting (spec_return e) \<Longrightarrow> ?thesis" by (simp add: spec_return_def waiting_def)
next
  case (Syntax_spec err s n)
  assume "\<not> waiting (spec_return e)"
  then have "end_of_line s n \<noteq> Some None" using Syntax_spec by (auto simp: spec_return_def waiting_def)
  with Syntax_spec show ?thesis by (simp add: spec_return_def end_of_line_append)
qed

lemma spec_close_append:
  "\<not> waiting (spec_close (ty, s, n) line) \<Longrightarrow> spec_close (ty, s @ zs, n) line = spec_close (ty, s, n) line"
  using spec_return_append [of "Syntax_spec PARSER_ERR_TOO_LATE_ARGUMENTS s n" zs]
  by (simp add: spec_close_def split: if_splits)

lemma spec_then_append:
  assumes "\<not> waiting (spec_then r f)"
    and "\<not> incomplete r \<Longrightarrow> r' = extend_loop zs r"
    and "\<And>ty s n line. \<not> waiting (f (ty, s, n) line) \<Longrightarrow> g (ty, s @ zs, n) line = f (ty, s, n) line"
  shows "spec_then r' g = spec_then r f"
proof (cases r)
  case None
  with assms(2) show ?thesis by (simp add: spec_then_def extend_loop_def)
next
  case (Some x)
  show ?thesis
  proof (cases x)
    case (Inl e)
    then have "\<not> waiting (spec_return e)" "\<not> incomplete r"
      using assms(1) Some by (auto simp: spec_then_def spec_return_def waiting_def)
    with assms(2) Some Inl show ?thesis by (simp add: spec_then_def extend_loop_def spec_return_append)
  next
    case (Inr y)
    then obtain ty s n line where y: "y = ((ty, s, n), line)" by (metis surj_pair)
    with assms Some Inr show ?thesis by (simp add: spec_then_def extend_loop_def)
  qed
qed

lemma pop_spec_append:
  assumes "\<not> waiting (pop_spec s)"
  shows "pop_spec (s @ zs) = pop_spec s"
  unfolding pop_spec_def
proof (rule spec_then_append [OF assms [unfolded pop_spec_def]])
  show "read_line (s @ zs) 0 empty_line = extend_loop zs (read_line s 0 empty_line)"
    if "\<not> incomplete (read_line s 0 empty_line)" using that by (rule read_line_append)
next
  fix ty s n line
  let ?bg = "\<lambda>p1 line1. spec_then (read_background p1 line1) spec_close"
  assume "\<not> waiting (spec_then (read_redirect (ty, s, n) line) ?bg)"
  then show "spec_then (read_redirect (ty, s @ zs, n) line) ?bg = spec_then (read_redirect (ty, s, n) line) ?bg"
    by (rule spec_then_append)
      (auto intro: read_redirect_append spec_then_append read_background_append spec_close_append)
qed

subsection \<open>How much is used, and which lines are returned\<close>

lemma skip_space_newline: "skip_space cs n = Inl m \<Longrightarrow> \<exists>u v. cs = u @ NL # v \<and> m = n + length u + 1"
proof (induction cs n rule: skip_space.induct)
  case (1 n)
  then show ?case by simp
next
  case (2 c cs n)
  show ?case
  proof (cases "c = NL")
    case True
    with 2 show ?thesis by - (rule exI [of _ "[]"], auto split: if_splits)
  next
    case False
    with 2 obtain u v where "cs = u @ NL # v" "m = n + 1 + length u + 1" by (auto split: if_splits)
    then show ?thesis by - (rule exI [of _ "c # u"], auto)
  qed
qed

lemma skip_comment_newline: "skip_comment cs n = Some m \<Longrightarrow> \<exists>u v. cs = u @ NL # v \<and> m = n + length u + 1"
proof (induction cs n rule: skip_comment.induct)
  case (1 n)
  then show ?case by simp
next
  case (2 c cs n)
  show ?case
  proof (cases "c = NL")
    case True
    with 2 show ?thesis by - (rule exI [of _ "[]"], auto)
  next
    case False
    with 2 obtain u v where "cs = u @ NL # v" "m = n + 1 + length u + 1" by auto
    then show ?thesis by - (rule exI [of _ "c # u"], auto)
  qed
qed

lemma token_action_newline:
  assumes "token_action q ne c cs = Emit TOKEN_TYPE_NEW_LINE k"
  shows "\<exists>u v. c # cs = u @ NL # v \<and> k = length u + 1"
  using assms
proof (cases rule: token_action_cases)
  case comment
  then have "skip_comment cs 1 = Some k" by (auto simp: comment_action_def split: if_splits option.splits)
  from skip_comment_newline [OF this] obtain u v where "cs = u @ NL # v" "k = 1 + length u + 1" by blast
  then show ?thesis by - (rule exI [of _ "c # u"], simp)
qed (auto simp: quote_action_def escape_action_def operator_action_def operator_type_def
    split: if_splits option.splits list.splits)

lemma lex_loop_newline:
  "lex_loop q cs n w = Token TOKEN_TYPE_NEW_LINE v m \<Longrightarrow> \<exists>x y. cs = x @ NL # y \<and> m = n + length x + 1"
proof (induction q cs n w rule: lex_loop.induct)
  case (1 q n w)
  then show ?case by simp
next
  case (2 q c cs n w)
  show ?case
  proof (cases "token_action q (w \<noteq> []) c cs")
    case (Append q' u k)
    with "2.prems" have "lex_loop q' (drop k (c # cs)) (n + k) (w @ u) = Token TOKEN_TYPE_NEW_LINE v m"
      by (simp add: lex_loop.simps(2))
    from "2.IH" [OF Append this] obtain x y where
      xy: "drop k (c # cs) = x @ NL # y" "m = n + k + length x + 1" by blast
    have "c # cs = (take k (c # cs) @ x) @ NL # y" using xy(1) by (metis append.assoc append_take_drop_id)
    moreover have "length (take k (c # cs) @ x) = k + length x" using token_action_Append [OF Append] by simp
    ultimately show ?thesis using xy(2) by (metis add.assoc)
  next
    case (Emit ty k)
    with "2.prems" have "ty = TOKEN_TYPE_NEW_LINE" "m = n + k" by (auto simp: lex_loop.simps(2))
    with token_action_newline [of q "w \<noteq> []" c cs k] Emit show ?thesis by auto
  qed (use "2.prems" in \<open>auto simp: lex_loop.simps(2)\<close>)
qed

lemma skip_space_prefix: "skip_space cs n = Inr (m, zs) \<Longrightarrow> \<exists>u. cs = u @ zs \<and> m = n + length u"
proof (induction cs n rule: skip_space.induct)
  case (2 c cs n)
  show ?case
  proof (cases "\<not> isspace c")
    case True
    with 2 show ?thesis by simp
  next
    case False
    with 2 obtain u where "cs = u @ zs" "m = n + 1 + length u" by (auto split: if_splits)
    then show ?thesis by - (rule exI [of _ "c # u"], simp)
  qed
qed simp

lemma lex_newline_end:
  assumes "lex_token s = Token TOKEN_TYPE_NEW_LINE w k"
  shows "\<exists>u v. s = u @ NL # v \<and> k = length u + 1"
proof (cases "skip_space s 0")
  case (Inl m)
  with assms skip_space_newline [OF Inl] show ?thesis by (auto simp: lex_token_def)
next
  case (Inr x)
  then obtain n zs where skip: "skip_space s 0 = Inr (n, zs)" by (cases x) auto
  with assms lex_loop_newline [of None zs n "[]" w k] obtain x y where
    "zs = x @ NL # y" "k = n + length x + 1" by (auto simp: lex_token_def)
  moreover obtain u where "s = u @ zs" "n = length u" using skip_space_prefix [OF skip] by auto
  ultimately show ?thesis by - (rule exI [of _ "u @ x"], simp)
qed

definition place_ok :: "string \<Rightarrow> place \<Rightarrow> bool" where
  "place_ok s0 = (\<lambda>(ty, s, n). \<exists>u. s0 = u @ s \<and> n = length u \<and> (ty = TOKEN_TYPE_NEW_LINE \<longrightarrow> u \<noteq> [] \<and> last u = NL))"

lemma place_ok_next:
  assumes "place_ok s0 (ty, s, n)" "lex_token s = Token ty1 w k"
  shows "place_ok s0 (ty1, drop k s, n + k)"
proof -
  from assms(1) obtain u where u: "s0 = u @ s" "n = length u" by (auto simp: place_ok_def)
  note k = lex_bounds [OF assms(2)]
  have "take k s \<noteq> [] \<and> last (take k s) = NL" if "ty1 = TOKEN_TYPE_NEW_LINE"
    using lex_newline_end [OF assms(2) [unfolded that]] by auto
  then show ?thesis
    unfolding place_ok_def using u k by (intro case_prodI exI [of _ "u @ take k s"]) auto
qed

text \<open>The invariant of a line under construction, and of a finished one.\<close>

definition exprs_ok :: "string list expr list \<Rightarrow> bool" where
  "exprs_ok es \<longleftrightarrow> (\<forall>i < length es. is_command (es ! i) \<longleftrightarrow> even i) \<and>
     (\<forall>e as. EXPR_TYPE_COMMAND e as \<in> set es \<longrightarrow> e \<noteq> [] \<and> [] \<notin> set as)"

definition redirect_ok :: "spec_line \<Rightarrow> bool" where
  "redirect_ok l \<longleftrightarrow> (l_out_type l = OUTPUT_TYPE_STDOUT \<longleftrightarrow> l_out_file l = None) \<and> l_out_file l \<noteq> Some []"

definition valid_line :: "spec_line \<Rightarrow> bool" where
  "valid_line l \<longleftrightarrow> exprs_ok (l_exprs l) \<and> l_exprs l \<noteq> [] \<and> is_command (last (l_exprs l)) \<and> redirect_ok l"

definition loop_ok :: "string \<Rightarrow> spec_loop \<Rightarrow> bool" where
  "loop_ok s0 r \<longleftrightarrow>
     (case r of
        Some (Inr (p, line)) \<Rightarrow> place_ok s0 p \<and> exprs_ok (l_exprs line) \<and> redirect_ok line
      | Some (Inl (Syntax_spec e s n)) \<Rightarrow> e \<noteq> PARSER_ERR_NONE \<and> (\<exists>ty. place_ok s0 (ty, s, n))
      | _ \<Rightarrow> True)"

lemma exprs_ok_append:
  "exprs_ok (es @ [e]) \<longleftrightarrow> exprs_ok es \<and> (is_command e \<longleftrightarrow> even (length es)) \<and>
     (\<forall>x as. e = EXPR_TYPE_COMMAND x as \<longrightarrow> x \<noteq> [] \<and> [] \<notin> set as)"
  by (auto simp: exprs_ok_def nth_append less_Suc_eq)

lemma exprs_ok_last:
  assumes "exprs_ok es" "es \<noteq> []"
  shows "is_command (last es) \<longleftrightarrow> odd (length es)"
proof -
  have "is_command (es ! (length es - 1)) \<longleftrightarrow> even (length es - 1)" using assms by (simp add: exprs_ok_def)
  with assms(2) show ?thesis by (simp add: last_conv_nth)
qed

lemma add_operator_ok:
  assumes "exprs_ok (l_exprs line)" "redirect_ok line" "\<not> is_command op" "add_operator op e1 e2 line = Go line'"
  shows "exprs_ok (l_exprs line') \<and> redirect_ok line'"
proof -
  have "l_exprs line \<noteq> []" "is_command (last (l_exprs line))"
    using assms(4) by (auto simp: add_operator_def split: if_splits)
  with exprs_ok_last [OF assms(1)] have "odd (length (l_exprs line))" by simp
  with assms show ?thesis
    by (auto simp: add_operator_def command_line_append_def exprs_ok_append redirect_ok_def split: if_splits)
qed

lemma add_word_ok:
  assumes ok: "exprs_ok (l_exprs line)" "redirect_ok line" and go: "add_word ty w line = Some (Go line')"
  shows "exprs_ok (l_exprs line') \<and> redirect_ok line'"
proof (cases "ty = TOKEN_TYPE_STR")
  case True
  then have w: "w \<noteq> []" using go by (auto simp: add_word_def split: if_splits)
  show ?thesis
  proof (cases "l_exprs line \<noteq> [] \<and> is_command (last (l_exprs line))")
    case last: True
    then obtain es e as where es: "l_exprs line = es @ [EXPR_TYPE_COMMAND e as]"
      by (cases "l_exprs line" rule: rev_cases) (auto elim: is_command.elims)
    then have "line' = line\<lparr>l_exprs := es @ [EXPR_TYPE_COMMAND e (as @ [w])]\<rparr>"
      using go True w by (auto simp: add_word_def add_arg_def)
    with es ok w show ?thesis by (auto simp: exprs_ok_append redirect_ok_def)
  next
    case False
    then have "line' = command_line_append (EXPR_TYPE_COMMAND w []) line"
      using go True w by (auto simp: add_word_def split: if_splits)
    moreover have "even (length (l_exprs line))"
      using False exprs_ok_last [OF ok(1)] by (cases "l_exprs line = []") auto
    ultimately show ?thesis using ok w by (auto simp: command_line_append_def exprs_ok_append redirect_ok_def)
  qed
next
  case False
  with go show ?thesis
    using ok add_operator_ok [OF ok, of EXPR_TYPE_PIPE] add_operator_ok [OF ok, of EXPR_TYPE_AND]
      add_operator_ok [OF ok, of EXPR_TYPE_OR]
    by (cases ty) (auto simp: add_word_def split: if_splits)
qed

lemma add_word_fail: "add_word ty w line = Some (Fail e) \<Longrightarrow> e \<noteq> PARSER_ERR_NONE"
  by (cases ty) (auto simp: add_word_def add_operator_def split: if_splits)

lemma read_line_ok:
  "place_ok s0 (ty0, s, n) \<Longrightarrow> exprs_ok (l_exprs line) \<Longrightarrow> redirect_ok line \<Longrightarrow> loop_ok s0 (read_line s n line)"
proof (induction s n line arbitrary: ty0 rule: read_line.induct)
  case (1 s n line)
  show ?case
  proof (cases "lex_token s")
    case (Token ty w k)
    note place = place_ok_next [OF "1.prems"(1) Token]
    show ?thesis
    proof (cases "add_word ty w line")
      case None
      with Token show ?thesis by (subst read_line.simps) (simp add: loop_ok_def)
    next
      case (Some st)
      show ?thesis
      proof (cases st)
        case (Go line')
        with "1.IH" [OF Token Some Go place] add_word_ok [OF "1.prems"(2,3)] Some Token show ?thesis
          by (subst read_line.simps) simp
      next
        case Stop
        with Some Token place "1.prems" show ?thesis by (subst read_line.simps) (simp add: loop_ok_def)
      next
        case (Fail e)
        with Some Token place add_word_fail show ?thesis by (subst read_line.simps) (auto simp: loop_ok_def)
      qed
    qed
  qed (subst read_line.simps, simp add: loop_ok_def)+
qed

lemma read_redirect_ok:
  assumes "place_ok s0 p" "exprs_ok (l_exprs line)" "redirect_ok line"
  shows "loop_ok s0 (read_redirect p line)"
proof -
  obtain ty s n where p: "p = (ty, s, n)" by (metis surj_pair)
  have place: "place_ok s0 (ty1, drop k s, n + k)" if "lex_token s = Token ty1 w k" for ty1 w k
    using place_ok_next [OF assms(1) [unfolded p] that] .
  show ?thesis
    using assms place place_ok_next [OF place]
    by (auto simp: p read_redirect_def loop_ok_def redirect_ok_def split: lexed.splits)
qed

lemma read_background_ok:
  assumes "place_ok s0 p" "exprs_ok (l_exprs line)" "redirect_ok line"
  shows "loop_ok s0 (read_background p line)"
proof -
  obtain ty s n where p: "p = (ty, s, n)" by (metis surj_pair)
  show ?thesis
    using assms place_ok_next [OF assms(1) [unfolded p]]
    by (auto simp: p read_background_def loop_ok_def redirect_ok_def split: lexed.splits)
qed

lemma end_of_line_ok:
  "place_ok s0 (ty, s, n) \<Longrightarrow> end_of_line s n = Some (Some m) \<Longrightarrow>
     \<exists>s'. place_ok s0 (TOKEN_TYPE_NEW_LINE, s', m)"
proof (induction s n arbitrary: ty rule: end_of_line.induct)
  case (1 s n)
  show ?case
  proof (cases "lex_token s")
    case (Token ty1 w k)
    note place = place_ok_next [OF "1.prems"(1) Token]
    show ?thesis
    proof (cases "ty1 = TOKEN_TYPE_NEW_LINE")
      case True
      with "1.prems"(2) Token have "m = n + k" by (subst (asm) end_of_line.simps) simp
      with place True show ?thesis by auto
    next
      case False
      with "1.prems"(2) Token have "end_of_line (drop k s) (n + k) = Some (Some m)"
        by (subst (asm) end_of_line.simps) simp
      from "1.IH" [OF Token False place this] show ?thesis .
    qed
  qed (use "1.prems"(2) in \<open>(subst (asm) end_of_line.simps, simp)+\<close>)
qed

definition popped_ok :: "string \<Rightarrow> string list popped option \<Rightarrow> bool" where
  "popped_ok s r \<longleftrightarrow>
     (case r of
        None \<Rightarrow> True
      | Some (e, l, n) \<Rightarrow>
          (e = PARSER_ERR_NONE \<and> l = None \<and> n = 0) \<or>
          ((\<exists>u v. s = u @ NL # v \<and> n = length u + 1) \<and>
           (case l of None \<Rightarrow> e \<noteq> PARSER_ERR_NONE | Some line \<Rightarrow> e = PARSER_ERR_NONE \<and> valid_line line)))"

lemma place_ok_newline: "place_ok s0 (TOKEN_TYPE_NEW_LINE, s, n) \<Longrightarrow> \<exists>u v. s0 = u @ NL # v \<and> n = length u + 1"
proof -
  assume "place_ok s0 (TOKEN_TYPE_NEW_LINE, s, n)"
  then obtain u where u: "s0 = u @ s" "n = length u" "u \<noteq> []" "last u = NL" by (auto simp: place_ok_def)
  then have "u = butlast u @ [NL]" by (metis append_butlast_last_id)
  with u have "s0 = butlast u @ NL # s" "n = length (butlast u) + 1" by auto
  then show ?thesis by blast
qed

lemma spec_return_ok:
  assumes "loop_ok s0 (Some (Inl e))"
  shows "popped_ok s0 (spec_return e)"
proof (cases e)
  case No_line_spec
  then show ?thesis by (simp add: spec_return_def popped_ok_def)
next
  case (Syntax_spec err s n)
  with assms obtain ty where place: "place_ok s0 (ty, s, n)" and err: "err \<noteq> PARSER_ERR_NONE"
    by (auto simp: loop_ok_def)
  show ?thesis
  proof (cases "end_of_line s n")
    case None
    with Syntax_spec show ?thesis by (simp add: spec_return_def popped_ok_def)
  next
    case (Some r)
    show ?thesis
    proof (cases r)
      case None
      with Some Syntax_spec show ?thesis by (simp add: spec_return_def popped_ok_def)
    next
      case m: (Some m)
      from end_of_line_ok [OF place Some [unfolded m]] obtain s' where "place_ok s0 (TOKEN_TYPE_NEW_LINE, s', m)" ..
      from place_ok_newline [OF this] Some m Syntax_spec err show ?thesis
        by (simp add: spec_return_def popped_ok_def)
    qed
  qed
qed

lemma spec_close_ok:
  assumes "place_ok s0 p" "exprs_ok (l_exprs line)" "redirect_ok line"
  shows "popped_ok s0 (spec_close p line)"
proof -
  obtain ty s n where p: "p = (ty, s, n)" by (metis surj_pair)
  show ?thesis
  proof (cases "ty = TOKEN_TYPE_NEW_LINE")
    case True
    with place_ok_newline assms show ?thesis
      unfolding p by (auto simp: spec_close_def popped_ok_def valid_line_def)
  next
    case False
    with spec_return_ok [of s0 "Syntax_spec PARSER_ERR_TOO_LATE_ARGUMENTS s n"] assms(1) show ?thesis
      unfolding p by (auto simp: spec_close_def loop_ok_def)
  qed
qed

lemma spec_then_ok:
  assumes "loop_ok s0 r"
    and "\<And>p line. place_ok s0 p \<Longrightarrow> exprs_ok (l_exprs line) \<Longrightarrow> redirect_ok line \<Longrightarrow> popped_ok s0 (f p line)"
  shows "popped_ok s0 (spec_then r f)"
proof (cases r)
  case None
  then show ?thesis by (simp add: spec_then_def popped_ok_def)
next
  case (Some x)
  show ?thesis
  proof (cases x)
    case (Inl e)
    with spec_return_ok assms(1) Some show ?thesis by (simp add: spec_then_def)
  next
    case (Inr y)
    with assms Some show ?thesis by (cases y) (auto simp: spec_then_def loop_ok_def)
  qed
qed

lemma pop_spec_ok: "popped_ok s (pop_spec s)"
proof -
  have "place_ok s (TOKEN_TYPE_NONE, s, 0)" by (simp add: place_ok_def)
  moreover have "exprs_ok (l_exprs empty_line)" "redirect_ok empty_line"
    by (simp_all add: exprs_ok_def redirect_ok_def empty_line_def)
  ultimately show ?thesis
    unfolding pop_spec_def
    by (intro spec_then_ok read_line_ok read_redirect_ok read_background_ok spec_close_ok)
qed

subsection \<open>Writing a line\<close>

definition print_args :: "string list \<Rightarrow> string" where
  "print_args as = concat (map (\<lambda>a. CHR '' '' # quote a) as)"

fun print_expr :: "string list expr \<Rightarrow> string" where
  "print_expr (EXPR_TYPE_COMMAND e as) = quote e @ print_args as @ '' ''"
| "print_expr EXPR_TYPE_PIPE = ''| ''"
| "print_expr EXPR_TYPE_AND = ''&& ''"
| "print_expr EXPR_TYPE_OR = ''|| ''"

definition print_redirect :: "spec_line \<Rightarrow> string" where
  "print_redirect l =
     (case l_out_file l of
        None \<Rightarrow> []
      | Some f \<Rightarrow> (if l_out_type l = OUTPUT_TYPE_FILE_NEW then ''> '' else ''>> '') @ quote f @ '' '')"

definition print_line :: "spec_line \<Rightarrow> string" where
  "print_line l = concat (map print_expr (l_exprs l)) @ print_redirect l @
     (if l_is_background l then ''& '' else []) @ [NL]"

lemma read_space: "read_line (CHR '' '' # s) n line = read_line s (n + 1) line"
  by (subst (1 2) read_line.simps, cases "lex_token s")
    (auto simp: lex_space shift_used_def add.assoc split: option.splits line_step.splits)

lemma read_word:
  assumes "lex_token s = Token ty w k" "add_word ty w line = Some (Go line')"
  shows "read_line s n line = read_line (drop k s) (n + k) line'"
  using assms by (subst read_line.simps) simp

lemma read_arg:
  assumes "a \<noteq> []"
  shows "read_line (CHR '' '' # quote a @ s) n (line\<lparr>l_exprs := es @ [EXPR_TYPE_COMMAND e as]\<rparr>)
    = read_line s (n + 1 + length (quote a)) (line\<lparr>l_exprs := es @ [EXPR_TYPE_COMMAND e (as @ [a])]\<rparr>)"
  unfolding read_space
  using assms by (subst read_word [OF lex_quote]) (auto simp: add_word_def add_arg_def)

lemma read_args:
  "[] \<notin> set bs \<Longrightarrow>
     read_line (print_args bs @ s) n (line\<lparr>l_exprs := es @ [EXPR_TYPE_COMMAND e as]\<rparr>)
       = read_line s (n + length (print_args bs)) (line\<lparr>l_exprs := es @ [EXPR_TYPE_COMMAND e (as @ bs)]\<rparr>)"
proof (induction bs arbitrary: n as)
  case Nil
  then show ?case by (simp add: print_args_def)
next
  case (Cons b bs)
  have "read_line (print_args (b # bs) @ s) n (line\<lparr>l_exprs := es @ [EXPR_TYPE_COMMAND e as]\<rparr>)
      = read_line (print_args bs @ s) (n + 1 + length (quote b)) (line\<lparr>l_exprs := es @ [EXPR_TYPE_COMMAND e (as @ [b])]\<rparr>)"
    using Cons.prems read_arg [of b "print_args bs @ s" n es e as line] by (auto simp: print_args_def)
  with Cons show ?case by (simp add: print_args_def add.assoc)
qed

lemma read_operator:
  assumes c: "c \<in> {CHR ''&'', CHR ''|'', CHR ''>''}"
    and op: "add_word (operator_type c double) [] line = Some (Go line')"
  shows "read_line ((if double then [c, c] else [c]) @ CHR '' '' # s) n line
     = read_line s (n + (if double then 3 else 2)) line'"
proof -
  have "CHR '' '' \<noteq> c" using c by auto
  note lex = lex_operator(1) [OF c, of "CHR '' '' # s"] lex_operator(2) [OF c this, of s]
  show ?thesis
  proof (cases double)
    case True
    then have "read_line (c # c # CHR '' '' # s) n line = read_line (CHR '' '' # s) (n + 2) line'"
      using read_word [OF lex(1), of line line' n] op by simp
    with True show ?thesis by (simp add: read_space eval_nat_numeral)
  next
    case False
    then have "read_line (c # CHR '' '' # s) n line = read_line (CHR '' '' # s) (n + 1) line'"
      using read_word [OF lex(2), of line line' n] op by simp
    with False show ?thesis by (simp add: read_space eval_nat_numeral)
  qed
qed

text \<open>An expression that may follow those read so far.\<close>

definition may_follow :: "string list expr list \<Rightarrow> string list expr \<Rightarrow> bool" where
  "may_follow es e \<longleftrightarrow> exprs_ok (es @ [e])"

lemma read_expr:
  assumes "may_follow es e"
  shows "read_line (print_expr e @ s) n (line\<lparr>l_exprs := es\<rparr>)
    = read_line s (n + length (print_expr e)) (line\<lparr>l_exprs := es @ [e]\<rparr>)"
proof -
  have ok: "exprs_ok es" "is_command e \<longleftrightarrow> even (length es)"
    "\<And>x as. e = EXPR_TYPE_COMMAND x as \<Longrightarrow> x \<noteq> [] \<and> [] \<notin> set as"
    using assms by (auto simp: may_follow_def exprs_ok_append)
  note last = exprs_ok_last [OF ok(1)]
  show ?thesis
  proof (cases e)
    case (EXPR_TYPE_COMMAND x as)
    with ok have "es = [] \<or> \<not> is_command (last es)" "x \<noteq> []" "[] \<notin> set as" using last by auto
    then have "add_word TOKEN_TYPE_STR x (line\<lparr>l_exprs := es\<rparr>)
        = Some (Go (line\<lparr>l_exprs := es @ [EXPR_TYPE_COMMAND x []]\<rparr>))"
      by (auto simp: add_word_def command_line_append_def)
    from read_word [OF lex_quote this, of "print_args as @ CHR '' '' # s" n]
      read_args [OF \<open>[] \<notin> set as\<close>, of "CHR '' '' # s" "n + length (quote x)" es x "[]" line]
    show ?thesis using EXPR_TYPE_COMMAND by (simp add: read_space add.assoc)
  next
    case EXPR_TYPE_PIPE
    with ok(2) last have "es \<noteq> []" "is_command (last es)" by (cases "es = []", auto)+
    with EXPR_TYPE_PIPE read_operator [of "CHR ''|''" False "line\<lparr>l_exprs := es\<rparr>" "line\<lparr>l_exprs := es @ [e]\<rparr>" s n]
    show ?thesis by (simp add: operator_type_def add_word_def add_operator_def command_line_append_def)
  next
    case EXPR_TYPE_AND
    with ok(2) last have "es \<noteq> []" "is_command (last es)" by (cases "es = []", auto)+
    with EXPR_TYPE_AND read_operator [of "CHR ''&''" True "line\<lparr>l_exprs := es\<rparr>" "line\<lparr>l_exprs := es @ [e]\<rparr>" s n]
    show ?thesis by (simp add: operator_type_def add_word_def add_operator_def command_line_append_def eval_nat_numeral)
  next
    case EXPR_TYPE_OR
    with ok(2) last have "es \<noteq> []" "is_command (last es)" by (cases "es = []", auto)+
    with EXPR_TYPE_OR read_operator [of "CHR ''|''" True "line\<lparr>l_exprs := es\<rparr>" "line\<lparr>l_exprs := es @ [e]\<rparr>" s n]
    show ?thesis by (simp add: operator_type_def add_word_def add_operator_def command_line_append_def eval_nat_numeral)
  qed
qed

lemma exprs_ok_prefix: "exprs_ok (es @ fs) \<Longrightarrow> exprs_ok es"
  unfolding exprs_ok_def
  by (metis (no_types, lifting) Un_iff length_append nth_append set_append trans_less_add1)

lemma read_exprs:
  "exprs_ok (es @ fs) \<Longrightarrow>
     read_line (concat (map print_expr fs) @ s) n (line\<lparr>l_exprs := es\<rparr>)
       = read_line s (n + length (concat (map print_expr fs))) (line\<lparr>l_exprs := es @ fs\<rparr>)"
proof (induction fs arbitrary: es n)
  case Nil
  then show ?case by simp
next
  case (Cons f fs)
  have "may_follow es f"
    unfolding may_follow_def using Cons.prems by (intro exprs_ok_prefix [of "es @ [f]" fs]) simp
  from read_expr [OF this] Cons.IH [of "es @ [f]"] Cons.prems show ?case by (simp add: add.assoc)
qed

text \<open>The end of a line, with and without redirection and \<^verbatim>\<open>&\<close>.\<close>

definition print_end :: "bool \<Rightarrow> string" where
  "print_end bg = (if bg then ''& '' else []) @ [NL]"

lemma lex_end:
  "lex_token (print_end bg @ zs)
     = Token (if bg then TOKEN_TYPE_BACKGROUND else TOKEN_TYPE_NEW_LINE) [] 1"
  using lex_operator(2) [of "CHR ''&''" "CHR '' ''" "NL # zs"] by (simp add: print_end_def operator_type_def)

lemma background_end:
  "spec_then (read_background (if bg then TOKEN_TYPE_BACKGROUND else TOKEN_TYPE_NEW_LINE,
       drop 1 (print_end bg @ zs), n) line) spec_close
     = spec_close (TOKEN_TYPE_NEW_LINE, zs, n + (length (print_end bg) - 1))
         (line\<lparr>l_is_background := bg \<or> l_is_background line\<rparr>)"
  by (simp add: read_background_def print_end_def spec_then_def lex_space shift_used_def)

lemma pop_spec_print:
  assumes "valid_line l"
  shows "pop_spec (print_line l @ zs) = Some (PARSER_ERR_NONE, Some l, length (print_line l))"
proof -
  define es where "es = concat (map print_expr (l_exprs l))"
  define line where "line = empty_line\<lparr>l_exprs := l_exprs l\<rparr>"
  define tail where "tail = print_redirect l @ print_end (l_is_background l)"
  have print: "print_line l = es @ tail" by (simp add: print_line_def es_def tail_def print_end_def)
  have valid: "exprs_ok (l_exprs l)" "l_exprs l \<noteq> []" "is_command (last (l_exprs l))" "redirect_ok l"
    using assms by (simp_all add: valid_line_def)
  have "read_line (es @ tail @ zs) 0 (empty_line\<lparr>l_exprs := []\<rparr>)
      = read_line (tail @ zs) (0 + length es) (empty_line\<lparr>l_exprs := [] @ l_exprs l\<rparr>)"
    unfolding es_def by (rule read_exprs) (simp add: valid(1))
  moreover have "empty_line\<lparr>l_exprs := []\<rparr> = (empty_line :: spec_line)" by (simp add: empty_line_def)
  ultimately have exprs: "read_line (print_line l @ zs) 0 empty_line = read_line (tail @ zs) (length es) line"
    by (simp add: print line_def)
  have closed: "spec_close (TOKEN_TYPE_NEW_LINE, zs, n) l = Some (PARSER_ERR_NONE, Some l, n)" for n
    using valid by (simp add: spec_close_def)
  have pos: "Suc (n + (length (print_end b) - Suc 0)) = n + length (print_end b)" for n b
    by (simp add: print_end_def)
  show ?thesis
  proof (cases "l_out_file l")
    case None
    with valid(4) have "l_out_type l = OUTPUT_TYPE_STDOUT" by (simp add: redirect_ok_def)
    with None have l: "line\<lparr>l_is_background := l_is_background l\<rparr> = l" "l_is_background line = False"
      by (simp_all add: line_def empty_line_def)
    let ?ty = "if l_is_background l then TOKEN_TYPE_BACKGROUND else TOKEN_TYPE_NEW_LINE"
    have tail: "tail = print_end (l_is_background l)" by (simp add: tail_def print_redirect_def None)
    have "read_line (tail @ zs) (length es) line = Some (Inr ((?ty, drop 1 (tail @ zs), length es + 1), line))"
      using valid(2) by (subst read_line.simps) (simp add: tail lex_end add_word_def line_def)
    then have "pop_spec (print_line l @ zs) = spec_then (read_background (?ty, drop 1 (tail @ zs), length es + 1) line) spec_close"
      unfolding pop_spec_def exprs by (simp add: spec_then_def read_redirect_def)
    also have "\<dots> = spec_close (TOKEN_TYPE_NEW_LINE, zs, length (print_line l)) l"
      unfolding tail background_end using l by (simp add: print tail pos)
    finally show ?thesis using closed by simp
  next
    case (Some f)
    with valid(4) have f: "f \<noteq> []" "l_out_type l = OUTPUT_TYPE_FILE_NEW \<or> l_out_type l = OUTPUT_TYPE_FILE_APPEND"
      by (cases "l_out_type l"; simp add: redirect_ok_def)+
    let ?new = "l_out_type l = OUTPUT_TYPE_FILE_NEW"
    let ?op = "operator_type CHR ''>'' (\<not> ?new)"
    let ?e = "print_end (l_is_background l)"
    let ?ty = "if l_is_background l then TOKEN_TYPE_BACKGROUND else TOKEN_TYPE_NEW_LINE"
    let ?n = "length es + (if ?new then 1 else 2)"
    let ?line = "line\<lparr>l_out_type := l_out_type l, l_out_file := Some f\<rparr>"
    have l: "?line\<lparr>l_is_background := l_is_background l\<rparr> = l" "l_is_background ?line = False"
      using Some by (simp_all add: line_def empty_line_def)
    have "lex_token (tail @ zs) = Token ?op [] (if ?new then 1 else 2)"
      using lex_operator(1) [of "CHR ''>''"] lex_operator(2) [of "CHR ''>''" "CHR '' ''"]
      by (simp add: tail_def print_redirect_def Some)
    moreover have "add_word ?op [] line = Some Stop" by (simp add: add_word_def operator_type_def)
    moreover have "drop (if ?new then 1 else 2) (tail @ zs) = CHR '' '' # quote f @ CHR '' '' # ?e @ zs"
      by (simp add: tail_def print_redirect_def Some)
    ultimately have "read_line (tail @ zs) (length es) line
        = Some (Inr ((?op, CHR '' '' # quote f @ CHR '' '' # ?e @ zs, ?n), line))"
      by (subst read_line.simps) simp
    moreover have "read_redirect (?op, CHR '' '' # quote f @ CHR '' '' # ?e @ zs, ?n) line
        = Some (Inr ((?ty, drop 1 (?e @ zs), ?n + (length (quote f) + 1) + 2), ?line))"
      using f by (auto simp: read_redirect_def operator_type_def lex_space lex_quote lex_end shift_used_def numeral_2_eq_2)
    ultimately have "pop_spec (print_line l @ zs)
        = spec_then (read_background (?ty, drop 1 (?e @ zs), ?n + (length (quote f) + 1) + 2) ?line) spec_close"
      unfolding pop_spec_def exprs by (simp add: spec_then_def)
    also have "\<dots> = spec_close (TOKEN_TYPE_NEW_LINE, zs, length (print_line l)) l"
      unfolding background_end using l
      by (simp add: print tail_def print_redirect_def Some pos add.assoc)
    finally show ?thesis using closed by simp
  qed
qed

end
