(* ===== verification/Shell_Correct.thy ===== *)
theory Shell_Correct
  imports Shell_Print
begin

section \<open>Shell: what the parser guarantees\<close>

text \<open>
  The buffer of \<^verbatim>\<open>hw2/parser.c\<close> (feeding appends to the text, consuming drops its front) and the
  properties of \<^verbatim>\<open>parse_token\<close>, \<^verbatim>\<open>parser_feed\<close> and \<^verbatim>\<open>parser_pop_next\<close>.
\<close>

subsection \<open>The buffer\<close>

definition parser_wf :: "parser \<Rightarrow> bool" where
  "parser_wf p \<longleftrightarrow> length (p_buffer p) = unat (p_capacity p) \<and> p_size p \<le> p_capacity p \<and>
     list_all (\<lambda>c. c \<noteq> None) (take (unat (p_size p)) (p_buffer p))"

lemma parser_wf_new: "parser_wf parser_new" "parser_text parser_new = Some []"
  by (simp_all add: parser_wf_def parser_new_def parser_text_def)

lemma parser_text_wf:
  assumes "parser_wf p"
  shows "parser_text p = Some (map the (take (unat (p_size p)) (p_buffer p)))"
  using assms by (simp add: parser_wf_def parser_text_def word_le_nat_alt Let_def)

lemma map_the_iff:
  assumes "list_all (\<lambda>c. c \<noteq> None) xs"
  shows "map the xs = s \<longleftrightarrow> xs = map Some s"
proof -
  have "map Some (map the xs) = xs" using assms by (induction xs) auto
  then show ?thesis by (auto simp: comp_def)
qed

lemma parser_text_iff:
  assumes "parser_wf p"
  shows "parser_text p = Some s \<longleftrightarrow> take (unat (p_size p)) (p_buffer p) = map Some s"
proof -
  have "list_all (\<lambda>c. c \<noteq> None) (take (unat (p_size p)) (p_buffer p))"
    using assms unfolding parser_wf_def by blast
  from map_the_iff [OF this] show ?thesis unfolding parser_text_wf [OF assms] option.inject .
qed

lemma parser_textD:
  assumes "parser_wf p" "parser_text p = Some s"
  shows "take (unat (p_size p)) (p_buffer p) = map Some s" "length (p_buffer p) = unat (p_capacity p)"
    "unat (p_size p) \<le> unat (p_capacity p)" "length s = unat (p_size p)"
proof -
  show mem: "take (unat (p_size p)) (p_buffer p) = map Some s" using assms by (simp add: parser_text_iff)
  show "length (p_buffer p) = unat (p_capacity p)" "unat (p_size p) \<le> unat (p_capacity p)"
    using assms(1) by (simp_all add: parser_wf_def word_le_nat_alt)
  with arg_cong [OF mem, of length] show "length s = unat (p_size p)" by simp
qed

lemma parser_wfI:
  assumes "length (p_buffer p) = unat (p_capacity p)" "unat (p_size p) \<le> unat (p_capacity p)"
    "take (unat (p_size p)) (p_buffer p) = map Some s"
  shows "parser_wf p" "parser_text p = Some s"
proof -
  show wf: "parser_wf p" using assms by (simp add: parser_wf_def word_le_nat_alt list_all_iff)
  show "parser_text p = Some s" using assms(3) by (simp add: parser_text_iff [OF wf])
qed

lemma unat_add_less: "unat (a :: 32 word) + unat b < 2 ^ 32 \<Longrightarrow> unat (a + b) = unat a + unat b"
  by (simp add: unat_plus_if_size word_size)

lemma unat_double:
  assumes "unat (c :: 32 word) < 2 ^ 31 - 1"
  shows "unat ((c + 1) * 2) = 2 * (unat c + 1)"
proof -
  have "unat (c + 1) = unat c + 1" using assms unat_add_less [of c 1] by simp
  with assms show ?thesis by (subst unat_mult_lem [THEN iffD1]) auto
qed

lemma unat_diff: "unat b \<le> unat a \<Longrightarrow> unat (a - b :: 32 word) = unat a - unat b"
  by (simp add: unat_sub word_le_nat_alt)

text \<open>Feeding: within a capacity whose double does not wrap.\<close>

lemma parser_reserve_ok:
  assumes wf: "parser_wf p" and cont: "parser_text p = Some s"
    and cap: "unat (p_capacity p) < 2 ^ 31 - 1" and len: "length s + unat len < 2 ^ 32"
  defines "p' \<equiv> parser_reserve len p"
  shows "parser_wf p' \<and> parser_text p' = Some s \<and> unat (p_size p') + unat len \<le> unat (p_capacity p')"
proof -
  note D = parser_textD [OF wf cont]
  show ?thesis
  proof (cases "p_capacity p - p_size p < len")
    case False
    then have "unat len \<le> unat (p_capacity p) - unat (p_size p)"
      using unat_diff [OF D(3)] by (simp add: word_less_nat_alt)
    with False wf cont D(3) show ?thesis by (simp add: p'_def parser_reserve_def)
  next
    case True
    define double where "double = (p_capacity p + 1) * 2"
    define c where "c = (if double - p_size p < len then p_size p + len else double)"
    have p': "p' = p\<lparr>p_buffer := realloc (p_buffer p) (unat c), p_capacity := c\<rparr>"
      using True by (simp only: p'_def parser_reserve_def Let_def if_True double_def c_def)
    have le2: "unat (p_size p) \<le> unat double"
      using unat_double [OF cap] D(3) by (simp add: double_def)
    have "unat (p_size p) + unat len \<le> unat c"
    proof (cases "double - p_size p < len")
      case True
      with unat_add_less [of "p_size p" len] len D(4) show ?thesis by (simp add: c_def)
    next
      case False
      with unat_diff [OF le2] le2 show ?thesis by (simp add: c_def word_less_nat_alt)
    qed
    moreover from this have "parser_wf p'" "parser_text p' = Some s"
      using D by (auto simp: p' take_realloc intro!: parser_wfI)
    ultimately show ?thesis by (simp add: p')
  qed
qed

lemma parser_feed_ok:
  assumes wf: "parser_wf p" and cont: "parser_text p = Some s"
    and cap: "unat (p_capacity p) < 2 ^ 31 - 1" and len: "length s + length str < 2 ^ 32"
  shows "\<exists>p'. parser_feed str p = Some p' \<and> parser_wf p' \<and> parser_text p' = Some (s @ str)"
proof -
  define len' where "len' = (of_nat (length str) :: 32 word)"
  define p1 where "p1 = parser_reserve len' p"
  have n: "unat len' = length str" using len by (simp add: len'_def unat_of_nat)
  have p1: "parser_wf p1" "parser_text p1 = Some s" "unat (p_size p1) + length str \<le> unat (p_capacity p1)"
    using parser_reserve_ok [OF wf cont cap, of len'] len n by (simp_all add: p1_def)
  note D = parser_textD [OF p1(1,2)]
  have sum: "unat (p_size p1 + len') = unat (p_size p1) + length str"
    using unat_add_less [of "p_size p1" len'] len n D(4) by simp
  define p' where "p' = p1\<lparr>p_buffer := overwrite (p_buffer p1) (unat (p_size p1)) (map Some str),
    p_size := p_size p1 + len'\<rparr>"
  have "parser_feed str p = Some p'"
    using p1(3) D sum
    by (simp add: parser_feed_def Let_def len'_def [symmetric] p1_def [symmetric] p'_def word_le_nat_alt)
  moreover have "take (unat (p_size p')) (p_buffer p') = map Some (s @ str)"
    using sum D by (simp add: p'_def overwrite_def)
  moreover have "length (p_buffer p') = unat (p_capacity p')" "unat (p_size p') \<le> unat (p_capacity p')"
    using p1(3) D sum by (simp_all add: p'_def)
  ultimately have "parser_feed str p = Some p'" "parser_wf p'" "parser_text p' = Some (s @ str)"
    using parser_wfI by blast+
  then show ?thesis by blast
qed

lemma parser_consume_ok:
  assumes wf: "parser_wf p" and cont: "parser_text p = Some s" and n: "n \<le> length s"
  shows "\<exists>p'. parser_consume n p = Some p' \<and> parser_wf p' \<and> parser_text p' = Some (drop n s)"
proof -
  note D = parser_textD [OF wf cont]
  define k where "k = (of_nat n :: 32 word)"
  have "unat (p_size p) < 2 ^ 32" by (rule order_less_le_trans [OF unsigned_less]) simp
  with n D(4) have "n < 2 ^ 32" by simp
  then have k: "unat k = n" by (simp add: k_def unat_of_nat)
  then have ge: "k \<le> p_size p" using n D(4) by (simp add: word_le_nat_alt)
  show ?thesis
  proof (cases "k = p_size p")
    case True
    with k D(4) have "n = length s" by simp
    moreover have "parser_consume n p = Some (p\<lparr>p_size := 0\<rparr>)"
      unfolding parser_consume_def k_def [symmetric] using True by simp
    moreover have "parser_wf (p\<lparr>p_size := 0\<rparr>)" "parser_text (p\<lparr>p_size := 0\<rparr>) = Some []"
      by (rule parser_wfI, simp_all add: D(2))+
    ultimately show ?thesis by simp
  next
    case False
    define m where "m = unat (p_size p) - n"
    have diff: "unat (p_size p - k) = m" using unat_diff [of k "p_size p"] ge k by (simp add: m_def word_le_nat_alt)
    define mem where "mem = overwrite (p_buffer p) 0 (take m (drop n (p_buffer p)))"
    define p' where "p' = p\<lparr>p_buffer := mem, p_size := p_size p - k\<rparr>"
    have nm: "n + m = unat (p_size p)" using n D(4) by (simp add: m_def)
    have "take m (drop n (p_buffer p)) = drop n (take (n + m) (p_buffer p))" by (simp add: drop_take)
    then have front: "take m (drop n (p_buffer p)) = map Some (drop n s)" by (simp add: nm D(1) drop_map)
    have len: "n + m \<le> length (p_buffer p)" using nm D(2,3) by simp
    have "parser_consume n p = Some p'"
      using False ge k diff len
      by (simp add: parser_consume_def Let_def k_def [symmetric] p'_def mem_def memcpy_from_def)
    moreover have "take (unat (p_size p')) (p_buffer p') = map Some (drop n s)"
      using diff front len D(4) by (simp add: p'_def mem_def overwrite_def m_def)
    moreover have "length (p_buffer p') = unat (p_capacity p')" "unat (p_size p') \<le> unat (p_capacity p')"
      using D diff len nm by (simp_all add: p'_def mem_def)
    ultimately have "parser_consume n p = Some p'" "parser_wf p'" "parser_text p' = Some (drop n s)"
      using parser_wfI by blast+
    then show ?thesis by blast
  qed
qed

subsection \<open>A call of the parser, through the specification\<close>

lemma pop_textE:
  assumes "length s \<le> 2 ^ 32 - 2"
  obtains (aborts) "pop_text s = None" "pop_spec s = None"
    | (returns) e line n where "pop_text s = Some (e, line, n)" "pop_spec s = Some (e, map_option view line, n)"
  using pop_text_spec [OF assms] by (cases "pop_text s") (auto simp: popped_view_def)

lemma parser_pop_next_spec:
  assumes wf: "parser_wf p" and cont: "parser_text p = Some s" and len: "length s \<le> 2 ^ 32 - 2"
  shows "case pop_spec s of
      None \<Rightarrow> parser_pop_next p = None
    | Some (e, l, n) \<Rightarrow> (\<exists>line p'. parser_pop_next p = Some ((e, line), p') \<and> map_option view line = l \<and>
        parser_wf p' \<and> parser_text p' = Some (drop n s) \<and> (n = 0 \<longrightarrow> p' = p))"
proof (cases rule: pop_textE [OF len, case_names aborts returns])
  case aborts
  then show ?thesis using cont by (simp add: parser_pop_next_def)
next
  case (returns e line n)
  have "n \<le> length s" using pop_spec_ok [of s] returns(2) by (auto simp: popped_ok_def)
  with parser_consume_ok [OF wf cont] obtain p' where
    "parser_consume n p = Some p'" "parser_wf p'" "parser_text p' = Some (drop n s)" by blast
  with returns wf cont show ?thesis by (auto simp: parser_pop_next_def)
qed

lemma pop_nextE:
  assumes "parser_wf p" "parser_text p = Some s" "length s \<le> 2 ^ 32 - 2" "pop_spec s = Some (e, l, n)"
  obtains line p' where "parser_pop_next p = Some ((e, line), p')" "map_option view line = l" "parser_wf p'"
    "parser_text p' = Some (drop n s)" "n = 0 \<longrightarrow> p' = p"
  using parser_pop_next_spec [OF assms(1,2,3)] assms(4) by auto

lemma pop_next_line:
  assumes "parser_wf p" "parser_text p = Some s" "length s \<le> 2 ^ 32 - 2" "pop_spec s = Some (e, Some l, n)"
  shows "\<exists>line p'. parser_pop_next p = Some ((e, Some line), p') \<and> view line = l"
proof -
  from parser_pop_next_spec [OF assms(1-3)] assms(4) obtain line p' where
    "parser_pop_next p = Some ((e, line), p')" "map_option view line = Some l" by auto
  then show ?thesis by auto
qed

subsection \<open>The properties\<close>

text \<open>A line to apply the properties to: \<^verbatim>\<open>a b | c >> f &\<close>.\<close>

definition demo_line :: spec_line where
  "demo_line = \<lparr>l_exprs = [EXPR_TYPE_COMMAND ''a'' [''b''], EXPR_TYPE_PIPE, EXPR_TYPE_COMMAND ''c'' []],
     l_out_type = OUTPUT_TYPE_FILE_APPEND, l_out_file = Some ''f'', l_is_background = True\<rparr>"

lemma demo_line_valid: "valid_line demo_line"
  by (auto simp: demo_line_def valid_line_def exprs_ok_def redirect_ok_def less_Suc_eq)

lemma demo_line_length: "length (print_line demo_line @ ''x'') < 100"
  by code_simp

definition demo_parser :: "string \<Rightarrow> parser" where
  "demo_parser s = \<lparr>p_buffer = map Some s, p_size = of_nat (length s), p_capacity = of_nat (length s)\<rparr>"

lemma demo_parser_ok: "length s < 2 ^ 32 \<Longrightarrow> parser_wf (demo_parser s) \<and> parser_text (demo_parser s) = Some s"
  using parser_wfI [of "demo_parser s" s] by (simp add: demo_parser_def unat_of_nat)

lemma demo_text:
  "parser_wf (demo_parser (print_line demo_line @ ''x''))"
  "parser_text (demo_parser (print_line demo_line @ ''x'')) = Some (print_line demo_line @ ''x'')"
  "length (print_line demo_line @ ''x'') \<le> 2 ^ 32 - 2"
proof -
  have "length (print_line demo_line @ ''x'') < 2 ^ 32"
    by (rule less_trans [OF demo_line_length]) simp
  from demo_parser_ok [OF this] show "parser_wf (demo_parser (print_line demo_line @ ''x''))"
    "parser_text (demo_parser (print_line demo_line @ ''x'')) = Some (print_line demo_line @ ''x'')" by blast+
  show "length (print_line demo_line @ ''x'') \<le> 2 ^ 32 - 2"
    by (rule order_trans [OF less_imp_le [OF demo_line_length]]) simp
qed

text \<open>C18: Printing and parsing: when the buffer starts with a command line written out (words in double
  quotes, operators, redirection, \<^verbatim>\<open>&\<close>), \<open>parser_pop_next\<close> returns exactly that line, and the text
  behind it stays in the buffer.\<close>

theorem parser_reads_printed_line:
  assumes "valid_line l" "parser_wf p" "parser_text p = Some (print_line l @ zs)"
    and "length (print_line l @ zs) \<le> 2 ^ 32 - 2"
  shows "\<exists>line p'. parser_pop_next p = Some ((PARSER_ERR_NONE, Some line), p') \<and> view line = l \<and>
     parser_wf p' \<and> parser_text p' = Some zs"
proof -
  define s where "s = print_line l @ zs"
  obtain n where spec: "pop_spec s = Some (PARSER_ERR_NONE, Some l, n)" and n: "drop n s = zs"
    using pop_spec_print [OF assms(1), of zs] by (simp add: s_def)
  obtain line p' where pop: "parser_pop_next p = Some ((PARSER_ERR_NONE, line), p')" "map_option view line = Some l"
    "parser_wf p'" "parser_text p' = Some (drop n s)"
    using pop_nextE [OF assms(2,3,4) [folded s_def] spec] .
  then show ?thesis by (auto simp: n)
qed

theorem parser_reads_printed_line_witness:
  "\<exists>line p'. parser_pop_next (demo_parser (print_line demo_line @ ''x'')) = Some ((PARSER_ERR_NONE, Some line), p') \<and>
     view line = demo_line \<and> parser_wf p' \<and> parser_text p' = Some ''x''"
  by (rule parser_reads_printed_line [OF demo_line_valid demo_text])

text \<open>C19: Feeding the text in pieces gives the same lines: once \<open>parser_pop_next\<close> answers with a line or an
  error for the text in the buffer, it gives the same answer and leaves the same text when more has
  been fed behind; until then it returns nothing and leaves the parser as it was.\<close>

theorem parser_streaming:
  assumes p: "parser_wf p" "parser_text p = Some s" and q: "parser_wf q" "parser_text q = Some (s @ zs)"
    and len: "length (s @ zs) \<le> 2 ^ 32 - 2" and pop: "parser_pop_next p = Some ((e, line), p')"
  shows "if e = PARSER_ERR_NONE \<and> line = None then p' = p
     else \<exists>line' q' s'. parser_pop_next q = Some ((e, line'), q') \<and> map_option view line' = map_option view line \<and>
       parser_text p' = Some s' \<and> parser_text q' = Some (s' @ zs)"
proof -
  have lens: "length s \<le> 2 ^ 32 - 2" using len by simp
  obtain l n where spec: "pop_spec s = Some (e, l, n)" and l: "map_option view line = l"
    and p': "parser_text p' = Some (drop n s)" "n = 0 \<longrightarrow> p' = p"
    using parser_pop_next_spec [OF p lens] pop by (auto split: option.splits)
  show ?thesis
  proof (cases "n = 0")
    case True
    with pop_spec_ok [of s] spec l have "e = PARSER_ERR_NONE" "line = None" by (auto simp: popped_ok_def)
    with True p'(2) show ?thesis by simp
  next
    case False
    then have "\<not> waiting (pop_spec s)" using spec by (simp add: waiting_def)
    then have "pop_spec (s @ zs) = Some (e, l, n)" using pop_spec_append spec by simp
    from pop_nextE [OF q len this] obtain line' q' where q': "parser_pop_next q = Some ((e, line'), q')"
      "map_option view line' = l" "parser_text q' = Some (drop n (s @ zs))" by blast
    from pop_spec_ok [of s] spec False have "n \<le> length s" "\<not> (e = PARSER_ERR_NONE \<and> line = None)"
      using l by (auto simp: popped_ok_def split: option.splits)
    with q' l p'(1) show ?thesis by auto
  qed
qed

theorem parser_streaming_witness:
  "\<exists>line p' line' q' s'. parser_pop_next (demo_parser (print_line demo_line)) = Some ((PARSER_ERR_NONE, line), p') \<and>
     parser_pop_next (demo_parser (print_line demo_line @ ''x'')) = Some ((PARSER_ERR_NONE, line'), q') \<and>
     parser_text p' = Some s' \<and> parser_text q' = Some (s' @ ''x'')"
proof -
  have "length (print_line demo_line) < 2 ^ 32"
    by (rule le_less_trans [OF _ less_trans [OF demo_line_length]]) simp_all
  from demo_parser_ok [OF this] have p: "parser_wf (demo_parser (print_line demo_line))"
    "parser_text (demo_parser (print_line demo_line)) = Some (print_line demo_line)" by blast+
  obtain n where spec: "pop_spec (print_line demo_line) = Some (PARSER_ERR_NONE, Some demo_line, n)"
    using pop_spec_print [OF demo_line_valid, of "[]"] by (simp only: append_Nil2)
  have "length (print_line demo_line) \<le> 2 ^ 32 - 2"
    by (rule order_trans [OF _ demo_text(3)]) simp
  note found = pop_next_line [OF p this spec]
  show ?thesis
  proof (rule exE [OF found], elim exE conjE)
    fix line p'
    assume pop: "parser_pop_next (demo_parser (print_line demo_line)) = Some ((PARSER_ERR_NONE, Some line), p')"
    have line: "\<not> (PARSER_ERR_NONE = PARSER_ERR_NONE \<and> Some line = None)" by simp
    show ?thesis
      using parser_streaming [OF p demo_text pop] unfolding if_not_P [OF line]
      by (elim exE conjE) (intro exI conjI, rule pop)
  qed
qed

text \<open>C25: What a call of \<open>parser_pop_next\<close> may return: nothing, with the parser unchanged; or it drops the text
  up to and including a new line, and returns either an error, or a line whose expressions are
  commands with operators between them, ending with a command, all words non-empty.\<close>

theorem parser_pop_next_result:
  assumes "parser_wf p" "parser_text p = Some s" "length s \<le> 2 ^ 32 - 2"
    and "parser_pop_next p = Some ((e, line), p')"
  shows "parser_wf p' \<and>
     (e = PARSER_ERR_NONE \<and> line = None \<and> p' = p \<or>
      (\<exists>u v. s = u @ NL # v \<and> parser_text p' = Some v) \<and>
      (case line of None \<Rightarrow> e \<noteq> PARSER_ERR_NONE | Some l \<Rightarrow> e = PARSER_ERR_NONE \<and> valid_line (view l)))"
proof -
  obtain l n where spec: "pop_spec s = Some (e, l, n)" and l: "map_option view line = l"
    and p': "parser_wf p'" "parser_text p' = Some (drop n s)" "n = 0 \<longrightarrow> p' = p"
    using parser_pop_next_spec [OF assms(1-3)] assms(4) by (auto split: option.splits)
  from pop_spec_ok [of s] spec consider "e = PARSER_ERR_NONE" "l = None" "n = 0"
    | u v where "s = u @ NL # v" "n = length u + 1"
      "case l of None \<Rightarrow> e \<noteq> PARSER_ERR_NONE | Some line \<Rightarrow> e = PARSER_ERR_NONE \<and> valid_line line"
    by (auto simp: popped_ok_def)
  then show ?thesis
  proof cases
    case 1
    with p' l show ?thesis by simp
  next
    case (2 u v)
    then have "parser_text p' = Some v" using p'(2) by simp
    with 2 p'(1) l show ?thesis by (auto split: option.splits)
  qed
qed

theorem parser_pop_next_result_witness:
  "\<exists>line p' u v. parser_pop_next (demo_parser (print_line demo_line @ ''x'')) = Some ((PARSER_ERR_NONE, Some line), p') \<and>
     parser_wf p' \<and> print_line demo_line @ ''x'' = u @ NL # v \<and> parser_text p' = Some v \<and> valid_line (view line)"
proof -
  obtain n where spec: "pop_spec (print_line demo_line @ ''x'') = Some (PARSER_ERR_NONE, Some demo_line, n)"
    using pop_spec_print [OF demo_line_valid, of "''x''"] by blast
  from pop_next_line [OF demo_text spec] obtain line p' where
    pop: "parser_pop_next (demo_parser (print_line demo_line @ ''x'')) = Some ((PARSER_ERR_NONE, Some line), p')" by blast
  from parser_pop_next_result [OF demo_text pop] pop show ?thesis by (simp only: option.case simp_thms option.simps) blast
qed

text \<open>C39: The limit of \<open>parser_feed\<close>: with a full buffer of \<open>2 ^ 31\<close> characters the doubled capacity wraps to 2,
  the check of the new room wraps too, the buffer shrinks and the copy is outside of it.\<close>

theorem parser_feed_overflow:
  assumes "p_size p = 2 ^ 31" "p_capacity p = 2 ^ 31" "str \<noteq> []" "length str < 2 ^ 31"
  shows "parser_feed str p = None"
proof -
  define len where "len = (of_nat (length str) :: 32 word)"
  have n: "unat len = length str" using assms(4) by (simp add: len_def unat_of_nat)
  then have "0 < len" using assms(3) by (simp add: word_less_nat_alt)
  moreover have "\<not> (2 ^ 31 + 2 :: 32 word) < len"
    using n assms(4) by (simp add: word_less_nat_alt)
  moreover have "((2 ^ 31 + 1) * 2 :: 32 word) = 2" "(2 - 2 ^ 31 :: 32 word) = 2 ^ 31 + 2" by simp_all
  ultimately have "parser_reserve len p = p\<lparr>p_buffer := realloc (p_buffer p) 2, p_capacity := 2\<rparr>"
    using assms(1,2) by (simp add: parser_reserve_def Let_def)
  then show ?thesis
    using assms(1) by (simp add: parser_feed_def Let_def len_def [symmetric] memcpy_into_def)
qed

theorem parser_feed_overflow_witness:
  "parser_feed ''a'' \<lparr>p_buffer = [], p_size = 2 ^ 31, p_capacity = 2 ^ 31\<rparr> = None"
  by (rule parser_feed_overflow) simp_all

text \<open>The assertions of the tokenizer hold for every text without a backslash; with one they may fail, for
  example for a backslash, a new line and a space at the start of a token.\<close>

lemma parse_token_without_backslash:
  assumes "vec_wf (t_data t)" "length s \<le> 2 ^ 32 - 2"
  shows "(BS \<notin> set s \<longrightarrow> parse_token s t \<noteq> None) \<and>
     (\<forall>zs. s = BS # NL # CHR '' '' # zs \<longrightarrow> parse_token s t = None)"
proof -
  note tok = parse_token_lex [OF assms]
  have "lex_token s \<noteq> Fails" if "BS \<notin> set s" using that by (rule lex_no_escape)
  moreover have "lex_token s = Fails" if "s = BS # NL # CHR '' '' # zs" for zs
    using that by (simp add: lex_token_def isspace_def lex_loop.simps(2) token_action_def escape_action_def)
  ultimately show ?thesis using tok by (auto simp: token_result_def split: lexed.splits)
qed

lemma parse_token_without_backslash_example:
  "parse_token ''ls '' token_zero \<noteq> None \<and> parse_token [BS, NL, CHR '' ''] token_zero = None"
  using parse_token_without_backslash [of token_zero "''ls ''"]
    parse_token_without_backslash [of token_zero "[BS, NL, CHR '' '']"]
  by (simp add: token_zero_def)

text \<open>Three kinds of input abort the shell in \<open>parser_pop_next\<close>, by a failed assertion: a line that starts with
  \<^verbatim>\<open>&\<close>, a line that starts with a redirection, and an empty quoted word.\<close>

lemma parser_pop_next_aborts:
  assumes p: "parser_wf p" "parser_text p = Some s" "length s \<le> 2 ^ 32 - 2"
    and s: "s = CHR ''&'' # NL # zs \<or> (w \<noteq> [] \<and> s = ''> '' @ quote w @ NL # zs) \<or>
      (w \<noteq> [] \<and> s = quote w @ CHR '' '' # quote [] @ zs)"
  shows "parser_pop_next p = None"
proof -
  have bg: "pop_spec (CHR ''&'' # NL # zs) = None"
    using lex_operator(2) [of "CHR ''&''" NL zs]
    by (simp add: pop_spec_def spec_then_def read_line.simps [of "CHR ''&'' # NL # zs"] operator_type_def
        add_word_def read_redirect_def read_background_def spec_close_def empty_line_def)
  have out: "pop_spec (''> '' @ quote w @ NL # zs) = None" if "w \<noteq> []"
    using lex_operator(2) [of "CHR ''>''" "CHR '' ''"] that
    by (simp add: pop_spec_def spec_then_def read_line.simps [of "CHR ''>'' # CHR '' '' # quote w @ NL # zs"]
        operator_type_def add_word_def read_redirect_def lex_space lex_quote shift_used_def
        read_background_def spec_close_def empty_line_def)
  have word: "pop_spec (quote w @ CHR '' '' # quote [] @ zs) = None" if "w \<noteq> []"
  proof -
    have "add_word TOKEN_TYPE_STR w empty_line = Some (Go (command_line_append (EXPR_TYPE_COMMAND w []) empty_line))"
      using that by (simp add: add_word_def empty_line_def)
    from read_word [OF lex_quote this] have "read_line (quote w @ CHR '' '' # quote [] @ zs) 0 empty_line
        = read_line (quote [] @ zs) (length (quote w) + 1) (command_line_append (EXPR_TYPE_COMMAND w []) empty_line)"
      by (simp add: read_space)
    also have "\<dots> = None" by (simp add: read_line.simps [of "quote [] @ zs"] lex_quote add_word_def)
    finally show ?thesis by (simp add: pop_spec_def spec_then_def)
  qed
  have "pop_spec s = None"
    using s by (elim disjE conjE) (simp_all only: bg out word not_False_eq_True)
  with parser_pop_next_spec [OF p] show ?thesis by simp
qed

lemma parser_pop_next_aborts_example:
  "parser_pop_next (demo_parser [CHR ''&'', NL]) = None"
proof (rule parser_pop_next_aborts)
  show "parser_wf (demo_parser [CHR ''&'', NL])" "parser_text (demo_parser [CHR ''&'', NL]) = Some [CHR ''&'', NL]"
    using demo_parser_ok [of "[CHR ''&'', NL]"] by simp_all
  show "[CHR ''&'', NL] = CHR ''&'' # NL # [] \<or> ''a'' \<noteq> [] \<and> [CHR ''&'', NL] = ''> '' @ quote ''a'' @ NL # [] \<or>
      ''a'' \<noteq> [] \<and> [CHR ''&'', NL] = quote ''a'' @ CHR '' '' # quote [] @ []" by simp
qed simp

text \<open>A line that ends right behind \<^verbatim>\<open>>\<close> is answered with an error and takes the next line with it: the
  skip to the end of the line starts behind the new line already read.\<close>

lemma parser_redirect_error_drops_next_line:
  assumes p: "parser_wf p" "parser_text p = Some s" "length s \<le> 2 ^ 32 - 2"
    and s: "s = quote w @ CHR ''>'' # NL # v @ NL # zs" and w: "w \<noteq> []" and v: "list_all plain_char v" "v \<noteq> []"
  shows "\<exists>p'. parser_pop_next p = Some ((PARSER_ERR_OUTOUT_REDIRECT_BAD_ARG, None), p') \<and> parser_text p' = Some zs"
proof -
  let ?line = "command_line_append (EXPR_TYPE_COMMAND w []) empty_line"
  let ?n = "length (quote w) + 2"
  have "add_word TOKEN_TYPE_STR w empty_line = Some (Go ?line)" using w by (simp add: add_word_def empty_line_def)
  from read_word [OF lex_quote this, of "CHR ''>'' # NL # v @ NL # zs" 0]
  have "read_line s 0 empty_line = read_line (CHR ''>'' # NL # v @ NL # zs) (length (quote w)) ?line"
    by (simp add: s)
  also have "\<dots> = Some (Inr ((TOKEN_TYPE_OUT_NEW, NL # v @ NL # zs, length (quote w) + 1), ?line))"
    using lex_operator(2) [of "CHR ''>''" NL "v @ NL # zs"]
    by (simp add: read_line.simps [of "CHR ''>'' # NL # v @ NL # zs"] operator_type_def add_word_def)
  finally have "pop_spec s = spec_return (Syntax_spec PARSER_ERR_OUTOUT_REDIRECT_BAD_ARG (v @ NL # zs) ?n)"
    by (simp add: pop_spec_def spec_then_def read_redirect_def)
  moreover have "end_of_line (v @ NL # zs) ?n = Some (Some (?n + length v + 1))"
    using lex_plain(2) [OF v, of zs] by (simp add: end_of_line.simps [of "v @ NL # zs"] end_of_line.simps [of "NL # zs"])
  ultimately have "pop_spec s = Some (PARSER_ERR_OUTOUT_REDIRECT_BAD_ARG, None, ?n + length v + 1)"
    by (simp add: spec_return_def)
  moreover have "drop (?n + length v + 1) s = zs" by (simp add: s numeral_3_eq_3)
  ultimately show ?thesis using parser_pop_next_spec [OF p] by auto
qed

lemma parser_redirect_error_drops_next_line_example:
  "\<exists>p'. parser_pop_next (demo_parser (quote ''a'' @ CHR ''>'' # NL # ''ls'' @ NL # ''x''))
     = Some ((PARSER_ERR_OUTOUT_REDIRECT_BAD_ARG, None), p') \<and> parser_text p' = Some ''x''"
proof -
  have len: "length (quote ''a'' @ CHR ''>'' # NL # ''ls'' @ NL # ''x'') = 9" by (simp add: quote_def escape_def)
  then have "parser_wf (demo_parser (quote ''a'' @ CHR ''>'' # NL # ''ls'' @ NL # ''x'')) \<and>
      parser_text (demo_parser (quote ''a'' @ CHR ''>'' # NL # ''ls'' @ NL # ''x'')) = Some (quote ''a'' @ CHR ''>'' # NL # ''ls'' @ NL # ''x'')"
    by (intro demo_parser_ok) (simp del: length_append)
  moreover have "length (quote ''a'' @ CHR ''>'' # NL # ''ls'' @ NL # ''x'') \<le> 2 ^ 32 - 2" unfolding len by simp
  ultimately show ?thesis
    by (intro parser_redirect_error_drops_next_line [OF _ _ _ refl]) (auto simp: plain_char_def isspace_def)
qed

end
