(* ===== verification/Decimal.thy ===== *)
theory Decimal
  imports Prelude
begin

section \<open>Decimal numbers as text\<close>

text \<open>
  What the programs use of \<^verbatim>\<open>scanf\<close> and \<^verbatim>\<open>printf\<close>: the conversion \<^verbatim>\<open>%d\<close> in both directions, and
  \<^verbatim>\<open>atoi\<close>, \<^verbatim>\<open>atol\<close>. A number outside the type is undefined behaviour, so a scan has three outcomes.
\<close>

subsection \<open>Printing\<close>

definition digit :: "nat \<Rightarrow> char" where
  "digit d = char_of (48 + d)"

fun digits :: "nat \<Rightarrow> string" where
  "digits n = (if n < 10 then [digit n] else digits (n div 10) @ [digit (n mod 10)])"

declare digits.simps [simp del]

definition show_int :: "int \<Rightarrow> string" where
  "show_int x = (if x < 0 then CHR ''-'' # digits (nat (- x)) else digits (nat x))"

subsection \<open>Scanning\<close>

datatype scanned = No_match | Out_of_range | Scanned int string

definition digit_val :: "char \<Rightarrow> nat" where
  "digit_val c = of_char c - 48"

definition value_of :: "string \<Rightarrow> nat" where
  "value_of ds = foldl (\<lambda>a c. 10 * a + digit_val c) 0 ds"

fun sign :: "string \<Rightarrow> int \<times> string" where
  "sign [] = (1, [])"
| "sign (c # cs) = (if c = CHR ''-'' then (- 1, cs) else if c = CHR ''+'' then (1, cs) else (1, c # cs))"

definition scan_number :: "int \<Rightarrow> int \<Rightarrow> string \<Rightarrow> scanned" where
  "scan_number lo hi s =
     (let (sg, t) = sign (dropWhile isspace s);
          ds = takeWhile isdigit t;
          x = sg * int (value_of ds)
      in if ds = [] then No_match
         else if lo \<le> x \<and> x \<le> hi then Scanned x (dropWhile isdigit t)
         else Out_of_range)"

definition INT_MAX :: int where
  "INT_MAX = 2 ^ 31 - 1"

abbreviation scan_int :: "string \<Rightarrow> scanned" where
  "scan_int \<equiv> scan_number (- (2 ^ 31)) INT_MAX"

fun number_or_zero :: "scanned \<Rightarrow> int option" where
  "number_or_zero No_match = Some 0"
| "number_or_zero Out_of_range = None"
| "number_or_zero (Scanned x _) = Some x"

definition atoi :: "string \<Rightarrow> int option" where
  "atoi s = number_or_zero (scan_int s)"

definition atol :: "string \<Rightarrow> int option" where
  "atol s = number_or_zero (scan_number (- (2 ^ 63)) (2 ^ 63 - 1) s)"

subsection \<open>Printing and scanning\<close>

lemma of_char_digit: "d < 10 \<Longrightarrow> (of_char (digit d) :: nat) = 48 + d"
  by (simp add: digit_def)

lemma digit_char: "d < 10 \<Longrightarrow> isdigit (digit d) \<and> digit_val (digit d) = d"
  by (simp add: isdigit_def digit_val_def of_char_digit)

lemma value_of_snoc: "value_of (ds @ [c]) = 10 * value_of ds + digit_val c"
  by (simp add: value_of_def)

lemma digits_isdigit: "\<forall>c \<in> set (digits n). isdigit c"
proof (induction n rule: digits.induct)
  case (1 n)
  then show ?case by (subst digits.simps) (auto simp: digit_char)
qed

lemma digits_nonempty [simp]: "digits n \<noteq> []"
  by (subst digits.simps) simp

lemma value_of_digits: "value_of (digits n) = n"
proof (induction n rule: digits.induct)
  case (1 n)
  then show ?case
    by (subst digits.simps) (auto simp: value_of_snoc digit_char, simp add: value_of_def digit_char)
qed

lemma not_digit: "\<not> isdigit (CHR ''-'')" "\<not> isdigit (CHR '' '')" "\<not> isdigit (CHR ''+'')"
  by (simp_all add: isdigit_def)

lemma digit_not_space: "isdigit c \<Longrightarrow> \<not> isspace c"
  by (auto simp: isdigit_def isspace_def)

lemma sign_digits:
  assumes "isdigit c"
  shows "sign (c # cs) = (1, c # cs)"
  using assms not_digit by auto

lemma takeWhile_digits: "\<forall>c \<in> set ds. P c \<Longrightarrow> (case s of [] \<Rightarrow> True | c # cs \<Rightarrow> \<not> P c) \<Longrightarrow> takeWhile P (ds @ s) = ds"
  by (cases s) (auto simp: takeWhile_tail)

lemma dropWhile_digits: "\<forall>c \<in> set ds. P c \<Longrightarrow> (case s of [] \<Rightarrow> True | c # cs \<Rightarrow> \<not> P c) \<Longrightarrow> dropWhile P (ds @ s) = s"
  by (cases s) (auto simp: dropWhile_append3)

text \<open>A number that is printed is read back, and the text after it remains.\<close>

lemma scan_show_int:
  assumes "lo \<le> x" "x \<le> hi" "case s of [] \<Rightarrow> True | c # cs \<Rightarrow> \<not> isdigit c"
  shows "scan_number lo hi (show_int x @ s) = Scanned x s"
proof -
  have body: "takeWhile isdigit (digits n @ s) = digits n" "dropWhile isdigit (digits n @ s) = s" for n
    using takeWhile_digits [OF digits_isdigit assms(3)] dropWhile_digits [OF digits_isdigit assms(3)] by simp_all
  show ?thesis
  proof (cases "x < 0")
    case True
    then have "sign (dropWhile isspace (show_int x @ s)) = (- 1, digits (nat (- x)) @ s)"
      by (simp add: show_int_def isspace_def)
    with True assms show ?thesis by (simp add: scan_number_def body value_of_digits)
  next
    case False
    obtain c cs where c: "digits (nat x) = c # cs" using digits_nonempty by (cases "digits (nat x)") auto
    then have "isdigit c" using digits_isdigit [of "nat x"] by simp
    then have "sign (dropWhile isspace (show_int x @ s)) = (1, digits (nat x) @ s)"
      using False c digit_not_space [of c] sign_digits [of c "cs @ s"] by (simp add: show_int_def del: sign.simps)
    with False assms show ?thesis by (simp add: scan_number_def body value_of_digits)
  qed
qed

lemma scan_space: "scan_number lo hi (CHR '' '' # s) = scan_number lo hi s"
  by (simp add: scan_number_def isspace_def)

lemma scan_Nil: "scan_number lo hi [] = No_match"
  by (simp add: scan_number_def)

lemma scan_number_shorter: "scan_number lo hi s = Scanned x r \<Longrightarrow> length r < length s"
proof -
  assume scan: "scan_number lo hi s = Scanned x r"
  obtain sg t where t: "sign (dropWhile isspace s) = (sg, t)" by force
  have "length (snd (sign u)) \<le> length u" for u by (cases u) simp_all
  then have "length t \<le> length (dropWhile isspace s)" using t by (metis snd_conv)
  also have "\<dots> \<le> length s" by (rule length_dropWhile_le)
  finally have le: "length t \<le> length s" .
  from scan t have "takeWhile isdigit t \<noteq> []" "r = dropWhile isdigit t"
    by (auto simp: scan_number_def Let_def split: if_splits)
  moreover have "length (takeWhile isdigit t) + length (dropWhile isdigit t) = length t"
    by (metis length_append takeWhile_dropWhile_id)
  ultimately have "length r < length t" by (cases "takeWhile isdigit t") auto
  with le show ?thesis by simp
qed

lemma scan_number_range: "scan_number lo hi s = Scanned x r \<Longrightarrow> lo \<le> x \<and> x \<le> hi"
  by (auto simp: scan_number_def Let_def split: prod.splits if_splits)

end
