(* ===== verification/Shell_Exec.thy ===== *)
theory Shell_Exec
  imports Shell_Correct Decimal
begin

section \<open>The shell: running command lines\<close>

text \<open>
  \<^verbatim>\<open>hw2/solution.c\<close>. The system calls act on a model of POSIX: a descriptor table maps descriptors to
  open objects, \<^verbatim>\<open>pipe\<close> and \<^verbatim>\<open>open\<close> take the lowest free descriptors, \<^verbatim>\<open>fork\<close> copies the table, a
  successful \<^verbatim>\<open>execvp\<close> keeps it. Which calls fail, the process ids and how a child ends are choices of the
  operating system, given by the record \<open>os\<close>. A forked child is run at once up to its end in the shell's code, which is
  \<^verbatim>\<open>execvp\<close> or the return from \<^verbatim>\<open>my_execute_command_line\<close> in the child. The parent's state records the children and
  what was waited for. \<^verbatim>\<open>malloc\<close> does not fail.
\<close>

subsection \<open>Descriptors\<close>

datatype object =
    Terminal nat
  | Pipe_read nat
  | Pipe_write nat
  | Out_file string output_type

type_synonym fds = "object option list"

definition fd_get :: "fds \<Rightarrow> nat \<Rightarrow> object option" where
  "fd_get fds i = (if i < length fds then fds ! i else None)"

definition fd_set :: "nat \<Rightarrow> object option \<Rightarrow> fds \<Rightarrow> fds" where
  "fd_set i x fds = (fds @ replicate (i + 1 - length fds) None)[i := x]"

definition lowest_free :: "fds \<Rightarrow> nat" where
  "lowest_free fds = length (takeWhile (\<lambda>x. x \<noteq> None) fds)"

definition sys_close :: "nat \<Rightarrow> fds \<Rightarrow> fds" where
  "sys_close i = fd_set i None"

definition sys_open :: "object \<Rightarrow> fds \<Rightarrow> nat \<times> fds" where
  "sys_open x fds = (let i = lowest_free fds in (i, fd_set i (Some x) fds))"

definition sys_dup2 :: "nat \<Rightarrow> nat \<Rightarrow> fds \<Rightarrow> fds option" where
  "sys_dup2 i j fds = map_option (\<lambda>x. fd_set j (Some x) fds) (fd_get fds i)"

record os =
  os_pipe_ok :: "nat \<Rightarrow> bool"             \<comment> \<open>the call that would make this pipe\<close>
  os_fork :: "nat \<Rightarrow> nat option"          \<comment> \<open>process id of this fork, or failure\<close>
  os_open_ok :: "string \<Rightarrow> bool"
  os_dup2_ok :: "nat \<Rightarrow> nat \<Rightarrow> bool"
  os_exec_ok :: "string \<Rightarrow> bool"
  os_status :: "nat \<Rightarrow> int option"        \<comment> \<open>exit status of a process, if it exited\<close>

subsection \<open>State\<close>

record exec_result =
  r_exit_code :: int
  r_force_exit_code :: int

text \<open>A child that could not run its program returns to \<^verbatim>\<open>main\<close> with a result of its own.\<close>

datatype child = Execed string "string list" fds | Returned exec_result | Undefined_child

record shell =
  s_fds :: fds
  s_pipes :: nat
  s_forks :: nat
  s_chdirs :: "string option list"        \<comment> \<open>\<open>None\<close> is the directory \<^verbatim>\<open>HOME\<close>\<close>
  s_children :: "(nat \<times> child) list"
  s_waited :: "nat list"

subsection \<open>Waiting\<close>

definition addChildProcess :: "nat list \<Rightarrow> nat \<Rightarrow> nat list" where
  "addChildProcess pids pid = pid # pids"

fun wait_status :: "os \<Rightarrow> nat list \<Rightarrow> int \<Rightarrow> int" where
  "wait_status os [] last_status = last_status"
| "wait_status os (pid # pids) last_status =
     wait_status os pids (case os_status os pid of Some code \<Rightarrow> code | None \<Rightarrow> last_status)"

definition waitForChildProcesses :: "os \<Rightarrow> nat list \<Rightarrow> shell \<Rightarrow> int \<times> shell" where
  "waitForChildProcesses os pids s = (wait_status os pids 0, s\<lparr>s_waited := s_waited s @ pids\<rparr>)"

definition forceExit :: "os \<Rightarrow> exec_result \<Rightarrow> nat list \<Rightarrow> int \<Rightarrow> shell \<Rightarrow> exec_result \<times> shell" where
  "forceExit os r pids code s = (r\<lparr>r_force_exit_code := code\<rparr>, snd (waitForChildProcesses os pids s))"

definition gracefulExit :: "os \<Rightarrow> exec_result \<Rightarrow> nat list \<Rightarrow> shell \<Rightarrow> exec_result \<times> shell" where
  "gracefulExit os r pids s =
     (let (exitCode, s') = waitForChildProcesses os pids s in (r\<lparr>r_exit_code := exitCode\<rparr>, s'))"

definition EXIT_FAILURE :: int where
  "EXIT_FAILURE = 1"

subsection \<open>Built-in commands\<close>

fun handle_cd :: "string list expr \<Rightarrow> bool" where
  "handle_cd (EXPR_TYPE_COMMAND e as) = (e = ''cd'')"
| "handle_cd _ = False"

definition handle_exit :: "string \<Rightarrow> string list \<Rightarrow> bool \<Rightarrow> int option" where
  "handle_exit e as has_next =
     (if e \<noteq> ''exit'' then Some (- 1)
      else if has_next then Some (- 1)
      else if as \<noteq> [] then atoi (hd as) else Some 0)"

fun change_dir :: "string list expr \<Rightarrow> shell \<Rightarrow> shell" where
  "change_dir (EXPR_TYPE_COMMAND e as) s = s\<lparr>s_chdirs := s_chdirs s @ [if as = [] then None else Some (hd as)]\<rparr>"
| "change_dir _ s = s"

subsection \<open>The child\<close>

text \<open>Redirecting the input to the pipe before the command, and the output to the pipe behind it or to the file.
  The result is empty if a call failed.\<close>

definition redirect :: "os \<Rightarrow> nat \<Rightarrow> nat \<Rightarrow> fds \<Rightarrow> fds option" where
  "redirect os i j fds =
     (if os_dup2_ok os i j then map_option (sys_close i) (sys_dup2 i j fds) else None)"

definition child_input :: "os \<Rightarrow> (nat \<times> nat) option \<Rightarrow> fds \<Rightarrow> fds option" where
  "child_input os prev fds =
     (case prev of None \<Rightarrow> Some fds | Some (r, w) \<Rightarrow> redirect os r 0 (sys_close w fds))"

definition open_output :: "os \<Rightarrow> spec_line \<Rightarrow> fds \<Rightarrow> (nat \<times> fds) option" where
  "open_output os line fds =
     (case l_out_type line of
        OUTPUT_TYPE_STDOUT \<Rightarrow> Some (1, fds)
      | ty \<Rightarrow> (case l_out_file line of
                None \<Rightarrow> None
              | Some f \<Rightarrow> if os_open_ok os f then Some (sys_open (Out_file f ty) fds) else None))"

definition child_output :: "os \<Rightarrow> spec_line \<Rightarrow> (nat \<times> nat) option \<Rightarrow> fds \<Rightarrow> fds option" where
  "child_output os line cur fds =
     (case cur of
        Some (r, w) \<Rightarrow> redirect os w 1 (sys_close r fds)
      | None \<Rightarrow> do { (out_fd, fds') \<leftarrow> open_output os line fds;
                     if out_fd \<noteq> 1 then redirect os out_fd 1 fds' else Some fds' })"

definition child_exec :: "os \<Rightarrow> exec_result \<Rightarrow> string \<Rightarrow> string list \<Rightarrow> fds \<Rightarrow> child" where
  "child_exec os r e as fds =
     (if os_exec_ok os e then Execed e (e # as) fds
      else if as = [] then Undefined_child
      else case atoi (hd as) of
             None \<Rightarrow> Undefined_child
           | Some code \<Rightarrow> Returned (r\<lparr>r_force_exit_code := code\<rparr>))"

definition run_child ::
    "os \<Rightarrow> spec_line \<Rightarrow> exec_result \<Rightarrow> (nat \<times> nat) option \<Rightarrow> (nat \<times> nat) option \<Rightarrow> string \<Rightarrow> string list \<Rightarrow> fds \<Rightarrow> child" where
  "run_child os line r prev cur e as fds =
     (case Option.bind (child_input os prev fds) (child_output os line cur) of
        None \<Rightarrow> Returned (r\<lparr>r_force_exit_code := EXIT_FAILURE\<rparr>)
      | Some fds' \<Rightarrow> child_exec os r e as fds')"

subsection \<open>my_execute_command_line\<close>

definition sys_pipe :: "shell \<Rightarrow> (nat \<times> nat) \<times> shell" where
  "sys_pipe s =
     (let (r, fds1) = sys_open (Pipe_read (s_pipes s)) (s_fds s); (w, fds2) = sys_open (Pipe_write (s_pipes s)) fds1
      in ((r, w), s\<lparr>s_fds := fds2, s_pipes := s_pipes s + 1\<rparr>))"

text \<open>The pipe opened before a command that is followed by \<^verbatim>\<open>|\<close>.\<close>

definition open_pipe ::
    "os \<Rightarrow> string list expr list \<Rightarrow> (nat \<times> nat) option \<Rightarrow> shell \<Rightarrow> ((nat \<times> nat) option \<times> shell) option" where
  "open_pipe os es cur s =
     (if es \<noteq> [] \<and> hd es = EXPR_TYPE_PIPE
      then if os_pipe_ok os (s_pipes s) then Some (apfst Some (sys_pipe s)) else None
      else Some (cur, s))"

definition close_pair :: "(nat \<times> nat) option \<Rightarrow> shell \<Rightarrow> shell" where
  "close_pair fd s = (case fd of None \<Rightarrow> s | Some (r, w) \<Rightarrow> s\<lparr>s_fds := sys_close w (sys_close r (s_fds s))\<rparr>)"

definition fork_child ::
    "os \<Rightarrow> spec_line \<Rightarrow> exec_result \<Rightarrow> (nat \<times> nat) option \<Rightarrow> (nat \<times> nat) option \<Rightarrow> string \<Rightarrow> string list \<Rightarrow> shell \<Rightarrow>
     (nat \<times> shell) option" where
  "fork_child os line r prev cur e as s =
     (case os_fork os (s_forks s) of
        None \<Rightarrow> None
      | Some pid \<Rightarrow> Some (pid, s\<lparr>s_forks := s_forks s + 1,
          s_children := s_children s @ [(pid, run_child os line r prev cur e as (s_fds s))]\<rparr>))"

fun exec_loop ::
    "os \<Rightarrow> spec_line \<Rightarrow> exec_result \<Rightarrow> string list expr list \<Rightarrow> bool \<Rightarrow> (nat \<times> nat) option \<Rightarrow> (nat \<times> nat) option \<Rightarrow>
     nat list \<Rightarrow> shell \<Rightarrow> (exec_result \<times> shell) option" where
  "exec_loop os line r [] first prev cur pids s = Some (gracefulExit os r pids (close_pair prev s))"
| "exec_loop os line r (e # es) first prev cur pids s =
     (case open_pipe os es cur s of
        None \<Rightarrow> Some (forceExit os r pids EXIT_FAILURE s)
      | Some (cur1, s1) \<Rightarrow>
          if handle_cd e then exec_loop os line r es False prev cur1 pids (change_dir e s1)
          else case e of
            EXPR_TYPE_COMMAND c as \<Rightarrow>
              do { exitCode \<leftarrow> handle_exit c as (es \<noteq> []);
                   if first \<and> exitCode \<noteq> - 1 then Some (forceExit os r pids exitCode s1)
                   else case fork_child os line r prev cur1 c as s1 of
                          None \<Rightarrow> Some (forceExit os r pids EXIT_FAILURE s1)
                        | Some (pid, s2) \<Rightarrow> exec_loop os line r es False prev cur1 (addChildProcess pids pid) s2 }
          | EXPR_TYPE_PIPE \<Rightarrow> exec_loop os line r es False cur1 None pids (close_pair prev s1)
          | EXPR_TYPE_AND \<Rightarrow> exec_loop os line r es False prev cur1 pids s1
          | EXPR_TYPE_OR \<Rightarrow> exec_loop os line r es False prev cur1 pids s1)"

definition my_execute_command_line :: "os \<Rightarrow> spec_line \<Rightarrow> exec_result \<Rightarrow> shell \<Rightarrow> (exec_result \<times> shell) option" where
  "my_execute_command_line os line r s = exec_loop os line r (l_exprs line) True None None [] s"

subsection \<open>main\<close>

text \<open>The inner loop, over the lines in the parser's buffer, and the outer one, over the pieces of input that \<^verbatim>\<open>read\<close>
  returns.\<close>

partial_function (option) main_lines :: "os \<Rightarrow> parser \<Rightarrow> exec_result \<Rightarrow> shell \<Rightarrow> (parser \<times> exec_result \<times> shell) option" where
  "main_lines os p r s =
     do { ((err, line), p') \<leftarrow> parser_pop_next p;
          if err = PARSER_ERR_NONE \<and> line = None then Some (p', r, s)
          else if err \<noteq> PARSER_ERR_NONE then do { command_line_delete line; main_lines os p' r s }
          else do { (r', s') \<leftarrow> my_execute_command_line os (view (the line)) r s;
                    if r_force_exit_code r' \<noteq> - 1 then Some (p', r', s') else main_lines os p' r' s' } }"

fun main_loop :: "os \<Rightarrow> string list \<Rightarrow> parser \<Rightarrow> exec_result \<Rightarrow> shell \<Rightarrow> (exec_result \<times> shell) option" where
  "main_loop os [] p r s = Some (r, s)"
| "main_loop os (buf # bufs) p r s =
     do { p1 \<leftarrow> parser_feed buf p;
          (p2, r', s') \<leftarrow> main_lines os p1 r s;
          if r_force_exit_code r' \<noteq> - 1 then Some (r', s') else main_loop os bufs p2 r' s' }"

definition exit_code :: "exec_result \<Rightarrow> int" where
  "exit_code r =
     (let exitCode = 0;
          exitCode = (if r_force_exit_code r \<noteq> - 1 then r_force_exit_code r else exitCode);
          exitCode = (if r_exit_code r \<noteq> - 1 then r_exit_code r else exitCode)
      in exitCode)"

definition shell_main :: "os \<Rightarrow> string list \<Rightarrow> shell \<Rightarrow> (int \<times> shell) option" where
  "shell_main os bufs s =
     do { (r, s') \<leftarrow> main_loop os bufs parser_new \<lparr>r_exit_code = - 1, r_force_exit_code = - 1\<rparr> s;
          Some (exit_code r, s') }"

end
