(* ===== verification/Shell_Pipeline.thy ===== *)
theory Shell_Pipeline
  imports Shell_Exec
begin

section \<open>The shell: pipelines\<close>

text \<open>
  A line \<^verbatim>\<open>c1 | ... | cn\<close>, with the output of \<open>cn\<close> possibly redirected, run by \<^verbatim>\<open>my_execute_command_line\<close>: which
  programs run with which descriptors, what the parent's descriptor table is after the line, and which
  process gives the exit code.
\<close>

subsection \<open>Descriptor tables\<close>

lemma fd_get_set [simp]: "fd_get (fd_set i x fds) = (fd_get fds)(i := x)"
  by (rule ext) (auto simp: fd_get_def fd_set_def nth_list_update nth_append)

lemma fd_get_close [simp]: "fd_get (sys_close i fds) = (fd_get fds)(i := None)"
  by (simp add: sys_close_def)

lemma lowest_free_none: "fd_get fds (lowest_free fds) = None"
proof -
  have "\<not> (\<lambda>x. x \<noteq> None) (fds ! length (takeWhile (\<lambda>x. x \<noteq> None) fds))"
    if "length (takeWhile (\<lambda>x. x \<noteq> None) fds) < length fds"
    using nth_length_takeWhile [OF that] .
  then show ?thesis by (auto simp: fd_get_def lowest_free_def)
qed

lemma sys_open_ok:
  assumes "sys_open x fds = (i, fds')"
  shows "fd_get fds i = None" "fd_get fds' = (fd_get fds)(i \<mapsto> x)"
  using assms lowest_free_none [of fds] by (auto simp: sys_open_def Let_def)

lemma sys_pipe_ok:
  obtains u w s' where "sys_pipe s = ((u, w), s')" "u \<noteq> w" "fd_get (s_fds s) u = None" "fd_get (s_fds s) w = None"
    "fd_get (s_fds s') = (fd_get (s_fds s))(u \<mapsto> Pipe_read (s_pipes s), w \<mapsto> Pipe_write (s_pipes s))"
    "s_pipes s' = s_pipes s + 1" "s_forks s' = s_forks s" "s_chdirs s' = s_chdirs s" "s_children s' = s_children s" "s_waited s' = s_waited s"
proof -
  obtain u fds1 where u: "sys_open (Pipe_read (s_pipes s)) (s_fds s) = (u, fds1)" by fastforce
  obtain w fds2 where w: "sys_open (Pipe_write (s_pipes s)) fds1 = (w, fds2)" by fastforce
  note U = sys_open_ok [OF u] and W = sys_open_ok [OF w]
  have "u \<noteq> w" using W(1) U(2) by auto
  moreover have "fd_get (s_fds s) w = None" using W(1) U(2) \<open>u \<noteq> w\<close> by simp
  moreover have "sys_pipe s = ((u, w), s\<lparr>s_fds := fds2, s_pipes := s_pipes s + 1\<rparr>)" by (simp add: sys_pipe_def u w)
  ultimately show ?thesis using U W that by simp
qed

lemma redirect_ok:
  assumes "os_dup2_ok os i j" "fd_get fds i = Some x"
  shows "\<exists>fds'. redirect os i j fds = Some fds' \<and> fd_get fds' = (fd_get fds)(j \<mapsto> x, i := None)"
  using assms by (simp add: redirect_def sys_dup2_def)

subsection \<open>The child\<close>

definition os_fine :: "os \<Rightarrow> bool" where
  "os_fine os \<longleftrightarrow> (\<forall>n. os_pipe_ok os n) \<and> (\<forall>n. os_fork os n \<noteq> None) \<and> (\<forall>f. os_open_ok os f) \<and> (\<forall>i j. os_dup2_ok os i j)"

text \<open>What a descriptor table of the parent looks like between two commands: the table \<open>g\<close> of the shell and the
  pipe \<open>prev\<close>, whose end for reading is \<open>inp\<close>.\<close>

definition prev_ok :: "(nat \<Rightarrow> object option) \<Rightarrow> (nat \<times> nat) option \<Rightarrow> object option \<Rightarrow> (nat \<Rightarrow> object option) \<Rightarrow> bool" where
  "prev_ok g prev inp h \<longleftrightarrow>
     (case prev of
        None \<Rightarrow> inp = g 0 \<and> h = g
      | Some (x, y) \<Rightarrow> x \<noteq> y \<and> g x = None \<and> g y = None \<and> (\<exists>k. inp = Some (Pipe_read k) \<and> h = g(x \<mapsto> Pipe_read k, y \<mapsto> Pipe_write k)))"

definition std_open :: "(nat \<Rightarrow> object option) \<Rightarrow> bool" where
  "std_open g \<longleftrightarrow> g 0 \<noteq> None \<and> g 1 \<noteq> None \<and> g 2 \<noteq> None"

lemma std_free: "std_open g \<Longrightarrow> g x = None \<Longrightarrow> x \<noteq> 0 \<and> x \<noteq> 1 \<and> x \<noteq> 2"
  unfolding std_open_def by metis

lemma close_pair_ok:
  "prev_ok g prev inp h \<Longrightarrow> fd_get (s_fds s) = h \<Longrightarrow> fd_get (s_fds (close_pair prev s)) = g"
  by (auto simp: prev_ok_def close_pair_def split: option.splits)

lemma child_input_ok:
  assumes "os_fine os" "std_open g" "prev_ok g prev inp (fd_get fds)"
  shows "\<exists>fds'. child_input os prev fds = Some fds' \<and> fd_get fds' = g(0 := inp)"
proof (cases prev)
  case None
  then show ?thesis using assms by (simp add: child_input_def prev_ok_def)
next
  case (Some xy)
  then obtain x y k where p: "prev = Some (x, y)" "x \<noteq> y" "g x = None" "g y = None" "inp = Some (Pipe_read k)"
    "fd_get fds = g(x \<mapsto> Pipe_read k, y \<mapsto> Pipe_write k)"
    using assms(3) by (cases xy) (auto simp: prev_ok_def)
  have "os_dup2_ok os x 0" using assms(1) by (simp add: os_fine_def)
  then obtain fds' where r: "redirect os x 0 (sys_close y fds) = Some fds'"
    "fd_get fds' = (fd_get (sys_close y fds))(0 \<mapsto> Pipe_read k, x := None)"
    using redirect_ok [of os x 0 "sys_close y fds" "Pipe_read k"] p by auto
  have "x \<noteq> 0" "y \<noteq> 0" using p(3,4) std_free [OF assms(2)] by blast+
  then have "fd_get fds' = g(0 := inp)" using p r(2) by (auto simp: fun_eq_iff)
  with r(1) p(1) show ?thesis by (simp add: child_input_def)
qed

text \<open>Where the last command writes.\<close>

definition output_object :: "spec_line \<Rightarrow> (nat \<Rightarrow> object option) \<Rightarrow> object option" where
  "output_object line g = (case l_out_type line of OUTPUT_TYPE_STDOUT \<Rightarrow> g 1 | ty \<Rightarrow> Some (Out_file (the (l_out_file line)) ty))"

lemma child_output_last:
  assumes "os_fine os" "std_open g" "redirect_ok line" "fd_get fds = g(0 := inp)"
  shows "\<exists>fds'. child_output os line None fds = Some fds' \<and> fd_get fds' = g(0 := inp, 1 := output_object line g)"
proof (cases "l_out_type line = OUTPUT_TYPE_STDOUT")
  case True
  then show ?thesis using assms by (auto simp: child_output_def open_output_def output_object_def fun_upd_idem)
next
  case False
  then obtain f where f: "l_out_file line = Some f" using assms(3) by (auto simp: redirect_ok_def)
  define x where "x = Out_file f (l_out_type line)"
  obtain n fds1 where o: "sys_open x fds = (n, fds1)" by fastforce
  note O = sys_open_ok [OF o]
  have op: "open_output os line fds = Some (n, fds1)"
    using False f o assms(1) by (cases "l_out_type line") (simp_all add: open_output_def x_def os_fine_def)
  have out: "output_object line g = Some x" using False f by (cases "l_out_type line") (simp_all add: output_object_def x_def)
  have n: "n = 0 \<or> g n = None" "n \<noteq> 1" using O(1) assms(2,4) by (auto simp: std_open_def fun_upd_apply split: if_splits)
  have "os_dup2_ok os n 1" using assms(1) by (simp add: os_fine_def)
  then obtain fds' where r: "redirect os n 1 fds1 = Some fds'" "fd_get fds' = (fd_get fds1)(1 \<mapsto> x, n := None)"
    using redirect_ok [of os n 1 fds1 x] O(2) by auto
  have "fd_get fds' = g(0 := inp, 1 := output_object line g)"
    using r(2) O n assms(4) out by (auto simp: fun_eq_iff)
  with op r(1) n(2) show ?thesis by (simp add: child_output_def)
qed

lemma child_output_pipe:
  assumes "os_fine os" "std_open g" "u \<noteq> w" "g u = None" "g w = None"
    and "fd_get fds = g(0 := inp, u \<mapsto> Pipe_read k, w \<mapsto> Pipe_write k)"
  shows "\<exists>fds'. child_output os line (Some (u, w)) fds = Some fds' \<and> fd_get fds' = g(0 := inp, 1 \<mapsto> Pipe_write k)"
proof -
  have ne: "u \<noteq> 0" "w \<noteq> 0" "u \<noteq> 1" "w \<noteq> 1" using assms(4,5) std_free [OF assms(2)] by blast+
  have "os_dup2_ok os w 1" using assms(1) by (simp add: os_fine_def)
  then obtain fds' where r: "redirect os w 1 (sys_close u fds) = Some fds'"
    "fd_get fds' = (fd_get (sys_close u fds))(1 \<mapsto> Pipe_write k, w := None)"
    using redirect_ok [of os w 1 "sys_close u fds" "Pipe_write k"] assms(3,6) by auto
  have "fd_get fds' = g(0 := inp, 1 \<mapsto> Pipe_write k)"
    using r(2) assms(3-6) ne by (auto simp: fun_eq_iff)
  with r(1) show ?thesis by (simp add: child_output_def)
qed

lemma run_child_ok:
  assumes "Option.bind (child_input os prev fds) (child_output os line cur) = Some fds'" "os_exec_ok os e"
  shows "run_child os line r prev cur e as fds = Execed e (e # as) fds'"
  using assms by (simp add: run_child_def child_exec_def)

lemma run_child_last:
  assumes "os_fine os" "std_open g" "redirect_ok line" "prev_ok g prev inp (fd_get fds)" "os_exec_ok os e"
  shows "\<exists>fds'. run_child os line r prev None e as fds = Execed e (e # as) fds' \<and>
     fd_get fds' = g(0 := inp, 1 := output_object line g)"
proof -
  obtain f1 where f1: "child_input os prev fds = Some f1" "fd_get f1 = g(0 := inp)"
    using child_input_ok [OF assms(1,2,4)] by blast
  from child_output_last [OF assms(1-3) f1(2)] obtain fds' where
    "child_output os line None f1 = Some fds'" "fd_get fds' = g(0 := inp, 1 := output_object line g)" by blast
  with f1(1) run_child_ok [OF _ assms(5)] show ?thesis by simp
qed

lemma prev_ok_pipe:
  assumes "prev_ok g prev inp h" "std_open g" "u \<noteq> w" "h u = None" "h w = None"
  shows "prev_ok (g(u \<mapsto> a, w \<mapsto> b)) prev inp (h(u \<mapsto> a, w \<mapsto> b))" "g u = None" "g w = None"
proof -
  show free: "g u = None" "g w = None" using assms by (auto simp: prev_ok_def split: option.splits if_splits)
  then have ne: "u \<noteq> 0" "w \<noteq> 0" using std_free [OF assms(2)] by blast+
  show "prev_ok (g(u \<mapsto> a, w \<mapsto> b)) prev inp (h(u \<mapsto> a, w \<mapsto> b))"
  proof (cases prev)
    case None
    then show ?thesis using assms(1) ne by (simp add: prev_ok_def)
  next
    case (Some xy)
    then obtain x y k' where p: "prev = Some (x, y)" "x \<noteq> y" "g x = None" "g y = None" "inp = Some (Pipe_read k')"
      "h = g(x \<mapsto> Pipe_read k', y \<mapsto> Pipe_write k')"
      using assms(1) by (cases xy) (auto simp: prev_ok_def)
    have "h x \<noteq> None" "h y \<noteq> None" using p(2) unfolding p(6) by simp_all
    then have d: "x \<noteq> u" "x \<noteq> w" "y \<noteq> u" "y \<noteq> w" using assms(4,5) by metis+
    then have "h(u \<mapsto> a, w \<mapsto> b) = g(u \<mapsto> a, w \<mapsto> b, x \<mapsto> Pipe_read k', y \<mapsto> Pipe_write k')"
      unfolding p(6) by (auto simp: fun_eq_iff)
    then show ?thesis using p d by (auto simp: prev_ok_def)
  qed
qed

lemma run_child_pipe:
  assumes "os_fine os" "std_open g" "prev_ok g prev inp h" "os_exec_ok os e"
    and uw: "u \<noteq> w" "h u = None" "h w = None" and fds: "fd_get fds = h(u \<mapsto> Pipe_read k, w \<mapsto> Pipe_write k)"
  shows "\<exists>fds'. run_child os line r prev (Some (u, w)) e as fds = Execed e (e # as) fds' \<and> fd_get fds' = g(0 := inp, 1 \<mapsto> Pipe_write k)"
proof -
  let ?g = "g(u \<mapsto> Pipe_read k, w \<mapsto> Pipe_write k)"
  note prev = prev_ok_pipe [OF assms(3,2) uw]
  have ne: "u \<noteq> 0" "w \<noteq> 0" using std_free [OF assms(2)] prev(2,3) by blast+
  have "std_open ?g" using assms(2) by (simp add: std_open_def)
  from child_input_ok [OF assms(1) this prev(1) [of "Pipe_read k" "Pipe_write k", folded fds]]
  obtain f1 where f1: "child_input os prev fds = Some f1" "fd_get f1 = ?g(0 := inp)" by blast
  have "fd_get f1 = g(0 := inp, u \<mapsto> Pipe_read k, w \<mapsto> Pipe_write k)" using f1(2) ne by (auto simp: fun_eq_iff)
  from child_output_pipe [OF assms(1,2) uw(1) prev(2,3) this] obtain fds' where
    "child_output os line (Some (u, w)) f1 = Some fds'" "fd_get fds' = g(0 := inp, 1 \<mapsto> Pipe_write k)" by blast
  with f1(1) run_child_ok [OF _ assms(4)] show ?thesis by simp
qed

lemma close_pair_fields [simp]:
  "s_forks (close_pair fd s) = s_forks s" "s_pipes (close_pair fd s) = s_pipes s" "s_chdirs (close_pair fd s) = s_chdirs s"
  "s_waited (close_pair fd s) = s_waited s" "s_children (close_pair fd s) = s_children s"
  by (simp_all add: close_pair_def split: option.splits)

subsection \<open>The loop over a pipeline\<close>

fun pipeline :: "(string \<times> string list) list \<Rightarrow> string list expr list" where
  "pipeline [] = []"
| "pipeline [(e, as)] = [EXPR_TYPE_COMMAND e as]"
| "pipeline ((e, as) # cs) = EXPR_TYPE_COMMAND e as # EXPR_TYPE_PIPE # pipeline cs"

text \<open>The descriptors of command \<open>i\<close> of \<open>n\<close>; the pipes of the line are numbered from \<open>p\<close>.\<close>

definition stage_fds :: "(nat \<Rightarrow> object option) \<Rightarrow> object option \<Rightarrow> object option \<Rightarrow> nat \<Rightarrow> nat \<Rightarrow> nat \<Rightarrow> nat \<Rightarrow> object option" where
  "stage_fds g inp out p n i =
     g(0 := if i = 0 then inp else Some (Pipe_read (p + i - 1)), 1 := if i + 1 < n then Some (Pipe_write (p + i)) else out)"

definition runs :: "child \<Rightarrow> string \<times> string list \<Rightarrow> (nat \<Rightarrow> object option) \<Rightarrow> bool" where
  "runs c cmd h \<longleftrightarrow> (\<exists>fds. c = Execed (fst cmd) (fst cmd # snd cmd) fds \<and> fd_get fds = h)"

definition plain_command :: "os \<Rightarrow> string \<times> string list \<Rightarrow> bool" where
  "plain_command os cmd \<longleftrightarrow> fst cmd \<noteq> ''cd'' \<and> fst cmd \<noteq> ''exit'' \<and> os_exec_ok os (fst cmd)"

lemma exec_command:
  assumes "open_pipe os es cur s = Some (cur1, s1)" "plain_command os (e, as)"
    "fork_child os line r prev cur1 e as s1 = Some (pid, s2)"
  shows "exec_loop os line r (EXPR_TYPE_COMMAND e as # es) first prev cur pids s = exec_loop os line r es False prev cur1 (pid # pids) s2"
  using assms by (simp add: plain_command_def handle_exit_def addChildProcess_def)

lemma exec_pipe:
  assumes "es \<noteq> []" "hd es \<noteq> EXPR_TYPE_PIPE"
  shows "exec_loop os line r (EXPR_TYPE_PIPE # es) first prev cur pids s = exec_loop os line r es False cur None pids (close_pair prev s)"
  using assms by (simp add: open_pipe_def)

lemma pipeline_hd: "cs \<noteq> [] \<Longrightarrow> pipeline cs \<noteq> [] \<and> hd (pipeline cs) \<noteq> EXPR_TYPE_PIPE"
  by (cases cs rule: pipeline.cases) auto

lemma forked:
  assumes "os_fine os"
  obtains pid where "os_fork os (s_forks s) = Some pid"
    "fork_child os line r prev cur e as s = Some (pid, s\<lparr>s_forks := s_forks s + 1,
       s_children := s_children s @ [(pid, run_child os line r prev cur e as (s_fds s))]\<rparr>)"
proof -
  have "os_fork os (s_forks s) \<noteq> None" using assms by (simp add: os_fine_def)
  then obtain pid where "os_fork os (s_forks s) = Some pid" by blast
  then show thesis by (intro that) (simp_all add: fork_child_def)
qed

lemma stage_fds_shift: "stage_fds g (Some (Pipe_read p)) out (p + 1) n i = stage_fds g inp out p (Suc n) (Suc i)"
  by (auto simp: stage_fds_def fun_eq_iff)

definition started :: "nat list \<Rightarrow> (string \<times> string list) list \<Rightarrow> (nat \<Rightarrow> nat \<Rightarrow> object option) \<Rightarrow> (nat \<times> child) list \<Rightarrow> bool" where
  "started pids cmds h cs \<longleftrightarrow> length cs = length cmds \<and> map fst cs = pids \<and>
     (\<forall>i < length cmds. runs (snd (cs ! i)) (cmds ! i) (h i))"

definition next_pids :: "os \<Rightarrow> shell \<Rightarrow> nat \<Rightarrow> nat list" where
  "next_pids os s n = map (\<lambda>i. the (os_fork os (s_forks s + i))) [0..<n]"

lemma started_Cons:
  assumes "runs c cmd (h 0)" "started pids cmds (\<lambda>i. h (Suc i)) cs"
  shows "started (pid # pids) (cmd # cmds) h ((pid, c) # cs)"
  using assms by (auto simp: started_def nth_Cons split: nat.splits)

lemma next_pids_Suc:
  assumes "os_fork os (s_forks s) = Some pid" "s_forks s' = s_forks s + 1"
  shows "next_pids os s (Suc n) = pid # next_pids os s' n"
  using assms by (simp add: next_pids_def map_upt_Suc del: upt_Suc)

lemma exec_pipeline:
  assumes fine: "os_fine os" and std: "std_open g" and red: "redirect_ok line"
  shows "cmds \<noteq> [] \<Longrightarrow> list_all (plain_command os) cmds \<Longrightarrow> prev_ok g prev inp (fd_get (s_fds s)) \<Longrightarrow>
    \<exists>cs s'. exec_loop os line r (pipeline cmds) first prev None pids s
        = Some (gracefulExit os r (rev (next_pids os s (length cmds)) @ pids) s') \<and>
      fd_get (s_fds s') = g \<and> s_children s' = s_children s @ cs \<and> s_waited s' = s_waited s \<and> s_chdirs s' = s_chdirs s \<and>
      started (next_pids os s (length cmds)) cmds (stage_fds g inp (output_object line g) (s_pipes s) (length cmds)) cs"
proof (induction cmds arbitrary: prev inp s first pids rule: pipeline.induct)
  case (2 e as)
  obtain pid where fork: "os_fork os (s_forks s) = Some pid"
    "fork_child os line r prev None e as s = Some (pid, s\<lparr>s_forks := s_forks s + 1,
       s_children := s_children s @ [(pid, run_child os line r prev None e as (s_fds s))]\<rparr>)" (is "_ = Some (pid, ?s1)")
    by (rule forked [OF fine])
  have plain: "plain_command os (e, as)" using 2 by simp
  from 2 run_child_last [OF fine std red, of prev inp "s_fds s" e r as] obtain fds' where c:
    "run_child os line r prev None e as (s_fds s) = Execed e (e # as) fds'" "fd_get fds' = g(0 := inp, 1 := output_object line g)"
    by (auto simp: plain_command_def)
  have "open_pipe os [] None s = Some (None, s)" by (simp add: open_pipe_def)
  from exec_command [OF this plain fork(2)]
  have "exec_loop os line r (pipeline [(e, as)]) first prev None pids s = Some (gracefulExit os r (pid # pids) (close_pair prev ?s1))"
    by simp
  moreover have "next_pids os s 1 = [pid]" using fork(1) by (simp add: next_pids_def)
  moreover have "fd_get (s_fds (close_pair prev ?s1)) = g" by (rule close_pair_ok) (use 2 in simp_all)
  moreover have "started [pid] [(e, as)] (stage_fds g inp (output_object line g) (s_pipes s) 1) [(pid, Execed e (e # as) fds')]"
    using c(2) by (simp add: started_def runs_def stage_fds_def)
  ultimately show ?case
    using c(1) by (intro exI [of _ "[(pid, Execed e (e # as) fds')]"] exI [of _ "close_pair prev ?s1"]) simp
next
  case (3 e as c cs)
  let ?out = "output_object line g" and ?n = "length (c # cs)"
  obtain u w s1 where pipe: "sys_pipe s = ((u, w), s1)" "u \<noteq> w" "fd_get (s_fds s) u = None" "fd_get (s_fds s) w = None"
    "fd_get (s_fds s1) = (fd_get (s_fds s))(u \<mapsto> Pipe_read (s_pipes s), w \<mapsto> Pipe_write (s_pipes s))"
    "s_pipes s1 = s_pipes s + 1" "s_forks s1 = s_forks s" "s_chdirs s1 = s_chdirs s" "s_children s1 = s_children s" "s_waited s1 = s_waited s"
    by (rule sys_pipe_ok)
  obtain pid where fork: "os_fork os (s_forks s1) = Some pid"
    "fork_child os line r prev (Some (u, w)) e as s1 = Some (pid, s1\<lparr>s_forks := s_forks s1 + 1,
       s_children := s_children s1 @ [(pid, run_child os line r prev (Some (u, w)) e as (s_fds s1))]\<rparr>)" (is "_ = Some (pid, ?s2)")
    by (rule forked [OF fine])
  have plain: "plain_command os (e, as)" using 3(3) by simp
  then have ex: "os_exec_ok os e" by (simp add: plain_command_def)
  from run_child_pipe [OF fine std 3(4) ex pipe(2,3,4,5), of line r as] obtain fds' where child:
    "run_child os line r prev (Some (u, w)) e as (s_fds s1) = Execed e (e # as) fds'" "fd_get fds' = g(0 := inp, 1 \<mapsto> Pipe_write (s_pipes s))"
    by blast
  let ?s3 = "close_pair prev ?s2"
  have "open_pipe os (EXPR_TYPE_PIPE # pipeline (c # cs)) None s = Some (Some (u, w), s1)"
    using fine pipe(1) by (simp add: open_pipe_def os_fine_def)
  from exec_command [OF this plain fork(2)]
  have "exec_loop os line r (pipeline ((e, as) # c # cs)) first prev None pids s
      = exec_loop os line r (EXPR_TYPE_PIPE # pipeline (c # cs)) False prev (Some (u, w)) (pid # pids) ?s2"
    unfolding pipeline.simps .
  also have "\<dots> = exec_loop os line r (pipeline (c # cs)) False (Some (u, w)) None (pid # pids) ?s3"
    using pipeline_hd [of "c # cs"] by (intro exec_pipe) blast+
  finally have step: "exec_loop os line r (pipeline ((e, as) # c # cs)) first prev None pids s = \<dots>" .
  have s3: "s_forks ?s3 = s_forks s + 1" "s_pipes ?s3 = s_pipes s + 1" "s_chdirs ?s3 = s_chdirs s" "s_waited ?s3 = s_waited s"
    "s_children ?s3 = s_children s @ [(pid, Execed e (e # as) fds')]"
    using pipe child(1) by simp_all
  note opened = prev_ok_pipe [OF 3(4) std pipe(2,3,4)]
  from opened(1) [of "Pipe_read (s_pipes s)" "Pipe_write (s_pipes s)", folded pipe(5)]
  have "fd_get (s_fds ?s3) = g(u \<mapsto> Pipe_read (s_pipes s), w \<mapsto> Pipe_write (s_pipes s))" by (rule close_pair_ok) simp
  then have "prev_ok g (Some (u, w)) (Some (Pipe_read (s_pipes s))) (fd_get (s_fds ?s3))"
    using pipe(2) opened(2,3) by (auto simp: prev_ok_def)
  from 3(1) [OF _ _ this, of False "pid # pids"] 3(3) obtain cs' s' where ih:
    "exec_loop os line r (pipeline (c # cs)) False (Some (u, w)) None (pid # pids) ?s3
        = Some (gracefulExit os r (rev (next_pids os ?s3 ?n) @ pid # pids) s')"
    "fd_get (s_fds s') = g" "s_children s' = s_children ?s3 @ cs'" "s_waited s' = s_waited ?s3" "s_chdirs s' = s_chdirs ?s3"
    "started (next_pids os ?s3 ?n) (c # cs) (stage_fds g (Some (Pipe_read (s_pipes s))) ?out (s_pipes ?s3) ?n) cs'"
    by auto
  have pids: "next_pids os s (Suc ?n) = pid # next_pids os ?s3 ?n"
    by (rule next_pids_Suc) (use fork(1) pipe(7) s3(1) in simp_all)
  have "started (pid # next_pids os ?s3 ?n) ((e, as) # c # cs) (stage_fds g inp ?out (s_pipes s) (Suc ?n)) ((pid, Execed e (e # as) fds') # cs')"
  proof (rule started_Cons)
    show "runs (Execed e (e # as) fds') (e, as) (stage_fds g inp ?out (s_pipes s) (Suc ?n) 0)"
      using child(2) by (simp add: runs_def stage_fds_def)
    show "started (next_pids os ?s3 ?n) (c # cs) (\<lambda>i. stage_fds g inp ?out (s_pipes s) (Suc ?n) (Suc i)) cs'"
      using ih(6) unfolding stage_fds_shift [symmetric] s3(2) .
  qed
  with ih s3 step pids show ?case by (intro exI [of _ "(pid, Execed e (e # as) fds') # cs'"] exI [of _ s']) simp
qed simp

subsection \<open>Waiting\<close>

lemma wait_status_append: "wait_status os (xs @ ys) d = wait_status os ys (wait_status os xs d)"
  by (induction xs arbitrary: d) auto

text \<open>The status of the first process, in the order of creation, that exited.\<close>

fun first_status :: "os \<Rightarrow> nat list \<Rightarrow> int" where
  "first_status os [] = 0"
| "first_status os (pid # pids) = (case os_status os pid of Some code \<Rightarrow> code | None \<Rightarrow> first_status os pids)"

lemma wait_status_rev: "wait_status os (rev pids) 0 = first_status os pids"
  by (induction pids) (auto simp: wait_status_append split: option.splits)

subsection \<open>Properties\<close>

text \<open>C12: A pipeline of \<open>n\<close> programs, the last one possibly redirected to a file, when no system call fails:
  the shell forks \<open>n\<close> processes; process \<open>i\<close> runs program \<open>i\<close> with its arguments, reads from the pipe that process \<open>i - 1\<close> writes
  to (the first one from the shell's input), writes to the pipe behind it (the last one to the shell's
  output or the file), and has no other descriptor of a pipe, so that every pipe ends when its writer does. The shell waits for all of
  them, is left with the descriptors it had, and the exit code of the line is that of the first process that exited.\<close>

theorem pipeline_runs:
  assumes "os_fine os" "std_open (fd_get (s_fds s))" "redirect_ok line"
    and "l_exprs line = pipeline cmds" "cmds \<noteq> []" "list_all (plain_command os) cmds"
  shows "\<exists>s' cs. let pids = next_pids os s (length cmds) in
    my_execute_command_line os line r s = Some (r\<lparr>r_exit_code := first_status os pids\<rparr>, s') \<and>
    s_children s' = s_children s @ cs \<and>
    started pids cmds (stage_fds (fd_get (s_fds s)) (fd_get (s_fds s) 0) (output_object line (fd_get (s_fds s))) (s_pipes s) (length cmds)) cs \<and>
    s_waited s' = s_waited s @ rev pids \<and> fd_get (s_fds s') = fd_get (s_fds s) \<and> s_chdirs s' = s_chdirs s"
proof -
  let ?g = "fd_get (s_fds s)"
  have prev: "prev_ok ?g None (?g 0) ?g" by (simp add: prev_ok_def)
  obtain cs s' where ex: "exec_loop os line r (pipeline cmds) True None None [] s
        = Some (gracefulExit os r (rev (next_pids os s (length cmds)) @ []) s')"
      "fd_get (s_fds s') = ?g" "s_children s' = s_children s @ cs" "s_waited s' = s_waited s" "s_chdirs s' = s_chdirs s"
      "started (next_pids os s (length cmds)) cmds (stage_fds ?g (?g 0) (output_object line ?g) (s_pipes s) (length cmds)) cs"
    using exec_pipeline [OF assms(1-3,5,6) prev, of r True "[]"] by blast
  have "my_execute_command_line os line r s = Some (gracefulExit os r (rev (next_pids os s (length cmds))) s')"
    unfolding my_execute_command_line_def assms(4) ex(1) by simp
  also have "\<dots> = Some (r\<lparr>r_exit_code := first_status os (next_pids os s (length cmds))\<rparr>,
      s'\<lparr>s_waited := s_waited s' @ rev (next_pids os s (length cmds))\<rparr>)"
    by (simp add: gracefulExit_def waitForChildProcesses_def wait_status_rev)
  finally show ?thesis
    using ex(2-6) unfolding Let_def
    by (intro exI [of _ "s'\<lparr>s_waited := s_waited s' @ rev (next_pids os s (length cmds))\<rparr>"] exI [of _ cs]) simp
qed

definition demo_os :: os where
  "demo_os = \<lparr>os_pipe_ok = \<lambda>_. True, os_fork = \<lambda>n. Some (n + 100), os_open_ok = \<lambda>_. True, os_dup2_ok = \<lambda>_ _. True,
     os_exec_ok = \<lambda>_. True, os_status = \<lambda>pid. Some (int (pid - 100))\<rparr>"

definition demo_shell :: shell where
  "demo_shell = \<lparr>s_fds = [Some (Terminal 0), Some (Terminal 1), Some (Terminal 2)], s_pipes = 0, s_forks = 0, s_chdirs = [],
     s_children = [], s_waited = []\<rparr>"

definition demo_pipeline :: spec_line where
  "demo_pipeline = \<lparr>l_exprs = pipeline [(''ls'', []), (''cat'', [''-n''])], l_out_type = OUTPUT_TYPE_FILE_NEW,
     l_out_file = Some ''f'', l_is_background = False\<rparr>"

lemma demo_fine: "os_fine demo_os" "std_open (fd_get (s_fds demo_shell))"
  by (simp_all add: os_fine_def demo_os_def std_open_def fd_get_def demo_shell_def)

definition demo_cmds :: "(string \<times> string list) list" where
  "demo_cmds = [(''ls'', []), (''cat'', [''-n''])]"

lemma demo_pipeline: "redirect_ok demo_pipeline" "l_exprs demo_pipeline = pipeline demo_cmds" "demo_cmds \<noteq> []"
  "list_all (plain_command demo_os) demo_cmds" "length demo_cmds = 2"
  by (simp_all add: redirect_ok_def demo_pipeline_def demo_cmds_def plain_command_def demo_os_def)

theorem pipeline_runs_witness:
  "\<exists>s' cs. my_execute_command_line demo_os demo_pipeline \<lparr>r_exit_code = - 1, r_force_exit_code = - 1\<rparr> demo_shell
       = Some (\<lparr>r_exit_code = 0, r_force_exit_code = - 1\<rparr>, s') \<and> length cs = 2 \<and>
     s_children s' = cs \<and> fd_get (s_fds s') = fd_get (s_fds demo_shell)"
proof -
  have status: "first_status demo_os (next_pids demo_os demo_shell 2) = 0"
    by (simp add: next_pids_def demo_os_def demo_shell_def upt_rec numeral_2_eq_2)
  have none: "s_children demo_shell = []" by (simp add: demo_shell_def)
  from pipeline_runs [OF demo_fine demo_pipeline(1-4), of "\<lparr>r_exit_code = - 1, r_force_exit_code = - 1\<rparr>"] obtain s' cs where
    "my_execute_command_line demo_os demo_pipeline \<lparr>r_exit_code = - 1, r_force_exit_code = - 1\<rparr> demo_shell
       = Some (\<lparr>r_exit_code = 0, r_force_exit_code = - 1\<rparr>, s')"
    "s_children s' = cs" "length cs = 2" "fd_get (s_fds s') = fd_get (s_fds demo_shell)"
    unfolding Let_def demo_pipeline(5) status none started_def by auto
  then show ?thesis by blast
qed

end
