(* ===== verification/Shell_Main.thy ===== *)
theory Shell_Main
  imports Shell_Pipeline
begin

section \<open>The shell: from input to executed lines\<close>

text \<open>
  The composition of the parser and the executor in \<^verbatim>\<open>main\<close> of \<^verbatim>\<open>hw2/solution.c\<close>: a text of valid lines,
  cut into pieces anywhere, makes the shell run exactly these lines in order; what the exit code is; and
  what a syntax error does.
\<close>

subsection \<open>The capacity of the parser's buffer\<close>

text \<open>The capacity is at most twice the number of characters fed so far, so that it does not wrap for less than
  \<open>2 ^ 30\<close> characters.\<close>

definition parser_fed :: "nat \<Rightarrow> string \<Rightarrow> parser \<Rightarrow> bool" where
  "parser_fed n u p \<longleftrightarrow> parser_wf p \<and> parser_text p = Some u \<and> length u \<le> n \<and> unat (p_capacity p) \<le> 2 * n"

lemma parser_reserve_cap:
  assumes "parser_wf p" "parser_text p = Some s" "unat (p_capacity p) < 2 ^ 31 - 1" "length s + unat len < 2 ^ 32"
  shows "unat (p_capacity (parser_reserve len p)) \<le> max (unat (p_capacity p)) (2 * (length s + unat len))"
proof (cases "p_capacity p - p_size p < len")
  case True
  note D = parser_textD [OF assms(1,2)]
  have "unat (p_capacity p) - unat (p_size p) < unat len" using True unat_diff [OF D(3)] by (simp add: word_less_nat_alt)
  then have less: "unat (p_capacity p) + 1 \<le> length s + unat len" using D(3,4) by simp
  have "unat ((p_capacity p + 1) * 2) \<le> 2 * (length s + unat len)" using unat_double [OF assms(3)] less by simp
  moreover have "unat (p_size p + len) \<le> 2 * (length s + unat len)"
    using unat_add_less [of "p_size p" len] assms(4) D(4) by simp
  ultimately show ?thesis using True by (simp add: parser_reserve_def Let_def max.coboundedI2 del: distrib_right_numeral)
qed (simp add: parser_reserve_def)

lemma parser_feed_fed:
  assumes fed: "parser_fed n u p" and n: "n + length str < 2 ^ 30"
  shows "\<exists>p'. parser_feed str p = Some p' \<and> parser_fed (n + length str) (u @ str) p'"
proof -
  have p: "parser_wf p" "parser_text p = Some u" "length u \<le> n" "unat (p_capacity p) \<le> 2 * n"
    using fed by (simp_all add: parser_fed_def)
  have cap: "unat (p_capacity p) < 2 ^ 31 - 1" using p(4) n by simp
  have len: "length u + length str < 2 ^ 32" using p(3) n by simp
  have un: "unat (of_nat (length str) :: 32 word) = length str" using len by (simp add: unat_of_nat)
  obtain p' where p': "parser_feed str p = Some p'" "parser_wf p'" "parser_text p' = Some (u @ str)"
    using parser_feed_ok [OF p(1,2) cap len] by blast
  have "p_capacity p' = p_capacity (parser_reserve (of_nat (length str)) p)"
    using p'(1) by (auto simp: parser_feed_def Let_def bind_eq_Some_iff split: if_splits)
  then have "unat (p_capacity p') \<le> max (unat (p_capacity p)) (2 * (length u + length str))"
    using parser_reserve_cap [OF p(1,2) cap, of "of_nat (length str)"] len un by simp
  then show ?thesis using p' p(3,4) by (auto simp: parser_fed_def)
qed

lemma parser_pop_next_cap: "parser_pop_next p = Some (r, p') \<Longrightarrow> p_capacity p' = p_capacity p"
  by (auto simp: parser_pop_next_def parser_consume_def Let_def bind_eq_Some_iff split: if_splits)

subsection \<open>One call of the parser\<close>

lemma fed_length: "parser_fed n u p \<Longrightarrow> n < 2 ^ 30 \<Longrightarrow> length u \<le> 2 ^ 32 - 2"
  by (simp add: parser_fed_def)

lemma main_lines_wait:
  assumes fed: "parser_fed n u p" "n < 2 ^ 30" and wait: "pop_spec u = Some (PARSER_ERR_NONE, None, 0)"
  shows "main_lines os p r s = Some (p, r, s)"
proof -
  have "parser_wf p" "parser_text p = Some u" using fed(1) by (simp_all add: parser_fed_def)
  from pop_nextE [OF this fed_length [OF fed] wait] have "parser_pop_next p = Some ((PARSER_ERR_NONE, None), p)" by auto
  then show ?thesis by (simp add: main_lines.simps)
qed

lemma main_lines_line:
  assumes fed: "parser_fed n (print_line l @ u) p" "n < 2 ^ 30" and valid: "valid_line l"
  shows "\<exists>p'. parser_fed n u p' \<and> main_lines os p r s =
    do { (r', s') \<leftarrow> my_execute_command_line os l r s;
         if r_force_exit_code r' \<noteq> - 1 then Some (p', r', s') else main_lines os p' r' s' }"
proof -
  have p: "parser_wf p" "parser_text p = Some (print_line l @ u)" using fed(1) by (simp_all add: parser_fed_def)
  from pop_nextE [OF p fed_length [OF fed] pop_spec_print [OF valid]]
  obtain line p' where pop: "parser_pop_next p = Some ((PARSER_ERR_NONE, line), p')" "map_option view line = Some l"
    "parser_wf p'" "parser_text p' = Some (drop (length (print_line l)) (print_line l @ u))" by metis
  from pop(2) obtain k where k: "line = Some k" "view k = l" by (cases line) auto
  have "parser_fed n u p'" using pop fed(1) parser_pop_next_cap [OF pop(1)] by (simp add: parser_fed_def)
  moreover have "main_lines os p r s =
    do { (r', s') \<leftarrow> my_execute_command_line os l r s;
         if r_force_exit_code r' \<noteq> - 1 then Some (p', r', s') else main_lines os p' r' s' }"
    by (subst main_lines.simps) (simp add: pop(1) k)
  ultimately show ?thesis by blast
qed

text \<open>A beginning of a line that is not the whole line leaves the parser waiting.\<close>

lemma prefix_waits:
  assumes valid: "valid_line l" and u: "u @ z = print_line l @ zs" "length u < length (print_line l)"
  shows "pop_spec u = Some (PARSER_ERR_NONE, None, 0)"
proof -
  have all: "pop_spec (u @ z) = Some (PARSER_ERR_NONE, Some l, length (print_line l))"
    unfolding u(1) by (rule pop_spec_print [OF valid])
  have "waiting (pop_spec u)"
  proof (rule ccontr)
    assume "\<not> waiting (pop_spec u)"
    then have "pop_spec u = Some (PARSER_ERR_NONE, Some l, length (print_line l))" using pop_spec_append [of u z] all by simp
    with pop_spec_ok [of u] u(2) show False by (auto simp: popped_ok_def)
  qed
  then show ?thesis using pop_spec_ok [of u] by (auto simp: waiting_def popped_ok_def)
qed

lemma empty_waits: "pop_spec [] = Some (PARSER_ERR_NONE, None, 0)"
  by (simp add: pop_spec_def read_line.simps lex_token_def spec_then_def spec_return_def)

subsection \<open>The loops of main\<close>

text \<open>Running lines one after another until one of them tells the shell to exit.\<close>

fun run_lines :: "os \<Rightarrow> spec_line list \<Rightarrow> exec_result \<Rightarrow> shell \<Rightarrow> (exec_result \<times> shell) option" where
  "run_lines os [] r s = Some (r, s)"
| "run_lines os (l # ls) r s =
     do { (r', s') \<leftarrow> my_execute_command_line os l r s;
          if r_force_exit_code r' \<noteq> - 1 then Some (r', s') else run_lines os ls r' s' }"

definition print_lines :: "spec_line list \<Rightarrow> string" where
  "print_lines ls = concat (map print_line ls)"

lemma print_lines_simps [simp]: "print_lines [] = []" "print_lines (l # ls) = print_line l @ print_lines ls"
  by (simp_all add: print_lines_def)

text \<open>What is left of the text: a beginning of the next line that is not all of it.\<close>

definition partial_line :: "string \<Rightarrow> spec_line list \<Rightarrow> bool" where
  "partial_line u ls \<longleftrightarrow> (case ls of [] \<Rightarrow> u = [] | l # _ \<Rightarrow> length u < length (print_line l))"

text \<open>Both stop, with the same outcome; or the loop over the buffer ends before the next line \<open>ls'\<close>, of which it
  has the beginning \<open>u'\<close>.\<close>

definition same_run ::
    "nat \<Rightarrow> string \<Rightarrow> os \<Rightarrow> spec_line list \<Rightarrow> exec_result \<Rightarrow> shell \<Rightarrow> (parser \<times> exec_result \<times> shell) option \<Rightarrow> bool" where
  "same_run n z os ls r s x \<longleftrightarrow>
     (case x of
        None \<Rightarrow> run_lines os ls r s = None
      | Some (p', r', s') \<Rightarrow>
          if r_force_exit_code r' \<noteq> - 1 then run_lines os ls r s = Some (r', s')
          else \<exists>ls' u'. parser_fed n u' p' \<and> u' @ z = print_lines ls' \<and> partial_line u' ls' \<and> list_all valid_line ls' \<and>
                 run_lines os ls r s = run_lines os ls' r' s')"

lemma main_lines_run:
  assumes "parser_fed n u p" "n < 2 ^ 30" "u @ z = print_lines ls" "list_all valid_line ls" "r_force_exit_code r = - 1"
  shows "same_run n z os ls r s (main_lines os p r s)"
  using assms
proof (induction ls arbitrary: u p r s)
  case Nil
  then have "u = []" "z = []" by simp_all
  with Nil main_lines_wait [OF Nil(1,2), of os r s] empty_waits show ?case
    by (auto simp: same_run_def partial_line_def intro!: exI [of _ "[]"])
next
  case (Cons l ls)
  show ?case
  proof (cases "length u < length (print_line l)")
    case True
    have "pop_spec u = Some (PARSER_ERR_NONE, None, 0)"
      by (rule prefix_waits [of l u z "print_lines ls"]) (use Cons.prems True in simp_all)
    then have "main_lines os p r s = Some (p, r, s)" by (rule main_lines_wait [OF Cons.prems(1,2)])
    moreover have "parser_fed n u p \<and> u @ z = print_lines (l # ls) \<and> partial_line u (l # ls) \<and> list_all valid_line (l # ls) \<and>
        run_lines os (l # ls) r s = run_lines os (l # ls) r s"
      using Cons.prems True by (simp add: partial_line_def)
    then have "\<exists>ls' u'. parser_fed n u' p \<and> u' @ z = print_lines ls' \<and> partial_line u' ls' \<and> list_all valid_line ls' \<and>
        run_lines os (l # ls) r s = run_lines os ls' r s"
      by blast
    ultimately show ?thesis
      using Cons.prems(5) by (simp add: same_run_def del: run_lines.simps print_lines_simps)
  next
    case False
    have "u = print_line l @ drop (length (print_line l)) u"
      using Cons.prems(3) False by (metis append_eq_append_conv_if append_take_drop_id linorder_not_less print_lines_simps(2))
    then obtain u1 where u: "u = print_line l @ u1" by blast
    then have u1: "u1 @ z = print_lines ls" using Cons.prems(3) by simp
    obtain p1 where p1: "parser_fed n u1 p1" "main_lines os p r s =
        do { (r', s') \<leftarrow> my_execute_command_line os l r s;
             if r_force_exit_code r' \<noteq> - 1 then Some (p1, r', s') else main_lines os p1 r' s' }"
      using main_lines_line [of n l u1 p os r s] Cons.prems u by auto
    show ?thesis
    proof (cases "my_execute_command_line os l r s")
      case None
      then show ?thesis using p1(2) by (simp add: same_run_def)
    next
      case (Some rs)
      obtain r' s' where rs: "rs = (r', s')" by (cases rs)
      show ?thesis
      proof (cases "r_force_exit_code r' = - 1")
        case True
        then have "same_run n z os ls r' s' (main_lines os p1 r' s')"
          using Cons.IH [OF p1(1) Cons.prems(2) u1] Cons.prems(4) by simp
        moreover have "main_lines os p r s = main_lines os p1 r' s'" "run_lines os (l # ls) r s = run_lines os ls r' s'"
          using p1(2) Some rs True by simp_all
        ultimately show ?thesis unfolding same_run_def by metis
      next
        case False
        then show ?thesis using p1(2) Some rs by (simp add: same_run_def)
      qed
    qed
  qed
qed

lemma main_loop_run:
  assumes "parser_fed n u p" "n + length (concat bufs) < 2 ^ 30" "u @ concat bufs = print_lines ls" "partial_line u ls"
    "list_all valid_line ls" "r_force_exit_code r = - 1"
  shows "main_loop os bufs p r s = run_lines os ls r s"
  using assms
proof (induction bufs arbitrary: n u p ls r s)
  case Nil
  then have "ls = []" by (cases ls) (auto simp: partial_line_def)
  then show ?case by simp
next
  case (Cons buf bufs)
  have n: "n + length buf < 2 ^ 30" using Cons.prems(2) by simp
  obtain p1 where p1: "parser_feed buf p = Some p1" "parser_fed (n + length buf) (u @ buf) p1"
    using parser_feed_fed [OF Cons.prems(1) n] by blast
  have same: "same_run (n + length buf) (concat bufs) os ls r s (main_lines os p1 r s)"
    by (rule main_lines_run [OF p1(2) n]) (use Cons.prems in simp_all)
  show ?case
  proof (cases "main_lines os p1 r s")
    case None
    with same p1(1) show ?thesis by (simp add: same_run_def)
  next
    case (Some x)
    obtain p2 r' s' where x: "x = (p2, r', s')" by (cases x)
    show ?thesis
    proof (cases "r_force_exit_code r' = - 1")
      case True
      with same Some x obtain ls' u' where rest: "parser_fed (n + length buf) u' p2" "u' @ concat bufs = print_lines ls'"
        "partial_line u' ls'" "list_all valid_line ls'" "run_lines os ls r s = run_lines os ls' r' s'"
        by (auto simp: same_run_def)
      have "n + length buf + length (concat bufs) < 2 ^ 30" using Cons.prems(2) by simp
      from Cons.IH [OF rest(1) this rest(2,3,4) True] show ?thesis using p1(1) Some x True rest(5) by simp
    next
      case False
      with same Some x p1(1) show ?thesis by (simp add: same_run_def)
    qed
  qed
qed

lemma main_runs_lines:
  assumes "concat bufs = print_lines ls" "list_all valid_line ls" "length (concat bufs) < 2 ^ 30"
  shows "shell_main os bufs s =
    map_option (\<lambda>(r, s'). (exit_code r, s')) (run_lines os ls \<lparr>r_exit_code = - 1, r_force_exit_code = - 1\<rparr> s)"
proof -
  have new: "parser_fed 0 [] parser_new" using parser_wf_new by (simp add: parser_fed_def parser_new_def)
  have "print_line l \<noteq> []" for l by (simp add: print_line_def)
  then have "partial_line [] ls" by (simp add: partial_line_def split: list.splits)
  with main_loop_run [OF new, of bufs ls "\<lparr>r_exit_code = - 1, r_force_exit_code = - 1\<rparr>" os s] assms
  have "main_loop os bufs parser_new \<lparr>r_exit_code = - 1, r_force_exit_code = - 1\<rparr> s
      = run_lines os ls \<lparr>r_exit_code = - 1, r_force_exit_code = - 1\<rparr> s" by simp
  then show ?thesis by (auto simp: shell_main_def split: option.splits bind_splits)
qed

subsection \<open>Properties\<close>

text \<open>C13: The shell on a text of valid lines, quoted as \<open>print_line\<close> does, below \<open>2 ^ 30\<close> characters and cut into
  pieces anywhere: it runs exactly these lines, in order, up to the first that tells it to exit, and
  ends with the exit code made of the last result; it is undefined only if running one of the lines is.\<close>

theorem shell_runs_lines:
  assumes "concat bufs = print_lines ls" "list_all valid_line ls" "length (concat bufs) < 2 ^ 30"
  shows "shell_main os bufs s =
    map_option (\<lambda>(r, s'). (exit_code r, s')) (run_lines os ls \<lparr>r_exit_code = - 1, r_force_exit_code = - 1\<rparr> s)"
  using assms by (rule main_runs_lines)

text \<open>C30: A syntax error kills the shell: when \<^verbatim>\<open>parser_pop_next\<close> answers with an error, \<^verbatim>\<open>main\<close> passes the null line it
  got to \<^verbatim>\<open>command_line_delete\<close>, which dereferences it.\<close>

theorem syntax_error_undefined:
  assumes "parser_wf p" "parser_text p = Some u" "length u \<le> 2 ^ 32 - 2"
    and "parser_pop_next p = Some ((e, line), p')" "e \<noteq> PARSER_ERR_NONE"
  shows "main_lines os p r s = None"
proof -
  obtain l n where l: "pop_spec u = Some (e, l, n)" "map_option view line = l"
    using parser_pop_next_spec [OF assms(1-3)] assms(4) by (auto split: option.splits)
  then have "line = None" using pop_spec_ok [of u] assms(5) by (auto simp: popped_ok_def split: option.splits)
  with assms(4,5) show ?thesis by (subst main_lines.simps) (simp add: command_line_delete_def)
qed

text \<open>\<^verbatim>\<open>exit\<close> loses its argument once a line has been run: if the lines \<open>ls\<close> (at least one) ran without exiting,
  then a following line \<^verbatim>\<open>exit n\<close> (with \<open>n\<close> other than \<open>-1\<close>) ends the shell with the exit code of the last
  of them, whatever \<open>n\<close> is.\<close>

definition exit_line :: "int \<Rightarrow> spec_line" where
  "exit_line n = \<lparr>l_exprs = [EXPR_TYPE_COMMAND ''exit'' [show_int n]], l_out_type = OUTPUT_TYPE_STDOUT, l_out_file = None,
     l_is_background = False\<rparr>"

lemma atoi_show: "- (2 ^ 31) \<le> n \<Longrightarrow> n \<le> INT_MAX \<Longrightarrow> atoi (show_int n) = Some n"
  using scan_show_int [of "- (2 ^ 31)" n INT_MAX "[]"] by (simp add: atoi_def)

lemma exit_line_runs:
  assumes "- (2 ^ 31) \<le> n" "n \<le> INT_MAX" "n \<noteq> - 1"
  shows "my_execute_command_line os (exit_line n) r s = Some (r\<lparr>r_force_exit_code := n\<rparr>, s)"
  using assms atoi_show [OF assms(1,2)]
  by (simp add: my_execute_command_line_def exit_line_def open_pipe_def handle_exit_def forceExit_def waitForChildProcesses_def)

lemma exit_line_valid: "valid_line (exit_line n)"
proof -
  have "digits m \<noteq> []" for m by (subst digits.simps) simp
  then have "show_int n \<noteq> []" by (simp add: show_int_def)
  then show ?thesis by (simp add: valid_line_def exit_line_def exprs_ok_def redirect_ok_def)
qed

lemma wait_status_nonneg: "(\<And>pid c. os_status os pid = Some c \<Longrightarrow> 0 \<le> c) \<Longrightarrow> 0 \<le> d \<Longrightarrow> 0 \<le> wait_status os pids d"
  by (induction pids arbitrary: d) (auto split: option.splits)

lemma exec_loop_result:
  assumes "\<And>pid c. os_status os pid = Some c \<Longrightarrow> 0 \<le> c"
  shows "exec_loop os line r es first prev cur pids s = Some (r', s') \<Longrightarrow> r_force_exit_code r' \<noteq> - 1 \<or> 0 \<le> r_exit_code r'"
proof (induction es arbitrary: first prev cur pids s)
  case Nil
  then show ?case
    using wait_status_nonneg [of os 0 pids] assms by (auto simp: gracefulExit_def waitForChildProcesses_def)
next
  case (Cons e es)
  then show ?case
    by (auto simp: forceExit_def EXIT_FAILURE_def bind_eq_Some_iff split: option.splits if_splits expr.splits)
qed

lemma run_lines_result:
  assumes "\<And>pid c. os_status os pid = Some c \<Longrightarrow> 0 \<le> c"
  shows "run_lines os ls r s = Some (r', s') \<Longrightarrow> ls \<noteq> [] \<Longrightarrow> r_force_exit_code r' \<noteq> - 1 \<or> 0 \<le> r_exit_code r'"
proof (induction ls arbitrary: r s)
  case (Cons l ls)
  then obtain r1 s1 where l: "my_execute_command_line os l r s = Some (r1, s1)" by (auto simp: bind_eq_Some_iff)
  then have "r_force_exit_code r1 \<noteq> - 1 \<or> 0 \<le> r_exit_code r1"
    using exec_loop_result [of os l r "l_exprs l"] assms unfolding my_execute_command_line_def by blast
  with Cons l show ?case by (cases ls) (auto split: if_splits)
qed simp

lemma run_lines_append:
  assumes "run_lines os ls r s = Some (r', s')" "r_force_exit_code r' = - 1"
  shows "run_lines os (ls @ ms) r s = run_lines os ms r' s'"
  using assms by (induction ls arbitrary: r s) (auto simp: bind_eq_Some_iff split: if_splits)

lemma exit_loses_argument:
  assumes "run_lines os ls \<lparr>r_exit_code = - 1, r_force_exit_code = - 1\<rparr> s = Some (r, s')" "r_force_exit_code r = - 1" "ls \<noteq> []"
    and "list_all valid_line ls" "- (2 ^ 31) \<le> n" "n \<le> INT_MAX" "n \<noteq> - 1" "\<forall>pid c. os_status os pid = Some c \<longrightarrow> 0 \<le> c"
    and "concat bufs = print_lines (ls @ [exit_line n])" "length (concat bufs) < 2 ^ 30"
  shows "shell_main os bufs s = Some (r_exit_code r, s')"
proof -
  have "0 \<le> r_exit_code r" using run_lines_result [OF _ assms(1,3)] assms(2,8) by auto
  moreover have "run_lines os (ls @ [exit_line n]) \<lparr>r_exit_code = - 1, r_force_exit_code = - 1\<rparr> s = Some (r\<lparr>r_force_exit_code := n\<rparr>, s')"
    using run_lines_append [OF assms(1,2)] exit_line_runs [OF assms(5-7)] assms(7) by simp
  moreover have "list_all valid_line (ls @ [exit_line n])" using assms(4) exit_line_valid by simp
  ultimately show ?thesis
    using main_runs_lines [OF assms(9) _ assms(10), of os s] by (simp add: exit_code_def)
qed

subsection \<open>Witnesses\<close>

definition demo_cd :: spec_line where
  "demo_cd = \<lparr>l_exprs = [EXPR_TYPE_COMMAND ''cd'' []], l_out_type = OUTPUT_TYPE_STDOUT, l_out_file = None, l_is_background = False\<rparr>"

lemma demo_cd: "valid_line demo_cd"
  "run_lines demo_os [demo_cd] \<lparr>r_exit_code = - 1, r_force_exit_code = - 1\<rparr> demo_shell
     = Some (\<lparr>r_exit_code = 0, r_force_exit_code = - 1\<rparr>, demo_shell\<lparr>s_chdirs := [None]\<rparr>)"
  by (simp_all add: demo_cd_def valid_line_def exprs_ok_def redirect_ok_def my_execute_command_line_def open_pipe_def
      gracefulExit_def waitForChildProcesses_def close_pair_def demo_shell_def)

definition demo_bufs :: "string \<Rightarrow> string list" where
  "demo_bufs t = [take 3 t, drop 3 t]"

lemma demo_bufs: "concat (demo_bufs t) = t"
  by (simp add: demo_bufs_def)

lemma demo_length: "length (print_lines [demo_cd]) < 2 ^ 30" "length (print_lines ([demo_cd] @ [exit_line 7])) < 2 ^ 30"
  by (simp_all add: print_line_def demo_cd_def exit_line_def print_redirect_def print_args_def quote_def escape_def show_int_def
      digits.simps digit_def)

theorem shell_runs_lines_witness:
  "shell_main demo_os (demo_bufs (print_lines [demo_cd])) demo_shell = Some (0, demo_shell\<lparr>s_chdirs := [None]\<rparr>)"
proof -
  have "shell_main demo_os (demo_bufs (print_lines [demo_cd])) demo_shell
      = map_option (\<lambda>(r, s'). (exit_code r, s')) (run_lines demo_os [demo_cd] \<lparr>r_exit_code = - 1, r_force_exit_code = - 1\<rparr> demo_shell)"
    by (rule shell_runs_lines) (simp_all only: demo_bufs demo_length, simp add: demo_cd(1))
  then show ?thesis unfolding demo_cd(2) by (simp add: exit_code_def)
qed

lemma exit_loses_argument_example:
  "shell_main demo_os (demo_bufs (print_lines ([demo_cd] @ [exit_line 7]))) demo_shell = Some (0, demo_shell\<lparr>s_chdirs := [None]\<rparr>)"
proof -
  have status: "\<forall>pid c. os_status demo_os pid = Some c \<longrightarrow> 0 \<le> c" by (simp add: demo_os_def)
  have "shell_main demo_os (demo_bufs (print_lines ([demo_cd] @ [exit_line 7]))) demo_shell
      = Some (r_exit_code \<lparr>r_exit_code = 0, r_force_exit_code = - 1\<rparr>, demo_shell\<lparr>s_chdirs := [None]\<rparr>)"
    by (rule exit_loses_argument [OF demo_cd(2) _ _ _ _ _ _ status demo_bufs])
       (simp_all only: demo_bufs demo_length, simp_all add: demo_cd(1) INT_MAX_def)
  then show ?thesis by simp
qed

theorem syntax_error_undefined_witness:
  "main_lines demo_os (demo_parser [CHR ''|'', NL]) \<lparr>r_exit_code = - 1, r_force_exit_code = - 1\<rparr> demo_shell = None"
proof -
  let ?t = "[CHR ''|'', NL]"
  have p: "parser_wf (demo_parser ?t)" "parser_text (demo_parser ?t) = Some ?t" "length ?t \<le> 2 ^ 32 - 2"
    using demo_parser_ok [of ?t] by simp_all
  have "pop_spec ?t = Some (PARSER_ERR_PIPE_WITH_NO_LEFT_ARG, None, 2)"
    using lex_operator(2) [of "CHR ''|''" NL "[]"]
    by (simp add: pop_spec_def spec_then_def read_line.simps [of ?t] operator_type_def add_word_def add_operator_def
        empty_line_def spec_return_def end_of_line.simps [of "[NL]"] lex_plain)
  from pop_nextE [OF p this] obtain line p' where "parser_pop_next (demo_parser ?t) = Some ((PARSER_ERR_PIPE_WITH_NO_LEFT_ARG, line), p')"
    by metis
  from syntax_error_undefined [OF p this] show ?thesis by simp
qed

end
