(* ===== verification/Rounding.thy ===== *)
theory Rounding
  imports Main
begin

section \<open>Rounding to double\<close>

text \<open>
  An integer rounded to the 53 significant bits of a \<^verbatim>\<open>double\<close>, to nearest with ties to even: the measuring of time in
  \<^verbatim>\<open>hw1/solution.c\<close> and the statistics of \<^verbatim>\<open>bonus/2/main2.c\<close> depend on it. The range of the exponent is not limited.
\<close>

fun bit_length :: "nat \<Rightarrow> nat" where
  "bit_length n = (if n = 0 then 0 else Suc (bit_length (n div 2)))"

declare bit_length.simps [simp del]

definition round_nat :: "nat \<Rightarrow> nat" where
  "round_nat n =
     (let u = 2 ^ (bit_length n - 53); q = n div u; r = n mod u
      in if 2 * r < u \<or> 2 * r = u \<and> even q then q * u else (q + 1) * u)"

definition to_double :: "int \<Rightarrow> int" where
  "to_double x = sgn x * int (round_nat (nat \<bar>x\<bar>))"

lemma bit_length_upper: "n < 2 ^ bit_length n"
proof (induction n rule: bit_length.induct)
  case (1 n)
  show ?case
  proof (cases "n = 0")
    case False
    with 1 have "n div 2 < 2 ^ bit_length (n div 2)" by simp
    then have "n < 2 * 2 ^ bit_length (n div 2)" by linarith
    with False show ?thesis by (subst bit_length.simps) simp
  qed (simp add: bit_length.simps)
qed

lemma bit_length_least: "n < 2 ^ k \<Longrightarrow> bit_length n \<le> k"
proof (induction n arbitrary: k rule: bit_length.induct)
  case (1 n)
  show ?case
  proof (cases "n = 0")
    case False
    with 1(2) obtain k' where k: "k = Suc k'" by (cases k) auto
    then have "n div 2 < 2 ^ k'" using 1(2) by (simp add: less_mult_imp_div_less mult.commute)
    with False 1(1) k show ?thesis by (subst bit_length.simps) simp
  qed (simp add: bit_length.simps)
qed

lemma bit_length_eq: "2 ^ k \<le> n \<Longrightarrow> n < 2 ^ Suc k \<Longrightarrow> bit_length n = Suc k"
proof -
  assume n: "2 ^ k \<le> n" "n < 2 ^ Suc k"
  then have "(2 :: nat) ^ k < 2 ^ bit_length n" using bit_length_upper [of n] by linarith
  then have "k < bit_length n" by simp
  with bit_length_least [OF n(2)] show ?thesis by simp
qed

lemma round_nat_exact: "n < 2 ^ 53 \<Longrightarrow> round_nat n = n"
  using bit_length_least [of n 53] by (simp add: round_nat_def)

lemma round_nat_bound:
  assumes "n < 2 ^ k" "53 \<le> k"
  shows "round_nat n \<le> 2 ^ k"
proof -
  define b where "b = max 53 (bit_length n)"
  define u :: nat where "u = 2 ^ (bit_length n - 53)"
  have "b = 53 + (bit_length n - 53)" by (simp add: b_def)
  then have "(2 :: nat) ^ b = 2 ^ (53 + (bit_length n - 53))" by (rule arg_cong)
  then have pow: "2 ^ b = 2 ^ 53 * u" unfolding u_def power_add .
  have "n < 2 ^ b" using bit_length_upper [of n] by (rule less_le_trans) (simp add: b_def power_increasing)
  also note pow
  finally have "n div u < 2 ^ 53" by (simp add: less_mult_imp_div_less u_def)
  then have "(n div u + 1) * u \<le> 2 ^ 53 * u" by (intro mult_le_mono1) simp
  also have "\<dots> = 2 ^ b" by (rule pow [symmetric])
  also have "\<dots> \<le> 2 ^ k" using assms bit_length_least [of n k] by (intro power_increasing) (auto simp: b_def)
  finally show ?thesis unfolding round_nat_def u_def [symmetric] Let_def by (auto simp: algebra_simps)
qed

lemma to_double_exact: "\<bar>x\<bar> < 2 ^ 53 \<Longrightarrow> to_double x = x"
proof -
  assume "\<bar>x\<bar> < 2 ^ 53"
  then have "nat \<bar>x\<bar> < 2 ^ 53" by (simp add: nat_less_iff)
  then show ?thesis by (simp add: to_double_def round_nat_exact sgn_mult_abs)
qed

lemma to_double_nonneg: "0 \<le> x \<Longrightarrow> x < 2 ^ k \<Longrightarrow> 53 \<le> k \<Longrightarrow> 0 \<le> to_double x \<and> to_double x \<le> 2 ^ k"
proof -
  assume "0 \<le> x" "x < 2 ^ k" "53 \<le> k"
  then have "round_nat (nat x) \<le> 2 ^ k" by (intro round_nat_bound) (auto simp: nat_less_iff)
  then have "int (round_nat (nat x)) \<le> 2 ^ k" by (metis of_nat_le_iff of_nat_numeral of_nat_power)
  with \<open>0 \<le> x\<close> show ?thesis by (cases "x = 0") (simp_all add: to_double_def)
qed

lemma to_double_bound:
  assumes "\<bar>x\<bar> < 2 ^ k" "53 \<le> k"
  shows "\<bar>to_double x\<bar> \<le> 2 ^ k"
proof -
  have "nat \<bar>x\<bar> < 2 ^ k" using assms(1) by (simp add: nat_less_iff)
  then have "int (round_nat (nat \<bar>x\<bar>)) \<le> 2 ^ k" using round_nat_bound [OF _ assms(2)] by (metis of_nat_le_iff of_nat_numeral of_nat_power)
  then show ?thesis by (simp add: to_double_def abs_mult abs_sgn_eq)
qed

text \<open>Rounding is monotone: within a power of two the unit is the same, and no power of two is crossed.\<close>

definition unit_of :: "nat \<Rightarrow> nat" where
  "unit_of n = 2 ^ (bit_length n - 53)"

lemma round_nat_unit:
  "round_nat n = (if 2 * (n mod unit_of n) < unit_of n \<or> 2 * (n mod unit_of n) = unit_of n \<and> even (n div unit_of n)
     then n div unit_of n else n div unit_of n + 1) * unit_of n"
  by (simp add: round_nat_def unit_of_def Let_def)

lemma round_nat_multiple: "unit_of n dvd n \<Longrightarrow> round_nat n = n"
  by (simp add: round_nat_unit unit_of_def)

lemma round_nat_same_unit:
  assumes "m \<le> n" "unit_of m = unit_of n"
  shows "round_nat m \<le> round_nat n"
proof (cases "m div unit_of n = n div unit_of n")
  case True
  then have "m mod unit_of n \<le> n mod unit_of n"
    using assms(1) div_mult_mod_eq [of m "unit_of n"] div_mult_mod_eq [of n "unit_of n"]
    by (metis add_le_cancel_left)
  then show ?thesis unfolding round_nat_unit assms(2) True by (intro mult_le_mono1) auto
next
  case False
  then have "m div unit_of n + 1 \<le> n div unit_of n" using div_le_mono [OF assms(1), of "unit_of n"] by simp
  then show ?thesis unfolding round_nat_unit assms(2) by (intro mult_le_mono1) auto
qed

lemma round_nat_lower:
  assumes "53 < bit_length n"
  shows "2 ^ (bit_length n - 1) \<le> round_nat n"
proof -
  have "bit_length n - 1 = (bit_length n - 53) + 52" using assms by simp
  then have pow: "(2 :: nat) ^ (bit_length n - 1) = 2 ^ 52 * unit_of n"
    unfolding unit_of_def by (metis mult.commute power_add)
  have "\<not> n < 2 ^ (bit_length n - 1)" using bit_length_least [of n "bit_length n - 1"] assms by linarith
  then have "2 ^ 52 * unit_of n \<le> n" by (simp only: pow not_less)
  then have "2 ^ 52 \<le> n div unit_of n" using div_le_mono [of "2 ^ 52 * unit_of n" n "unit_of n"] by (simp add: unit_of_def)
  then show ?thesis unfolding pow round_nat_unit by (intro mult_le_mono1) auto
qed

lemma round_nat_mono:
  assumes "m \<le> n"
  shows "round_nat m \<le> round_nat n"
proof (cases "bit_length m < bit_length n \<and> 53 < bit_length n")
  case True
  then have "(2 :: nat) ^ bit_length m \<le> 2 ^ (bit_length n - 1)" by (intro power_increasing) auto
  with bit_length_upper [of m] have "m < 2 ^ (bit_length n - 1)" by (rule less_le_trans)
  then have "round_nat m \<le> 2 ^ (bit_length n - 1)" using True by (intro round_nat_bound) auto
  also have "\<dots> \<le> round_nat n" using True by (intro round_nat_lower) simp
  finally show ?thesis .
next
  case False
  have "bit_length m \<le> bit_length n" using assms bit_length_upper [of n] by (intro bit_length_least) simp
  with False have "unit_of m = unit_of n" unfolding unit_of_def by (cases "bit_length m = bit_length n") auto
  with assms show ?thesis by (rule round_nat_same_unit)
qed

lemma to_double_mono: "0 \<le> x \<Longrightarrow> x \<le> y \<Longrightarrow> to_double x \<le> to_double y"
proof -
  assume xy: "0 \<le> x" "x \<le> y"
  then have "round_nat (nat x) \<le> round_nat (nat y)" by (intro round_nat_mono) simp
  with xy show ?thesis by (cases "x = 0"; cases "y = 0") (simp_all add: to_double_def)
qed

text \<open>A product with a power of two is exact as long as the other factor has 53 bits.\<close>

lemma round_nat_shift:
  assumes "n < 2 ^ 53"
  shows "round_nat (n * 2 ^ k) = n * 2 ^ k"
proof (rule round_nat_multiple)
  have "n * 2 ^ k < 2 ^ (53 + k)" using assms by (simp add: power_add)
  then have "bit_length (n * 2 ^ k) \<le> 53 + k" by (rule bit_length_least)
  then have "unit_of (n * 2 ^ k) dvd 2 ^ k" by (simp add: unit_of_def le_imp_power_dvd)
  then show "unit_of (n * 2 ^ k) dvd n * 2 ^ k" by (rule dvd_mult)
qed

lemma to_double_shift:
  assumes "0 \<le> x" "x < 2 ^ 53"
  shows "to_double (x * 2 ^ k) = x * 2 ^ k"
proof -
  have "round_nat (nat x * 2 ^ k) = nat x * 2 ^ k" using assms by (intro round_nat_shift) (simp add: nat_less_iff)
  with assms(1) show ?thesis by (cases "x = 0") (simp_all add: to_double_def nat_mult_distrib nat_power_eq)
qed

end
