(* ===== verification/Coro_Prog.thy ===== *)
theory Coro_Prog
  imports Prelude
begin

section \<open>Coroutine bodies\<close>

text \<open>
  What a coroutine of \<^verbatim>\<open>hw1\<close> executes, as a value: a program that acts on the memory \<open>'g\<close> shared by all
  coroutines, gives up the processor (\<^verbatim>\<open>coro_yield\<close>), or returns. The saved context of a coroutine
  (\<^verbatim>\<open>sigsetjmp\<close>) is the rest of its program. An action that is undefined gives \<^const>\<open>None\<close>.
  \<open>run_segment\<close> runs a program up to its next yield or its end; \<open>wp\<close> is its weakest precondition,
  where other coroutines may change the memory at every yield as the relation \<open>rely\<close> allows.
\<close>

datatype ('g, 'a) prog =
    Return 'a
  | Act "'g \<Rightarrow> ('g \<times> ('g, 'a) prog) option"
  | Yield "('g, 'a) prog"

primrec pbind :: "('g, 'a) prog \<Rightarrow> ('a \<Rightarrow> ('g, 'b) prog) \<Rightarrow> ('g, 'b) prog" where
  "pbind (Return x) k = k x"
| "pbind (Act f) k = Act (\<lambda>g. map_option (map_prod id (\<lambda>p. pbind p k)) (f g))"
| "pbind (Yield p) k = Yield (pbind p k)"

text \<open>Reading and writing the memory.\<close>

definition get :: "('g \<Rightarrow> 'a option) \<Rightarrow> ('g, 'a) prog" where
  "get f = Act (\<lambda>g. map_option (\<lambda>x. (g, Return x)) (f g))"

definition modify :: "('g \<Rightarrow> 'g option) \<Rightarrow> ('g, unit) prog" where
  "modify f = Act (\<lambda>g. map_option (\<lambda>g'. (g', Return ())) (f g))"

definition state :: "('g \<Rightarrow> ('a \<times> 'g) option) \<Rightarrow> ('g, 'a) prog" where
  "state f = Act (\<lambda>g. map_option (\<lambda>(x, g'). (g', Return x)) (f g))"

definition switch :: "('g, unit) prog" where
  "switch = Yield (Return ())"

definition undefined_behaviour :: "('g, 'a) prog" where
  "undefined_behaviour = Act (\<lambda>_. None)"

datatype ('g, 'a) outcome =
    Finished 'a 'g
  | Paused "('g, 'a) prog" 'g

primrec run_segment :: "('g, 'a) prog \<Rightarrow> 'g \<Rightarrow> ('g, 'a) outcome option" where
  "run_segment (Return x) = (\<lambda>g. Some (Finished x g))"
| "run_segment (Act f) = (\<lambda>g. case map_option (map_prod id run_segment) (f g) of
     None \<Rightarrow> None | Some (g', k) \<Rightarrow> k g')"
| "run_segment (Yield p) = (\<lambda>g. Some (Paused p g))"

lemma run_segment_Act: "run_segment (Act f) g = (case f g of None \<Rightarrow> None | Some (g', p) \<Rightarrow> run_segment p g')"
  by (simp split: option.splits)

subsection \<open>Every body ends after finitely many segments\<close>

inductive later :: "('g, 'a) prog \<Rightarrow> ('g, 'a) prog \<Rightarrow> bool" where
  later_act: "f g = Some (g', p) \<Longrightarrow> later p (Act f)"
| later_yield: "later p (Yield p)"

inductive_cases later_ReturnE: "later p (Return x)"
inductive_cases later_ActE: "later p (Act f)"
inductive_cases later_YieldE: "later p (Yield q)"

lemma wfp_later: "wfp (later :: ('g, 'a) prog \<Rightarrow> ('g, 'a) prog \<Rightarrow> bool)"
proof (rule accp_wfpI, rule allI)
  fix p :: "('g, 'a) prog"
  show "Wellfounded.accp later p"
  proof (induction p)
    case (Return x)
    then show ?case by (auto intro: accpI elim: later_ReturnE)
  next
    case (Act f)
    show ?case
    proof (rule accpI)
      fix q assume "later q (Act f)"
      then obtain g g' where f: "f g = Some (g', q)" by (rule later_ActE)
      have "f g \<in> range f" by simp
      from Act.IH [OF this, of "(g', q)" q] f show "Wellfounded.accp later q" by (simp add: snds.intros)
    qed
  next
    case (Yield p)
    then show ?case by (auto intro: accpI elim: later_YieldE)
  qed
qed

lemma run_segment_later:
  "run_segment p g = Some (Paused p' g') \<Longrightarrow> later\<^sup>+\<^sup>+ p' p"
proof (induction p arbitrary: g)
  case (Return x)
  then show ?case by simp
next
  case (Act f)
  from Act.prems obtain g1 q where q: "f g = Some (g1, q)" "run_segment q g1 = Some (Paused p' g')"
    unfolding run_segment_Act by (auto split: option.splits)
  have "f g \<in> range f" by simp
  from Act.IH [OF this, of "(g1, q)" q] q have "later\<^sup>+\<^sup>+ p' q" by (simp add: snds.intros)
  moreover have "later q (Act f)" using q(1) by (rule later_act)
  ultimately show ?case by (rule tranclp.trancl_into_trancl)
next
  case (Yield p)
  then show ?case by (auto intro: later_yield)
qed

subsection \<open>Weakest preconditions\<close>

primrec wp :: "('g \<Rightarrow> 'g \<Rightarrow> bool) \<Rightarrow> ('g \<Rightarrow> 'g \<Rightarrow> bool) \<Rightarrow> ('g, 'a) prog \<Rightarrow> ('a \<Rightarrow> 'g \<Rightarrow> bool) \<Rightarrow> 'g \<Rightarrow> bool" where
  "wp R G (Return x) = (\<lambda>Q g. Q x g)"
| "wp R G (Act f) = (\<lambda>Q g. case map_option (map_prod id (wp R G)) (f g) of
     None \<Rightarrow> False | Some (g', w) \<Rightarrow> G g g' \<and> w Q g')"
| "wp R G (Yield p) = (\<lambda>Q g. \<forall>g'. R g g' \<longrightarrow> wp R G p Q g')"

lemma wp_Act: "wp R G (Act f) Q g \<longleftrightarrow> (\<exists>g' p. f g = Some (g', p) \<and> G g g' \<and> wp R G p Q g')"
  by (auto split: option.splits)

declare wp.simps(2) [simp del] run_segment.simps(2) [simp del]

lemma wp_mono: "wp R G p Q g \<Longrightarrow> (\<And>x g. Q x g \<Longrightarrow> Q' x g) \<Longrightarrow> wp R G p Q' g"
proof (induction p arbitrary: g)
  case (Act f)
  from Act.prems(1) obtain g' p where p: "f g = Some (g', p)" "G g g'" "wp R G p Q g'" by (auto simp: wp_Act)
  have "f g \<in> range f" by simp
  from Act.IH [OF this, of "(g', p)" p g'] p Act.prems(2) have "wp R G p Q' g'" by (simp add: snds.intros)
  with p show ?case by (auto simp: wp_Act)
qed auto

lemma wp_bind: "wp R G (pbind p k) Q g \<longleftrightarrow> wp R G p (\<lambda>x. wp R G (k x) Q) g"
proof (induction p arbitrary: g)
  case (Act f)
  show ?case
  proof (cases "f g")
    case None
    then show ?thesis by (simp add: wp_Act)
  next
    case (Some x)
    then obtain g' p where p: "f g = Some (g', p)" by (cases x) auto
    have "f g \<in> range f" by simp
    from Act.IH [OF this, of "(g', p)" p g'] p show ?thesis by (simp add: wp_Act snds.intros)
  qed
qed simp_all

lemma wp_pbind: "wp R G (pbind p k) Q = wp R G p (\<lambda>x. wp R G (k x) Q)"
  by (rule ext) (rule wp_bind)

lemma wp_get: "wp R G (get f) Q g \<longleftrightarrow> (\<exists>x. f g = Some x \<and> G g g \<and> Q x g)"
  by (auto simp: get_def wp_Act)

lemma wp_modify: "wp R G (modify f) Q g \<longleftrightarrow> (\<exists>g'. f g = Some g' \<and> G g g' \<and> Q () g')"
  by (auto simp: modify_def wp_Act)

lemma wp_state: "wp R G (state f) Q g \<longleftrightarrow> (\<exists>x g'. f g = Some (x, g') \<and> G g g' \<and> Q x g')"
  by (auto simp: state_def wp_Act)

lemma wp_switch: "wp R G switch Q g \<longleftrightarrow> (\<forall>g'. R g g' \<longrightarrow> Q () g')"
  by (simp add: switch_def)

text \<open>A preorder that contains \<open>R\<close> and \<open>G\<close> relates the memory before a program to the one after it.\<close>

lemma wp_moves:
  assumes "wp R G p Q g" and M: "\<And>a. M a a" "\<And>a b c. M a b \<Longrightarrow> M b c \<Longrightarrow> M a c" "\<And>a b. R a b \<Longrightarrow> M a b" "\<And>a b. G a b \<Longrightarrow> M a b"
  shows "wp R G p (\<lambda>x g'. Q x g' \<and> M g g') g"
proof -
  have "wp R G p (\<lambda>x g'. Q x g' \<and> M g0 g') g" if "M g0 g" for g0
    using assms(1) that
  proof (induction p arbitrary: g)
    case (Act f)
    from Act.prems(1) obtain g' p where p: "f g = Some (g', p)" "G g g'" "wp R G p Q g'" by (auto simp: wp_Act)
    have "M g0 g'" using Act.prems(2) M(4) [OF p(2)] by (rule M(2))
    have "f g \<in> range f" by simp
    from Act.IH [OF this, of "(g', p)" p g'] p \<open>M g0 g'\<close> have "wp R G p (\<lambda>x g'. Q x g' \<and> M g0 g') g'"
      by (simp add: snds.intros)
    with p show ?case by (auto simp: wp_Act)
  next
    case (Yield p)
    have "wp R G p (\<lambda>x g'. Q x g' \<and> M g0 g') g'" if "R g g'" for g'
    proof (rule Yield.IH)
      show "wp R G p Q g'" using Yield.prems(1) that by simp
      show "M g0 g'" using Yield.prems(2) M(3) [OF that] by (rule M(2))
    qed
    then show ?case by simp
  qed simp
  with M(1) show ?thesis by blast
qed

text \<open>A program whose precondition holds runs to its next stop, within its guarantee.\<close>

lemma wp_segment:
  assumes "wp R G p Q g" and G: "\<And>g. G g g" "\<And>a b c. G a b \<Longrightarrow> G b c \<Longrightarrow> G a c"
  shows "(\<exists>x g'. run_segment p g = Some (Finished x g') \<and> G g g' \<and> Q x g') \<or>
     (\<exists>p' g'. run_segment p g = Some (Paused p' g') \<and> G g g' \<and> (\<forall>g1. R g' g1 \<longrightarrow> wp R G p' Q g1))"
  using assms(1)
proof (induction p arbitrary: g)
  case (Return x)
  with G(1) show ?case by simp
next
  case (Act f)
  then obtain g1 p where p: "f g = Some (g1, p)" "G g g1" "wp R G p Q g1" by (auto simp: wp_Act)
  have "f g \<in> range f" by simp
  from Act.IH [OF this, of "(g1, p)" p g1] p(1,3)
  have "(\<exists>x g'. run_segment p g1 = Some (Finished x g') \<and> G g1 g' \<and> Q x g') \<or>
     (\<exists>p' g'. run_segment p g1 = Some (Paused p' g') \<and> G g1 g' \<and> (\<forall>g2. R g' g2 \<longrightarrow> wp R G p' Q g2))"
    by (simp add: snds.intros)
  with G(2) [OF p(2)] p(1) show ?case by (auto simp: run_segment_Act)
next
  case (Yield p)
  with G(1) show ?case by auto
qed

end
