(* ===== verification/Linked_List.thy ===== *)
theory Linked_List
  imports Prelude
begin

section \<open>Doubly linked lists in the heap\<close>

text \<open>
  The list of coroutines of \<^verbatim>\<open>hw1/libcoro.c\<close> (\<^verbatim>\<open>coro_list_add\<close>, \<^verbatim>\<open>coro_list_delete\<close>) and the list of
  files of \<^verbatim>\<open>hw3/userfs.c\<close> (the prepending of \<^verbatim>\<open>ufs_open\<close>, \<^verbatim>\<open>_ufs_unlink_file\<close>) are the same structure: a
  head pointer and nodes with \<^verbatim>\<open>next\<close> and \<^verbatim>\<open>prev\<close>. Here a node is an address of a heap that holds
  the two links; the lemmas relate the pointer operations to the list of addresses. Dereferencing
  what is not allocated has no result.
\<close>

subsection \<open>Nodes and segments\<close>

record node =
  n_next :: "nat option"
  n_prev :: "nat option"

type_synonym links = "nat \<Rightarrow> node option"

definition set_next :: "nat \<Rightarrow> nat option \<Rightarrow> links \<Rightarrow> links option" where
  "set_next a v h = (case h a of None \<Rightarrow> None | Some n \<Rightarrow> Some (h(a \<mapsto> n\<lparr>n_next := v\<rparr>)))"

definition set_prev :: "nat \<Rightarrow> nat option \<Rightarrow> links \<Rightarrow> links option" where
  "set_prev a v h = (case h a of None \<Rightarrow> None | Some n \<Rightarrow> Some (h(a \<mapsto> n\<lparr>n_prev := v\<rparr>)))"

text \<open>From the pointer \<open>s\<close>, with \<open>p\<close> before it, the addresses \<open>xs\<close> are linked both ways; \<open>e\<close> follows the
  last of them, which is \<open>l\<close>.\<close>

fun segment :: "links \<Rightarrow> nat option \<Rightarrow> nat option \<Rightarrow> nat list \<Rightarrow> nat option \<Rightarrow> nat option \<Rightarrow> bool" where
  "segment h p s [] e l \<longleftrightarrow> s = e \<and> l = p"
| "segment h p s (x # xs) e l \<longleftrightarrow> s = Some x \<and>
     (\<exists>n. h x = Some n \<and> n_prev n = p \<and> segment h (Some x) (n_next n) xs e l)"

definition linked :: "links \<Rightarrow> nat option \<Rightarrow> nat list \<Rightarrow> bool" where
  "linked h head xs \<longleftrightarrow> distinct xs \<and> (\<exists>l. segment h None head xs None l)"

lemma segment_append:
  "segment h p s (xs @ ys) e l \<longleftrightarrow> (\<exists>m k. segment h p s xs m k \<and> segment h k m ys e l)"
  by (induction xs arbitrary: p s) auto

lemma segment_frame: "x \<notin> set xs \<Longrightarrow> segment (h(x := v)) p s xs e l = segment h p s xs e l"
  by (induction xs arbitrary: p s) auto

lemma segment_last: "segment h p s xs e l \<Longrightarrow> xs \<noteq> [] \<Longrightarrow> l = Some (last xs)"
  by (induction xs arbitrary: p s) auto

lemma segment_first: "segment h p s xs e l \<Longrightarrow> s = (if xs = [] then e else Some (hd xs))"
  by (cases xs) auto

lemma segment_alloc: "segment h p s xs e l \<Longrightarrow> x \<in> set xs \<Longrightarrow> h x \<noteq> None"
  by (induction xs arbitrary: p s) auto

lemma linked_head: "linked h head xs \<Longrightarrow> head = (if xs = [] then None else Some (hd xs))"
  unfolding linked_def by (auto dest: segment_first)

lemma linked_Nil: "linked h head [] \<longleftrightarrow> head = None"
  by (simp add: linked_def)

lemma linked_next:
  assumes "linked h head (us @ x # vs)"
  shows "\<exists>n. h x = Some n \<and> n_next n = (if vs = [] then None else Some (hd vs)) \<and>
     n_prev n = (if us = [] then None else Some (last us))"
proof -
  from assms obtain l m k where "segment h None head us m k" "segment h k m (x # vs) None l"
    unfolding linked_def segment_append by blast
  moreover from this obtain n where "h x = Some n" "n_prev n = k" "segment h (Some x) (n_next n) vs None l"
    by auto
  ultimately show ?thesis
    using segment_last [of h None head us m k] segment_first [of h "Some x" "n_next n" vs None l]
    by (cases "us = []") auto
qed

subsection \<open>Adding in front\<close>

definition list_add :: "nat \<Rightarrow> links \<times> nat option \<Rightarrow> (links \<times> nat option) option" where
  "list_add c = (\<lambda>(h, head).
     do { h1 \<leftarrow> set_next c head h;
          h2 \<leftarrow> set_prev c None h1;
          h3 \<leftarrow> (case head of None \<Rightarrow> Some h2 | Some a \<Rightarrow> set_prev a (Some c) h2);
          Some (h3, Some c) })"

lemma segment_new_prev:
  assumes "segment h p (Some x) (x # xs) e l" "distinct (x # xs)" "h x = Some n"
  shows "segment (h(x \<mapsto> n\<lparr>n_prev := q\<rparr>)) q (Some x) (x # xs) e l"
  using assms by (auto simp: segment_frame)

lemma list_add_linked:
  assumes "linked h head xs" "h c = Some n" "c \<notin> set xs"
  shows "\<exists>h'. list_add c (h, head) = Some (h', Some c) \<and> linked h' (Some c) (c # xs) \<and>
     (\<forall>a. a \<notin> set (c # xs) \<longrightarrow> h' a = h a) \<and> (\<forall>a. h' a = None \<longleftrightarrow> h a = None)"
proof (cases xs)
  case Nil
  with assms show ?thesis
    by (auto simp: linked_Nil list_add_def set_next_def set_prev_def) (simp add: linked_def)
next
  case (Cons x ys)
  then obtain l where l: "segment h None head (x # ys) None l" "distinct (x # ys)" "head = Some x"
    using assms(1) by (auto simp: linked_def)
  then obtain m where m: "h x = Some m" by auto
  define h1 where "h1 = h(c \<mapsto> n\<lparr>n_next := Some x, n_prev := None\<rparr>)"
  have cx: "c \<noteq> x" "c \<notin> set ys" using assms(3) Cons by auto
  have "segment h1 None (Some x) (x # ys) None l"
    using l(1,3) assms(3) Cons by (simp add: h1_def segment_frame)
  from segment_new_prev [OF this l(2), of m "Some c"] m cx
  have "segment (h1(x \<mapsto> m\<lparr>n_prev := Some c\<rparr>)) (Some c) (Some x) (x # ys) None l" by (simp add: h1_def)
  then have "linked (h1(x \<mapsto> m\<lparr>n_prev := Some c\<rparr>)) (Some c) (c # xs)"
    using l(2) cx Cons by (auto simp: linked_def h1_def)
  moreover have "list_add c (h, head) = Some (h1(x \<mapsto> m\<lparr>n_prev := Some c\<rparr>), Some c)"
    using assms(2) m l(3) cx by (simp add: list_add_def set_next_def set_prev_def h1_def)
  ultimately show ?thesis using Cons assms(2) m by (auto simp: h1_def)
qed

subsection \<open>Removing\<close>

text \<open>The two removals of the sources differ in the test for the head: \<^verbatim>\<open>coro_list_delete\<close> asks whether there is
  a previous node, \<^verbatim>\<open>_ufs_unlink_file\<close> whether the node is the head.\<close>

definition relink :: "nat option \<Rightarrow> nat option \<Rightarrow> links \<Rightarrow> links option" where
  "relink prv nxt h =
     do { h1 \<leftarrow> (case prv of None \<Rightarrow> Some h | Some p \<Rightarrow> set_next p nxt h);
          (case nxt of None \<Rightarrow> Some h1 | Some x \<Rightarrow> set_prev x prv h1) }"

definition list_delete :: "nat \<Rightarrow> links \<times> nat option \<Rightarrow> (links \<times> nat option) option" where
  "list_delete c = (\<lambda>(h, head).
     do { n \<leftarrow> h c;
          h' \<leftarrow> relink (n_prev n) (n_next n) h;
          Some (h', if n_prev n = None then n_next n else head) })"

definition list_unlink :: "nat \<Rightarrow> links \<times> nat option \<Rightarrow> (links \<times> nat option) option" where
  "list_unlink c = (\<lambda>(h, head).
     do { n \<leftarrow> h c;
          h' \<leftarrow> relink (n_prev n) (n_next n) h;
          Some (h', if head = Some c then n_next n else head) })"

lemma segment_new_end:
  assumes "segment h p s (xs @ [x]) e l" "distinct (xs @ [x])" "h x = Some n"
  shows "segment (h(x \<mapsto> n\<lparr>n_next := q\<rparr>)) p s (xs @ [x]) q l"
  using assms by (auto simp: segment_append segment_frame)

lemma list_delete_linked:
  assumes "linked h head (us @ c # vs)"
  shows "\<exists>h' head'. list_delete c (h, head) = Some (h', head') \<and> list_unlink c (h, head) = Some (h', head') \<and>
     linked h' head' (us @ vs) \<and> (\<forall>a. a \<notin> set (us @ vs) \<longrightarrow> h' a = h a) \<and> (\<forall>a. h' a = None \<longleftrightarrow> h a = None)"
proof -
  from assms obtain l m k where seg: "segment h None head us m k" "segment h k m (c # vs) None l"
    and dist: "distinct (us @ c # vs)"
    unfolding linked_def segment_append by blast
  then obtain n where n: "h c = Some n" "n_prev n = k" "segment h (Some c) (n_next n) vs None l" "m = Some c" by auto
  define nxt where "nxt = n_next n"
  have front: "(us = [] \<longrightarrow> k = None \<and> head = Some c) \<and> (us \<noteq> [] \<longrightarrow> k = Some (last us) \<and> head = Some (hd us))"
    using seg(1) n(4) segment_last [OF seg(1)] segment_first [OF seg(1)] by auto
  have "\<exists>h1. (case k of None \<Rightarrow> Some h | Some p \<Rightarrow> set_next p nxt h) = Some h1 \<and>
      segment h1 None (if k = None then nxt else head) us nxt k \<and> segment h1 (Some c) nxt vs None l \<and>
      (\<forall>a. a \<notin> set us \<longrightarrow> h1 a = h a) \<and> (\<forall>a. h1 a = None \<longleftrightarrow> h a = None)"
  proof (cases us rule: rev_cases)
    case Nil
    with front n(3) show ?thesis by (simp add: nxt_def)
  next
    case (snoc us' x)
    with front have k: "k = Some x" by simp
    obtain nx where nx: "h x = Some nx" using segment_alloc [OF seg(1)] snoc by fastforce
    have "segment (h(x \<mapsto> nx\<lparr>n_next := nxt\<rparr>)) None head us nxt k"
      using segment_new_end [OF seg(1) [unfolded snoc] _ nx, of nxt] dist snoc by simp
    moreover have "segment (h(x \<mapsto> nx\<lparr>n_next := nxt\<rparr>)) (Some c) nxt vs None l"
      using n(3) dist snoc by (subst segment_frame) (auto simp: nxt_def)
    ultimately show ?thesis using k nx snoc by (auto simp: set_next_def)
  qed
  then obtain h1 where h1: "(case k of None \<Rightarrow> Some h | Some p \<Rightarrow> set_next p nxt h) = Some h1"
    "segment h1 None (if k = None then nxt else head) us nxt k" "segment h1 (Some c) nxt vs None l"
    "\<forall>a. a \<notin> set us \<longrightarrow> h1 a = h a" "\<forall>a. h1 a = None \<longleftrightarrow> h a = None" by blast
  have "\<exists>h2 l'. (case nxt of None \<Rightarrow> Some h1 | Some x \<Rightarrow> set_prev x k h1) = Some h2 \<and>
      segment h2 None (if k = None then nxt else head) us nxt k \<and> segment h2 k nxt vs None l' \<and>
      (\<forall>a. a \<notin> set (us @ vs) \<longrightarrow> h2 a = h a) \<and> (\<forall>a. h2 a = None \<longleftrightarrow> h a = None)"
  proof (cases vs)
    case Nil
    with h1 show ?thesis by auto
  next
    case (Cons y ys)
    with h1(3) obtain ny where ny: "nxt = Some y" "h1 y = Some ny" by auto
    have "segment (h1(y \<mapsto> ny\<lparr>n_prev := k\<rparr>)) None (if k = None then nxt else head) us nxt k"
      using h1(2) dist Cons by (subst segment_frame) auto
    moreover have "segment (h1(y \<mapsto> ny\<lparr>n_prev := k\<rparr>)) k nxt vs None l"
      using segment_new_prev [of h1 "Some c" y ys None l ny k] h1(3) dist Cons ny by simp
    moreover have "h y \<noteq> None" using h1(5) ny(2) by (metis option.distinct(1))
    ultimately show ?thesis using ny Cons h1(4,5) by (auto simp: set_prev_def)
  qed
  then obtain h2 l' where h2: "(case nxt of None \<Rightarrow> Some h1 | Some x \<Rightarrow> set_prev x k h1) = Some h2"
    "segment h2 None (if k = None then nxt else head) us nxt k" "segment h2 k nxt vs None l'"
    "\<forall>a. a \<notin> set (us @ vs) \<longrightarrow> h2 a = h a" "\<forall>a. h2 a = None \<longleftrightarrow> h a = None" by blast
  have "relink k nxt h = Some h2" using h1(1) h2(1) by (simp add: relink_def)
  moreover have "(if head = Some c then nxt else head) = (if k = None then nxt else head)"
    using front dist by (cases "us = []") auto
  moreover have "linked h2 (if k = None then nxt else head) (us @ vs)"
    using h2(2,3) dist unfolding linked_def segment_append by auto
  ultimately show ?thesis
    using n h2(4,5) by (auto simp: list_delete_def list_unlink_def nxt_def)
qed

subsection \<open>Removal of a node\<close>

text \<open>C40: Removing a node of a list, as \<^verbatim>\<open>coro_list_delete\<close> does and as \<^verbatim>\<open>_ufs_unlink_file\<close> does, is always defined
  and leaves the list of the other nodes, in their order, linked in both directions.\<close>

theorem list_removal:
  assumes "linked h head xs" "c \<in> set xs"
  shows "\<exists>h' head'. list_delete c (h, head) = Some (h', head') \<and> list_unlink c (h, head) = Some (h', head') \<and>
    linked h' head' (remove1 c xs)"
proof -
  from assms(2) obtain us vs where xs: "xs = us @ c # vs" by (blast dest: split_list)
  then have "c \<notin> set us" using assms(1) by (auto simp: linked_def)
  then have "remove1 c xs = us @ vs" using xs by (simp add: remove1_append)
  with list_delete_linked [of h head us c vs] assms(1) xs show ?thesis by auto
qed

theorem list_removal_witness:
  "\<exists>h' head'. list_delete 1 ([2 \<mapsto> \<lparr>n_next = Some 1, n_prev = None\<rparr>, 1 \<mapsto> \<lparr>n_next = None, n_prev = Some 2\<rparr>], Some 2) =
     Some (h', head') \<and> linked h' head' [2]"
  using list_removal [of "[2 \<mapsto> \<lparr>n_next = Some 1, n_prev = None\<rparr>, 1 \<mapsto> \<lparr>n_next = None, n_prev = Some 2\<rparr>]" "Some 2" "[2, 1]" 1]
  by (auto simp: linked_def)

end
