(* ===== verification/Libcoro.thy ===== *)
theory Libcoro
  imports Coro_Prog Linked_List
begin

section \<open>The coroutine scheduler\<close>

text \<open>
  \<^verbatim>\<open>hw1/libcoro.c\<close>: the static variables are the record \<open>sched\<close>, a \<^verbatim>\<open>struct coro\<close> is split into
  its data (\<open>s_coros\<close>) and its links (\<open>s_links\<close>, theory \<open>Linked_List\<close>). The jumps between stacks are
  modelled by what they do: a coroutine's context is the program it continues with, and switching to
  a coroutine runs that program to its next \<^verbatim>\<open>coro_yield\<close> or its end, on the memory \<^verbatim>\<open>s_glob\<close>. Resuming a
  coroutine that is freed or has finished is undefined, and so is the exit with a critical error;
  both have no result. Loops over the list of coroutines may not end in a corrupted state, so
  they are partial functions; the theorems say when they return.
\<close>

subsection \<open>State\<close>

record 'g coro =
  c_ret :: int
  c_ctx :: "('g, int) prog"
  c_is_finished :: bool
  c_switch_count :: int

datatype this = No_coro | Sched | Coro nat

record 'g sched =
  s_coros :: "nat \<Rightarrow> 'g coro option"
  s_links :: links
  s_list :: "nat option"
  s_next :: nat
  s_this :: this
  s_waiting :: bool
  s_switch_count :: int
  s_glob :: 'g

definition coro_status :: "nat \<Rightarrow> 'g sched \<Rightarrow> int option" where
  "coro_status c s = map_option c_ret (s_coros s c)"

definition coro_switch_count :: "nat \<Rightarrow> 'g sched \<Rightarrow> int option" where
  "coro_switch_count c s = map_option c_switch_count (s_coros s c)"

definition coro_is_finished :: "nat \<Rightarrow> 'g sched \<Rightarrow> bool option" where
  "coro_is_finished c s = map_option c_is_finished (s_coros s c)"

definition coro_this :: "'g sched \<Rightarrow> this" where
  "coro_this s = s_this s"

subsection \<open>Operations\<close>

definition coro_sched_init :: "'g sched \<Rightarrow> 'g sched" where
  "coro_sched_init s = s\<lparr>s_switch_count := 0, s_this := Sched\<rparr>"

definition coro_list_add :: "nat \<Rightarrow> 'g sched \<Rightarrow> 'g sched option" where
  "coro_list_add c s =
     do { (h, head) \<leftarrow> list_add c (s_links s, s_list s); Some (s\<lparr>s_links := h, s_list := head\<rparr>) }"

definition coro_list_delete :: "nat \<Rightarrow> 'g sched \<Rightarrow> 'g sched option" where
  "coro_list_delete c s =
     do { (h, head) \<leftarrow> list_delete c (s_links s, s_list s); Some (s\<lparr>s_links := h, s_list := head\<rparr>) }"

definition coro_delete :: "nat \<Rightarrow> 'g sched \<Rightarrow> 'g sched option" where
  "coro_delete c s =
     (if s_coros s c = None then None
      else Some (s\<lparr>s_coros := (s_coros s)(c := None), s_links := (s_links s)(c := None)\<rparr>))"

text \<open>The signal handler only stores the context; \<^verbatim>\<open>coro_this_ptr\<close> is restored.\<close>

definition coro_new :: "('g, int) prog \<Rightarrow> 'g sched \<Rightarrow> (nat \<times> 'g sched) option" where
  "coro_new body s =
     (let c = s_next s;
          s1 = s\<lparr>s_next := Suc c,
                 s_coros := (s_coros s)(c \<mapsto> \<lparr>c_ret = 0, c_ctx = body, c_is_finished = False, c_switch_count = 0\<rparr>),
                 s_links := (s_links s)(c \<mapsto> \<lparr>n_next = None, n_prev = None\<rparr>)\<rparr>
      in do { s2 \<leftarrow> coro_list_add c s1; Some (c, s2) })"

text \<open>Running the coroutine \<open>c\<close>, and after its \<^verbatim>\<open>coro_yield\<close> the next one of the list, up to the switch back
  to the scheduler.\<close>

definition coro_finish :: "nat \<Rightarrow> int \<Rightarrow> 'g coro \<Rightarrow> 'g \<Rightarrow> 'g sched \<Rightarrow> 'g sched option" where
  "coro_finish c r k g s =
     (if s_waiting s then
        Some (s\<lparr>s_coros := (s_coros s)(c \<mapsto> k\<lparr>c_ret := r, c_is_finished := True\<rparr>), s_glob := g, s_this := Sched\<rparr>)
      else None)"

definition coro_yield :: "nat \<Rightarrow> ('g, int) prog \<Rightarrow> 'g coro \<Rightarrow> 'g \<Rightarrow> 'g sched \<Rightarrow> (nat option \<times> 'g sched) option" where
  "coro_yield c ctx k g s =
     do { n \<leftarrow> s_links s c;
          Some (n_next n,
            s\<lparr>s_coros := (s_coros s)(c \<mapsto> k\<lparr>c_ctx := ctx, c_switch_count := c_switch_count k + 1\<rparr>), s_glob := g,
              s_this := (if n_next n = None then Sched else s_this s)\<rparr>) }"

partial_function (option) coro_run :: "nat \<Rightarrow> 'g sched \<Rightarrow> 'g sched option" where
  "coro_run c s =
     do { k \<leftarrow> s_coros s c;
          if c_is_finished k then None
          else do { r \<leftarrow> run_segment (c_ctx k) (s_glob s);
                    case r of
                      Finished x g \<Rightarrow> coro_finish c x k g (s\<lparr>s_this := Coro c\<rparr>)
                    | Paused ctx g \<Rightarrow>
                        do { (to, s') \<leftarrow> coro_yield c ctx k g (s\<lparr>s_this := Coro c\<rparr>);
                             case to of None \<Rightarrow> Some s' | Some d \<Rightarrow> coro_run d s' } } }"

partial_function (option) find_finished :: "nat option \<Rightarrow> 'g sched \<Rightarrow> nat option option" where
  "find_finished p s =
     (case p of
        None \<Rightarrow> Some None
      | Some c \<Rightarrow>
          do { k \<leftarrow> s_coros s c;
               if c_is_finished k then Some (Some c)
               else do { n \<leftarrow> s_links s c; find_finished (n_next n) s } })"

partial_function (option) coro_sched_wait :: "'g sched \<Rightarrow> (nat option \<times> 'g sched) option" where
  "coro_sched_wait s =
     (case s_list s of
        None \<Rightarrow> Some (None, s)
      | Some head \<Rightarrow>
          do { f \<leftarrow> find_finished (s_list s) s;
               case f of
                 Some c \<Rightarrow> do { s' \<leftarrow> coro_list_delete c s; Some (Some c, s') }
               | None \<Rightarrow>
                   do { s1 \<leftarrow> coro_run head (s\<lparr>s_waiting := True, s_switch_count := s_switch_count s + 1\<rparr>);
                        coro_sched_wait (s1\<lparr>s_waiting := False\<rparr>) } })"

text \<open>The loop of a program that waits for all coroutines, as \<^verbatim>\<open>main\<close> of \<^verbatim>\<open>hw1/solution.c\<close> does; \<open>rs\<close> collects the
  coroutines in the order they are returned.\<close>

partial_function (option) wait_all :: "'g sched \<Rightarrow> nat list \<Rightarrow> (nat list \<times> 'g sched) option" where
  "wait_all s rs =
     do { (c, s1) \<leftarrow> coro_sched_wait s;
          case c of
            None \<Rightarrow> Some (rs, s1)
          | Some a \<Rightarrow> do { s2 \<leftarrow> coro_delete a s1; wait_all s2 (rs @ [a]) } }"

subsection \<open>The list of coroutines\<close>

text \<open>The addresses \<open>xs\<close> are the list, all allocated, and below the next fresh address.\<close>

definition sched_list :: "'g sched \<Rightarrow> nat list \<Rightarrow> bool" where
  "sched_list s xs \<longleftrightarrow> linked (s_links s) (s_list s) xs \<and> (\<forall>c \<in> set xs. s_coros s c \<noteq> None \<and> c < s_next s) \<and>
     dom (s_links s) = dom (s_coros s)"

lemma coro_new_list:
  assumes "sched_list s xs"
  shows "\<exists>s'. coro_new body s = Some (s_next s, s') \<and> sched_list s' (s_next s # xs) \<and> s_glob s' = s_glob s \<and>
     s_waiting s' = s_waiting s \<and> s_next s' = Suc (s_next s) \<and>
     s_coros s' = (s_coros s)(s_next s \<mapsto> \<lparr>c_ret = 0, c_ctx = body, c_is_finished = False, c_switch_count = 0\<rparr>)"
proof -
  define c where "c = s_next s"
  define h where "h = (s_links s)(c \<mapsto> \<lparr>n_next = None, n_prev = None\<rparr>)"
  have c: "c \<notin> set xs" using assms by (auto simp: sched_list_def c_def)
  have "linked h (s_list s) xs"
    using assms c by (auto simp: sched_list_def linked_def h_def segment_frame)
  moreover have "h c = Some \<lparr>n_next = None, n_prev = None\<rparr>" by (simp add: h_def)
  ultimately obtain h' where h': "list_add c (h, s_list s) = Some (h', Some c)" "linked h' (Some c) (c # xs)"
    "\<forall>a. h' a = None \<longleftrightarrow> h a = None"
    using list_add_linked c by blast
  have "s_links s a = None \<longleftrightarrow> s_coros s a = None" for a
    using assms unfolding sched_list_def by (metis domIff)
  then have "a \<in> dom h' \<longleftrightarrow> a \<in> insert c (dom (s_coros s))" for a
    using h'(3) by (cases "a = c") (simp_all add: domIff h_def)
  then have "dom h' = insert c (dom (s_coros s))" by blast
  with h' assms show ?thesis
    by (auto simp: coro_new_def Let_def coro_list_add_def c_def [symmetric] h_def [symmetric] sched_list_def
        intro: less_SucI)
qed

lemma find_finished_list:
  "segment (s_links s) p st xs None l \<Longrightarrow> \<forall>c \<in> set xs. s_coros s c \<noteq> None \<Longrightarrow>
     find_finished st s = Some (find (\<lambda>c. map_option c_is_finished (s_coros s c) = Some True) xs)"
proof (induction xs arbitrary: p st)
  case Nil
  then show ?case by (subst find_finished.simps) simp
next
  case (Cons x xs)
  then obtain n k where "st = Some x" "s_links s x = Some n" "segment (s_links s) (Some x) (n_next n) xs None l"
    "s_coros s x = Some k" by auto
  with Cons show ?case by (subst find_finished.simps) auto
qed

lemma find_append_None: "\<forall>x \<in> set us. \<not> P x \<Longrightarrow> P c \<Longrightarrow> find P (us @ c # vs) = Some c"
  by (induction us) auto

end
