(* ===== verification/Coro_Sched.thy ===== *)
theory Coro_Sched
  imports Libcoro
begin

section \<open>What the scheduler guarantees\<close>

text \<open>
  The contract between the scheduler of \<^verbatim>\<open>hw1/libcoro.c\<close> and the coroutines it runs, as the locale
  \<open>coroutine_system\<close>: each coroutine keeps to what it guarantees as long as the others keep to what it
  relies on. Inside the locale, \<^verbatim>\<open>coro_yield\<close> and \<^verbatim>\<open>coro_sched_wait\<close> return, a finished coroutine is
  never resumed, and every coroutine is handed out exactly once, with its result. The number of
  rounds is not bounded beforehand; what decreases is the multiset of the bodies still to run.
\<close>

subsection \<open>Work left\<close>

definition smaller_bodies :: "(('g, int) prog \<times> ('g, int) prog) set" where
  "smaller_bodies = {(p, q). later\<^sup>+\<^sup>+ p q}"

definition unfinished :: "'g sched \<Rightarrow> nat \<Rightarrow> bool" where
  "unfinished s c \<longleftrightarrow> map_option c_is_finished (s_coros s c) = Some False"

definition body :: "'g sched \<Rightarrow> nat \<Rightarrow> ('g, int) prog" where
  "body s c = c_ctx (the (s_coros s c))"

definition bodies :: "'g sched \<Rightarrow> nat list \<Rightarrow> ('g, int) prog multiset" where
  "bodies s xs = mset (map (body s) (filter (unfinished s) xs))"

definition less_work :: "(('g, int) prog multiset \<times> ('g, int) prog multiset) set" where
  "less_work = mult smaller_bodies"

lemma wf_less_work: "wf less_work"
proof -
  have "wfp (later\<^sup>+\<^sup>+ :: ('g, int) prog \<Rightarrow> ('g, int) prog \<Rightarrow> bool)" using wfp_later by (rule wfp_tranclp)
  then have "wf (smaller_bodies :: (('g, int) prog \<times> ('g, int) prog) set)"
    unfolding smaller_bodies_def by (simp add: wfp_def)
  then show ?thesis unfolding less_work_def by (rule wf_mult)
qed

lemma less_work_trans: "(a, b) \<in> less_work \<Longrightarrow> (b, c) \<in> less_work \<Longrightarrow> (a, c) \<in> less_work"
  unfolding less_work_def mult_def by (rule trancl_trans)

lemma bodies_other:
  assumes "\<forall>d \<in> set xs. s_coros s' d = s_coros s d"
  shows "bodies s' xs = bodies s xs"
proof -
  have "filter (unfinished s') xs = filter (unfinished s) xs"
    using assms by (intro filter_cong) (auto simp: unfinished_def)
  moreover have "map (body s') (filter (unfinished s) xs) = map (body s) (filter (unfinished s) xs)"
    using assms by (auto simp: body_def)
  ultimately show ?thesis by (simp only: bodies_def)
qed

lemma bodies_step:
  assumes "distinct (us @ c # vs)" "unfinished s c" "\<forall>d. d \<noteq> c \<longrightarrow> s_coros s' d = s_coros s d"
    and "unfinished s' c \<Longrightarrow> later\<^sup>+\<^sup>+ (body s' c) (body s c)"
  shows "(bodies s' (us @ c # vs), bodies s (us @ c # vs)) \<in> less_work"
proof -
  have eq: "bodies s' us = bodies s us" "bodies s' vs = bodies s vs"
    using assms(1,3) by (auto intro!: bodies_other)
  have split: "bodies t (us @ c # vs) = (bodies t us + bodies t vs) + (if unfinished t c then {#body t c#} else {#})" for t
    by (simp add: bodies_def)
  have "(bodies s us + bodies s vs + (if unfinished s' c then {#body s' c#} else {#}),
      bodies s us + bodies s vs + {#body s c#}) \<in> mult smaller_bodies"
    using assms(4) by (intro one_step_implies_mult) (auto simp: smaller_bodies_def split: if_splits)
  then show ?thesis by (simp add: split eq assms(2) less_work_def)
qed

subsection \<open>The contract\<close>

definition coro_ok :: "(nat \<Rightarrow> 'g \<Rightarrow> 'g \<Rightarrow> bool) \<Rightarrow> (nat \<Rightarrow> 'g \<Rightarrow> 'g \<Rightarrow> bool) \<Rightarrow> (nat \<Rightarrow> int \<Rightarrow> 'g \<Rightarrow> bool) \<Rightarrow>
    'g sched \<Rightarrow> nat \<Rightarrow> bool" where
  "coro_ok rely guar post s c \<longleftrightarrow> (\<exists>k. s_coros s c = Some k \<and>
     (if c_is_finished k then post c (c_ret k) (s_glob s)
      else \<forall>g. rely c (s_glob s) g \<longrightarrow> wp (rely c) (guar c) (c_ctx k) (post c) g))"

lemma find_SomeD: "find P xs = Some x \<Longrightarrow> P x \<and> (\<exists>us vs. xs = us @ x # vs)"
proof (induction xs)
  case (Cons y ys)
  then show ?case
  proof (cases "P y")
    case False
    with Cons obtain us vs where "P x" "ys = us @ x # vs" by auto
    then have "y # ys = (y # us) @ x # vs" by simp
    with \<open>P x\<close> show ?thesis by blast
  qed (auto intro: exI [of _ "[]"])
qed simp

locale coroutine_system =
  fixes rely guar :: "nat \<Rightarrow> 'g \<Rightarrow> 'g \<Rightarrow> bool"
    and post :: "nat \<Rightarrow> int \<Rightarrow> 'g \<Rightarrow> bool"
    and inv :: "'g \<Rightarrow> bool"
  assumes rely_refl: "rely c g g"
    and rely_trans: "rely c g g' \<Longrightarrow> rely c g' g'' \<Longrightarrow> rely c g g''"
    and guar_refl: "guar c g g"
    and guar_trans: "guar c g g' \<Longrightarrow> guar c g' g'' \<Longrightarrow> guar c g g''"
    and guar_rely: "guar c g g' \<Longrightarrow> d \<noteq> c \<Longrightarrow> rely d g g'"
    and guar_inv: "guar c g g' \<Longrightarrow> inv g \<Longrightarrow> inv g'"
    and post_stable: "post c x g \<Longrightarrow> rely c g g' \<Longrightarrow> post c x g'"
begin

abbreviation ok :: "'g sched \<Rightarrow> nat \<Rightarrow> bool" where
  "ok \<equiv> coro_ok rely guar post"

lemma ok_stable:
  assumes "ok s d" "s_coros s' d = s_coros s d" "rely d (s_glob s) (s_glob s')"
  shows "ok s' d"
proof -
  obtain k where k: "s_coros s d = Some k" using assms(1) by (auto simp: coro_ok_def)
  have "rely d (s_glob s') g \<Longrightarrow> rely d (s_glob s) g" for g using assms(3) rely_trans by blast
  with assms k show ?thesis by (auto simp: coro_ok_def intro: post_stable)
qed

lemma oks_same_memory:
  assumes "\<forall>d \<in> set xs. ok s d" "set ys \<subseteq> set xs" "\<forall>d \<in> set ys. s_coros s' d = s_coros s d" "s_glob s' = s_glob s"
  shows "\<forall>d \<in> set ys. ok s' d"
proof
  fix d assume "d \<in> set ys"
  with assms have "ok s d" "s_coros s' d = s_coros s d" "rely d (s_glob s) (s_glob s')" by (auto simp: rely_refl)
  then show "ok s' d" by (rule ok_stable)
qed

text \<open>One coroutine, from its resumption to its next stop.\<close>

lemma ok_segment:
  assumes "ok s c" "s_coros s c = Some k" "\<not> c_is_finished k"
  shows "(\<exists>x g. run_segment (c_ctx k) (s_glob s) = Some (Finished x g) \<and> guar c (s_glob s) g \<and> post c x g) \<or>
    (\<exists>p g. run_segment (c_ctx k) (s_glob s) = Some (Paused p g) \<and> guar c (s_glob s) g \<and> later\<^sup>+\<^sup>+ p (c_ctx k) \<and>
       (\<forall>g'. rely c g g' \<longrightarrow> wp (rely c) (guar c) p (post c) g'))"
proof -
  have "wp (rely c) (guar c) (c_ctx k) (post c) (s_glob s)"
    using assms rely_refl by (auto simp: coro_ok_def)
  then have "(\<exists>x g. run_segment (c_ctx k) (s_glob s) = Some (Finished x g) \<and> guar c (s_glob s) g \<and> post c x g) \<or>
    (\<exists>p g. run_segment (c_ctx k) (s_glob s) = Some (Paused p g) \<and> guar c (s_glob s) g \<and>
       (\<forall>g'. rely c g g' \<longrightarrow> wp (rely c) (guar c) p (post c) g'))"
    by (rule wp_segment) (fact guar_refl, rule guar_trans)
  then show ?thesis
  proof (elim disjE exE conjE)
    fix p g
    assume run: "run_segment (c_ctx k) (s_glob s) = Some (Paused p g)" and "guar c (s_glob s) g"
      "\<forall>g'. rely c g g' \<longrightarrow> wp (rely c) (guar c) p (post c) g'"
    with run_segment_later [OF run] show ?thesis by blast
  qed blast
qed

text \<open>A run of the scheduler changes the memory within the guarantees of the coroutines it ran.\<close>

definition moved :: "nat set \<Rightarrow> 'g \<Rightarrow> 'g \<Rightarrow> bool" where
  "moved C g g' \<longleftrightarrow> (inv g \<longrightarrow> inv g') \<and> (\<forall>d. d \<notin> C \<longrightarrow> rely d g g')"

lemma moved_refl: "moved C g g"
  by (simp add: moved_def rely_refl)

lemma moved_trans: "moved C g g' \<Longrightarrow> moved C g' g'' \<Longrightarrow> moved C g g''"
  unfolding moved_def using rely_trans by blast

lemma moved_guar: "guar c g g' \<Longrightarrow> c \<in> C \<Longrightarrow> moved C g g'"
  unfolding moved_def by (metis guar_inv guar_rely)

definition same_frame :: "nat set \<Rightarrow> 'g sched \<Rightarrow> 'g sched \<Rightarrow> bool" where
  "same_frame C s s' \<longleftrightarrow> s_links s' = s_links s \<and> s_list s' = s_list s \<and> s_next s' = s_next s \<and>
     s_waiting s' = s_waiting s \<and> dom (s_coros s') = dom (s_coros s) \<and>
     (\<forall>d. d \<notin> C \<longrightarrow> s_coros s' d = s_coros s d) \<and> moved C (s_glob s) (s_glob s')"

lemma same_frame_trans: "same_frame C s s' \<Longrightarrow> same_frame C s' s'' \<Longrightarrow> same_frame C s s''"
  unfolding same_frame_def by (auto intro: moved_trans)

lemma same_frame_list: "same_frame C s s' \<Longrightarrow> sched_list s xs \<Longrightarrow> sched_list s' xs"
  unfolding same_frame_def sched_list_def by (metis domIff)

text \<open>The state after a segment of \<open>c\<close> in which only \<open>c\<close> and the memory changed.\<close>

lemma ok_after:
  assumes "\<forall>d \<in> set xs. ok s d" "s_coros s' = (s_coros s)(c \<mapsto> k)" "guar c (s_glob s) (s_glob s')"
    and "if c_is_finished k then post c (c_ret k) (s_glob s')
      else \<forall>g. rely c (s_glob s') g \<longrightarrow> wp (rely c) (guar c) (c_ctx k) (post c) g"
  shows "\<forall>d \<in> set xs. ok s' d"
proof
  fix d assume d: "d \<in> set xs"
  show "ok s' d"
  proof (cases "d = c")
    case True
    with assms(2,4) show ?thesis by (simp add: coro_ok_def)
  next
    case False
    with assms(2,3) have "s_coros s' d = s_coros s d" "rely d (s_glob s) (s_glob s')" by (auto intro: guar_rely)
    with assms(1) d show ?thesis by (blast intro: ok_stable)
  qed
qed

lemma coro_segment:
  assumes list: "sched_list s (us @ c # vs)" and "s_waiting s" and un: "unfinished s c"
    and ok: "\<forall>d \<in> set (us @ c # vs). ok s d"
  shows "\<exists>s' stop. coro_run c s = (if stop \<or> vs = [] then Some s' else coro_run (hd vs) s') \<and>
    same_frame {c} s s' \<and> (\<forall>d \<in> set (us @ c # vs). ok s' d) \<and>
    (bodies s' (us @ c # vs), bodies s (us @ c # vs)) \<in> less_work"
proof -
  from un obtain k where k: "s_coros s c = Some k" "\<not> c_is_finished k" by (auto simp: unfinished_def)
  have dist: "distinct (us @ c # vs)" using list by (simp add: sched_list_def linked_def)
  obtain n where n: "s_links s c = Some n" "n_next n = (if vs = [] then None else Some (hd vs))"
    using list linked_next [of "s_links s" "s_list s" us c vs] by (auto simp: sched_list_def)
  from ok have "ok s c" by simp
  from ok_segment [OF this k] show ?thesis
  proof (elim disjE exE conjE)
    fix x g
    assume run: "run_segment (c_ctx k) (s_glob s) = Some (Finished x g)" and "guar c (s_glob s) g" "post c x g"
    define s' where "s' = s\<lparr>s_coros := (s_coros s)(c \<mapsto> k\<lparr>c_ret := x, c_is_finished := True\<rparr>), s_glob := g, s_this := Sched\<rparr>"
    have "coro_run c s = Some s'"
      using run k assms(2) by (subst coro_run.simps) (simp add: coro_finish_def s'_def)
    moreover have "same_frame {c} s s'"
      using k moved_guar [OF \<open>guar c (s_glob s) g\<close>, of "{c}"] by (auto simp: same_frame_def s'_def)
    moreover have "\<forall>d \<in> set (us @ c # vs). ok s' d"
      using \<open>guar c (s_glob s) g\<close> \<open>post c x g\<close> by (intro ok_after [OF ok]) (auto simp: s'_def)
    moreover have "(bodies s' (us @ c # vs), bodies s (us @ c # vs)) \<in> less_work"
      by (rule bodies_step [OF dist un]) (auto simp: s'_def unfinished_def)
    ultimately show ?thesis by - (rule exI [of _ s'], rule exI [of _ True], simp)
  next
    fix p g
    assume run: "run_segment (c_ctx k) (s_glob s) = Some (Paused p g)" and "guar c (s_glob s) g"
      and less: "later\<^sup>+\<^sup>+ p (c_ctx k)" and w: "\<forall>g'. rely c g g' \<longrightarrow> wp (rely c) (guar c) p (post c) g'"
    define s' where "s' = s\<lparr>s_coros := (s_coros s)(c \<mapsto> k\<lparr>c_ctx := p, c_switch_count := c_switch_count k + 1\<rparr>),
      s_glob := g, s_this := (if vs = [] then Sched else Coro c)\<rparr>"
    have "coro_run c s = (if vs = [] then Some s' else coro_run (hd vs) s')"
      using run k n by (subst coro_run.simps) (simp add: coro_yield_def s'_def)
    moreover have "same_frame {c} s s'"
      using k moved_guar [OF \<open>guar c (s_glob s) g\<close>, of "{c}"] by (auto simp: same_frame_def s'_def)
    moreover have "\<forall>d \<in> set (us @ c # vs). ok s' d"
      using \<open>guar c (s_glob s) g\<close> w k by (intro ok_after [OF ok]) (auto simp: s'_def)
    moreover have "(bodies s' (us @ c # vs), bodies s (us @ c # vs)) \<in> less_work"
      using less k by (intro bodies_step [OF dist un]) (auto simp: s'_def unfinished_def body_def)
    ultimately show ?thesis by - (rule exI [of _ s'], rule exI [of _ False], simp)
  qed
qed

lemma same_frame_mono: "same_frame C s s' \<Longrightarrow> C \<subseteq> D \<Longrightarrow> same_frame D s s'"
  by (auto simp: same_frame_def moved_def)

text \<open>From any coroutine of the list control comes back to the scheduler; until then every coroutine from
  there on ran at most one segment.\<close>

lemma coro_run_ok:
  assumes "sched_list s (us @ c # vs)" "s_waiting s" "\<forall>d \<in> set (c # vs). unfinished s d"
    and "\<forall>d \<in> set (us @ c # vs). ok s d"
  shows "\<exists>s'. coro_run c s = Some s' \<and> same_frame (set (c # vs)) s s' \<and>
    (\<forall>d \<in> set (us @ c # vs). ok s' d) \<and> (bodies s' (us @ c # vs), bodies s (us @ c # vs)) \<in> less_work"
  using assms
proof (induction vs arbitrary: us c s)
  case (Nil us c s)
  with coro_segment [of s us c "[]"] show ?case by auto
next
  case (Cons e vs us c s)
  then have "unfinished s c" by simp
  from coro_segment [OF Cons.prems(1,2) this Cons.prems(4)] obtain s1 stop where
    seg: "coro_run c s = (if stop \<or> e # vs = [] then Some s1 else coro_run (hd (e # vs)) s1)" "same_frame {c} s s1"
      "\<forall>d \<in> set (us @ c # e # vs). ok s1 d" "(bodies s1 (us @ c # e # vs), bodies s (us @ c # e # vs)) \<in> less_work"
    by blast
  from seg(1) have run: "coro_run c s = (if stop then Some s1 else coro_run e s1)" by simp
  note s1 = run seg(2-4)
  show ?case
  proof (cases stop)
    case True
    with s1 show ?thesis by (auto intro: same_frame_mono)
  next
    case False
    have dist: "distinct (us @ c # e # vs)" using Cons.prems(1) by (simp add: sched_list_def linked_def)
    have "sched_list s1 ((us @ [c]) @ e # vs)" using same_frame_list [OF s1(2) Cons.prems(1)] by simp
    moreover have "s_waiting s1" using s1(2) Cons.prems(2) by (simp add: same_frame_def)
    moreover have "\<forall>d \<in> set (e # vs). unfinished s1 d"
      using s1(2) Cons.prems(3) dist by (auto simp: same_frame_def unfinished_def)
    moreover have "\<forall>d \<in> set ((us @ [c]) @ e # vs). ok s1 d" using s1(3) by simp
    ultimately obtain s2 where s2: "coro_run e s1 = Some s2" "same_frame (set (e # vs)) s1 s2"
      "\<forall>d \<in> set ((us @ [c]) @ e # vs). ok s2 d"
      "(bodies s2 ((us @ [c]) @ e # vs), bodies s1 ((us @ [c]) @ e # vs)) \<in> less_work"
      using Cons.IH [of s1 "us @ [c]" e] by blast
    have "same_frame (set (c # e # vs)) s s2"
      by (rule same_frame_trans [of _ _ s1]) (auto intro: same_frame_mono [OF s1(2)] same_frame_mono [OF s2(2)])
    with s1 s2 False show ?thesis by (auto intro: less_work_trans)
  qed
qed

text \<open>\<^verbatim>\<open>coro_sched_wait\<close> returns, with a coroutine of the list that has finished, or nothing if the list is empty.\<close>

lemma coro_sched_wait_ok:
  assumes "sched_list s xs" "\<not> s_waiting s" "\<forall>d \<in> set xs. ok s d" "xs \<noteq> []"
  shows "\<exists>c us vs s'. coro_sched_wait s = Some (Some c, s') \<and> xs = us @ c # vs \<and> sched_list s' (us @ vs) \<and>
    \<not> s_waiting s' \<and> (\<forall>d \<in> set xs. ok s' d) \<and> \<not> unfinished s' c \<and> moved (set xs) (s_glob s) (s_glob s') \<and>
    (\<forall>d. d \<notin> set xs \<longrightarrow> s_coros s' d = s_coros s d)"
  using wf_less_work assms
proof (induction "bodies s xs" arbitrary: s rule: wf_induct_rule)
  case (less s)
  define fin where "fin c = (map_option c_is_finished (s_coros s c) = Some True)" for c
  have head: "s_list s = Some (hd xs)" using less.prems by (auto simp: sched_list_def dest: linked_head)
  have find: "find_finished (s_list s) s = Some (find fin xs)"
  proof -
    obtain l where "segment (s_links s) None (s_list s) xs None l"
      using less.prems(1) unfolding sched_list_def linked_def by blast
    moreover have "\<forall>c \<in> set xs. s_coros s c \<noteq> None" using less.prems(1) by (simp add: sched_list_def)
    ultimately show ?thesis unfolding fin_def by (rule find_finished_list)
  qed
  show ?case
  proof (cases "find fin xs")
    case (Some c)
    then obtain us vs where c: "xs = us @ c # vs" "fin c" by (blast dest: find_SomeD)
    have l: "linked (s_links s) (s_list s) (us @ c # vs)" and dom: "dom (s_links s) = dom (s_coros s)"
      and dist: "distinct (us @ c # vs)"
      using less.prems(1) c(1) by (auto simp: sched_list_def linked_def)
    obtain h head' where h: "list_delete c (s_links s, s_list s) = Some (h, head')" "linked h head' (us @ vs)"
      "\<forall>a. h a = None \<longleftrightarrow> s_links s a = None"
      using list_delete_linked [OF l] by blast
    define s' where "s' = s\<lparr>s_links := h, s_list := head'\<rparr>"
    have "coro_sched_wait s = Some (Some c, s')"
      using head find Some h(1) by (subst coro_sched_wait.simps) (simp add: coro_list_delete_def s'_def)
    moreover have "dom h = dom (s_coros s)" using h(3) dom by (auto simp: dom_def set_eq_iff)
    then have "sched_list s' (us @ vs)"
      using h(2) less.prems(1) c(1) by (auto simp: sched_list_def s'_def)
    moreover have "\<forall>d \<in> set xs. ok s' d"
      by (intro oks_same_memory [OF less.prems(3)]) (auto simp: s'_def)
    moreover have "\<not> unfinished s' c" using c(2) by (auto simp: unfinished_def fin_def s'_def)
    moreover have "moved (set xs) (s_glob s) (s_glob s')" "\<not> s_waiting s'" "s_coros s' = s_coros s"
      using less.prems(2) by (simp_all add: s'_def moved_refl)
    ultimately show ?thesis using c(1) by auto
  next
    case None
    then have "\<forall>d \<in> set xs. \<not> fin d" by (simp add: find_None_iff)
    then have un: "\<forall>d \<in> set xs. unfinished s d"
      using less.prems(3) by (auto simp: fin_def unfinished_def coro_ok_def)
    define t where "t = s\<lparr>s_waiting := True, s_switch_count := s_switch_count s + 1\<rparr>"
    obtain c vs where xs: "xs = c # vs" using less.prems(4) by (cases xs) auto
    have t: "sched_list t ([] @ c # vs)" "s_waiting t" "\<forall>d \<in> set (c # vs). unfinished t d" "bodies t xs = bodies s xs"
      using less.prems(1) un xs bodies_other [of xs t s] by (auto simp: sched_list_def t_def unfinished_def)
    have "\<forall>d \<in> set ([] @ c # vs). ok t d"
      using xs by (intro oks_same_memory [OF less.prems(3)]) (auto simp: t_def)
    from coro_run_ok [OF t(1-3) this] obtain s1 where s1: "coro_run c t = Some s1" "same_frame (set (c # vs)) t s1"
      "\<forall>d \<in> set (c # vs). ok s1 d" "(bodies s1 xs, bodies t xs) \<in> less_work"
      using xs by auto
    define s2 where "s2 = s1\<lparr>s_waiting := False\<rparr>"
    have step: "coro_sched_wait s = coro_sched_wait s2"
      using head find None s1(1) xs by (subst coro_sched_wait.simps) (simp add: t_def s2_def)
    have "(bodies s2 xs, bodies s xs) \<in> less_work"
      using s1(4) t(4) bodies_other [of xs s2 s1] by (simp add: s2_def)
    moreover have "sched_list s2 xs"
      using same_frame_list [OF s1(2) t(1)] xs by (simp add: sched_list_def s2_def)
    moreover have "\<forall>d \<in> set xs. ok s2 d"
      using xs by (intro oks_same_memory [OF s1(3)]) (auto simp: s2_def)
    moreover have "\<not> s_waiting s2" by (simp add: s2_def)
    ultimately obtain c us vs s' where "coro_sched_wait s2 = Some (Some c, s')" "xs = us @ c # vs" "sched_list s' (us @ vs)"
      "\<not> s_waiting s'" "\<forall>d \<in> set xs. ok s' d" "\<not> unfinished s' c" "moved (set xs) (s_glob s2) (s_glob s')" "\<forall>d. d \<notin> set xs \<longrightarrow> s_coros s' d = s_coros s2 d"
      using less.hyps [of s2] less.prems(4) by blast
    moreover have "moved (set xs) (s_glob s) (s_glob s2)" "\<forall>d. d \<notin> set xs \<longrightarrow> s_coros s2 d = s_coros s d"
      using s1(2) xs by (simp_all add: same_frame_def s2_def t_def)
    ultimately show ?thesis using step by (auto intro: moved_trans)
  qed
qed

text \<open>Waiting for all: every coroutine of the list is returned once, and in the end all results hold.\<close>

lemma wait_all_ok:
  assumes "sched_list s xs" "\<not> s_waiting s" "\<forall>d \<in> set xs. ok s d"
  shows "\<exists>rs s'. wait_all s done = Some (done @ rs, s') \<and> mset rs = mset xs \<and> sched_list s' [] \<and> \<not> s_waiting s' \<and>
    (\<forall>d \<in> set xs. s_coros s' d = None \<and> (\<exists>x. post d x (s_glob s'))) \<and> moved (set xs) (s_glob s) (s_glob s') \<and>
    (\<forall>d. d \<notin> set xs \<longrightarrow> s_coros s' d = s_coros s d)"
  using assms
proof (induction "length xs" arbitrary: s xs "done")
  case 0
  then have "coro_sched_wait s = Some (None, s)"
    by (subst coro_sched_wait.simps) (auto simp: sched_list_def linked_Nil)
  with 0 show ?case by (subst wait_all.simps) (auto simp: moved_refl)
next
  case (Suc n)
  then have "xs \<noteq> []" by auto
  from coro_sched_wait_ok [OF Suc.prems this] obtain c us vs s1 where
    s1: "coro_sched_wait s = Some (Some c, s1)" "xs = us @ c # vs" "sched_list s1 (us @ vs)" "\<not> s_waiting s1"
      "\<forall>d \<in> set xs. ok s1 d" "\<not> unfinished s1 c" "moved (set xs) (s_glob s) (s_glob s1)"
      "\<forall>d. d \<notin> set xs \<longrightarrow> s_coros s1 d = s_coros s d" by blast
  then obtain k where k: "s_coros s1 c = Some k" "c_is_finished k" "post c (c_ret k) (s_glob s1)"
    by (auto simp: coro_ok_def unfinished_def split: if_splits)
  have dist: "distinct (us @ c # vs)" using Suc.prems(1) s1(2) by (simp add: sched_list_def linked_def)
  define s2 where "s2 = s1\<lparr>s_coros := (s_coros s1)(c := None), s_links := (s_links s1)(c := None)\<rparr>"
  have s2: "coro_delete c s1 = Some s2" using k(1) by (simp add: coro_delete_def s2_def)
  have "sched_list s2 (us @ vs)"
    using s1(3) dist by (auto simp: sched_list_def s2_def linked_def segment_frame)
  moreover have "\<forall>d \<in> set (us @ vs). ok s2 d"
    using s1(2) dist by (intro oks_same_memory [OF s1(5)]) (auto simp: s2_def)
  moreover have "\<not> s_waiting s2" "n = length (us @ vs)" using s1(2,4) Suc.hyps(2) by (simp_all add: s2_def)
  ultimately obtain rs s' where s': "wait_all s2 (done @ [c]) = Some ((done @ [c]) @ rs, s')" "mset rs = mset (us @ vs)"
    "sched_list s' []" "\<not> s_waiting s'" "\<forall>d \<in> set (us @ vs). s_coros s' d = None \<and> (\<exists>x. post d x (s_glob s'))"
    "moved (set (us @ vs)) (s_glob s2) (s_glob s')" "\<forall>d. d \<notin> set (us @ vs) \<longrightarrow> s_coros s' d = s_coros s2 d"
    using Suc.hyps(1) [of "us @ vs" s2 "done @ [c]"] by blast
  have "wait_all s done = Some (done @ c # rs, s')"
    using s1(1) s2 s'(1) by (subst wait_all.simps) simp
  moreover have "mset (c # rs) = mset xs" using s'(2) s1(2) by simp
  moreover have "post c (c_ret k) (s_glob s')"
    using k(3) s'(6) dist by (auto simp: moved_def s2_def intro: post_stable)
  moreover have "s_coros s' c = None" using s'(7) dist by (simp add: s2_def)
  moreover have "moved (set xs) (s_glob s) (s_glob s')"
    using s1(2,7) s'(6) by (auto simp: s2_def moved_def intro: rely_trans)
  moreover have "\<forall>d. d \<notin> set xs \<longrightarrow> s_coros s' d = s_coros s d"
    using s1(2,8) s'(7) by (simp add: s2_def)
  ultimately show ?case
    using s'(3-5) s1(2) by - (rule exI [of _ "c # rs"], rule exI [of _ s'], auto)
qed

end

end
