(* ===== verification/Coro_Sort.thy ===== *)
theory Coro_Sort
  imports Rounding Coro_Sched Decimal Growable
begin

section \<open>Sorting files in coroutines\<close>

text \<open>
  \<^verbatim>\<open>hw1/solution.c\<close>: the coroutines take files from a common storage, read each into an array and
  sort it with a quicksort that may yield after every comparison; then \<^verbatim>\<open>main\<close> merges the arrays into
  \<^verbatim>\<open>output.txt\<close>. The memory all coroutines share is the record \<open>memory\<close>: the file system (texts by
  name), the readings of the monotonic clock, the storage, the \<^verbatim>\<open>struct file\<close> objects and the
  contexts of the coroutines (the one at index \<open>i\<close> is \<^verbatim>\<open>m_ctxs[i]\<close>). When a coroutine yields depends on the clock,
  which is arbitrary here, so a statement about every clock is one about every interleaving.

  The fields of a context that \<^verbatim>\<open>my_context_new\<close> does not set hold whatever \<^verbatim>\<open>malloc\<close> leaves there, which is a
  parameter: the program reads them, and adds to \<^verbatim>\<open>work_time\<close> in 64 bits. The result \<^const>\<open>None\<close> is undefined behaviour;
  only an input file that cannot be opened in a coroutine, where the program calls \<^verbatim>\<open>exit(1)\<close>, is \<^const>\<open>None\<close> too. Where
  \<^verbatim>\<open>main\<close> itself calls \<^verbatim>\<open>exit(1)\<close> because the output cannot be written, the result is that status. Output to the
  terminal is not modelled.
\<close>

subsection \<open>Data\<close>

type_synonym timespec = "int \<times> int"

record int_file =
  f_data :: "int list"
  f_size :: int

record file_storage =
  t_paths :: "string option list"
  t_filesData :: "nat option list"
  t_cur_unsorted :: int
  t_count :: int
  t_capacity :: int

record my_context =
  x_name :: string
  x_filename :: string
  x_curData :: "nat option"
  x_work_time :: int
  x_time_quantum :: int
  x_start_time :: timespec
  x_end_time :: timespec

record memory =
  g_fs :: "string \<Rightarrow> string option"
  g_clock :: "nat \<Rightarrow> timespec"
  g_ticks :: nat
  g_storage :: file_storage
  g_heap :: "nat \<Rightarrow> int_file option"
  g_fresh :: nat
  g_ctx :: "nat \<Rightarrow> my_context option"

subsection \<open>The file storage\<close>

definition file_storage_new :: file_storage where
  "file_storage_new = \<lparr>t_paths = replicate 10 None, t_filesData = [], t_cur_unsorted = 0, t_count = 0, t_capacity = 10\<rparr>"

definition addPath :: "file_storage \<Rightarrow> string \<Rightarrow> file_storage option" where
  "addPath st path =
     (let st1 = (if t_count st \<ge> t_capacity st
                 then st\<lparr>t_capacity := t_capacity st * 2, t_paths := realloc (t_paths st) (nat (t_capacity st * 2))\<rparr>
                 else st)
      in if t_capacity st1 \<le> INT_MAX \<and> nat (t_count st1) < length (t_paths st1)
         then Some (st1\<lparr>t_paths := (t_paths st1)[nat (t_count st1) := Some path], t_count := t_count st1 + 1\<rparr>)
         else None)"

definition haveFiles :: "file_storage \<Rightarrow> int" where
  "haveFiles st = (if t_cur_unsorted st < t_count st then t_cur_unsorted st else - 1)"

definition getLastUnsortFile :: "file_storage \<Rightarrow> (string \<times> file_storage) option" where
  "getLastUnsortFile st =
     (let cur = t_cur_unsorted st + 1
      in if 0 < cur \<and> nat (cur - 1) < length (t_paths st)
         then map_option (\<lambda>path. (path, st\<lparr>t_cur_unsorted := cur\<rparr>)) (t_paths st ! nat (cur - 1))
         else None)"

subsection \<open>Time\<close>

text \<open>
  \<^verbatim>\<open>(int64_t) start.tv_sec * 1e9 + start.tv_nsec\<close> is computed in \<^verbatim>\<open>double\<close>: the product and the sum are rounded to
  53 significant bits, to nearest with ties to even, before the conversion to \<^verbatim>\<open>int64_t\<close>.
\<close>

definition nanoseconds :: "timespec \<Rightarrow> int option" where
  "nanoseconds ts =
     (let x = to_double (to_double (to_double (fst ts) * 10 ^ 9) + to_double (snd ts))
      in if - (2 ^ 63) \<le> x \<and> x < 2 ^ 63 then Some x else None)"

definition calculate_time_difference :: "timespec \<Rightarrow> timespec \<Rightarrow> int option" where
  "calculate_time_difference start end =
     do { s \<leftarrow> nanoseconds start;
          e \<leftarrow> nanoseconds end;
          if - (2 ^ 63) \<le> e - s \<and> e - s < 2 ^ 63 then Some (e - s) else None }"

definition clock_gettime :: "memory \<Rightarrow> timespec \<times> memory" where
  "clock_gettime g = (g_clock g (g_ticks g), g\<lparr>g_ticks := g_ticks g + 1\<rparr>)"

definition set_ctx :: "nat \<Rightarrow> my_context \<Rightarrow> memory \<Rightarrow> memory" where
  "set_ctx i x g = g\<lparr>g_ctx := (g_ctx g)(i \<mapsto> x)\<rparr>"

text \<open>What \<^verbatim>\<open>malloc\<close> leaves in \<^verbatim>\<open>work_time\<close>, \<^verbatim>\<open>start_time\<close> and \<^verbatim>\<open>end_time\<close>, which nothing initialises.\<close>

type_synonym leftover = "int \<times> timespec \<times> timespec"

definition my_context_new :: "leftover \<Rightarrow> string \<Rightarrow> int \<Rightarrow> my_context" where
  "my_context_new left name time_quantum =
     (let (work, start, stop) = left in
      \<lparr>x_name = name, x_filename = [], x_curData = None, x_work_time = work, x_time_quantum = time_quantum,
       x_start_time = start, x_end_time = stop\<rparr>)"

definition int64_add :: "int \<Rightarrow> int \<Rightarrow> int option" where
  "int64_add a b = (if - (2 ^ 63) \<le> a + b \<and> a + b < 2 ^ 63 then Some (a + b) else None)"

definition calculate_coroutine_time :: "nat \<Rightarrow> memory \<Rightarrow> memory option" where
  "calculate_coroutine_time i g =
     do { let (now, g1) = clock_gettime g;
          x \<leftarrow> g_ctx g i;
          d \<leftarrow> calculate_time_difference (x_start_time x) now;
          w \<leftarrow> int64_add (x_work_time x) d;
          Some (set_ctx i (x\<lparr>x_end_time := now, x_work_time := w\<rparr>) g1) }"

definition within_quantum :: "nat \<Rightarrow> memory \<Rightarrow> (bool \<times> memory) option" where
  "within_quantum i g =
     do { let (now, g1) = clock_gettime g;
          x \<leftarrow> g_ctx g i;
          d \<leftarrow> calculate_time_difference (x_start_time x) now;
          Some (d < x_time_quantum x, set_ctx i (x\<lparr>x_end_time := now\<rparr>) g1) }"

definition start_time :: "nat \<Rightarrow> memory \<Rightarrow> memory option" where
  "start_time i g =
     do { let (now, g1) = clock_gettime g;
          x \<leftarrow> g_ctx g i;
          Some (set_ctx i (x\<lparr>x_start_time := now\<rparr>) g1) }"

definition yield :: "nat \<Rightarrow> (memory, unit) prog" where
  "yield i = pbind (state (within_quantum i)) (\<lambda>within.
     if within then Return ()
     else pbind (modify (calculate_coroutine_time i)) (\<lambda>_. pbind switch (\<lambda>_. modify (start_time i))))"

subsection \<open>Quicksort\<close>

definition element :: "nat \<Rightarrow> int \<Rightarrow> memory \<Rightarrow> int option" where
  "element p j g =
     do { f \<leftarrow> g_heap g p;
          if 0 \<le> j \<and> nat j < length (f_data f) then Some (f_data f ! nat j) else None }"

definition swap :: "nat \<Rightarrow> int \<Rightarrow> int \<Rightarrow> memory \<Rightarrow> memory option" where
  "swap p a b g =
     do { f \<leftarrow> g_heap g p;
          x \<leftarrow> element p a g;
          y \<leftarrow> element p b g;
          Some (g\<lparr>g_heap := (g_heap g)(p \<mapsto> f\<lparr>f_data := (f_data f)[nat a := y, nat b := x]\<rparr>)\<rparr>) }"

text \<open>The loop of \<^verbatim>\<open>partition\<close> from \<open>j\<close> on, with \<open>n\<close> iterations left.\<close>

primrec partition_loop :: "nat \<Rightarrow> nat \<Rightarrow> int \<Rightarrow> nat \<Rightarrow> int \<Rightarrow> int \<Rightarrow> (memory, int) prog" where
  "partition_loop c p pivot 0 i j = Return i"
| "partition_loop c p pivot (Suc n) i j =
     pbind (get (element p j)) (\<lambda>x.
       if x < pivot
       then pbind (modify (swap p (i + 1) j)) (\<lambda>_. pbind (yield c) (\<lambda>_. partition_loop c p pivot n (i + 1) (j + 1)))
       else pbind (yield c) (\<lambda>_. partition_loop c p pivot n i (j + 1)))"

definition partition :: "nat \<Rightarrow> nat \<Rightarrow> int \<Rightarrow> int \<Rightarrow> (memory, int) prog" where
  "partition c p low high =
     pbind (get (element p high)) (\<lambda>pivot.
     pbind (partition_loop c p pivot (nat (high - low)) (low - 1) low) (\<lambda>i.
     pbind (modify (swap p (i + 1) high)) (\<lambda>_. Return (i + 1))))"

primrec quicksort :: "nat \<Rightarrow> nat \<Rightarrow> nat \<Rightarrow> int \<Rightarrow> int \<Rightarrow> (memory, unit) prog" where
  "quicksort 0 c p low high = undefined_behaviour"
| "quicksort (Suc n) c p low high =
     (if low < high
      then pbind (partition c p low high) (\<lambda>pi.
           pbind (quicksort n c p low (pi - 1)) (\<lambda>_. quicksort n c p (pi + 1) high))
      else Return ())"

subsection \<open>Reading a file\<close>

function count_integers :: "string \<Rightarrow> int option" where
  "count_integers s = (case scan_int s of
       No_match \<Rightarrow> Some 0
     | Out_of_range \<Rightarrow> None
     | Scanned x r \<Rightarrow> do { n \<leftarrow> count_integers r; if n < INT_MAX then Some (n + 1) else None })"
  by auto
termination by (relation "measure length") (auto dest: scan_number_shorter)

declare count_integers.simps [simp del]

primrec read_array :: "nat \<Rightarrow> string \<Rightarrow> int list option" where
  "read_array 0 s = Some []"
| "read_array (Suc n) s = (case scan_int s of
       Scanned x r \<Rightarrow> do { xs \<leftarrow> read_array n r; Some (x # xs) }
     | _ \<Rightarrow> None)"

definition read_file_content :: "nat \<Rightarrow> int \<Rightarrow> memory \<Rightarrow> memory option" where
  "read_file_content i dataInd g =
     do { x \<leftarrow> g_ctx g i;
          content \<leftarrow> g_fs g (x_filename x);
          count \<leftarrow> count_integers content;
          xs \<leftarrow> read_array (nat count) content;
          let p = g_fresh g;
          let st = g_storage g;
          if 0 \<le> dataInd \<and> nat dataInd < length (t_filesData st)
          then Some (set_ctx i (x\<lparr>x_curData := Some p\<rparr>)
            (g\<lparr>g_fresh := p + 1, g_heap := (g_heap g)(p \<mapsto> \<lparr>f_data = xs, f_size = count\<rparr>),
               g_storage := st\<lparr>t_filesData := (t_filesData st)[nat dataInd := Some p]\<rparr>\<rparr>))
          else None }"

subsection \<open>The coroutine\<close>

text \<open>The part of the loop of \<^verbatim>\<open>coroutine_func_f\<close> before \<^verbatim>\<open>quicksort\<close>, where the coroutine cannot yield; it leaves the
  array to sort.\<close>

definition take_file :: "nat \<Rightarrow> int \<Rightarrow> memory \<Rightarrow> ((nat \<times> int) \<times> memory) option" where
  "take_file i curInd g =
     do { (filename, st) \<leftarrow> getLastUnsortFile (g_storage g);
          x \<leftarrow> g_ctx g i;
          g1 \<leftarrow> start_time i (set_ctx i (x\<lparr>x_filename := filename\<rparr>) (g\<lparr>g_storage := st\<rparr>));
          g2 \<leftarrow> read_file_content i curInd g1;
          y \<leftarrow> g_ctx g2 i;
          p \<leftarrow> x_curData y;
          f \<leftarrow> g_heap g2 p;
          Some ((p, f_size f), g2) }"

primrec coroutine_loop :: "nat \<Rightarrow> nat \<Rightarrow> int \<Rightarrow> (memory, unit) prog" where
  "coroutine_loop 0 i curInd = undefined_behaviour"
| "coroutine_loop (Suc n) i curInd =
     (if curInd = - 1 then Return ()
      else pbind (state (take_file i curInd)) (\<lambda>(p, size).
           pbind (quicksort (nat size + 1) i p 0 (size - 1)) (\<lambda>_.
           pbind (get (\<lambda>g. Some (haveFiles (g_storage g)))) (coroutine_loop n i))))"

definition coroutine_func_f :: "nat \<Rightarrow> nat \<Rightarrow> (memory, int) prog" where
  "coroutine_func_f n i =
     pbind (get (\<lambda>g. Some (haveFiles (g_storage g)))) (\<lambda>curInd.
     pbind (coroutine_loop n i curInd) (\<lambda>_.
     pbind (modify (calculate_coroutine_time i)) (\<lambda>_. Return 0)))"

subsection \<open>Merging\<close>

text \<open>The arrays as \<^verbatim>\<open>files->filesData[i]\<close>, and one round over all of them: \<^verbatim>\<open>done\<close>, \<^verbatim>\<open>min_val\<close>, \<^verbatim>\<open>min_ind\<close>.\<close>

definition data_file :: "memory \<Rightarrow> nat \<Rightarrow> int_file option" where
  "data_file g i =
     (if i < length (t_filesData (g_storage g))
      then do { p \<leftarrow> t_filesData (g_storage g) ! i; g_heap g p } else None)"

primrec find_min :: "memory \<Rightarrow> nat \<Rightarrow> int list \<Rightarrow> bool \<times> int \<times> int \<Rightarrow> (bool \<times> int \<times> int) option" where
  "find_min g i [] acc = Some acc"
| "find_min g i (k # ks) acc =
     do { f \<leftarrow> data_file g i;
          if k < f_size f then
            if 0 \<le> k \<and> nat k < length (f_data f) then
              let v = f_data f ! nat k; (_, min_val, min_ind) = acc
              in find_min g (i + 1) ks (if v < min_val then (False, v, int i) else (False, min_val, min_ind))
            else None
          else find_min g (i + 1) ks acc }"

partial_function (option) merge_loop :: "memory \<Rightarrow> int list \<Rightarrow> string \<Rightarrow> string option" where
  "merge_loop g indices out =
     do { (finished, min_val, min_ind) \<leftarrow> find_min g 0 indices (True, INT_MAX, - 1);
          if finished then Some out
          else if 0 \<le> min_ind \<and> nat min_ind < length indices
          then merge_loop g (indices[nat min_ind := indices ! nat min_ind + 1]) (out @ show_int min_val @ '' '')
          else None }"

text \<open>\<open>writable\<close> tells whether \<^verbatim>\<open>fopen(..., "w")\<close> succeeds, otherwise the program exits: the result is the exit status
  or the memory. \<^verbatim>\<open>file_data_list[0]\<close> must exist if there is a file.\<close>

definition merge_sorted_files :: "(string \<Rightarrow> bool) \<Rightarrow> nat list \<Rightarrow> nat \<Rightarrow> string \<Rightarrow> memory \<Rightarrow> (int + memory) option" where
  "merge_sorted_files writable m_ctxs num_files output_filename g =
     (if \<not> writable output_filename then Some (Inl 1)
      else if num_files = 0 \<or> m_ctxs \<noteq> [] \<and> g_ctx g (hd m_ctxs) \<noteq> None
      then do { out \<leftarrow> merge_loop g (replicate num_files 0) [];
                Some (Inr (g\<lparr>g_fs := (g_fs g)(output_filename \<mapsto> out)\<rparr>)) }
      else None)"

subsection \<open>main\<close>

primrec add_paths :: "file_storage \<Rightarrow> string list \<Rightarrow> file_storage option" where
  "add_paths st [] = Some st"
| "add_paths st (x # xs) = do { st' \<leftarrow> addPath st x; add_paths st' xs }"

definition c_ldiv :: "int \<Rightarrow> int \<Rightarrow> int option" where
  "c_ldiv a b = (if b = 0 \<or> a sdiv b \<ge> 2 ^ 63 then None else Some (a sdiv b))"

definition long_mul :: "int \<Rightarrow> int \<Rightarrow> int option" where
  "long_mul a b = (if - (2 ^ 63) \<le> a * b \<and> a * b < 2 ^ 63 then Some (a * b) else None)"

definition sched_zero :: "'g \<Rightarrow> 'g sched" where
  "sched_zero g = \<lparr>s_coros = Map.empty, s_links = Map.empty, s_list = None, s_next = 0, s_this = No_coro,
     s_waiting = False, s_switch_count = 0, s_glob = g\<rparr>"

definition coro_name :: "nat \<Rightarrow> string" where
  "coro_name i = ''coro_'' @ show_int (int i)"

text \<open>Starting the coroutines \<open>i\<close>, ..., \<open>i + n - 1\<close>; the fuel of their bodies is the number of files and one.\<close>

primrec start_coroutines ::
  "(nat \<Rightarrow> leftover) \<Rightarrow> nat \<Rightarrow> nat \<Rightarrow> int \<Rightarrow> memory sched \<Rightarrow> nat list \<Rightarrow> (nat list \<times> memory sched) option" where
  "start_coroutines left 0 i time_quantum s m_ctxs = Some (m_ctxs, s)"
| "start_coroutines left (Suc n) i time_quantum s m_ctxs =
     (let st = g_storage (s_glob s)
      in if haveFiles st \<noteq> - 1
         then do { let m_ctx = my_context_new (left i) (coro_name i) time_quantum;
                   let s1 = s\<lparr>s_glob := set_ctx i m_ctx (s_glob s)\<rparr>;
                   (c, s2) \<leftarrow> coro_new (coroutine_func_f (nat (t_count st) + 1) i) s1;
                   start_coroutines left n (i + 1) time_quantum s2 (m_ctxs @ [i]) }
         else start_coroutines left n (i + 1) time_quantum s m_ctxs)"

primrec free_contexts :: "nat list \<Rightarrow> memory \<Rightarrow> memory option" where
  "free_contexts [] g = Some g"
| "free_contexts (i # is) g =
     (if g_ctx g i = None then None else free_contexts is (g\<lparr>g_ctx := (g_ctx g)(i := None)\<rparr>))"

definition fileFree :: "nat option \<Rightarrow> memory \<Rightarrow> memory option" where
  "fileFree fileInfo g =
     do { p \<leftarrow> fileInfo; if g_heap g p = None then None else Some (g\<lparr>g_heap := (g_heap g)(p := None)\<rparr>) }"

primrec free_files :: "nat option list \<Rightarrow> memory \<Rightarrow> memory option" where
  "free_files [] g = Some g"
| "free_files (x # xs) g = do { g' \<leftarrow> fileFree x g; free_files xs g' }"

definition fileStorageCleanup :: "file_storage \<Rightarrow> file_storage option" where
  "fileStorageCleanup st =
     (if None \<in> set (take (nat (t_count st)) (t_paths st)) then None
      else Some (st\<lparr>t_paths := [], t_filesData := []\<rparr>))"

text \<open>The two parts of \<^verbatim>\<open>main\<close>: up to the start of the coroutines, and after they all ended. The first reading of the
  clock is \<^verbatim>\<open>total_start_time\<close>.\<close>

definition main_start :: "(nat \<Rightarrow> leftover) \<Rightarrow> string list \<Rightarrow> (string \<Rightarrow> string option) \<Rightarrow> (nat \<Rightarrow> timespec) \<Rightarrow>
    (nat list \<times> memory sched) option" where
  "main_start left argv fs clock =
     do { ms \<leftarrow> atol (argv ! 1);
          target_latency \<leftarrow> long_mul ms 1000;
          coroutines_num \<leftarrow> atoi (argv ! 2);
          time_quantum \<leftarrow> c_ldiv target_latency coroutines_num;
          f_stor \<leftarrow> add_paths file_storage_new (drop 3 argv);
          let g = \<lparr>g_fs = fs, g_clock = clock, g_ticks = 1,
                   g_storage = f_stor\<lparr>t_filesData := replicate (nat (t_count f_stor)) None\<rparr>,
                   g_heap = Map.empty, g_fresh = 0, g_ctx = Map.empty\<rparr>;
          start_coroutines left (nat (min coroutines_num (t_count f_stor))) 0 time_quantum (coro_sched_init (sched_zero g)) [] }"

definition total_time :: "memory \<Rightarrow> (int \<times> memory) option" where
  "total_time g =
     (let (now, g') = clock_gettime g
      in map_option (\<lambda>d. (d sdiv 1000, g')) (calculate_time_difference (g_clock g 0) now))"

definition main_end :: "(string \<Rightarrow> bool) \<Rightarrow> nat \<Rightarrow> nat list \<Rightarrow> memory \<Rightarrow> (int + memory) option" where
  "main_end writable num_files m_ctxs g =
     do { (_, g0) \<leftarrow> total_time g;
          r \<leftarrow> merge_sorted_files writable m_ctxs num_files ''output.txt'' g0;
          case r of
            Inl status \<Rightarrow> Some (Inl status)
          | Inr g1 \<Rightarrow>
              do { (_, g2) \<leftarrow> total_time g1;
                   g3 \<leftarrow> free_contexts m_ctxs g2;
                   g4 \<leftarrow> free_files (take num_files (t_filesData (g_storage g3))) g3;
                   st \<leftarrow> fileStorageCleanup (g_storage g4);
                   Some (Inr (g4\<lparr>g_storage := st\<rparr>)) } }"

text \<open>The exit status, and the memory if \<^verbatim>\<open>main\<close> returns from its last line.\<close>

definition sort_main :: "(nat \<Rightarrow> leftover) \<Rightarrow> (string \<Rightarrow> bool) \<Rightarrow> string list \<Rightarrow> (string \<Rightarrow> string option) \<Rightarrow> (nat \<Rightarrow> timespec) \<Rightarrow>
    (int \<times> memory option) option" where
  "sort_main left writable argv fs clock =
     (if length argv < 4 then Some (1, None)
      else do { (m_ctxs, s) \<leftarrow> main_start left argv fs clock;
                (_, s') \<leftarrow> wait_all s [];
                r \<leftarrow> main_end writable (length argv - 3) m_ctxs (s_glob s');
                case r of Inl status \<Rightarrow> Some (status, None) | Inr g \<Rightarrow> Some (0, Some g) })"

end
