(* ===== verification/Coro_Sched_Correct.thy ===== *)
theory Coro_Sched_Correct
  imports Coro_Sort
begin

section \<open>The scheduler for arbitrary coroutines\<close>

text \<open>
  The contract of theory \<open>Coro_Sched\<close> for coroutines that rely on nothing and guarantee nothing: bodies that are
  defined whatever the memory holds when they run. Then \<^verbatim>\<open>coro_sched_wait\<close> of \<^verbatim>\<open>hw1/libcoro.c\<close> always returns.
\<close>

interpretation any: coroutine_system "\<lambda>_ _ _. True" "\<lambda>_ _ _. True" "\<lambda>_ _ _. True" "\<lambda>_. True"
  by unfold_locales simp_all

definition well_defined :: "'g sched \<Rightarrow> nat \<Rightarrow> bool" where
  "well_defined s c \<longleftrightarrow> (\<exists>k. s_coros s c = Some k \<and>
     (\<forall>g. wp (\<lambda>_ _. True) (\<lambda>_ _. True) (c_ctx k) (\<lambda>_ _. True) g))"

lemma well_defined_ok: "well_defined s c \<Longrightarrow> coro_ok (\<lambda>_ _ _. True) (\<lambda>_ _ _. True) (\<lambda>_ _ _. True) s c"
  by (auto simp: well_defined_def coro_ok_def)

text \<open>Two coroutines, the first yields before it returns.\<close>

definition example_sched :: "unit sched option" where
  "example_sched =
     do { (_, s1) \<leftarrow> coro_new (pbind switch (\<lambda>_. Return 5)) (coro_sched_init (sched_zero ()));
          (_, s2) \<leftarrow> coro_new (Return 7) s1;
          Some s2 }"

lemma example_sched_ok:
  "\<exists>s. example_sched = Some s \<and> sched_list s [1, 0] \<and> \<not> s_waiting s \<and> (\<forall>c \<in> set [1, 0]. well_defined s c)"
proof -
  let ?s = "coro_sched_init (sched_zero ())"
  let ?b = "pbind switch (\<lambda>_. Return 5) :: (unit, int) prog"
  have "sched_list ?s []" by (simp add: coro_sched_init_def sched_zero_def sched_list_def linked_Nil)
  from coro_new_list [OF this, of ?b] obtain s1 where
    s1: "coro_new ?b ?s = Some (0, s1)" "sched_list s1 [0]" "\<not> s_waiting s1" "s_next s1 = 1"
      "s_coros s1 = [0 \<mapsto> \<lparr>c_ret = 0, c_ctx = ?b, c_is_finished = False, c_switch_count = 0\<rparr>]"
    by (auto simp: coro_sched_init_def sched_zero_def)
  from coro_new_list [OF s1(2), of "Return 7"] s1 obtain s2 where
    s2: "coro_new (Return 7) s1 = Some (1, s2)" "sched_list s2 [1, 0]" "\<not> s_waiting s2"
      "s_coros s2 = (s_coros s1)(1 \<mapsto> \<lparr>c_ret = 0, c_ctx = Return 7, c_is_finished = False, c_switch_count = 0\<rparr>)"
    by auto
  have "example_sched = Some s2" using s1(1) s2(1) by (simp add: example_sched_def)
  moreover have "well_defined s2 1" "well_defined s2 0" using s2(4) s1(5) by (simp_all add: well_defined_def switch_def)
  ultimately show ?thesis using s2(2,3) by auto
qed

text \<open>C9: Waiting for coroutines until none is left returns, whatever the order in which they yield: every
  coroutine of the list is returned exactly once and released, and the list is empty.\<close>

theorem wait_all_returns:
  assumes "sched_list s xs" "\<not> s_waiting s" "\<forall>c \<in> set xs. well_defined s c"
  shows "\<exists>rs s'. wait_all s [] = Some (rs, s') \<and> distinct rs \<and> set rs = set xs \<and>
    s_list s' = None \<and> (\<forall>c \<in> set xs. s_coros s' c = None)"
proof -
  have "\<forall>c \<in> set xs. coro_ok (\<lambda>_ _ _. True) (\<lambda>_ _ _. True) (\<lambda>_ _ _. True) s c" using assms(3) well_defined_ok by blast
  from any.wait_all_ok [OF assms(1,2) this, of "[]"] obtain rs s' where
    s': "wait_all s [] = Some (rs, s')" "mset rs = mset xs" "sched_list s' []" "\<forall>c \<in> set xs. s_coros s' c = None"
    by auto
  moreover have "distinct xs" using assms(1) by (simp add: sched_list_def linked_def)
  ultimately show ?thesis
    by (metis linked_Nil mset_eq_imp_distinct_iff mset_eq_setD sched_list_def)
qed

theorem wait_all_returns_witness:
  "\<exists>s rs s'. example_sched = Some s \<and> wait_all s [] = Some (rs, s') \<and> set rs = {0, 1} \<and> s_list s' = None"
  using example_sched_ok wait_all_returns [of _ "[1, 0]"] by fastforce

text \<open>\<^verbatim>\<open>coro_sched_wait\<close> on a list that is not empty returns one of its coroutines, finished and taken off the
  list; the others stay, in their order, and none of them is lost.\<close>

lemma coro_sched_wait_returns_finished:
  assumes "sched_list s xs" "\<not> s_waiting s" "\<forall>c \<in> set xs. well_defined s c" "xs \<noteq> []"
  shows "\<exists>c us vs s'. coro_sched_wait s = Some (Some c, s') \<and> coro_is_finished c s' = Some True \<and>
    xs = us @ c # vs \<and> sched_list s' (us @ vs) \<and> (\<forall>d \<in> set xs. coro_status d s' \<noteq> None)"
proof -
  have "\<forall>c \<in> set xs. coro_ok (\<lambda>_ _ _. True) (\<lambda>_ _ _. True) (\<lambda>_ _ _. True) s c" using assms(3) well_defined_ok by blast
  from any.coro_sched_wait_ok [OF assms(1,2) this assms(4)] obtain c us vs s' where
    s': "coro_sched_wait s = Some (Some c, s')" "xs = us @ c # vs" "sched_list s' (us @ vs)" "\<not> unfinished s' c"
      "\<forall>d \<in> set xs. coro_ok (\<lambda>_ _ _. True) (\<lambda>_ _ _. True) (\<lambda>_ _ _. True) s' d" by blast
  then have alive: "\<forall>d \<in> set xs. s_coros s' d \<noteq> None" by (auto simp: coro_ok_def)
  then have "coro_is_finished c s' = Some True"
    using s'(2,4) by (auto simp: coro_is_finished_def unfinished_def)
  moreover have "\<forall>d \<in> set xs. coro_status d s' \<noteq> None" using alive by (simp add: coro_status_def)
  ultimately show ?thesis using s'(1-3) by blast
qed

lemma coro_sched_wait_returns_finished_example:
  "\<exists>s c s'. example_sched = Some s \<and> coro_sched_wait s = Some (Some c, s') \<and> coro_is_finished c s' = Some True"
  using example_sched_ok coro_sched_wait_returns_finished [of _ "[1, 0]"] by fastforce

end
