(* ===== verification/Coro_Time.thy ===== *)
theory Coro_Time
  imports Coro_Sort
begin

section \<open>Measuring time in double\<close>

text \<open>
  \<^verbatim>\<open>calculate_time_difference\<close> of \<^verbatim>\<open>hw1/solution.c\<close>: it is defined for every reading of a clock that runs less than
  68 years, and exact up to 104 days; then the rounding to \<^verbatim>\<open>double\<close> shows.
\<close>

subsection \<open>Readings of the clock\<close>

definition clock_ok :: "timespec \<Rightarrow> bool" where
  "clock_ok ts \<longleftrightarrow> 0 \<le> fst ts \<and> fst ts < 2 ^ 31 \<and> 0 \<le> snd ts \<and> snd ts < 10 ^ 9"

definition elapsed :: "timespec \<Rightarrow> int" where
  "elapsed ts = fst ts * 10 ^ 9 + snd ts"

text \<open>The product with \<^verbatim>\<open>1e9\<close> is exact, because a second has two to the ninth as a factor: only the sum is rounded.\<close>

definition rounded :: "timespec \<Rightarrow> int" where
  "rounded ts = to_double (elapsed ts)"

lemma elapsed_bound: "clock_ok ts \<Longrightarrow> 0 \<le> elapsed ts \<and> elapsed ts < 2 ^ 62"
  by (auto simp: clock_ok_def elapsed_def)

lemma rounded_bound: "clock_ok ts \<Longrightarrow> 0 \<le> rounded ts \<and> rounded ts \<le> 2 ^ 62"
  using elapsed_bound [of ts] to_double_nonneg [of "elapsed ts" 62] by (simp add: rounded_def)

lemma nanoseconds_ok:
  assumes "clock_ok ts"
  shows "nanoseconds ts = Some (rounded ts)"
proof -
  have ts: "0 \<le> fst ts" "fst ts < 2 ^ 31" "0 \<le> snd ts" "snd ts < 10 ^ 9" using assms by (auto simp: clock_ok_def)
  then have d: "to_double (fst ts) = fst ts" "to_double (snd ts) = snd ts" by (auto intro!: to_double_exact)
  have "to_double ((fst ts * 5 ^ 9) * 2 ^ 9) = (fst ts * 5 ^ 9) * 2 ^ 9" using ts by (intro to_double_shift) auto
  then have "to_double (fst ts * 10 ^ 9) = fst ts * 10 ^ 9" by (simp add: mult.assoc)
  then have "nanoseconds ts = (if - (2 ^ 63) \<le> rounded ts \<and> rounded ts < 2 ^ 63 then Some (rounded ts) else None)"
    by (simp add: nanoseconds_def d rounded_def elapsed_def Let_def)
  then show ?thesis using rounded_bound [OF assms] by simp
qed

lemma time_difference_ok:
  assumes "clock_ok a" "clock_ok b"
  shows "calculate_time_difference a b = Some (rounded b - rounded a)"
  using rounded_bound [OF assms(1)] rounded_bound [OF assms(2)] assms
  by (simp add: calculate_time_difference_def nanoseconds_ok)

lemma nanoseconds_exact:
  assumes "clock_ok ts" "fst ts * 10 ^ 9 + snd ts < 2 ^ 53"
  shows "nanoseconds ts = Some (fst ts * 10 ^ 9 + snd ts)"
  using assms elapsed_bound [OF assms(1)] to_double_exact [of "elapsed ts"]
  by (simp add: nanoseconds_ok rounded_def elapsed_def)

text \<open>A clock that never runs backwards, as \<^verbatim>\<open>CLOCK_MONOTONIC\<close> promises: neither do the rounded readings.\<close>

definition clock_runs :: "(nat \<Rightarrow> timespec) \<Rightarrow> bool" where
  "clock_runs clock \<longleftrightarrow> (\<forall>n. clock_ok (clock n)) \<and> (\<forall>m n. m \<le> n \<longrightarrow> elapsed (clock m) \<le> elapsed (clock n))"

lemma clock_runs_ok: "clock_runs clock \<Longrightarrow> clock_ok (clock n)"
  by (simp add: clock_runs_def)

lemma clock_runs_mono: "clock_runs clock \<Longrightarrow> m \<le> n \<Longrightarrow> rounded (clock m) \<le> rounded (clock n)"
  unfolding rounded_def using elapsed_bound [OF clock_runs_ok] by (intro to_double_mono) (auto simp: clock_runs_def)

subsection \<open>The time a coroutine worked\<close>

text \<open>
  \<^verbatim>\<open>work_time\<close> starts with what \<^verbatim>\<open>malloc\<close> left and only grows by disjoint intervals of a clock that does not run backwards.
  So it stays below the start value's bound plus the reading at which the last interval began, and no addition overflows.
  \<open>ready\<close> is that bound before an interval begins, \<open>running\<close> the one inside an interval.
\<close>

definition can_end :: "my_context \<Rightarrow> bool" where
  "can_end x \<longleftrightarrow> - (2 ^ 62) < x_work_time x \<and> x_work_time x < 2 ^ 62 + rounded (x_start_time x) \<and> clock_ok (x_start_time x)"

definition ready :: "memory \<Rightarrow> my_context \<Rightarrow> bool" where
  "ready g x \<longleftrightarrow> - (2 ^ 62) < x_work_time x \<and> clock_ok (x_start_time x) \<and>
     (\<forall>k \<ge> g_ticks g. x_work_time x < 2 ^ 62 + rounded (g_clock g k))"

definition running :: "memory \<Rightarrow> my_context \<Rightarrow> bool" where
  "running g x \<longleftrightarrow> can_end x \<and> (\<forall>k \<ge> g_ticks g. rounded (x_start_time x) \<le> rounded (g_clock g k))"

lemma running_ready: "running g x \<Longrightarrow> ready g x"
  by (force simp: running_def ready_def can_end_def)

lemma running_can_end: "running g x \<Longrightarrow> can_end x"
  by (simp add: running_def)

lemma ready_start:
  assumes "ready g x" "clock_runs (g_clock g)" "x_work_time y = x_work_time x" "x_start_time y = g_clock g (g_ticks g)"
    and "g_ticks g' = g_ticks g + 1" "g_clock g' = g_clock g"
  shows "running g' y"
  using assms clock_runs_mono [OF assms(2)] clock_runs_ok [OF assms(2)]
  by (auto simp: ready_def running_def can_end_def)

lemma can_end_adds:
  assumes "can_end x" "clock_ok now"
  shows "int64_add (x_work_time x) (rounded now - rounded (x_start_time x)) =
    Some (x_work_time x + (rounded now - rounded (x_start_time x)))"
  using assms rounded_bound [of now] rounded_bound [of "x_start_time x"] by (auto simp: can_end_def int64_add_def)

lemma running_adds:
  assumes "running g x" "clock_runs (g_clock g)" "x_start_time y = x_start_time x"
    and "x_work_time y = x_work_time x + (rounded (g_clock g (g_ticks g)) - rounded (x_start_time x))"
    and "g_ticks g' = g_ticks g + 1" "g_clock g' = g_clock g"
  shows "ready g' y"
proof -
  have "rounded (x_start_time x) \<le> rounded (g_clock g (g_ticks g))" using assms(1) by (simp add: running_def)
  moreover have "rounded (g_clock g (g_ticks g)) \<le> rounded (g_clock g k)" if "g_ticks g + 1 \<le> k" for k
    using that by (intro clock_runs_mono [OF assms(2)]) simp
  ultimately show ?thesis using assms by (force simp: ready_def running_def can_end_def)
qed

lemma running_later: "running g x \<Longrightarrow> g_ticks g \<le> g_ticks g' \<Longrightarrow> g_clock g' = g_clock g \<Longrightarrow> running g' x"
  by (simp add: running_def)

lemma ready_later: "ready g x \<Longrightarrow> g_ticks g \<le> g_ticks g' \<Longrightarrow> g_clock g' = g_clock g \<Longrightarrow> ready g' x"
  by (simp add: ready_def)

text \<open>What \<^verbatim>\<open>malloc\<close> must not leave: a time of work close to the ends of the 64 bits, or a start that is no time of the clock.\<close>

definition leftover_ok :: "leftover \<Rightarrow> bool" where
  "leftover_ok l \<longleftrightarrow> \<bar>fst l\<bar> < 2 ^ 62 \<and> clock_ok (fst (snd l))"

lemma my_context_new_ok:
  assumes "leftover_ok l" "\<And>n. clock_ok (g_clock g n)"
  shows "ready g (my_context_new l name q)" "can_end (my_context_new l name q)"
proof -
  have r: "0 \<le> rounded (fst (snd l))" "0 \<le> rounded (g_clock g k)" for k
    using assms rounded_bound by (auto simp: leftover_ok_def)
  have w: "- (2 ^ 62) < fst l" "fst l < 2 ^ 62" using assms(1) by (auto simp: leftover_ok_def abs_less_iff)
  have x: "x_work_time (my_context_new l name q) = fst l" "x_start_time (my_context_new l name q) = fst (snd l)"
    by (cases l; simp add: my_context_new_def)+
  have "fst l < 2 ^ 62 + rounded (g_clock g k)" for k using w(2) r(2) [of k] by linarith
  then show "ready g (my_context_new l name q)"
    unfolding ready_def x using w(1) assms(1) by (simp add: leftover_ok_def)
  show "can_end (my_context_new l name q)"
    unfolding can_end_def x using w assms(1) r(1) by (auto simp: leftover_ok_def)
qed

subsection \<open>Exactness\<close>

lemma time_difference_rounds: "calculate_time_difference (9007200, 0) (9007200, 1) = Some 0"
proof -
  have "bit_length 9007200000000000 = Suc 53" "bit_length 9007200000000001 = Suc 53"
    by (rule bit_length_eq, simp, simp)+
  then have "round_nat 9007200000000000 = 9007200000000000" "round_nat 9007200000000001 = 9007200000000000"
    by (simp_all add: round_nat_def)
  moreover have "round_nat 9007200 = 9007200" "round_nat 1 = 1" by (rule round_nat_exact, simp)+
  ultimately show ?thesis
    by (simp add: calculate_time_difference_def nanoseconds_def to_double_def)
qed

text \<open>C38: Up to 2 to the 53 nanoseconds since the clock's start (104 days), the difference of two readings is exact;
  beyond, two readings that differ by one nanosecond can give 0.\<close>

theorem time_difference_exact:
  assumes "clock_ok a" "clock_ok b" "fst a * 10 ^ 9 + snd a < 2 ^ 53" "fst b * 10 ^ 9 + snd b < 2 ^ 53"
  shows "calculate_time_difference a b = Some ((fst b - fst a) * 10 ^ 9 + (snd b - snd a)) \<and>
    calculate_time_difference (9007200, 0) (9007200, 1) = Some 0"
proof
  have "0 \<le> fst a * 10 ^ 9 + snd a" "0 \<le> fst b * 10 ^ 9 + snd b" using assms(1,2) by (auto simp: clock_ok_def)
  then show "calculate_time_difference a b = Some ((fst b - fst a) * 10 ^ 9 + (snd b - snd a))"
    using assms by (simp add: calculate_time_difference_def nanoseconds_exact algebra_simps)
  show "calculate_time_difference (9007200, 0) (9007200, 1) = Some 0"
    using time_difference_rounds .
qed

theorem time_difference_exact_witness:
  "calculate_time_difference (1, 999999999) (2, 1) = Some ((2 - 1) * 10 ^ 9 + (1 - 999999999))"
  using time_difference_exact [of "(1, 999999999)" "(2, 1)"] by (simp add: clock_ok_def)

end
