(* ===== verification/Coro_Sort_Inv.thy ===== *)
theory Coro_Sort_Inv
  imports Coro_Time
begin

section \<open>What the sorting coroutines guarantee each other\<close>

text \<open>
  The invariant of the memory between two actions of any coroutine of \<^verbatim>\<open>hw1/solution.c\<close>: every array read so far
  holds a permutation of its file and is sorted or is the current one of exactly one coroutine. A coroutine
  touches only its own context, its current array and the next file of the storage; what it relies on
  and guarantees make the model an instance of the locale \<open>coroutine_system\<close>.
\<close>

subsection \<open>The invariant\<close>

text \<open>A job: the number of coroutines, the files, and the numbers they contain.\<close>

record job =
  j_threads :: nat
  j_paths :: "string list"
  j_inputs :: "int list list"

definition integers :: "string \<Rightarrow> int list option" where
  "integers s = do { n \<leftarrow> count_integers s; read_array (nat n) s }"

definition inputs_ok :: "job \<Rightarrow> (string \<Rightarrow> string option) \<Rightarrow> bool" where
  "inputs_ok J fs \<longleftrightarrow>
     list_all2 (\<lambda>p xs. \<exists>s. fs p = Some s \<and> integers s = Some xs) (j_paths J) (j_inputs J)"

definition storage_ok :: "job \<Rightarrow> file_storage \<Rightarrow> bool" where
  "storage_ok J st \<longleftrightarrow> t_count st = int (length (j_paths J)) \<and> 0 \<le> t_cur_unsorted st \<and>
     t_cur_unsorted st \<le> t_count st \<and> take (length (j_paths J)) (t_paths st) = map Some (j_paths J) \<and>
     length (t_filesData st) = length (j_paths J)"

definition taken :: "memory \<Rightarrow> nat" where
  "taken g = nat (t_cur_unsorted (g_storage g))"

definition arrays :: "memory \<Rightarrow> nat option list" where
  "arrays g = take (taken g) (t_filesData (g_storage g))"

definition cur_data :: "memory \<Rightarrow> nat \<Rightarrow> nat option" where
  "cur_data g c = Option.bind (g_ctx g c) x_curData"

definition array_ok :: "job \<Rightarrow> memory \<Rightarrow> nat \<Rightarrow> int list \<Rightarrow> bool" where
  "array_ok J g p xs \<longleftrightarrow> (\<exists>f. g_heap g p = Some f \<and> f_size f = int (length (f_data f)) \<and>
     mset (f_data f) = mset xs \<and> (sorted (f_data f) \<or> (\<exists>c < j_threads J. cur_data g c = Some p)))"

definition contexts_ok :: "job \<Rightarrow> memory \<Rightarrow> bool" where
  "contexts_ok J g \<longleftrightarrow> dom (g_ctx g) = {..<j_threads J} \<and>
     (\<forall>c p. cur_data g c = Some p \<longrightarrow> Some p \<in> set (arrays g)) \<and>
     (\<forall>c d p. cur_data g c = Some p \<longrightarrow> cur_data g d = Some p \<longrightarrow> c = d)"

definition sort_inv :: "job \<Rightarrow> memory \<Rightarrow> bool" where
  "sort_inv J g \<longleftrightarrow> inputs_ok J (g_fs g) \<and> clock_runs (g_clock g) \<and> storage_ok J (g_storage g) \<and>
     contexts_ok J g \<and> distinct (arrays g) \<and> Some ` dom (g_heap g) = set (arrays g) \<and>
     (\<forall>p \<in> dom (g_heap g). p < g_fresh g) \<and>
     (\<forall>i < taken g. \<forall>p. arrays g ! i = Some p \<longrightarrow> array_ok J g p (j_inputs J ! i))"

subsection \<open>Relying and guaranteeing\<close>

text \<open>Files are only taken, and time only passes.\<close>

definition onward :: "memory \<Rightarrow> memory \<Rightarrow> bool" where
  "onward g g' \<longleftrightarrow> taken g \<le> taken g' \<and> g_ticks g \<le> g_ticks g' \<and> g_clock g' = g_clock g"

lemma onward_refl: "onward g g"
  by (simp add: onward_def)

lemma onward_trans: "onward g g' \<Longrightarrow> onward g' g'' \<Longrightarrow> onward g g''"
  by (auto simp: onward_def)

definition keeps :: "nat \<Rightarrow> memory \<Rightarrow> memory \<Rightarrow> bool" where
  "keeps c g g' \<longleftrightarrow> g_ctx g' c = g_ctx g c \<and> (\<forall>p. cur_data g c = Some p \<longrightarrow> g_heap g' p = g_heap g p)"

definition sort_rely :: "job \<Rightarrow> nat \<Rightarrow> memory \<Rightarrow> memory \<Rightarrow> bool" where
  "sort_rely J c g g' \<longleftrightarrow> (sort_inv J g \<longrightarrow> sort_inv J g' \<and> onward g g' \<and> keeps c g g')"

definition sort_guar :: "job \<Rightarrow> nat \<Rightarrow> memory \<Rightarrow> memory \<Rightarrow> bool" where
  "sort_guar J c g g' \<longleftrightarrow> (sort_inv J g \<longrightarrow> sort_inv J g' \<and> onward g g' \<and> (\<forall>d. d \<noteq> c \<longrightarrow> keeps d g g'))"

definition sort_post :: "job \<Rightarrow> nat \<Rightarrow> int \<Rightarrow> memory \<Rightarrow> bool" where
  "sort_post J c x g \<longleftrightarrow> sort_inv J g \<and> x = 0 \<and> taken g = length (j_paths J) \<and>
     (\<forall>p f. cur_data g c = Some p \<longrightarrow> g_heap g p = Some f \<longrightarrow> sorted (f_data f))"

lemma keeps_refl: "keeps c g g"
  by (simp add: keeps_def)

lemma keeps_trans: "keeps c g g' \<Longrightarrow> keeps c g' g'' \<Longrightarrow> keeps c g g''"
  by (auto simp: keeps_def cur_data_def)

lemma keeps_cur_data: "keeps c g g' \<Longrightarrow> cur_data g' c = cur_data g c"
  by (simp add: keeps_def cur_data_def)

lemma sort_rely_trans: "sort_rely J c g g' \<Longrightarrow> sort_rely J c g' g'' \<Longrightarrow> sort_rely J c g g''"
  unfolding sort_rely_def by (auto intro: keeps_trans onward_trans)

lemma sort_guar_trans: "sort_guar J c g g' \<Longrightarrow> sort_guar J c g' g'' \<Longrightarrow> sort_guar J c g g''"
  unfolding sort_guar_def by (auto intro: keeps_trans onward_trans)

lemma taken_le: "sort_inv J g \<Longrightarrow> taken g \<le> length (j_paths J)"
  by (auto simp: sort_inv_def storage_ok_def taken_def)

lemma sort_post_stable:
  assumes "sort_post J c x g" "sort_rely J c g g'"
  shows "sort_post J c x g'"
proof -
  have g: "sort_inv J g'" "taken g \<le> taken g'" "keeps c g g'"
    using assms by (auto simp: sort_rely_def sort_post_def onward_def)
  then have "taken g' = length (j_paths J)" using assms(1) taken_le [of J g'] by (auto simp: sort_post_def)
  with assms(1) g keeps_cur_data [OF g(3)] show ?thesis by (auto simp: sort_post_def keeps_def)
qed

interpretation sorting: coroutine_system "sort_rely J" "sort_guar J" "sort_post J" "sort_inv J" for J
proof unfold_locales
  show "sort_rely J c g g" "sort_guar J c g g" for c g by (auto simp: sort_rely_def sort_guar_def keeps_refl onward_refl)
  show "sort_rely J d g g'" if "sort_guar J c g g'" "d \<noteq> c" for c d g g'
    using that by (auto simp: sort_guar_def sort_rely_def)
  show "sort_inv J g'" if "sort_guar J c g g'" "sort_inv J g" for c g g'
    using that by (simp add: sort_guar_def)
qed (fact sort_rely_trans sort_guar_trans sort_post_stable)+

subsection \<open>A step on what is the coroutine's own\<close>

text \<open>The coroutine changes its context, but not its current array, and permutes that array.\<close>

definition own_step :: "nat \<Rightarrow> memory \<Rightarrow> memory \<Rightarrow> bool" where
  "own_step c g g' \<longleftrightarrow> g_fs g' = g_fs g \<and> g_clock g' = g_clock g \<and> g_ticks g \<le> g_ticks g' \<and> g_storage g' = g_storage g \<and> g_fresh g' = g_fresh g \<and>
     (\<forall>d. d \<noteq> c \<longrightarrow> g_ctx g' d = g_ctx g d) \<and> g_ctx g c \<noteq> None \<and>
     (\<exists>x. g_ctx g' c = Some x \<and> x_curData x = cur_data g c) \<and>
     (\<forall>p. cur_data g c \<noteq> Some p \<longrightarrow> g_heap g' p = g_heap g p) \<and>
     (\<forall>p f. cur_data g c = Some p \<longrightarrow> g_heap g p = Some f \<longrightarrow>
        (\<exists>f'. g_heap g' p = Some f' \<and> f_size f' = f_size f \<and> mset (f_data f') = mset (f_data f)))"

lemma own_step_simps:
  assumes "own_step c g g'"
  shows "taken g' = taken g" "arrays g' = arrays g" "cur_data g' = cur_data g"
proof -
  show "taken g' = taken g" "arrays g' = arrays g"
    using assms by (simp_all add: own_step_def taken_def arrays_def)
  have "cur_data g' d = cur_data g d" for d
    using assms by (cases "d = c") (auto simp: own_step_def cur_data_def)
  then show "cur_data g' = cur_data g" by (rule ext)
qed

lemma sort_inv_array:
  assumes "sort_inv J g" "Some p \<in> set (arrays g)"
  shows "\<exists>i f. i < taken g \<and> arrays g ! i = Some p \<and> g_heap g p = Some f \<and> f_size f = int (length (f_data f)) \<and>
    mset (f_data f) = mset (j_inputs J ! i) \<and> array_ok J g p (j_inputs J ! i)"
proof -
  from assms(2) obtain i where i: "i < length (arrays g)" "arrays g ! i = Some p" by (auto simp: in_set_conv_nth)
  then have "i < taken g" by (simp add: arrays_def)
  moreover have "array_ok J g p (j_inputs J ! i)"
    using assms(1) i(2) \<open>i < taken g\<close> unfolding sort_inv_def by blast
  moreover from this obtain f where "g_heap g p = Some f" "f_size f = int (length (f_data f))"
    "mset (f_data f) = mset (j_inputs J ! i)" by (auto simp: array_ok_def)
  ultimately show ?thesis using i(2) by blast
qed

lemma own_step_array:
  assumes "sort_inv J g" "own_step c g g'" "c < j_threads J" "array_ok J g p xs"
  shows "array_ok J g' p xs"
proof (cases "cur_data g c = Some p")
  case True
  from assms(4) obtain f where f: "g_heap g p = Some f" "f_size f = int (length (f_data f))" "mset (f_data f) = mset xs"
    by (auto simp: array_ok_def)
  with True assms(2) obtain f' where "g_heap g' p = Some f'" "f_size f' = f_size f" "mset (f_data f') = mset (f_data f)"
    by (auto simp: own_step_def)
  moreover from this have "length (f_data f') = length (f_data f)" by (metis size_mset)
  moreover have "cur_data g' c = Some p" using True own_step_simps [OF assms(2)] by simp
  ultimately show ?thesis using f assms(3) by (auto simp: array_ok_def)
next
  case False
  with assms(2) have "g_heap g' p = g_heap g p" by (simp add: own_step_def)
  with assms(4) own_step_simps [OF assms(2)] show ?thesis by (simp add: array_ok_def)
qed

lemma own_step_dom:
  assumes "sort_inv J g" "own_step c g g'"
  shows "dom (g_heap g') = dom (g_heap g)"
proof (rule set_eqI)
  fix p
  show "p \<in> dom (g_heap g') \<longleftrightarrow> p \<in> dom (g_heap g)"
  proof (cases "cur_data g c = Some p")
    case True
    then have "Some p \<in> set (arrays g)" using assms(1) by (simp add: sort_inv_def contexts_ok_def)
    then obtain f where "g_heap g p = Some f" using sort_inv_array [OF assms(1)] by blast
    with True assms(2) show ?thesis by (auto simp: own_step_def)
  next
    case False
    with assms(2) have "g_heap g' p = g_heap g p" by (simp add: own_step_def)
    then show ?thesis by (simp add: domIff)
  qed
qed

lemma own_step_contexts:
  assumes "sort_inv J g" "own_step c g g'"
  shows "contexts_ok J g'"
proof -
  have ctx: "contexts_ok J g" using assms(1) by (simp add: sort_inv_def)
  have "g_ctx g' d = None \<longleftrightarrow> g_ctx g d = None" for d
    using assms(2) by (cases "d = c") (auto simp: own_step_def)
  then have "dom (g_ctx g') = dom (g_ctx g)" by (simp add: dom_def)
  then show ?thesis using ctx own_step_simps [OF assms(2)] by (auto simp: contexts_ok_def)
qed

lemma own_step_inv:
  assumes "sort_inv J g" "own_step c g g'" "c < j_threads J"
  shows "sort_inv J g'"
proof -
  note same = own_step_simps [OF assms(2)]
  have "inputs_ok J (g_fs g')" "clock_runs (g_clock g')" "storage_ok J (g_storage g')" "g_fresh g' = g_fresh g"
    using assms(1,2) by (auto simp: sort_inv_def own_step_def)
  moreover have "\<forall>i < taken g'. \<forall>p. arrays g' ! i = Some p \<longrightarrow> array_ok J g' p (j_inputs J ! i)"
    using assms(1) own_step_array [OF assms] by (simp add: sort_inv_def same)
  ultimately show ?thesis
    using assms(1) own_step_contexts [OF assms(1,2)] own_step_dom [OF assms(1,2)] by (simp add: sort_inv_def same)
qed

lemma own_step_guar:
  assumes "own_step c g g'" "c < j_threads J"
  shows "sort_guar J c g g'"
proof -
  have "keeps d g g'" if "sort_inv J g" "d \<noteq> c" for d
  proof -
    have "\<not> (cur_data g c = Some p \<and> cur_data g d = Some p)" for p
      using that by (auto simp: sort_inv_def contexts_ok_def)
    with assms(1) that(2) show ?thesis by (auto simp: keeps_def own_step_def)
  qed
  moreover have "onward g g'" using assms(1) own_step_simps [OF assms(1)] by (simp add: onward_def own_step_def)
  ultimately show ?thesis using own_step_inv [OF _ assms] by (simp add: sort_guar_def)
qed

end
