(* ===== verification/Coro_Quicksort.thy ===== *)
theory Coro_Quicksort
  imports Coro_Sort_Inv
begin

section \<open>Quicksort with interruptions\<close>

text \<open>
  \<^verbatim>\<open>partition\<close> and \<^verbatim>\<open>quicksort\<close> of \<^verbatim>\<open>hw1/solution.c\<close>, with other coroutines running at every \<^verbatim>\<open>yield\<close>: as long as the
  others keep to the guarantee of theory \<open>Coro_Sort_Inv\<close>, the array of the coroutine is sorted.
\<close>

subsection \<open>The coroutine's array\<close>

text \<open>\<open>R\<close> says how far the coroutine is with measuring its time.\<close>

definition owns :: "(memory \<Rightarrow> my_context \<Rightarrow> bool) \<Rightarrow> job \<Rightarrow> nat \<Rightarrow> nat \<Rightarrow> int list \<Rightarrow> memory \<Rightarrow> bool" where
  "owns R J c p xs g \<longleftrightarrow> sort_inv J g \<and> c < j_threads J \<and> cur_data g c = Some p \<and>
     (\<exists>x. g_ctx g c = Some x \<and> R g x) \<and> (\<exists>f. g_heap g p = Some f \<and> f_data f = xs)"

abbreviation own :: "job \<Rightarrow> nat \<Rightarrow> nat \<Rightarrow> int list \<Rightarrow> memory \<Rightarrow> bool" where
  "own \<equiv> owns running"

abbreviation wpc :: "job \<Rightarrow> nat \<Rightarrow> (memory, 'a) prog \<Rightarrow> ('a \<Rightarrow> memory \<Rightarrow> bool) \<Rightarrow> memory \<Rightarrow> bool" where
  "wpc J c \<equiv> wp (sort_rely J c) (sort_guar J c)"

lemma ready_rely: "owns ready J c p xs g \<Longrightarrow> sort_rely J c g g' \<Longrightarrow> owns ready J c p xs g'"
  by (auto simp: owns_def sort_rely_def keeps_def cur_data_def onward_def intro: ready_later)

text \<open>A step on the context alone.\<close>

lemma own_set_ctx:
  assumes "owns R J c p xs g" "g_ctx g c = Some x" "x_curData y = x_curData x"
    and g': "g' = set_ctx c y (g\<lparr>g_ticks := g_ticks g + 1\<rparr>)" and R: "R' g' y"
  shows "sort_guar J c g g' \<and> owns R' J c p xs g'"
proof -
  have step: "own_step c g g'"
    using assms by (auto simp: own_step_def set_ctx_def cur_data_def)
  have "sort_inv J g'"
    using assms(1) by (intro own_step_inv [OF _ step]) (auto simp: owns_def)
  moreover have "cur_data g' c = Some p"
    using own_step_simps [OF step] assms(1) by (simp add: owns_def)
  moreover have "g_ctx g' c = Some y" "g_heap g' = g_heap g" by (simp_all add: g' set_ctx_def)
  ultimately show ?thesis
    using own_step_guar [OF step] assms(1) R by (simp add: owns_def)
qed

lemma own_within:
  assumes "own J c p xs g"
  shows "\<exists>b g'. within_quantum c g = Some (b, g') \<and> sort_guar J c g g' \<and> own J c p xs g'"
proof -
  from assms obtain x where x: "g_ctx g c = Some x" "running g x" "clock_runs (g_clock g)"
    by (auto simp: owns_def sort_inv_def)
  let ?now = "g_clock g (g_ticks g)"
  define y where "y = x\<lparr>x_end_time := ?now\<rparr>"
  define g' where "g' = set_ctx c y (g\<lparr>g_ticks := g_ticks g + 1\<rparr>)"
  have "clock_ok (x_start_time x)" "clock_ok ?now" using x clock_runs_ok by (auto simp: running_def can_end_def)
  from time_difference_ok [OF this] obtain b where "within_quantum c g = Some (b, g')"
    using x(1) by (simp add: within_quantum_def clock_gettime_def g'_def y_def)
  moreover have "running g' y" using x(2) by (simp add: running_def can_end_def y_def g'_def set_ctx_def)
  then have "sort_guar J c g g' \<and> own J c p xs g'"
    by (intro own_set_ctx [OF assms x(1) _ g'_def]) (simp_all add: y_def)
  ultimately show ?thesis by blast
qed

lemma own_calculate:
  assumes "own J c p xs g"
  shows "\<exists>g'. calculate_coroutine_time c g = Some g' \<and> sort_guar J c g g' \<and> owns ready J c p xs g'"
proof -
  from assms obtain x where x: "g_ctx g c = Some x" "running g x" "clock_runs (g_clock g)"
    by (auto simp: owns_def sort_inv_def)
  let ?now = "g_clock g (g_ticks g)"
  have ok: "clock_ok (x_start_time x)" "clock_ok ?now" using x clock_runs_ok by (auto simp: running_def can_end_def)
  define y where "y = x\<lparr>x_end_time := ?now, x_work_time := x_work_time x + (rounded ?now - rounded (x_start_time x))\<rparr>"
  define g' where "g' = set_ctx c y (g\<lparr>g_ticks := g_ticks g + 1\<rparr>)"
  have "calculate_coroutine_time c g = Some g'"
    using x(1) time_difference_ok [OF ok] can_end_adds [OF running_can_end [OF x(2)] ok(2)]
    by (simp add: calculate_coroutine_time_def clock_gettime_def g'_def y_def)
  moreover have "ready g' y" by (rule running_adds [OF x(2,3)]) (simp_all add: y_def g'_def set_ctx_def)
  then have "sort_guar J c g g' \<and> owns ready J c p xs g'"
    by (intro own_set_ctx [OF assms x(1) _ g'_def]) (simp_all add: y_def)
  ultimately show ?thesis by blast
qed

lemma own_start:
  assumes "owns ready J c p xs g"
  shows "\<exists>g'. start_time c g = Some g' \<and> sort_guar J c g g' \<and> own J c p xs g'"
proof -
  from assms obtain x where x: "g_ctx g c = Some x" "ready g x" "clock_runs (g_clock g)"
    by (auto simp: owns_def sort_inv_def)
  define y where "y = x\<lparr>x_start_time := g_clock g (g_ticks g)\<rparr>"
  define g' where "g' = set_ctx c y (g\<lparr>g_ticks := g_ticks g + 1\<rparr>)"
  have "start_time c g = Some g'" using x(1) by (simp add: start_time_def clock_gettime_def g'_def y_def)
  moreover have "running g' y" by (rule ready_start [OF x(2,3)]) (simp_all add: y_def g'_def set_ctx_def)
  then have "sort_guar J c g g' \<and> own J c p xs g'"
    by (intro own_set_ctx [OF assms x(1) _ g'_def]) (simp_all add: y_def)
  ultimately show ?thesis by blast
qed

lemma wp_yield:
  assumes "own J c p xs g" "\<And>g'. own J c p xs g' \<Longrightarrow> Q () g'"
  shows "wpc J c (yield c) Q g"
proof -
  from own_within [OF assms(1)] obtain b g1 where g1: "within_quantum c g = Some (b, g1)" "sort_guar J c g g1"
    "own J c p xs g1" by blast
  from own_calculate [OF g1(3)] obtain g2 where g2: "calculate_coroutine_time c g1 = Some g2" "sort_guar J c g1 g2"
    "owns ready J c p xs g2" by blast
  have "wpc J c (modify (start_time c)) Q g3" if "sort_rely J c g2 g3" for g3
  proof -
    from own_start [OF ready_rely [OF g2(3) that]] obtain g4 where "start_time c g3 = Some g4" "sort_guar J c g3 g4"
      "own J c p xs g4" by blast
    with assms(2) show ?thesis by (auto simp: wp_modify)
  qed
  then have "wpc J c (modify (calculate_coroutine_time c)) (\<lambda>_. wpc J c switch (\<lambda>_. wpc J c (modify (start_time c)) Q)) g1"
    using g2 unfolding wp_modify [of _ _ "calculate_coroutine_time c"] wp_switch by blast
  then have "wpc J c (if b then Return () else pbind (modify (calculate_coroutine_time c))
      (\<lambda>_. pbind switch (\<lambda>_. modify (start_time c)))) Q g1"
    using assms(2) [OF g1(3)] by (cases b) (simp_all add: wp_pbind)
  with g1 show ?thesis unfolding yield_def wp_pbind wp_state by blast
qed

lemma wp_element:
  assumes "own J c p xs g" "j < length xs" "Q (xs ! j) g"
  shows "wpc J c (get (element p (int j))) Q g"
  using assms sorting.guar_refl by (auto simp: wp_get element_def owns_def)

definition exchange :: "'a list \<Rightarrow> nat \<Rightarrow> nat \<Rightarrow> 'a list" where
  "exchange xs a b = xs[a := xs ! b, b := xs ! a]"

lemma mset_exchange: "a < length xs \<Longrightarrow> b < length xs \<Longrightarrow> mset (exchange xs a b) = mset xs"
  by (simp add: exchange_def mset_swap)

lemma wp_swap:
  assumes "own J c p xs g" "a < length xs" "b < length xs"
    and "\<And>g'. own J c p (exchange xs a b) g' \<Longrightarrow> Q () g'"
  shows "wpc J c (modify (swap p (int a) (int b))) Q g"
proof -
  from assms(1) obtain f where f: "g_heap g p = Some f" "f_data f = xs" "cur_data g c = Some p" "c < j_threads J"
    "sort_inv J g" by (auto simp: owns_def)
  define g' where "g' = g\<lparr>g_heap := (g_heap g)(p \<mapsto> f\<lparr>f_data := exchange xs a b\<rparr>)\<rparr>"
  have g': "swap p (int a) (int b) g = Some g'"
    using f assms(2,3) by (simp add: swap_def element_def g'_def exchange_def)
  obtain x where x: "g_ctx g c = Some x" "running g x" using assms(1) by (auto simp: owns_def)
  then have step: "own_step c g g'"
    using f x mset_exchange [OF assms(2,3)] by (auto simp: own_step_def g'_def cur_data_def)
  have "running g' x" using x(2) by (simp add: running_def g'_def)
  then have "own J c p (exchange xs a b) g'"
    using own_step_inv [OF f(5) step f(4)] own_step_simps [OF step] f x by (auto simp: owns_def g'_def)
  with g' own_step_guar [OF step f(4)] assms(4) show ?thesis by (auto simp: wp_modify)
qed

subsection \<open>Permuting a part of an array\<close>

definition permuted :: "nat \<Rightarrow> nat \<Rightarrow> 'a list \<Rightarrow> 'a list \<Rightarrow> bool" where
  "permuted l r xs ys \<longleftrightarrow> mset ys = mset xs \<and> (\<forall>k. k < l \<or> r \<le> k \<longrightarrow> k < length xs \<longrightarrow> ys ! k = xs ! k)"

lemma permuted_length: "permuted l r xs ys \<Longrightarrow> length ys = length xs"
  unfolding permuted_def by (metis size_mset)

lemma permuted_refl: "permuted l r xs xs"
  by (simp add: permuted_def)

lemma permuted_trans: "permuted l r xs ys \<Longrightarrow> permuted l r ys zs \<Longrightarrow> permuted l r xs zs"
  using permuted_length [of l r xs ys] by (auto simp: permuted_def)

lemma permuted_mono: "permuted l r xs ys \<Longrightarrow> l' \<le> l \<Longrightarrow> r \<le> r' \<Longrightarrow> permuted l' r' xs ys"
  by (auto simp: permuted_def)

lemma permuted_exchange: "l \<le> a \<Longrightarrow> a < r \<Longrightarrow> l \<le> b \<Longrightarrow> b < r \<Longrightarrow> r \<le> length xs \<Longrightarrow> permuted l r xs (exchange xs a b)"
  using mset_exchange [of a xs b] by (auto simp: permuted_def exchange_def nth_list_update)

lemma permuted_outside: "permuted l r xs ys \<Longrightarrow> k < l \<or> r \<le> k \<Longrightarrow> k < length xs \<Longrightarrow> ys ! k = xs ! k"
  by (auto simp: permuted_def)

text \<open>Inside the part, the elements are the same.\<close>

lemma permuted_inside:
  assumes p: "permuted l r xs ys" and r: "r \<le> length xs" and k: "l \<le> k" "k < r"
  shows "\<exists>k'. l \<le> k' \<and> k' < r \<and> ys ! k = xs ! k'"
proof -
  note len = permuted_length [OF p]
  have split: "zs = take l zs @ take (r - l) (drop l zs) @ drop r zs" for zs :: "'a list"
  proof -
    have "drop r zs = drop (r - l) (drop l zs)" using k by simp
    then show ?thesis using append_take_drop_id [of "r - l" "drop l zs"] append_take_drop_id [of l zs] by simp
  qed
  have "take l ys = take l xs" "drop r ys = drop r xs"
    using p len r k by (auto intro!: nth_equalityI simp: permuted_def)
  moreover have "mset (take l zs) + (mset (take (r - l) (drop l zs)) + mset (drop r zs)) = mset zs" for zs :: "'a list"
    by (rule trans [OF _ arg_cong [OF split [of zs], of mset, symmetric]]) (simp only: mset_append)
  then have "mset (take l ys) + (mset (take (r - l) (drop l ys)) + mset (drop r ys)) =
      mset (take l xs) + (mset (take (r - l) (drop l xs)) + mset (drop r xs))"
    using p unfolding permuted_def by (simp only:)
  ultimately have "mset (take (r - l) (drop l ys)) = mset (take (r - l) (drop l xs))" by simp
  then have "set (take (r - l) (drop l ys)) = set (take (r - l) (drop l xs))" by (metis set_mset_mset)
  moreover have "ys ! k \<in> set (take (r - l) (drop l ys))"
    using k r len by (auto simp: in_set_conv_nth intro!: exI [of _ "k - l"])
  ultimately obtain m where "m < r - l" "ys ! k = xs ! (l + m)" using r len by (auto simp: in_set_conv_nth)
  then show ?thesis by (intro exI [of _ "l + m"]) auto
qed

subsection \<open>partition\<close>

lemma wp_partition_loop:
  assumes "own J c p xs g" "j + n = h" "h < length xs" "l \<le> i" "i \<le> j"
    and "\<forall>k. l \<le> k \<longrightarrow> k < i \<longrightarrow> xs ! k < pivot" "\<forall>k. i \<le> k \<longrightarrow> k < j \<longrightarrow> pivot \<le> xs ! k"
    and Q: "\<And>ys m g'. own J c p ys g' \<Longrightarrow> permuted l h xs ys \<Longrightarrow> l \<le> m \<Longrightarrow> m \<le> h \<Longrightarrow>
      \<forall>k. l \<le> k \<longrightarrow> k < m \<longrightarrow> ys ! k < pivot \<Longrightarrow> \<forall>k. m \<le> k \<longrightarrow> k < h \<longrightarrow> pivot \<le> ys ! k \<Longrightarrow> Q (int m - 1) g'"
  shows "wpc J c (partition_loop c p pivot n (int i - 1) (int j)) Q g"
  using assms
proof (induction n arbitrary: i j xs g)
  case 0
  then show ?case by (simp add: permuted_refl)
next
  case (Suc n)
  have j: "j < length xs" "j < h" using Suc.prems(2,3) by auto
  show ?case
  proof (cases "xs ! j < pivot")
    case True
    define ys where "ys = exchange xs i j"
    have ys: "permuted l h xs ys" "length ys = length xs"
      using Suc.prems(3-5) j by (auto simp: ys_def exchange_def intro!: permuted_exchange [unfolded exchange_def])
    have nth: "ys ! k = (if k = i then xs ! j else if k = j then xs ! i else xs ! k)" if "k \<le> j" for k
      using that j Suc.prems(5) by (auto simp: ys_def exchange_def nth_list_update)
    have rest: "wpc J c (partition_loop c p pivot n (int i) (int j + 1)) Q g'" if "own J c p ys g'" for g'
    proof -
      have "wpc J c (partition_loop c p pivot n (int (i + 1) - 1) (int (j + 1))) Q g'"
      proof (rule Suc.IH)
        show "own J c p ys g'" by (rule that)
        show "(j + 1) + n = h" "h < length ys" "l \<le> i + 1" "i + 1 \<le> j + 1" using Suc.prems(2-5) ys(2) by auto
        show "\<forall>k. l \<le> k \<longrightarrow> k < i + 1 \<longrightarrow> ys ! k < pivot" using Suc.prems(5,6) True by (auto simp: nth less_Suc_eq)
        show "\<forall>k. i + 1 \<le> k \<longrightarrow> k < j + 1 \<longrightarrow> pivot \<le> ys ! k" using Suc.prems(5,7) by (auto simp: nth less_Suc_eq)
      next
        fix zs m g''
        assume "own J c p zs g''" "permuted l h ys zs" "l \<le> m" "m \<le> h" "\<forall>k. l \<le> k \<longrightarrow> k < m \<longrightarrow> zs ! k < pivot"
          "\<forall>k. m \<le> k \<longrightarrow> k < h \<longrightarrow> pivot \<le> zs ! k"
        with permuted_trans [OF ys(1)] show "Q (int m - 1) g''" by (intro Suc.prems(8)) auto
      qed
      then show ?thesis by (simp add: add.commute)
    qed
    have "wpc J c (modify (swap p (int i) (int j))) (\<lambda>_. wpc J c (yield c) (\<lambda>_. wpc J c (partition_loop c p pivot n (int i) (int j + 1)) Q)) g"
      using Suc.prems(1,5) j rest by (intro wp_swap wp_yield) (auto simp: ys_def)
    then show ?thesis
      using True Suc.prems(1) j by (simp add: wp_pbind wp_element)
  next
    case False
    have rest: "wpc J c (partition_loop c p pivot n (int i - 1) (int j + 1)) Q g'" if "own J c p xs g'" for g'
    proof -
      have "wpc J c (partition_loop c p pivot n (int i - 1) (int (j + 1))) Q g'"
      proof (rule Suc.IH)
        show "own J c p xs g'" by (rule that)
        show "(j + 1) + n = h" "h < length xs" "l \<le> i" "i \<le> j + 1" using Suc.prems(2-5) by auto
        show "\<forall>k. l \<le> k \<longrightarrow> k < i \<longrightarrow> xs ! k < pivot" by (rule Suc.prems(6))
        show "\<forall>k. i \<le> k \<longrightarrow> k < j + 1 \<longrightarrow> pivot \<le> xs ! k" using Suc.prems(7) False by (auto simp: less_Suc_eq)
      qed (rule Suc.prems(8))
      then show ?thesis by (simp add: add.commute)
    qed
    then show ?thesis
      using False Suc.prems(1) j by (simp add: wp_pbind wp_element wp_yield)
  qed
qed

lemma wp_partition:
  assumes own: "own J c p xs g" and lh: "l < h" "h < length xs"
    and Q: "\<And>ys m g'. own J c p ys g' \<Longrightarrow> permuted l (h + 1) xs ys \<Longrightarrow> l \<le> m \<Longrightarrow> m \<le> h \<Longrightarrow>
      \<forall>k. l \<le> k \<longrightarrow> k < m \<longrightarrow> ys ! k < ys ! m \<Longrightarrow> \<forall>k. m < k \<longrightarrow> k \<le> h \<longrightarrow> ys ! m \<le> ys ! k \<Longrightarrow> Q (int m) g'"
  shows "wpc J c (partition c p (int l) (int h)) Q g"
proof -
  define pivot where "pivot = xs ! h"
  have last: "wpc J c (modify (swap p (int m - 1 + 1) (int h))) (\<lambda>_. Q (int m - 1 + 1)) g'"
    if ys: "own J c p ys g'" "permuted l h xs ys" "l \<le> m" "m \<le> h" "\<forall>k. l \<le> k \<longrightarrow> k < m \<longrightarrow> ys ! k < pivot"
      "\<forall>k. m \<le> k \<longrightarrow> k < h \<longrightarrow> pivot \<le> ys ! k" for ys m g'
  proof -
    have len: "length ys = length xs" "ys ! h = pivot"
      using permuted_length [OF ys(2)] permuted_outside [OF ys(2), of h] lh by (auto simp: pivot_def)
    define zs where "zs = exchange ys m h"
    have nth: "zs ! k = (if k = m then pivot else if k = h then ys ! m else ys ! k)" if "k \<le> h" for k
      using that ys(4) lh len by (auto simp: zs_def exchange_def nth_list_update)
    have perm: "permuted l (h + 1) xs zs"
    proof (rule permuted_trans)
      show "permuted l (h + 1) xs ys" using ys(2) by (rule permuted_mono) auto
      show "permuted l (h + 1) ys zs" unfolding zs_def using ys(3,4) lh len by (intro permuted_exchange) auto
    qed
    have "Q (int m) g''" if "own J c p zs g''" for g''
    proof (rule Q [OF that perm ys(3,4)])
      show "\<forall>k. l \<le> k \<longrightarrow> k < m \<longrightarrow> zs ! k < zs ! m" using ys(4,5) by (auto simp: nth)
      show "\<forall>k. m < k \<longrightarrow> k \<le> h \<longrightarrow> zs ! m \<le> zs ! k" using ys(4,6) len(2) by (auto simp: nth order_le_less)
    qed
    with ys(1,4) lh len show ?thesis by (auto intro!: wp_swap simp: zs_def)
  qed
  have "wpc J c (partition_loop c p pivot (h - l) (int l - 1) (int l))
      (\<lambda>i. wpc J c (modify (swap p (i + 1) (int h))) (\<lambda>_. Q (i + 1))) g"
    using own lh last by (intro wp_partition_loop [where h = h and l = l and xs = xs and p = p and c = c and J = J]) auto
  moreover have "nat (int h - int l) = h - l" using lh by linarith
  ultimately have "wpc J c (partition_loop c p pivot (nat (int h - int l)) (int l - 1) (int l))
      (\<lambda>i. wpc J c (modify (swap p (i + 1) (int h))) (\<lambda>_. Q (i + 1))) g" by simp
  then show ?thesis
    unfolding partition_def wp_pbind using own lh by (intro wp_element) (simp_all add: pivot_def)
qed

subsection \<open>quicksort\<close>

definition sorted_part :: "nat \<Rightarrow> nat \<Rightarrow> int list \<Rightarrow> bool" where
  "sorted_part l r xs \<longleftrightarrow> (\<forall>a b. l \<le> a \<longrightarrow> a \<le> b \<longrightarrow> b < r \<longrightarrow> xs ! a \<le> xs ! b)"

text \<open>Sorting the parts left and right of the pivot sorts the whole.\<close>

lemma sorted_part_join:
  assumes m: "l \<le> m" "m < r" "r \<le> length xs"
    and xs: "\<forall>k. l \<le> k \<longrightarrow> k < m \<longrightarrow> xs ! k < xs ! m" "\<forall>k. m < k \<longrightarrow> k < r \<longrightarrow> xs ! m \<le> xs ! k"
    and ys: "permuted l m xs ys" "sorted_part l m ys" and zs: "permuted (m + 1) r ys zs" "sorted_part (m + 1) r zs"
  shows "sorted_part l r zs"
  unfolding sorted_part_def
proof (intro allI impI)
  fix a b assume ab: "l \<le> a" "a \<le> b" "b < r"
  have len: "length ys = length xs" using permuted_length [OF ys(1)] .
  have left: "zs ! k = ys ! k" if "k \<le> m" for k using permuted_outside [OF zs(1), of k] that m len by simp
  have mid: "zs ! m = xs ! m" using permuted_outside [OF ys(1), of m] left [of m] m by simp
  have small: "zs ! k < zs ! m" if "l \<le> k" "k < m" for k
    using permuted_inside [OF ys(1) _ that] xs(1) m that left [of k] mid by auto
  have big: "zs ! m \<le> zs ! k" if k: "m < k" "k < r" for k
  proof -
    obtain k' where k': "m + 1 \<le> k'" "k' < r" "zs ! k = ys ! k'"
      using permuted_inside [OF zs(1), of k] k m len by auto
    moreover have "ys ! k' = xs ! k'" using permuted_outside [OF ys(1), of k'] k' m by simp
    ultimately show ?thesis using xs(2) mid by simp
  qed
  consider "b < m" | "b = m" | "a = m" | "a < m" "m < b" | "m < a" using ab by linarith
  then show "zs ! a \<le> zs ! b"
  proof cases
    case 1
    with ys(2) ab left show ?thesis by (simp add: sorted_part_def)
  next
    case 2
    with small [of a] ab show ?thesis by (cases "a = m") auto
  next
    case 3
    with big [of b] ab show ?thesis by (cases "b = m") auto
  next
    case 4
    with small [of a] big [of b] ab show ?thesis by simp
  next
    case 5
    with zs(2) ab show ?thesis by (simp add: sorted_part_def)
  qed
qed

lemma wp_quicksort:
  assumes "own J c p xs g" "l \<le> r" "r \<le> length xs" "r - l < n"
    and "\<And>ys g'. own J c p ys g' \<Longrightarrow> permuted l r xs ys \<Longrightarrow> sorted_part l r ys \<Longrightarrow> Q () g'"
  shows "wpc J c (quicksort n c p (int l) (int r - 1)) Q g"
  using assms
proof (induction n arbitrary: l r xs g Q)
  case 0
  then show ?case by simp
next
  case (Suc n)
  show ?case
  proof (cases "l + 1 < r")
    case False
    have "sorted_part l r xs"
      unfolding sorted_part_def
    proof (intro allI impI)
      fix a b assume "l \<le> a" "a \<le> b" "b < r"
      with False have "a = b" by linarith
      then show "xs ! a \<le> xs ! b" by simp
    qed
    with False Suc.prems(1) Suc.prems(5) [OF Suc.prems(1) permuted_refl] show ?thesis by simp
  next
    case True
    have rec: "wpc J c (quicksort n c p (int l) (int m - 1)) (\<lambda>_. wpc J c (quicksort n c p (int m + 1) (int r - 1)) Q) g1"
      if ys: "own J c p ys g1" "permuted l (r - 1 + 1) xs ys" "l \<le> m" "m \<le> r - 1"
        "\<forall>k. l \<le> k \<longrightarrow> k < m \<longrightarrow> ys ! k < ys ! m" "\<forall>k. m < k \<longrightarrow> k \<le> r - 1 \<longrightarrow> ys ! m \<le> ys ! k" for ys m g1
    proof (rule Suc.IH [OF ys(1)])
      have len: "length ys = length xs" using permuted_length [OF ys(2)] .
      show "l \<le> m" "m \<le> length ys" "m - l < n" using ys(3,4) True Suc.prems(3,4) len by linarith+
      fix us g2 assume us: "own J c p us g2" "permuted l m ys us" "sorted_part l m us"
      have lus: "length us = length xs" using permuted_length [OF us(2)] len by simp
      have "wpc J c (quicksort n c p (int (m + 1)) (int r - 1)) Q g2"
      proof (rule Suc.IH [OF us(1)])
        show "m + 1 \<le> r" "r \<le> length us" "r - (m + 1) < n" using ys(3,4) True Suc.prems(3,4) lus by linarith+
        fix vs g3 assume vs: "own J c p vs g3" "permuted (m + 1) r us vs" "sorted_part (m + 1) r vs"
        have "m \<le> r" using ys(4) by linarith
        then have "permuted l r ys us" by (rule permuted_mono [OF us(2) order_refl])
        moreover have "permuted l r us vs" using ys(3) by (intro permuted_mono [OF vs(2) _ order_refl]) simp
        moreover have "permuted l r xs ys" using ys(2) True by simp
        ultimately have "permuted l r xs vs" by (blast intro: permuted_trans)
        moreover have "sorted_part l r vs"
          using ys(3-6) True Suc.prems(3) len by (intro sorted_part_join [OF _ _ _ _ _ us(2,3) vs(2,3)]) auto
        ultimately show "Q () g3" using vs(1) by (intro Suc.prems(5))
      qed
      then show "wpc J c (quicksort n c p (int m + 1) (int r - 1)) Q g2" by (simp add: add.commute)
    qed
    have "int r - 1 = int (r - 1)" using True by simp
    moreover have "wpc J c (partition c p (int l) (int (r - 1)))
        (\<lambda>pi. wpc J c (quicksort n c p (int l) (pi - 1)) (\<lambda>_. wpc J c (quicksort n c p (pi + 1) (int r - 1)) Q)) g"
      using Suc.prems(1,3) True rec by (intro wp_partition) auto
    ultimately show ?thesis using True by (simp add: wp_pbind)
  qed
qed

end
