(* ===== verification/Coro_Body.thy ===== *)
theory Coro_Body
  imports Coro_Quicksort
begin

section \<open>The body of a sorting coroutine\<close>

text \<open>
  \<^verbatim>\<open>coroutine_func_f\<close> of \<^verbatim>\<open>hw1/solution.c\<close>: it takes the next file, reads it, sorts it, until no file is left.
  Its weakest precondition follows from the invariant; the fuel is the number of files and one.
\<close>

subsection \<open>Reading\<close>

lemma read_array_count:
  "count_integers s = Some n \<Longrightarrow> \<exists>xs. read_array (nat n) s = Some xs \<and> n = int (length xs)"
proof (induction s arbitrary: n rule: count_integers.induct)
  case (1 s)
  show ?case
  proof (cases "scan_int s")
    case No_match
    with "1.prems" show ?thesis by (simp add: count_integers.simps [of s])
  next
    case Out_of_range
    with "1.prems" show ?thesis by (simp add: count_integers.simps [of s])
  next
    case (Scanned x r)
    with "1.prems" obtain m where m: "count_integers r = Some m" "n = m + 1"
      by (auto simp: count_integers.simps [of s] bind_eq_Some_iff split: if_splits)
    with "1.IH" [OF Scanned] obtain xs where "read_array (nat m) r = Some xs" "m = int (length xs)" by blast
    with m Scanned show ?thesis by (simp add: nat_add_distrib)
  qed
qed

lemma integers_iff:
  "integers s = Some xs \<longleftrightarrow> count_integers s = Some (int (length xs)) \<and> read_array (length xs) s = Some xs"
proof (cases "count_integers s")
  case (Some n)
  with read_array_count [OF Some] obtain ys where "read_array (length ys) s = Some ys" "count_integers s = Some (int (length ys))"
    by auto
  then show ?thesis by (cases "length xs = length ys") (auto simp: integers_def)
qed (simp add: integers_def)

text \<open>Between two files: the time is counted and the last array is sorted.\<close>

definition idle :: "nat \<Rightarrow> memory \<Rightarrow> bool" where
  "idle c g \<longleftrightarrow> (\<exists>x. g_ctx g c = Some x \<and> ready g x \<and> can_end x) \<and>
     (\<forall>p f. cur_data g c = Some p \<longrightarrow> g_heap g p = Some f \<longrightarrow> sorted (f_data f))"

lemma idle_kept:
  assumes "idle c g" "keeps c g g'" "onward g g'"
  shows "idle c g'"
proof -
  from assms(1) obtain x where "g_ctx g c = Some x" "ready g x" "can_end x" by (auto simp: idle_def)
  then have "\<exists>x. g_ctx g' c = Some x \<and> ready g' x \<and> can_end x"
    using assms(2,3) ready_later by (auto simp: keeps_def onward_def)
  moreover have "cur_data g' c = cur_data g c" using assms(2) by (rule keeps_cur_data)
  ultimately show ?thesis using assms(1,2) by (simp add: idle_def keeps_def)
qed

text \<open>The memory after \<open>take_file\<close>.\<close>

definition with_file :: "nat \<Rightarrow> my_context \<Rightarrow> int list \<Rightarrow> memory \<Rightarrow> memory" where
  "with_file c x xs g =
     (let p = g_fresh g; st = g_storage g in
      set_ctx c (x\<lparr>x_curData := Some p\<rparr>)
        (g\<lparr>g_ticks := g_ticks g + 1, g_fresh := p + 1, g_heap := (g_heap g)(p \<mapsto> \<lparr>f_data = xs, f_size = int (length xs)\<rparr>),
           g_storage := st\<lparr>t_cur_unsorted := t_cur_unsorted st + 1,
                           t_filesData := (t_filesData st)[taken g := Some p]\<rparr>\<rparr>))"

lemma with_file_simps:
  assumes "storage_ok J (g_storage g)" "taken g < length (j_paths J)"
  shows "taken (with_file c x xs g) = taken g + 1" "arrays (with_file c x xs g) = arrays g @ [Some (g_fresh g)]"
    "cur_data (with_file c x xs g) d = (if d = c then Some (g_fresh g) else cur_data g d)"
    "storage_ok J (g_storage (with_file c x xs g))"
proof -
  have st: "t_cur_unsorted (g_storage g) = int (taken g)" "length (t_filesData (g_storage g)) = length (j_paths J)"
    using assms by (auto simp: storage_ok_def taken_def)
  then show t: "taken (with_file c x xs g) = taken g + 1"
    using assms(1) by (simp add: storage_ok_def taken_def with_file_def Let_def set_ctx_def nat_add_distrib)
  show "arrays (with_file c x xs g) = arrays g @ [Some (g_fresh g)]"
    using assms(2) st unfolding arrays_def t
    by (simp add: with_file_def Let_def set_ctx_def take_Suc_conv_app_nth)
  show "cur_data (with_file c x xs g) d = (if d = c then Some (g_fresh g) else cur_data g d)"
    by (simp add: cur_data_def with_file_def Let_def set_ctx_def)
  show "storage_ok J (g_storage (with_file c x xs g))"
    using assms st by (auto simp: storage_ok_def with_file_def Let_def set_ctx_def)
qed

lemma take_file_runs:
  assumes inv: "sort_inv J g" and c: "g_ctx g c = Some x" and t: "taken g < length (j_paths J)"
  shows "\<exists>y. let g' = with_file c y (j_inputs J ! taken g) g in
    take_file c (haveFiles (g_storage g)) g =
      Some ((g_fresh g, int (length (j_inputs J ! taken g))), g') \<and>
    x_start_time y = g_clock g (g_ticks g) \<and> x_work_time y = x_work_time x"
proof -
  have st: "storage_ok J (g_storage g)" "inputs_ok J (g_fs g)" using inv by (auto simp: sort_inv_def)
  then have cur: "t_cur_unsorted (g_storage g) = int (taken g)" "t_count (g_storage g) = int (length (j_paths J))"
    and len: "length (t_filesData (g_storage g)) = length (j_paths J)"
    and paths: "take (length (j_paths J)) (t_paths (g_storage g)) = map Some (j_paths J)"
    by (auto simp: storage_ok_def taken_def)
  have plen: "length (j_paths J) \<le> length (t_paths (g_storage g))"
    using arg_cong [OF paths, of length] by simp
  have "t_paths (g_storage g) ! taken g = take (length (j_paths J)) (t_paths (g_storage g)) ! taken g" using t by simp
  also have "\<dots> = Some (j_paths J ! taken g)" using paths t by simp
  finally have path: "t_paths (g_storage g) ! taken g = Some (j_paths J ! taken g)" .
  obtain s where s: "g_fs g (j_paths J ! taken g) = Some s" "integers s = Some (j_inputs J ! taken g)"
    using st(2) t by (auto simp: inputs_ok_def list_all2_conv_all_nth)
  have have_files: "haveFiles (g_storage g) = int (taken g)" using cur t by (simp add: haveFiles_def)
  show ?thesis
    using s t c cur len plen path
    by (intro exI [of _ "x\<lparr>x_filename := j_paths J ! taken g, x_start_time := g_clock g (g_ticks g)\<rparr>"])
       (simp add: take_file_def have_files getLastUnsortFile_def Let_def start_time_def clock_gettime_def set_ctx_def
         read_file_content_def integers_iff with_file_def)
qed

lemma with_file_array_old:
  assumes inv: "sort_inv J g" and t: "taken g < length (j_paths J)" and c: "idle c g"
    and i: "i < taken g" "arrays g ! i = Some p"
  shows "array_ok J (with_file c x xs g) p (j_inputs J ! i)"
proof -
  have st: "storage_ok J (g_storage g)" using inv by (simp add: sort_inv_def)
  have old: "array_ok J g p (j_inputs J ! i)" using inv i by (simp add: sort_inv_def)
  then obtain f where f: "g_heap g p = Some f" "f_size f = int (length (f_data f))" "mset (f_data f) = mset (j_inputs J ! i)"
    and own: "sorted (f_data f) \<or> (\<exists>d < j_threads J. cur_data g d = Some p)" by (auto simp: array_ok_def)
  have "p < g_fresh g" using inv f(1) unfolding sort_inv_def by blast
  then have "g_heap (with_file c x xs g) p = Some f"
    using f(1) by (simp add: with_file_def Let_def set_ctx_def)
  moreover have "sorted (f_data f) \<or> (\<exists>d < j_threads J. cur_data (with_file c x xs g) d = Some p)"
  proof (cases "sorted (f_data f)")
    case False
    with own obtain d where d: "d < j_threads J" "cur_data g d = Some p" by blast
    have "d \<noteq> c" using c d(2) f(1) False by (auto simp: idle_def)
    with d show ?thesis using with_file_simps(3) [OF st t] by auto
  qed simp
  ultimately show ?thesis using f by (simp add: array_ok_def)
qed

lemma with_file_inv:
  assumes inv: "sort_inv J g" and t: "taken g < length (j_paths J)" and c: "idle c g" "c < j_threads J"
    and xs: "xs = j_inputs J ! taken g"
  shows "sort_inv J (with_file c x xs g)"
proof -
  let ?g = "with_file c x xs g"
  have st: "storage_ok J (g_storage g)" and ctx: "contexts_ok J g" and dom: "Some ` dom (g_heap g) = set (arrays g)"
    and fresh: "\<forall>p \<in> dom (g_heap g). p < g_fresh g" and dist: "distinct (arrays g)"
    using inv by (simp_all add: sort_inv_def)
  note s = with_file_simps [OF st t]
  have g: "g_fs ?g = g_fs g" "g_clock ?g = g_clock g" "g_fresh ?g = g_fresh g + 1"
    "g_heap ?g = (g_heap g)(g_fresh g \<mapsto> \<lparr>f_data = xs, f_size = int (length xs)\<rparr>)"
    "g_ctx ?g = (g_ctx g)(c \<mapsto> x\<lparr>x_curData := Some (g_fresh g)\<rparr>)"
    by (simp_all add: with_file_def Let_def set_ctx_def)
  have new: "Some (g_fresh g) \<notin> set (arrays g)" using fresh by (auto simp flip: dom)
  have "contexts_ok J ?g"
    unfolding contexts_ok_def
  proof (intro conjI allI impI)
    show "dom (g_ctx ?g) = {..<j_threads J}" using ctx c(2) by (auto simp: g contexts_ok_def)
    show "Some p \<in> set (arrays ?g)" if "cur_data ?g d = Some p" for d p
      using that ctx by (auto simp: s contexts_ok_def split: if_splits)
    show "d = e" if "cur_data ?g d = Some p" "cur_data ?g e = Some p" for d e p
      using that ctx new by (auto simp: s contexts_ok_def split: if_splits)
  qed
  moreover have "Some ` dom (g_heap ?g) = set (arrays ?g)" using dom by (simp add: g s)
  moreover have "\<forall>p \<in> dom (g_heap ?g). p < g_fresh ?g" using fresh by (auto simp: g less_SucI)
  moreover have "array_ok J ?g p (j_inputs J ! i)" if i: "i < taken ?g" "arrays ?g ! i = Some p" for i p
  proof (cases "i < taken g")
    case True
    moreover have "length (arrays g) = taken g" using st t by (simp add: arrays_def storage_ok_def)
    ultimately have "arrays g ! i = Some p" using i(2) by (simp add: s nth_append)
    with True show ?thesis by (rule with_file_array_old [OF inv t c(1)])
  next
    case False
    then have "i = taken g" using i(1) by (simp add: s)
    moreover have "length (arrays g) = taken g" using st t by (simp add: arrays_def storage_ok_def)
    ultimately have "p = g_fresh g" "i = taken g" using i(2) by (simp_all add: s nth_append)
    moreover have "cur_data ?g c = Some (g_fresh g)" by (simp add: s)
    ultimately show ?thesis using c(2) xs unfolding array_ok_def g by auto
  qed
  ultimately show ?thesis using inv new dist by (simp add: sort_inv_def s g)
qed

lemma with_file_guar:
  assumes inv: "sort_inv J g" and t: "taken g < length (j_paths J)"
    and "sort_inv J (with_file c x xs g)"
  shows "sort_guar J c g (with_file c x xs g)"
proof -
  have st: "storage_ok J (g_storage g)" using inv by (simp add: sort_inv_def)
  have "keeps d g (with_file c x xs g)" if "d \<noteq> c" for d
  proof -
    have "p \<noteq> g_fresh g" if "cur_data g d = Some p" for p
    proof -
      have "contexts_ok J g" using inv by (simp add: sort_inv_def)
      then have "Some p \<in> set (arrays g)" using that unfolding contexts_ok_def by blast
      then obtain f where "g_heap g p = Some f" using sort_inv_array [OF inv] by blast
      then have "p < g_fresh g" using inv unfolding sort_inv_def by blast
      then show ?thesis by simp
    qed
    with that show ?thesis by (auto simp: keeps_def with_file_def Let_def set_ctx_def)
  qed
  moreover have "onward g (with_file c x xs g)"
    using with_file_simps(1) [OF st t] by (simp add: onward_def with_file_def Let_def set_ctx_def)
  ultimately show ?thesis using assms(3) by (simp add: sort_guar_def)
qed

lemma take_file_ok:
  assumes inv: "sort_inv J g" and t: "taken g < length (j_paths J)" and c: "idle c g" "c < j_threads J"
  shows "\<exists>p xs g'. take_file c (haveFiles (g_storage g)) g = Some ((p, int (length xs)), g') \<and>
    sort_guar J c g g' \<and> own J c p xs g' \<and> taken g' = taken g + 1"
proof -
  have st: "storage_ok J (g_storage g)" and clock: "clock_runs (g_clock g)"
    using inv by (simp_all add: sort_inv_def)
  obtain x where x: "g_ctx g c = Some x" "ready g x" using c(1) by (auto simp: idle_def)
  define xs where "xs = j_inputs J ! taken g"
  from take_file_runs [OF inv x(1) t] obtain y where y: "x_start_time y = g_clock g (g_ticks g)" "x_work_time y = x_work_time x"
    "take_file c (haveFiles (g_storage g)) g = Some ((g_fresh g, int (length xs)), with_file c y xs g)"
    by (auto simp: Let_def xs_def)
  have inv': "sort_inv J (with_file c y xs g)" by (rule with_file_inv [OF inv t c xs_def])
  have "running (with_file c y xs g) (y\<lparr>x_curData := Some (g_fresh g)\<rparr>)"
    using y(1,2) by (intro ready_start [OF x(2) clock]) (simp_all add: with_file_def Let_def set_ctx_def)
  then have "own J c (g_fresh g) xs (with_file c y xs g)"
    using inv' c(2) with_file_simps(3) [OF st t] by (simp add: owns_def with_file_def Let_def set_ctx_def)
  then show ?thesis
    using y(3) with_file_guar [OF inv t inv'] with_file_simps(1) [OF st t] by blast
qed

subsection \<open>The loop\<close>

lemma haveFiles_taken:
  "sort_inv J g \<Longrightarrow> haveFiles (g_storage g) = (if taken g < length (j_paths J) then int (taken g) else - 1)"
  by (auto simp: sort_inv_def storage_ok_def taken_def haveFiles_def)

lemma wp_have_files:
  "sort_inv J g \<Longrightarrow> Q (haveFiles (g_storage g)) g \<Longrightarrow> wpc J c (get (\<lambda>g. Some (haveFiles (g_storage g)))) Q g"
  by (simp add: wp_get sorting.guar_refl)

lemma sorted_part_all: "sorted_part 0 (length xs) xs \<longleftrightarrow> sorted xs"
  by (auto simp: sorted_part_def sorted_iff_nth_mono)

definition advances :: "job \<Rightarrow> memory \<Rightarrow> memory \<Rightarrow> bool" where
  "advances J g g' \<longleftrightarrow> (sort_inv J g \<longrightarrow> sort_inv J g' \<and> onward g g')"

lemma wp_advances: "wpc J c p Q g \<Longrightarrow> wpc J c p (\<lambda>x g'. Q x g' \<and> advances J g g') g"
  by (erule wp_moves) (auto simp: advances_def sort_rely_def sort_guar_def onward_refl intro: onward_trans)

lemma wp_sort_file:
  assumes own: "own J c p xs g" and Q: "\<And>g'. sort_inv J g' \<Longrightarrow> idle c g' \<Longrightarrow> taken g \<le> taken g' \<Longrightarrow> Q () g'"
  shows "wpc J c (quicksort (nat (int (length xs)) + 1) c p 0 (int (length xs) - 1)) Q g"
proof -
  have inv: "sort_inv J g" using own by (simp add: owns_def)
  have "wpc J c (quicksort (length xs + 1) c p (int 0) (int (length xs) - 1)) (\<lambda>_ g'. sort_inv J g' \<and> idle c g') g"
  proof (rule wp_quicksort [OF own])
    fix ys g' assume ys: "own J c p ys g'" "permuted 0 (length xs) xs ys" "sorted_part 0 (length xs) ys"
    then have "sorted ys" using permuted_length [OF ys(2)] sorted_part_all [of ys] by simp
    with ys(1) show "sort_inv J g' \<and> idle c g'"
      by (auto simp: owns_def idle_def intro: running_ready running_can_end)
  qed auto
  from wp_advances [OF this]
  have "wpc J c (quicksort (length xs + 1) c p (int 0) (int (length xs) - 1)) Q g"
    by (rule wp_mono) (auto simp: advances_def onward_def inv intro: Q)
  then show ?thesis by simp
qed

lemma wp_coroutine_loop:
  assumes "sort_inv J g" "idle c g" "c < j_threads J" "length (j_paths J) - taken g < n"
    and "\<And>g'. sort_inv J g' \<Longrightarrow> idle c g' \<Longrightarrow> taken g' = length (j_paths J) \<Longrightarrow> Q () g'"
  shows "wpc J c (coroutine_loop n c (haveFiles (g_storage g))) Q g"
  using assms
proof (induction n arbitrary: g)
  case 0
  then show ?case by simp
next
  case (Suc n)
  show ?case
  proof (cases "taken g < length (j_paths J)")
    case False
    then have "taken g = length (j_paths J)" using taken_le [OF Suc.prems(1)] by simp
    then show ?thesis using Suc.prems False by (simp add: haveFiles_taken)
  next
    case True
    from take_file_ok [OF Suc.prems(1) True Suc.prems(2,3)] obtain p xs g1 where
      g1: "take_file c (haveFiles (g_storage g)) g = Some ((p, int (length xs)), g1)" "sort_guar J c g g1"
        "own J c p xs g1" "taken g1 = taken g + 1" by blast
    have "wpc J c (get (\<lambda>g. Some (haveFiles (g_storage g)))) (\<lambda>i. wpc J c (coroutine_loop n c i) Q) g2"
      if "sort_inv J g2" "idle c g2" "taken g1 \<le> taken g2" for g2
    proof -
      have "length (j_paths J) - taken g2 < n" using that(3) g1(4) True Suc.prems(4) by linarith
      then have "wpc J c (coroutine_loop n c (haveFiles (g_storage g2))) Q g2"
        using Suc.prems(5) by (rule Suc.IH [OF that(1,2) Suc.prems(3)])
      then show ?thesis by (simp add: wp_get sorting.guar_refl)
    qed
    with g1(3) have "wpc J c (quicksort (nat (int (length xs)) + 1) c p 0 (int (length xs) - 1))
        (\<lambda>_. wpc J c (get (\<lambda>g. Some (haveFiles (g_storage g)))) (\<lambda>i. wpc J c (coroutine_loop n c i) Q)) g1"
      by (rule wp_sort_file)
    moreover have "haveFiles (g_storage g) \<noteq> - 1" using True Suc.prems(1) by (simp add: haveFiles_taken)
    ultimately show ?thesis using g1 by (simp add: wp_pbind wp_state del: quicksort.simps)
  qed
qed

text \<open>At the end of the body \<^verbatim>\<open>start_time\<close> may still be what \<^verbatim>\<open>malloc\<close> left, if no file was left for the coroutine.\<close>

lemma final_time_ok:
  assumes inv: "sort_inv J g" and idle: "idle c g"
  shows "\<exists>g'. calculate_coroutine_time c g = Some g' \<and> own_step c g g' \<and> g_heap g' = g_heap g"
proof -
  obtain x where x: "g_ctx g c = Some x" "can_end x" using idle by (auto simp: idle_def)
  have clock: "clock_ok (x_start_time x)" "clock_ok (g_clock g (g_ticks g))"
    using x(2) inv clock_runs_ok by (auto simp: can_end_def sort_inv_def)
  show ?thesis
    using x(1) time_difference_ok [OF clock] can_end_adds [OF x(2) clock(2)]
    by (simp add: calculate_coroutine_time_def clock_gettime_def set_ctx_def own_step_def cur_data_def)
qed

lemma coroutine_func_f_ok:
  assumes "sort_inv J g" "idle c g" "c < j_threads J"
  shows "wpc J c (coroutine_func_f (length (j_paths J) + 1) c) (sort_post J c) g"
proof -
  have "wpc J c (modify (calculate_coroutine_time c)) (\<lambda>_. sort_post J c 0) g1"
    if g1: "sort_inv J g1" "idle c g1" "taken g1 = length (j_paths J)" for g1
  proof -
    from final_time_ok [OF g1(1,2)] obtain g2 where g2: "calculate_coroutine_time c g1 = Some g2" "own_step c g1 g2"
      "g_heap g2 = g_heap g1" by blast
    have "sort_post J c 0 g2"
      using g1 own_step_inv [OF g1(1) g2(2) assms(3)] own_step_simps [OF g2(2)] g2(3) by (simp add: sort_post_def idle_def)
    with g2(1) own_step_guar [OF g2(2) assms(3)] show ?thesis by (auto simp: wp_modify)
  qed
  then have "wpc J c (coroutine_loop (length (j_paths J) + 1) c (haveFiles (g_storage g)))
      (\<lambda>_. wpc J c (modify (calculate_coroutine_time c)) (\<lambda>_. sort_post J c 0)) g"
    using assms by (intro wp_coroutine_loop) auto
  then show ?thesis
    using assms(1) unfolding coroutine_func_f_def wp_pbind by (intro wp_have_files) simp_all
qed

end
