(* ===== verification/Coro_Merge.thy ===== *)
theory Coro_Merge
  imports Coro_Body
begin

section \<open>Merging the sorted arrays\<close>

text \<open>
  \<^verbatim>\<open>merge_sorted_files\<close> of \<^verbatim>\<open>hw1/solution.c\<close>: the remaining parts of the arrays are lists, a round takes the
  first of the smallest heads. The merge of sorted arrays is the sorted list of all their elements,
  unless one of them is \<^const>\<open>INT_MAX\<close>: then no head is below the initial minimum and the index -1 is used.
\<close>

subsection \<open>One round\<close>

fun pick :: "int list list \<Rightarrow> nat \<Rightarrow> bool \<times> int \<times> int \<Rightarrow> bool \<times> int \<times> int" where
  "pick [] i acc = acc"
| "pick ([] # xss) i acc = pick xss (i + 1) acc"
| "pick ((x # xs) # xss) i (fin, v, ind) = pick xss (i + 1) (if x < v then (False, x, int i) else (False, v, ind))"

definition arrays_are :: "memory \<Rightarrow> int list list \<Rightarrow> bool" where
  "arrays_are g xss \<longleftrightarrow> (\<forall>i < length xss. data_file g i = Some \<lparr>f_data = xss ! i, f_size = int (length (xss ! i))\<rparr>)"

definition rest :: "int list list \<Rightarrow> nat list \<Rightarrow> int list list" where
  "rest xss ks = map2 (\<lambda>xs k. drop k xs) xss ks"

lemma find_min_pick:
  assumes "arrays_are g xss" "i + length ks = length xss"
  shows "find_min g i (map int ks) acc = Some (pick (rest (drop i xss) ks) i acc)"
  using assms
proof (induction ks arbitrary: i acc)
  case (Cons k ks)
  have i: "i < length xss" using Cons.prems(2) by simp
  then have arr: "data_file g i = Some \<lparr>f_data = xss ! i, f_size = int (length (xss ! i))\<rparr>"
    using Cons.prems(1) by (simp add: arrays_are_def)
  have IH: "find_min g (i + 1) (map int ks) a = Some (pick (rest (drop (i + 1) xss) ks) (i + 1) a)" for a
    using Cons.prems by (intro Cons.IH) auto
  have r: "rest (drop i xss) (k # ks) = drop k (xss ! i) # rest (drop (i + 1) xss) ks"
    using i by (simp add: rest_def Cons_nth_drop_Suc [symmetric])
  show ?case
  proof (cases "k < length (xss ! i)")
    case True
    obtain fin v ind where acc: "acc = (fin, v, ind)" by (cases acc) auto
    have "drop k (xss ! i) = xss ! i ! k # drop (Suc k) (xss ! i)" using True by (simp add: Cons_nth_drop_Suc)
    with True arr IH show ?thesis by (simp add: r acc Let_def)
  next
    case False
    with arr IH show ?thesis by (simp add: r)
  qed
qed (simp add: rest_def)

definition chosen :: "int list list \<Rightarrow> nat \<Rightarrow> int \<Rightarrow> int \<Rightarrow> bool" where
  "chosen xss i v ind \<longleftrightarrow> (\<exists>j < length xss. ind = int (i + j) \<and> xss ! j \<noteq> [] \<and> hd (xss ! j) = v)"

lemma chosen_Cons: "chosen xss (i + 1) v ind \<Longrightarrow> chosen (xs # xss) i v ind"
proof -
  assume "chosen xss (i + 1) v ind"
  then obtain j where "j < length xss" "ind = int (i + 1 + j)" "xss ! j \<noteq> []" "hd (xss ! j) = v" by (auto simp: chosen_def)
  then show ?thesis unfolding chosen_def by (intro exI [of _ "Suc j"]) simp
qed

lemma chosen_first: "xs \<noteq> [] \<Longrightarrow> chosen (xs # xss) i (hd xs) (int i)"
  unfolding chosen_def by (intro exI [of _ 0]) simp

lemma pick_spec:
  "pick xss i (fin0, v0, ind0) = (fin, v, ind) \<Longrightarrow>
    (fin \<longrightarrow> fin0 \<and> concat xss = []) \<and> (fin0 \<and> concat xss = [] \<longrightarrow> fin) \<and> v \<le> v0 \<and> (\<forall>xs \<in> set xss. xs \<noteq> [] \<longrightarrow> v \<le> hd xs) \<and>
    (v = v0 \<and> ind = ind0 \<or> v < v0 \<and> chosen xss i v ind)"
proof (induction xss arbitrary: i fin0 v0 ind0)
  case Nil
  then show ?case by simp
next
  case (Cons xs xss)
  show ?case
  proof (cases xs)
    case Nil
    with Cons.prems have "pick xss (i + 1) (fin0, v0, ind0) = (fin, v, ind)" by simp
    note IH = Cons.IH [OF this]
    then have "v = v0 \<and> ind = ind0 \<or> v < v0 \<and> chosen (xs # xss) i v ind" using chosen_Cons [of xss i v ind xs] by blast
    moreover have "\<forall>zs \<in> set xss. zs \<noteq> [] \<longrightarrow> v \<le> hd zs" using IH by blast
    then have "\<forall>zs \<in> set (xs # xss). zs \<noteq> [] \<longrightarrow> v \<le> hd zs" using Nil by simp
    moreover have "concat (xs # xss) = concat xss" using Nil by simp
    ultimately show ?thesis using IH by metis
  next
    case xs: (Cons x ys)
    show ?thesis
    proof (cases "x < v0")
      case True
      with Cons.prems xs have "pick xss (i + 1) (False, x, int i) = (fin, v, ind)" by simp
      note IH = Cons.IH [OF this]
      then have "chosen (xs # xss) i v ind" using chosen_Cons [of xss i v ind xs] chosen_first [of xs xss i] xs by fastforce
      moreover have "\<not> fin" "v \<le> x" "\<forall>xs \<in> set xss. xs \<noteq> [] \<longrightarrow> v \<le> hd xs" using IH by blast+
      ultimately show ?thesis using xs True by simp
    next
      case False
      with Cons.prems xs have "pick xss (i + 1) (False, v0, ind0) = (fin, v, ind)" by simp
      note IH = Cons.IH [OF this]
      then have "v = v0 \<and> ind = ind0 \<or> v < v0 \<and> chosen (xs # xss) i v ind" using chosen_Cons [of xss i v ind xs] by blast
      moreover have "\<not> fin" "v \<le> v0" "\<forall>xs \<in> set xss. xs \<noteq> [] \<longrightarrow> v \<le> hd xs" using IH by blast+
      ultimately show ?thesis using xs False by simp
    qed
  qed
qed

subsection \<open>The loop\<close>

definition render :: "int list \<Rightarrow> string" where
  "render xs = concat (map (\<lambda>x. show_int x @ '' '') xs)"

lemma render_Cons: "render (x # xs) = show_int x @ '' '' @ render xs"
  by (simp add: render_def)

lemma sort_min:
  assumes "mset xs = add_mset v (mset ys)" "\<forall>x \<in> set ys. v \<le> x"
  shows "sort xs = v # sort ys"
proof (rule properties_for_sort)
  show "mset (v # sort ys) = mset xs" using assms(1) by simp
  show "sorted (v # sort ys)" using assms(2) by simp
qed

lemma length_rest: "length ks = length xss \<Longrightarrow> length (rest xss ks) = length xss"
  by (simp add: rest_def)

lemma rest_nth: "j < length xss \<Longrightarrow> length ks = length xss \<Longrightarrow> rest xss ks ! j = drop (ks ! j) (xss ! j)"
  by (simp add: rest_def)

text \<open>Taking one element of array \<open>j\<close>.\<close>

lemma mset_concat_update:
  "j < length yss \<Longrightarrow> yss ! j = v # ys \<Longrightarrow> mset (concat yss) = add_mset v (mset (concat (yss[j := ys])))"
proof (induction yss arbitrary: j)
  case (Cons zs yss)
  then show ?case by (cases j) auto
qed simp

lemma rest_update:
  assumes "j < length xss" "length ks = length xss" "rest xss ks ! j = v # ys"
  shows "rest xss (ks[j := ks ! j + 1]) = (rest xss ks)[j := ys]"
proof (rule nth_equalityI)
  show "length (rest xss (ks[j := ks ! j + 1])) = length ((rest xss ks)[j := ys])" using assms by (simp add: rest_def)
next
  fix i assume "i < length (rest xss (ks[j := ks ! j + 1]))"
  then have i: "i < length xss" using assms by (simp add: rest_def)
  have "drop (ks ! j + 1) (xss ! j) = tl (drop (ks ! j) (xss ! j))" by (simp add: drop_Suc tl_drop)
  with assms i show "rest xss (ks[j := ks ! j + 1]) ! i = (rest xss ks)[j := ys] ! i"
    by (cases "i = j") (simp_all add: rest_nth length_rest)
qed

text \<open>The indices and the output after \<open>n\<close> rounds of the loop, if each finds an element to write.\<close>

primrec merge_rounds :: "memory \<Rightarrow> nat \<Rightarrow> int list \<times> string \<Rightarrow> (int list \<times> string) option" where
  "merge_rounds g 0 s = Some s"
| "merge_rounds g (Suc n) s =
     (let (indices, out) = s in
      do { (finished, min_val, min_ind) \<leftarrow> find_min g 0 indices (True, INT_MAX, - 1);
           if \<not> finished \<and> 0 \<le> min_ind \<and> nat min_ind < length indices
           then merge_rounds g n (indices[nat min_ind := indices ! nat min_ind + 1], out @ show_int min_val @ '' '')
           else None })"

text \<open>One iteration of the loop, for sorted arrays.\<close>

lemma merge_round:
  assumes arr: "arrays_are g xss" and sorted: "\<forall>xs \<in> set xss. sorted xs" and ks: "length ks = length xss"
    and ne: "concat (rest xss ks) \<noteq> []" and bound: "\<forall>x \<in> set (concat (rest xss ks)). x \<le> INT_MAX"
  shows "(\<forall>x \<in> set (concat (rest xss ks)). x = INT_MAX) \<and> merge_loop g (map int ks) out = None \<and>
      find_min g 0 (map int ks) (True, INT_MAX, - 1) = Some (False, INT_MAX, - 1) \<or>
    (\<exists>j v ys. j < length xss \<and> v < INT_MAX \<and> rest xss ks ! j = v # ys \<and> (\<forall>x \<in> set (concat (rest xss ks)). v \<le> x) \<and>
       merge_loop g (map int ks) out = merge_loop g (map int (ks[j := ks ! j + 1])) (out @ show_int v @ '' '') \<and>
       (\<forall>n. merge_rounds g (Suc n) (map int ks, out) = merge_rounds g n (map int (ks[j := ks ! j + 1]), out @ show_int v @ '' '')))"
proof -
  obtain fin v ind where p: "pick (rest xss ks) 0 (True, INT_MAX, - 1) = (fin, v, ind)" by (cases "pick (rest xss ks) 0 (True, INT_MAX, - 1)") auto
  have find: "find_min g 0 (map int ks) (True, INT_MAX, - 1) = Some (fin, v, ind)"
    using find_min_pick [OF arr, of 0 ks] ks p by simp
  note spec = pick_spec [OF p]
  then have fin: "\<not> fin" using ne by blast
  have least: "v \<le> x" if "x \<in> set (concat (rest xss ks))" for x
  proof -
    from that obtain i where i: "i < length xss" "x \<in> set (rest xss ks ! i)"
      using ks by (auto simp: in_set_conv_nth length_rest) (metis in_set_conv_nth)
    then have "sorted (rest xss ks ! i)" using sorted ks by (simp add: rest_nth sorted_wrt_drop)
    moreover have "rest xss ks ! i \<in> set (rest xss ks)" "rest xss ks ! i \<noteq> []" using i ks by (auto simp: length_rest)
    then have "v \<le> hd (rest xss ks ! i)" using spec by blast
    ultimately show ?thesis using i(2) by (cases "rest xss ks ! i") auto
  qed
  show ?thesis
  proof (cases "v < INT_MAX")
    case True
    with spec obtain j where j: "j < length xss" "ind = int j" "rest xss ks ! j \<noteq> []" "hd (rest xss ks ! j) = v"
      using ks by (auto simp: chosen_def length_rest)
    then have "rest xss ks ! j = v # tl (rest xss ks ! j)" by (metis list.collapse)
    moreover have "merge_loop g (map int ks) out = merge_loop g (map int (ks[j := ks ! j + 1])) (out @ show_int v @ '' '')"
      using find fin j ks by (subst merge_loop.simps) (simp add: map_update add.commute)
    moreover have "merge_rounds g (Suc n) (map int ks, out) = merge_rounds g n (map int (ks[j := ks ! j + 1]), out @ show_int v @ '' '')" for n
      using find fin j ks by (simp add: map_update add.commute)
    ultimately show ?thesis using True j(1) least by blast
  next
    case False
    then have v: "v = INT_MAX" "ind = - 1" using spec by auto
    then have "find_min g 0 (map int ks) (True, INT_MAX, - 1) = Some (False, INT_MAX, - 1)" using find fin by simp
    moreover from v have "merge_loop g (map int ks) out = None" using find fin by (subst merge_loop.simps) simp
    moreover have "x = INT_MAX" if "x \<in> set (concat (rest xss ks))" for x
      using least [OF that] bound that v(1) by force
    ultimately show ?thesis by blast
  qed
qed

lemma merge_loop_ok:
  assumes "arrays_are g xss" "\<forall>xs \<in> set xss. sorted xs" "length ks = length xss"
    and "\<forall>x \<in> set (concat (rest xss ks)). x < INT_MAX"
  shows "merge_loop g (map int ks) out = Some (out @ render (sort (concat (rest xss ks))))"
  using assms(3,4)
proof (induction "length (concat (rest xss ks))" arbitrary: ks out)
  case 0
  then have find: "find_min g 0 (map int ks) (True, INT_MAX, - 1) = Some (pick (rest xss ks) 0 (True, INT_MAX, - 1))"
    using find_min_pick [OF assms(1), of 0 ks] by simp
  obtain fin v ind where p: "pick (rest xss ks) 0 (True, INT_MAX, - 1) = (fin, v, ind)" by (cases "pick (rest xss ks) 0 (True, INT_MAX, - 1)") auto
  have nil: "concat (rest xss ks) = []" using 0(1) by (metis length_0_conv)
  then have "fin" using pick_spec [OF p] by blast
  with find p have "merge_loop g (map int ks) out = Some out" by (subst merge_loop.simps) simp
  then show ?case unfolding nil by (simp add: render_def)
next
  case (Suc n)
  have ne: "concat (rest xss ks) \<noteq> []" using Suc.hyps(2) by (metis Zero_not_Suc list.size(3))
  have le: "\<forall>x \<in> set (concat (rest xss ks)). x \<le> INT_MAX" using Suc.prems(2) by (blast intro: less_imp_le)
  from merge_round [OF assms(1,2) Suc.prems(1) ne le, of out] obtain j v ys where
    j: "j < length xss" "v < INT_MAX" "rest xss ks ! j = v # ys" "\<forall>x \<in> set (concat (rest xss ks)). v \<le> x"
      "merge_loop g (map int ks) out = merge_loop g (map int (ks[j := ks ! j + 1])) (out @ show_int v @ '' '')"
    using Suc.prems(2) ne by (metis hd_in_set less_irrefl)
  let ?ks = "ks[j := ks ! j + 1]"
  have r: "rest xss ?ks = (rest xss ks)[j := ys]" using rest_update [OF j(1) Suc.prems(1) j(3)] .
  have m: "mset (concat (rest xss ks)) = add_mset v (mset (concat (rest xss ?ks)))"
    unfolding r using j(1,3) Suc.prems(1) by (intro mset_concat_update) (auto simp: length_rest)
  then have sub: "set (concat (rest xss ks)) = insert v (set (concat (rest xss ?ks)))"
    by (metis set_mset_add_mset_insert set_mset_mset)
  have "length (concat (rest xss ks)) = Suc (length (concat (rest xss ?ks)))" using m by (metis size_add_mset size_mset)
  then have "n = length (concat (rest xss ?ks))" using Suc.hyps(2) by simp
  moreover have "length ?ks = length xss" "\<forall>x \<in> set (concat (rest xss ?ks)). x < INT_MAX"
    using Suc.prems sub by auto
  ultimately have "merge_loop g (map int ?ks) (out @ show_int v @ '' '') =
      Some ((out @ show_int v @ '' '') @ render (sort (concat (rest xss ?ks))))" by (rule Suc.hyps(1))
  moreover have "sort (concat (rest xss ks)) = v # sort (concat (rest xss ?ks))"
    using m j(4) sub by (intro sort_min) auto
  ultimately show ?case using j(5) by (simp add: render_Cons)
qed

text \<open>With \<^const>\<open>INT_MAX\<close> among the elements, the loop writes all other elements, and then uses \<^verbatim>\<open>indices[-1]\<close>.\<close>

abbreviation below_max :: "int list \<Rightarrow> int list" where
  "below_max xs \<equiv> filter (\<lambda>x. x \<noteq> INT_MAX) xs"

lemma sort_below_max:
  assumes "mset xs = add_mset v (mset ys)" "\<forall>x \<in> set xs. v \<le> x" "v \<noteq> INT_MAX"
  shows "sort (below_max xs) = v # sort (below_max ys)"
proof (rule sort_min)
  show "mset (below_max xs) = add_mset v (mset (below_max ys))" using assms(1,3) by simp
  have "set xs = insert v (set ys)" using assms(1) by (metis set_mset_add_mset_insert set_mset_mset)
  then show "\<forall>x \<in> set (below_max ys). v \<le> x" using assms(2) by auto
qed

lemma merge_loop_int_max:
  assumes "arrays_are g xss" "\<forall>xs \<in> set xss. sorted xs" "length ks = length xss"
    and "\<forall>x \<in> set (concat (rest xss ks)). x \<le> INT_MAX" "INT_MAX \<in> set (concat (rest xss ks))"
  shows "merge_loop g (map int ks) out = None \<and>
    (\<exists>n is. merge_rounds g n (map int ks, out) = Some (is, out @ render (sort (below_max (concat (rest xss ks))))) \<and>
       find_min g 0 is (True, INT_MAX, - 1) = Some (False, INT_MAX, - 1))"
  using assms(3-5)
proof (induction "length (concat (rest xss ks))" arbitrary: ks out)
  case 0
  then have "concat (rest xss ks) = []" by (metis length_0_conv)
  then show ?case using 0(4) by (metis empty_iff empty_set)
next
  case (Suc n)
  have ne: "concat (rest xss ks) \<noteq> []" using Suc.hyps(2) by (metis Zero_not_Suc list.size(3))
  from merge_round [OF assms(1,2) Suc.prems(1) ne Suc.prems(2), of out] show ?case
  proof (elim disjE conjE exE)
    assume stop: "\<forall>x \<in> set (concat (rest xss ks)). x = INT_MAX" "merge_loop g (map int ks) out = None"
      "find_min g 0 (map int ks) (True, INT_MAX, - 1) = Some (False, INT_MAX, - 1)"
    have "below_max (concat (rest xss ks)) = []" unfolding filter_empty_conv using stop(1) by blast
    then have "merge_rounds g 0 (map int ks, out) = Some (map int ks, out @ render (sort (below_max (concat (rest xss ks)))))"
      by (simp only:) (simp add: render_def)
    with stop(2,3) show ?case by blast
  next
    fix j v ys
    assume j: "j < length xss" "v < INT_MAX" "rest xss ks ! j = v # ys" "\<forall>x \<in> set (concat (rest xss ks)). v \<le> x"
      "merge_loop g (map int ks) out = merge_loop g (map int (ks[j := ks ! j + 1])) (out @ show_int v @ '' '')"
      "\<forall>n. merge_rounds g (Suc n) (map int ks, out) = merge_rounds g n (map int (ks[j := ks ! j + 1]), out @ show_int v @ '' '')"
    let ?ks = "ks[j := ks ! j + 1]"
    have r: "rest xss ?ks = (rest xss ks)[j := ys]" using rest_update [OF j(1) Suc.prems(1) j(3)] .
    have m: "mset (concat (rest xss ks)) = add_mset v (mset (concat (rest xss ?ks)))"
      unfolding r using j(1,3) Suc.prems(1) by (intro mset_concat_update) (auto simp: length_rest)
    then have sub: "set (concat (rest xss ks)) = insert v (set (concat (rest xss ?ks)))"
      by (metis set_mset_add_mset_insert set_mset_mset)
    have "length (concat (rest xss ks)) = Suc (length (concat (rest xss ?ks)))" using m by (metis size_add_mset size_mset)
    then have "n = length (concat (rest xss ?ks))" using Suc.hyps(2) by simp
    moreover have "length ?ks = length xss" using Suc.prems(1) by simp
    moreover have "\<forall>x \<in> set (concat (rest xss ?ks)). x \<le> INT_MAX" "INT_MAX \<in> set (concat (rest xss ?ks))"
      using Suc.prems(2,3) sub j(2) by auto
    ultimately have "merge_loop g (map int ?ks) (out @ show_int v @ '' '') = None \<and>
        (\<exists>n is. merge_rounds g n (map int ?ks, out @ show_int v @ '' '') =
             Some (is, (out @ show_int v @ '' '') @ render (sort (below_max (concat (rest xss ?ks))))) \<and>
           find_min g 0 is (True, INT_MAX, - 1) = Some (False, INT_MAX, - 1))" by (rule Suc.hyps(1))
    then obtain k "is" where k: "merge_loop g (map int ?ks) (out @ show_int v @ '' '') = None"
      "merge_rounds g k (map int ?ks, out @ show_int v @ '' '') =
         Some (is, (out @ show_int v @ '' '') @ render (sort (below_max (concat (rest xss ?ks)))))"
      "find_min g 0 is (True, INT_MAX, - 1) = Some (False, INT_MAX, - 1)" by blast
    have "sort (below_max (concat (rest xss ks))) = v # sort (below_max (concat (rest xss ?ks)))"
      using j(2) by (intro sort_below_max [OF m j(4)]) simp
    then have "merge_rounds g (Suc k) (map int ks, out) = Some (is, out @ render (sort (below_max (concat (rest xss ks)))))"
      using j(6) k(2) by (simp add: render_Cons del: filter_concat)
    with j(5) k(1,3) show ?case by metis
  qed
qed

end
