(* ===== verification/Coro_Correct.thy ===== *)
theory Coro_Correct
  imports Coro_Merge
begin

section \<open>The sorting program as a whole\<close>

text \<open>
  \<^verbatim>\<open>main\<close> of \<^verbatim>\<open>hw1/solution.c\<close> on top of the scheduler of \<^verbatim>\<open>hw1/libcoro.c\<close>: for every clock, that is for every
  interleaving of the coroutines, all of them end, and \<^verbatim>\<open>output.txt\<close> holds the numbers of all files in order.
\<close>

subsection \<open>Reading back the output\<close>

lemma scan_render:
  "- (2 ^ 31) \<le> x \<Longrightarrow> x \<le> INT_MAX \<Longrightarrow> scan_int (render (x # xs)) = Scanned x (CHR '' '' # render xs)"
  using scan_show_int [of "- (2 ^ 31)" x INT_MAX "CHR '' '' # render xs"] not_digit by (simp add: render_Cons)

lemma count_integers_space: "count_integers (CHR '' '' # s) = count_integers s"
  by (simp add: count_integers.simps [of "CHR '' '' # s"] count_integers.simps [of s] scan_space)

lemma read_array_space: "read_array n (CHR '' '' # s) = read_array n s"
  by (cases n) (simp_all add: scan_space)

lemma integers_render:
  assumes "\<forall>x \<in> set xs. - (2 ^ 31) \<le> x \<and> x \<le> INT_MAX" "int (length xs) \<le> INT_MAX"
  shows "integers (render xs) = Some xs"
  unfolding integers_iff using assms
proof (induction xs)
  case Nil
  then show ?case by (simp add: render_def count_integers.simps scan_Nil)
next
  case (Cons x xs)
  then have "scan_int (render (x # xs)) = Scanned x (CHR '' '' # render xs)" by (intro scan_render) auto
  with Cons show ?case
    by (simp add: count_integers.simps [of "render (x # xs)"] count_integers_space read_array_space)
qed

subsection \<open>The storage\<close>

definition storage_wf :: "file_storage \<Rightarrow> bool" where
  "storage_wf st \<longleftrightarrow> 0 \<le> t_count st \<and> t_count st \<le> t_capacity st \<and> t_capacity st = int (length (t_paths st)) \<and>
     t_cur_unsorted st = 0 \<and> None \<notin> set (take (nat (t_count st)) (t_paths st)) \<and> (\<exists>k \<le> 27. t_capacity st = 10 * 2 ^ k)"

definition storage_paths :: "file_storage \<Rightarrow> string list" where
  "storage_paths st = map the (take (nat (t_count st)) (t_paths st))"

lemma addPath_store:
  assumes "0 \<le> t_count st" "t_count st < t_capacity st" "t_capacity st = int (length (t_paths st))" "t_cur_unsorted st = 0"
    "None \<notin> set (take (nat (t_count st)) (t_paths st))" "k \<le> 27" "t_capacity st = 10 * 2 ^ k"
  shows "\<exists>st'. addPath st path = Some st' \<and> storage_wf st' \<and> storage_paths st' = storage_paths st @ [path]"
proof -
  have "(2 :: int) ^ k \<le> 2 ^ 27" using assms(6) by (rule power_increasing) simp
  then have cap: "t_capacity st \<le> INT_MAX" using assms(7) by (simp add: INT_MAX_def)
  let ?st = "st\<lparr>t_paths := (t_paths st)[nat (t_count st) := Some path], t_count := t_count st + 1\<rparr>"
  have len: "nat (t_count st) < length (t_paths st)" using assms by linarith
  have suc: "nat (t_count st + 1) = Suc (nat (t_count st))" using assms(1) by simp
  have take: "take (nat (t_count ?st)) (t_paths ?st) = take (nat (t_count st)) (t_paths st) @ [Some path]"
    using len by (simp add: suc take_Suc_conv_app_nth)
  have "addPath st path = Some ?st" using assms cap len by (simp add: addPath_def)
  moreover have "storage_wf ?st" using assms take by (auto simp: storage_wf_def)
  moreover have "storage_paths ?st = storage_paths st @ [path]" unfolding storage_paths_def take by simp
  ultimately show ?thesis by blast
qed

lemma addPath_ok:
  assumes wf: "storage_wf st" and len: "length (storage_paths st) < 10 * 2 ^ 27"
  shows "\<exists>st'. addPath st path = Some st' \<and> storage_wf st' \<and> storage_paths st' = storage_paths st @ [path]"
proof -
  obtain k where k: "k \<le> 27" "t_capacity st = 10 * 2 ^ k" using wf by (auto simp: storage_wf_def)
  have st: "0 \<le> t_count st" "t_count st \<le> t_capacity st" "t_capacity st = int (length (t_paths st))" "t_cur_unsorted st = 0"
    "None \<notin> set (take (nat (t_count st)) (t_paths st))" using wf by (auto simp: storage_wf_def)
  show ?thesis
  proof (cases "t_count st < t_capacity st")
    case True
    with st k show ?thesis by (intro addPath_store)
  next
    case False
    then have eq: "t_count st = t_capacity st" using st(2) by simp
    have "k \<noteq> 27"
    proof
      assume "k = 27"
      then have "nat (t_count st) = 10 * 2 ^ 27" "length (t_paths st) = 10 * 2 ^ 27" using eq k(2) st(3) by simp_all
      then show False using len by (simp add: storage_paths_def)
    qed
    then have k27: "Suc k \<le> 27" using k(1) by simp
    define st1 where "st1 = st\<lparr>t_capacity := t_capacity st * 2, t_paths := realloc (t_paths st) (nat (t_capacity st * 2))\<rparr>"
    have take: "take (nat (t_count st)) (t_paths st1) = take (nat (t_count st)) (t_paths st)"
      using st eq by (simp add: st1_def take_realloc)
    have paths: "storage_paths st1 = storage_paths st" using take by (simp add: storage_paths_def st1_def)
    have "0 < t_capacity st" using k(2) by simp
    then have less: "t_count st1 < t_capacity st1" using eq by (simp add: st1_def)
    have "\<exists>st'. addPath st1 path = Some st' \<and> storage_wf st' \<and> storage_paths st' = storage_paths st1 @ [path]"
    proof (rule addPath_store [OF _ less _ _ _ k27])
      show "t_capacity st1 = int (length (t_paths st1))" using k(2) by (simp add: st1_def)
      show "None \<notin> set (take (nat (t_count st1)) (t_paths st1))" using take st(5) by (simp add: st1_def)
    qed (use st k in \<open>simp_all add: st1_def\<close>)
    moreover have "addPath st path = addPath st1 path"
      using eq less by (simp add: addPath_def st1_def Let_def)
    ultimately show ?thesis using paths by simp
  qed
qed

interpretation paths: growable storage_paths addPath storage_wf "10 * 2 ^ 27"
  by unfold_locales (rule addPath_ok)

lemma add_paths_append: "add_paths st xs = paths.append_list st xs"
  by (induction xs arbitrary: st) simp_all

lemma add_paths_new:
  assumes "length ps \<le> 10 * 2 ^ 27"
  shows "\<exists>st. add_paths file_storage_new ps = Some st \<and> t_count st = int (length ps) \<and> t_cur_unsorted st = 0 \<and>
    take (length ps) (t_paths st) = map Some ps"
proof -
  have new: "storage_wf file_storage_new" "storage_paths file_storage_new = []"
    by (auto simp: storage_wf_def file_storage_new_def storage_paths_def)
  from paths.append_list_ok [OF new(1), of ps] new(2) assms obtain st where
    st: "add_paths file_storage_new ps = Some st" "storage_wf st" "storage_paths st = ps"
    unfolding add_paths_append by auto
  from st(2,3) have "length ps = nat (t_count st)" "0 \<le> t_count st" by (auto simp: storage_wf_def storage_paths_def)
  then have count: "t_count st = int (length ps)" by simp
  have "None \<notin> set (take (length ps) (t_paths st))" using st(2) count by (simp add: storage_wf_def)
  then have "take (length ps) (t_paths st) = map Some (map the (take (length ps) (t_paths st)))"
    by (rule map_Some_the [symmetric])
  also have "map the (take (length ps) (t_paths st)) = ps" using st(3) count by (simp add: storage_paths_def)
  finally show ?thesis using st(1,2) count by (simp add: storage_wf_def)
qed

subsection \<open>Starting the coroutines\<close>

definition new_coro :: "nat \<Rightarrow> nat \<Rightarrow> memory coro" where
  "new_coro n i = \<lparr>c_ret = 0, c_ctx = coroutine_func_f n i, c_is_finished = False, c_switch_count = 0\<rparr>"

definition new_contexts :: "(nat \<Rightarrow> leftover) \<Rightarrow> int \<Rightarrow> nat \<Rightarrow> nat \<Rightarrow> my_context option" where
  "new_contexts left q n i = (if i < n then Some (my_context_new (left i) (coro_name i) q) else None)"

definition started :: "(nat \<Rightarrow> leftover) \<Rightarrow> int \<Rightarrow> memory \<Rightarrow> nat \<Rightarrow> memory sched \<Rightarrow> bool" where
  "started left q g i s \<longleftrightarrow> sched_list s (rev [0..<i]) \<and> s_next s = i \<and> \<not> s_waiting s \<and>
     (\<forall>c < i. s_coros s c = Some (new_coro (nat (t_count (g_storage g)) + 1) c)) \<and>
     s_glob s = g\<lparr>g_ctx := new_contexts left q i\<rparr>"

lemma new_contexts_Suc: "(new_contexts left q i)(i \<mapsto> my_context_new (left i) (coro_name i) q) = new_contexts left q (Suc i)"
  by (rule ext) (auto simp: new_contexts_def)

lemma start_coroutines_ok:
  assumes "started left q g i s" "haveFiles (g_storage g) \<noteq> - 1"
  shows "\<exists>s'. start_coroutines left n i q s [0..<i] = Some ([0..<i + n], s') \<and> started left q g (i + n) s'"
  using assms(1)
proof (induction n arbitrary: i s)
  case 0
  then show ?case by simp
next
  case (Suc n)
  define m where "m = my_context_new (left i) (coro_name i) q"
  define b where "b = coroutine_func_f (nat (t_count (g_storage g)) + 1) i"
  define s1 where "s1 = s\<lparr>s_glob := set_ctx i m (s_glob s)\<rparr>"
  have s: "sched_list s (rev [0..<i])" "s_next s = i" "\<not> s_waiting s" "s_glob s = g\<lparr>g_ctx := new_contexts left q i\<rparr>"
    "\<forall>c < i. s_coros s c = Some (new_coro (nat (t_count (g_storage g)) + 1) c)"
    using Suc.prems by (auto simp: started_def)
  have "sched_list s1 (rev [0..<i])" using s(1) by (simp add: sched_list_def s1_def)
  from coro_new_list [OF this, of b] obtain s2 where s2: "coro_new b s1 = Some (i, s2)" "sched_list s2 (i # rev [0..<i])"
    "s_glob s2 = s_glob s1" "\<not> s_waiting s2" "s_next s2 = Suc i"
    "s_coros s2 = (s_coros s)(i \<mapsto> \<lparr>c_ret = 0, c_ctx = b, c_is_finished = False, c_switch_count = 0\<rparr>)"
    using s(2,3) by (auto simp: s1_def)
  have "s_glob s2 = g\<lparr>g_ctx := new_contexts left q (Suc i)\<rparr>"
    using s(4) s2(3) by (simp add: s1_def set_ctx_def m_def new_contexts_Suc)
  then have "started left q g (Suc i) s2"
    using s2 s(5) by (auto simp: started_def less_Suc_eq new_coro_def b_def)
  from Suc.IH [OF this] obtain s' where s': "start_coroutines left n (Suc i) q s2 [0..<Suc i] = Some ([0..<Suc i + n], s')"
    "started left q g (Suc i + n) s'" by blast
  have "start_coroutines left (Suc n) i q s [0..<i] = start_coroutines left n (Suc i) q s2 [0..<Suc i]"
    using s2(1) s(4) assms(2) by (simp add: m_def b_def s1_def Let_def)
  with s' show ?case by simp
qed

text \<open>The memory with which the coroutines start.\<close>

lemma started_inv:
  assumes "storage_ok J (g_storage g)" "inputs_ok J (g_fs g)" "clock_runs (g_clock g)" "g_heap g = Map.empty"
    and "t_cur_unsorted (g_storage g) = 0" "\<And>c. leftover_ok (left c)"
  shows "sort_inv J (g\<lparr>g_ctx := new_contexts left q (j_threads J)\<rparr>)" "c < n \<Longrightarrow> idle c (g\<lparr>g_ctx := new_contexts left q n\<rparr>)"
proof -
  have c: "cur_data (g\<lparr>g_ctx := new_contexts left q n\<rparr>) d = None" for d n
    by (simp add: cur_data_def new_contexts_def my_context_new_def split: prod.split)
  have "ready h (my_context_new (left c) (coro_name c) q) \<and> can_end (my_context_new (left c) (coro_name c) q)"
    if "g_clock h = g_clock g" for h
    by (intro conjI my_context_new_ok [OF assms(6), of h]) (simp_all add: that clock_runs_ok [OF assms(3)])
  then show "idle c (g\<lparr>g_ctx := new_contexts left q n\<rparr>)" if "c < n" using that by (simp add: idle_def c) (simp add: new_contexts_def)
  let ?g = "g\<lparr>g_ctx := new_contexts left q (j_threads J)\<rparr>"
  have "taken ?g = 0" "arrays ?g = []" using assms(5) by (simp_all add: taken_def arrays_def)
  moreover have "contexts_ok J ?g"
    unfolding contexts_ok_def c by (auto simp: new_contexts_def split: if_splits)
  ultimately show "sort_inv J ?g" using assms by (simp add: sort_inv_def)
qed

lemma started_ok:
  assumes "started left q g (j_threads J) s" "sort_inv J (s_glob s)" "t_count (g_storage g) = int (length (j_paths J))" "c < j_threads J"
    and idle: "idle c (s_glob s)"
  shows "coro_ok (sort_rely J) (sort_guar J) (sort_post J) s c"
proof -
  have k: "s_coros s c = Some (new_coro (length (j_paths J) + 1) c)" using assms(1,3,4) by (simp add: started_def)
  have "wpc J c (coroutine_func_f (length (j_paths J) + 1) c) (sort_post J c) g'" if "sort_rely J c (s_glob s) g'" for g'
  proof (rule coroutine_func_f_ok [OF _ _ assms(4)])
    have g': "sort_inv J g'" "keeps c (s_glob s) g'" "onward (s_glob s) g'" using that assms(2) by (simp_all add: sort_rely_def)
    show "sort_inv J g'" by (rule g')
    show "idle c g'" using idle_kept [OF idle g'(2,3)] .
  qed
  with k show ?thesis by (simp add: coro_ok_def new_coro_def)
qed

text \<open>All coroutines end, and then the arrays are sorted.\<close>

definition all_sorted :: "job \<Rightarrow> memory \<Rightarrow> bool" where
  "all_sorted J g \<longleftrightarrow> sort_inv J g \<and> taken g = length (j_paths J) \<and> arrays_are g (map sort (j_inputs J))"

lemma posts_sorted:
  assumes inv: "sort_inv J g" and "0 < j_threads J" and post: "\<forall>c < j_threads J. \<exists>x. sort_post J c x g"
  shows "all_sorted J g"
proof -
  have t: "taken g = length (j_paths J)" using assms(2,3) by (auto simp: sort_post_def)
  have st: "length (t_filesData (g_storage g)) = length (j_paths J)" "length (j_inputs J) = length (j_paths J)"
    using inv by (auto simp: sort_inv_def storage_ok_def inputs_ok_def list_all2_lengthD)
  then have arr: "arrays g = t_filesData (g_storage g)" by (simp add: arrays_def t)
  have "data_file g i = Some \<lparr>f_data = sort (j_inputs J ! i), f_size = int (length (j_inputs J ! i))\<rparr>"
    if i: "i < length (j_paths J)" for i
  proof -
    have "arrays g ! i \<in> Some ` dom (g_heap g)" using inv i st arr by (simp add: sort_inv_def)
    then obtain p where p: "arrays g ! i = Some p" by blast
    then have "array_ok J g p (j_inputs J ! i)" using inv i t unfolding sort_inv_def by metis
    then obtain f where f: "g_heap g p = Some f" "f_size f = int (length (f_data f))" "mset (f_data f) = mset (j_inputs J ! i)"
      and "sorted (f_data f) \<or> (\<exists>c < j_threads J. cur_data g c = Some p)" by (auto simp: array_ok_def)
    then have "sorted (f_data f)" using post f(1) by (auto simp: sort_post_def)
    then have "f_data f = sort (j_inputs J ! i)" using f(3) by (metis properties_for_sort)
    then have "f = \<lparr>f_data = sort (j_inputs J ! i), f_size = int (length (j_inputs J ! i))\<rparr>" using f(2) by simp
    then show ?thesis using f(1) p i st arr by (simp add: data_file_def)
  qed
  then show ?thesis using inv t st by (simp add: all_sorted_def arrays_are_def)
qed

lemma coroutines_sort:
  assumes s: "started left q g (j_threads J) s" and J: "storage_ok J (g_storage g)" "inputs_ok J (g_fs g)" "0 < j_threads J"
    and g: "clock_runs (g_clock g)" "g_heap g = Map.empty" "t_cur_unsorted (g_storage g) = 0"
    and left: "\<And>c. leftover_ok (left c)"
  shows "\<exists>rs s'. wait_all s [] = Some (rs, s') \<and> mset rs = mset [0..<j_threads J] \<and> all_sorted J (s_glob s')"
proof -
  have glob: "s_glob s = g\<lparr>g_ctx := new_contexts left q (j_threads J)\<rparr>" using s by (simp add: started_def)
  have inv: "sort_inv J (s_glob s)" unfolding glob using J g left by (intro started_inv)
  have count: "t_count (g_storage g) = int (length (j_paths J))" using J(1) by (simp add: storage_ok_def)
  have idle: "idle c (s_glob s)" if "c < j_threads J" for c unfolding glob using J g left that by (intro started_inv)
  have ok: "\<forall>c \<in> set (rev [0..<j_threads J]). coro_ok (sort_rely J) (sort_guar J) (sort_post J) s c"
    using started_ok [OF s inv count _ idle] by simp
  have "sched_list s (rev [0..<j_threads J])" "\<not> s_waiting s" using s by (simp_all add: started_def)
  from sorting.wait_all_ok [OF this ok, of "[]"] obtain rs s' where
    s': "wait_all s [] = Some (rs, s')" "mset rs = mset (rev [0..<j_threads J])"
      "\<forall>c \<in> set (rev [0..<j_threads J]). \<exists>x. sort_post J c x (s_glob s')"
      "sorting.moved J (set (rev [0..<j_threads J])) (s_glob s) (s_glob s')" by auto
  have "sort_inv J (s_glob s')" using s'(4) inv by (simp add: sorting.moved_def)
  then have "all_sorted J (s_glob s')" using s'(3) J(3) by (intro posts_sorted) auto
  with s'(1,2) show ?thesis by simp
qed

end
