(* ===== verification/Coro_Main.thy ===== *)
theory Coro_Main
  imports Coro_Correct
begin

section \<open>Properties of the sorting program\<close>

text \<open>
  The theorems on \<^verbatim>\<open>hw1\<close>: the scheduler hands out every coroutine once, \<^verbatim>\<open>main\<close> sorts for every clock and
  releases what it allocated, and the inputs on which it fails.
\<close>

subsection \<open>After the coroutines\<close>

lemma free_contexts_ok:
  "distinct is \<Longrightarrow> set is \<subseteq> dom (g_ctx g) \<Longrightarrow> free_contexts is g = Some (g\<lparr>g_ctx := g_ctx g |` (- set is)\<rparr>)"
proof (induction "is" arbitrary: g)
  case Nil
  have "g_ctx g |` UNIV = g_ctx g" by (rule ext) simp
  then show ?case by simp
next
  case (Cons i "is")
  then have "free_contexts is (g\<lparr>g_ctx := (g_ctx g)(i := None)\<rparr>) =
      Some (g\<lparr>g_ctx := (g_ctx g)(i := None) |` (- set is)\<rparr>)" by (subst Cons.IH) auto
  moreover have "(g_ctx g)(i := None) |` (- set is) = g_ctx g |` (- set (i # is))"
    by (rule ext) (auto simp: restrict_map_def)
  ultimately show ?case using Cons.prems by auto
qed

lemma free_files_ok:
  "distinct xs \<Longrightarrow> set xs \<subseteq> Some ` dom (g_heap g) \<Longrightarrow>
     free_files xs g = Some (g\<lparr>g_heap := g_heap g |` {p. Some p \<notin> set xs}\<rparr>)"
proof (induction xs arbitrary: g)
  case Nil
  have "g_heap g |` UNIV = g_heap g" by (rule ext) simp
  then show ?case by simp
next
  case (Cons x xs)
  then obtain p f where p: "x = Some p" "g_heap g p = Some f" by auto
  have "set xs \<subseteq> Some ` dom ((g_heap g)(p := None))" using Cons.prems p by auto
  then have "free_files xs (g\<lparr>g_heap := (g_heap g)(p := None)\<rparr>) =
      Some (g\<lparr>g_heap := (g_heap g)(p := None) |` {p. Some p \<notin> set xs}\<rparr>)" using Cons.prems by (subst Cons.IH) auto
  moreover have "(g_heap g)(p := None) |` {p. Some p \<notin> set xs} = g_heap g |` {p. Some p \<notin> set (x # xs)}"
    using p by (intro ext) (auto simp: restrict_map_def)
  ultimately show ?case using p by (simp add: fileFree_def)
qed

lemma all_sorted_length: "all_sorted J g \<Longrightarrow> length (j_inputs J) = length (j_paths J)"
  by (auto simp: all_sorted_def sort_inv_def inputs_ok_def list_all2_lengthD)

lemma arrays_are_clock: "arrays_are (snd (clock_gettime g)) xss \<longleftrightarrow> arrays_are g xss"
  by (simp add: arrays_are_def data_file_def clock_gettime_def)

lemma rest_start: "rest xss (replicate (length xss) 0) = xss"
  by (rule nth_equalityI) (simp_all add: rest_def)

lemma set_concat_sort: "set (concat (map sort xss)) = set (concat xss)"
  by simp

lemma sort_concat_sort: "sort (concat (map sort xss)) = sort (concat xss)"
proof (rule properties_for_sort)
  have "mset (concat (map sort xss)) = mset (concat xss)" by (induction xss) auto
  then show "mset (sort (concat xss)) = mset (concat (map sort xss))" by simp
qed simp

lemma merge_loop_sorted:
  assumes "all_sorted J g" "\<forall>x \<in> set (concat (j_inputs J)). x < INT_MAX"
  shows "merge_loop (snd (clock_gettime g)) (replicate (length (j_paths J)) 0) [] = Some (render (sort (concat (j_inputs J))))"
proof -
  let ?xss = "map sort (j_inputs J)" and ?ks = "replicate (length (j_inputs J)) 0 :: nat list"
  have "rest ?xss ?ks = ?xss" using rest_start [of ?xss] by simp
  moreover have "arrays_are (snd (clock_gettime g)) ?xss" using assms(1) by (simp add: all_sorted_def arrays_are_clock)
  ultimately have "merge_loop (snd (clock_gettime g)) (map int ?ks) [] = Some ([] @ render (sort (concat ?xss)))"
    using assms(2) merge_loop_ok [of "snd (clock_gettime g)" ?xss ?ks "[]"] by (simp add: set_concat_sort del: set_concat)
  then show ?thesis using all_sorted_length [OF assms(1)] by (simp add: sort_concat_sort)
qed

text \<open>The last part of \<^verbatim>\<open>main\<close>.\<close>

lemma total_time_ok:
  assumes "clock_runs (g_clock g)"
  shows "\<exists>t. total_time g = Some (t, snd (clock_gettime g))"
  using time_difference_ok [OF clock_runs_ok [OF assms] clock_runs_ok [OF assms]]
  by (simp add: total_time_def clock_gettime_def)

lemma all_sorted_clock: "all_sorted J g \<Longrightarrow> clock_runs (g_clock g)"
  by (simp add: all_sorted_def sort_inv_def)

lemma main_end_ok:
  assumes J: "all_sorted J g" "\<forall>x \<in> set (concat (j_inputs J)). x < INT_MAX" "0 < j_threads J" and w: "writable ''output.txt''"
  shows "\<exists>g'. main_end writable (length (j_paths J)) [0..<j_threads J] g = Some (Inr g') \<and>
    g_fs g' = (g_fs g)(''output.txt'' \<mapsto> render (sort (concat (j_inputs J)))) \<and>
    g_heap g' = Map.empty \<and> g_ctx g' = Map.empty \<and> t_paths (g_storage g') = []"
proof -
  have inv: "sort_inv J g" and t: "taken g = length (j_paths J)" using J(1) by (simp_all add: all_sorted_def)
  then have st: "storage_ok J (g_storage g)" and ctx: "dom (g_ctx g) = {..<j_threads J}"
    and dist: "distinct (arrays g)" and dom: "Some ` dom (g_heap g) = set (arrays g)"
    by (simp_all add: sort_inv_def contexts_ok_def)
  have arr: "take (length (j_paths J)) (t_filesData (g_storage g)) = arrays g" by (simp add: arrays_def t)
  let ?out = "render (sort (concat (j_inputs J)))"
  define g1 where "g1 = (snd (clock_gettime g))\<lparr>g_fs := (g_fs g)(''output.txt'' \<mapsto> ?out)\<rparr>"
  have ne: "[0..<j_threads J] \<noteq> []" using J(3) by simp
  have "g_ctx g (hd [0..<j_threads J]) \<noteq> None" using ctx J(3) by (auto simp: upt_conv_Cons domIff [symmetric])
  then have merge: "merge_sorted_files writable [0..<j_threads J] (length (j_paths J)) ''output.txt'' (snd (clock_gettime g)) = Some (Inr g1)"
    using w ne merge_loop_sorted [OF J(1,2)] by (simp add: merge_sorted_files_def g1_def clock_gettime_def)
  define g2 where "g2 = (snd (clock_gettime g1))\<lparr>g_ctx := Map.empty\<rparr>"
  have "g_ctx g |` (- set [0..<j_threads J]) = Map.empty"
    using ctx by (intro ext) (auto simp: restrict_map_def domIff set_eq_iff)
  then have contexts: "free_contexts [0..<j_threads J] (snd (clock_gettime g1)) = Some g2"
    using ctx by (subst free_contexts_ok) (auto simp: g1_def g2_def clock_gettime_def lessThan_atLeast0)
  define g3 where "g3 = g2\<lparr>g_heap := Map.empty\<rparr>"
  have "g_heap g |` {p. Some p \<notin> set (arrays g)} = Map.empty"
  proof (rule ext)
    fix p
    have "Some p \<in> set (arrays g) \<longleftrightarrow> g_heap g p \<noteq> None" by (auto simp flip: dom)
    then show "(g_heap g |` {p. Some p \<notin> set (arrays g)}) p = None" by (auto simp: restrict_map_def)
  qed
  moreover have "g_heap g2 = g_heap g" "g_storage g2 = g_storage g" by (simp_all add: g2_def g1_def clock_gettime_def)
  ultimately have files: "free_files (take (length (j_paths J)) (t_filesData (g_storage g2))) g2 = Some g3"
    using dist dom arr by (subst free_files_ok) (auto simp: g3_def)
  have "t_count (g_storage g) = int (length (j_paths J))" "None \<notin> set (take (length (j_paths J)) (t_paths (g_storage g)))"
    using st by (auto simp: storage_ok_def)
  then have "fileStorageCleanup (g_storage g3) = Some ((g_storage g)\<lparr>t_paths := [], t_filesData := []\<rparr>)"
    by (simp add: fileStorageCleanup_def g3_def g2_def g1_def clock_gettime_def)
  moreover from total_time_ok [OF all_sorted_clock [OF J(1)]] obtain t0 where "total_time g = Some (t0, snd (clock_gettime g))" by blast
  moreover have "clock_runs (g_clock g1)" using all_sorted_clock [OF J(1)] by (simp add: g1_def clock_gettime_def)
  from total_time_ok [OF this] obtain t1 where "total_time g1 = Some (t1, snd (clock_gettime g1))" by blast
  ultimately show ?thesis
    using merge contexts files
    by (simp add: main_end_def) (simp add: g3_def g2_def g1_def clock_gettime_def)
qed

lemma main_end_int_max:
  assumes J: "all_sorted J g" "\<forall>x \<in> set (concat (j_inputs J)). x \<le> INT_MAX" "INT_MAX \<in> set (concat (j_inputs J))"
    and w: "writable ''output.txt''"
  shows "main_end writable (length (j_paths J)) m_ctxs g = None \<and>
    (\<exists>t g0 n is. total_time g = Some (t, g0) \<and>
       merge_rounds g0 n (replicate (length (j_paths J)) 0, []) = Some (is, render (sort (below_max (concat (j_inputs J))))) \<and>
       find_min g0 0 is (True, INT_MAX, - 1) = Some (False, INT_MAX, - 1))"
proof -
  let ?xss = "map sort (j_inputs J)" and ?ks = "replicate (length (j_inputs J)) 0 :: nat list" and ?g = "snd (clock_gettime g)"
  have rest: "rest ?xss ?ks = ?xss" using rest_start [of ?xss] by simp
  have "arrays_are ?g ?xss" using J(1) by (simp add: all_sorted_def arrays_are_clock)
  from merge_loop_int_max [OF this, of ?ks "[]"] J(2,3) have
    m: "merge_loop ?g (map int ?ks) [] = None \<and>
      (\<exists>n is. merge_rounds ?g n (map int ?ks, []) = Some (is, [] @ render (sort (below_max (concat ?xss)))) \<and>
         find_min ?g 0 is (True, INT_MAX, - 1) = Some (False, INT_MAX, - 1))"
    unfolding rest by (simp add: set_concat_sort del: set_concat)
  have "sort (below_max (concat ?xss)) = sort (below_max (concat (j_inputs J)))"
    using sort_concat_sort [of "j_inputs J"] by (metis filter_sort)
  with m all_sorted_length [OF J(1)] have
    m: "merge_loop ?g (replicate (length (j_paths J)) 0) [] = None"
      "\<exists>n is. merge_rounds ?g n (replicate (length (j_paths J)) 0, []) = Some (is, render (sort (below_max (concat (j_inputs J))))) \<and>
         find_min ?g 0 is (True, INT_MAX, - 1) = Some (False, INT_MAX, - 1)" by (simp_all del: filter_concat)
  from total_time_ok [OF all_sorted_clock [OF J(1)]] obtain t where t: "total_time g = Some (t, ?g)" by blast
  with m(1) w have "main_end writable (length (j_paths J)) m_ctxs g = None"
    by (simp add: main_end_def merge_sorted_files_def)
  with t m(2) show ?thesis by metis
qed

text \<open>Without a file to write, \<^verbatim>\<open>main\<close> exits.\<close>

lemma main_end_unwritable:
  assumes "all_sorted J g" "\<not> writable ''output.txt''"
  shows "main_end writable n m_ctxs g = Some (Inl 1)"
  using total_time_ok [OF all_sorted_clock [OF assms(1)]] assms(2) by (auto simp: main_end_def merge_sorted_files_def)

subsection \<open>The whole program\<close>

definition args_ok :: "string list \<Rightarrow> int \<Rightarrow> bool" where
  "args_ok argv n \<longleftrightarrow> 4 \<le> length argv \<and> length argv \<le> 10 * 2 ^ 27 \<and> atoi (argv ! 2) = Some n \<and>
     (\<exists>ms. atol (argv ! 1) = Some ms \<and> \<bar>ms * 1000\<bar> < 2 ^ 63)"

definition files_are :: "string list \<Rightarrow> (string \<Rightarrow> string option) \<Rightarrow> int list list \<Rightarrow> bool" where
  "files_are argv fs inputs \<longleftrightarrow> list_all2 (\<lambda>p xs. \<exists>s. fs p = Some s \<and> integers s = Some xs) (drop 3 argv) inputs"

lemma c_ldiv_ok:
  assumes "\<bar>a\<bar> < 2 ^ 63" "b \<noteq> 0"
  shows "\<exists>q. c_ldiv a b = Some q"
proof -
  have "a sdiv b \<in> {- \<bar>a\<bar>..\<bar>a\<bar>}" by (rule sdiv_int_range)
  with assms show ?thesis by (auto simp: c_ldiv_def)
qed

lemma main_start_ok:
  assumes args: "args_ok argv n" "1 \<le> n" and fs: "files_are argv fs inputs"
  shows "\<exists>q g s J. main_start left argv fs clock = Some ([0..<j_threads J], s) \<and> started left q g (j_threads J) s \<and>
    j_paths J = drop 3 argv \<and> j_inputs J = inputs \<and> 0 < j_threads J \<and> storage_ok J (g_storage g) \<and> inputs_ok J (g_fs g) \<and>
    g_fs g = fs \<and> g_clock g = clock \<and> g_heap g = Map.empty \<and> t_cur_unsorted (g_storage g) = 0"
proof -
  from args obtain ms where a: "4 \<le> length argv" "length argv \<le> 10 * 2 ^ 27" "atoi (argv ! 2) = Some n"
    "atol (argv ! 1) = Some ms" "\<bar>ms * 1000\<bar> < 2 ^ 63" by (auto simp: args_ok_def)
  have lat: "long_mul ms 1000 = Some (ms * 1000)" using a(5) by (auto simp: long_mul_def abs_less_iff)
  obtain q where q: "c_ldiv (ms * 1000) n = Some q" using c_ldiv_ok [OF a(5), of n] args(2) by auto
  have "length (drop 3 argv) \<le> 10 * 2 ^ 27" using a(2) by simp
  from add_paths_new [OF this] obtain st where st: "add_paths file_storage_new (drop 3 argv) = Some st"
    "t_count st = int (length (drop 3 argv))" "t_cur_unsorted st = 0"
    "take (length (drop 3 argv)) (t_paths st) = map Some (drop 3 argv)" by blast
  define J where "J = \<lparr>j_threads = nat (min n (t_count st)), j_paths = drop 3 argv, j_inputs = inputs\<rparr>"
  define g where "g = \<lparr>g_fs = fs, g_clock = clock, g_ticks = 1,
    g_storage = st\<lparr>t_filesData := replicate (nat (t_count st)) None\<rparr>, g_heap = Map.empty, g_fresh = 0, g_ctx = Map.empty\<rparr>"
  have count: "0 < t_count st" using st(2) a(1) by simp
  have "started left q g 0 (coro_sched_init (sched_zero g))"
    by (auto simp: started_def sched_list_def linked_Nil coro_sched_init_def sched_zero_def new_contexts_def g_def)
  moreover have "haveFiles (g_storage g) \<noteq> - 1" using count st(3) by (simp add: haveFiles_def g_def)
  ultimately obtain s where s: "start_coroutines left (j_threads J) 0 q (coro_sched_init (sched_zero g)) [0..<0] = Some ([0..<0 + j_threads J], s)"
    "started left q g (0 + j_threads J) s" using start_coroutines_ok by blast
  have "main_start left argv fs clock = Some ([0..<j_threads J], s)"
    using a lat q st(1) s(1) by (simp add: main_start_def g_def J_def Let_def)
  moreover have "storage_ok J (g_storage g)" using st by (simp add: storage_ok_def g_def J_def)
  moreover have "inputs_ok J (g_fs g)" using fs by (simp add: files_are_def inputs_ok_def g_def J_def)
  moreover have "0 < j_threads J" using args(2) count by (simp add: J_def)
  ultimately show ?thesis
    using s(2) st(3) by - (rule exI [of _ q], rule exI [of _ g], rule exI [of _ s], rule exI [of _ J], simp add: J_def g_def)
qed

lemma coroutines_fs:
  assumes "all_sorted J g'" shows "inputs_ok J (g_fs g')"
  using assms by (simp add: all_sorted_def sort_inv_def)

text \<open>Up to the end of the coroutines.\<close>

lemma main_coroutines:
  assumes args: "args_ok argv n" "1 \<le> n" and fs: "files_are argv fs inputs" and clock: "clock_runs clock" and left: "\<forall>i. leftover_ok (left i)"
  shows "\<exists>J s rs s'. main_start left argv fs clock = Some ([0..<j_threads J], s) \<and> wait_all s [] = Some (rs, s') \<and>
    all_sorted J (s_glob s') \<and> 0 < j_threads J \<and> length (j_paths J) = length argv - 3 \<and> j_inputs J = inputs"
proof -
  from main_start_ok [OF args fs, of left clock] obtain q g s J where
    s: "main_start left argv fs clock = Some ([0..<j_threads J], s)" "started left q g (j_threads J) s"
      "j_paths J = drop 3 argv" "j_inputs J = inputs" "0 < j_threads J" "storage_ok J (g_storage g)" "inputs_ok J (g_fs g)"
      "g_clock g = clock" "g_heap g = Map.empty" "t_cur_unsorted (g_storage g) = 0" by blast
  have "clock_runs (g_clock g)" using clock s(8) by simp
  from coroutines_sort [OF s(2,6,7,5) this s(9,10)] left s show ?thesis by auto
qed

text \<open>A concrete run: two coroutines, two files, a clock that advances a second at every reading, and fields that are not zero.\<close>

definition example_argv :: "string list" where
  "example_argv = [''a.out'', ''1'', ''2'', ''x'', ''y'']"

definition example_fs :: "string \<Rightarrow> string option" where
  "example_fs = [''x'' \<mapsto> ''3 -1'', ''y'' \<mapsto> '' 2'']"

lemma example_numbers: "atoi ''2'' = Some 2 \<and> atol ''1'' = Some 1 \<and> atoi ''0'' = Some 0"
  by code_simp

lemma example_texts: "integers ''3 -1'' = Some [3, - 1] \<and> integers '' 2'' = Some [2]"
  by code_simp

lemma example_args: "args_ok example_argv 2"
  by (simp add: args_ok_def example_argv_def example_numbers)

lemma example_files: "files_are example_argv example_fs [[3, - 1], [2]]"
  by (simp add: files_are_def example_argv_def example_fs_def example_texts)

definition example_clock :: "nat \<Rightarrow> timespec" where
  "example_clock k = (min (int k) (10 ^ 6), 5)"

lemma example_clock_runs: "clock_runs example_clock"
  by (auto simp: clock_runs_def clock_ok_def elapsed_def example_clock_def)

definition example_left :: "nat \<Rightarrow> leftover" where
  "example_left i = (- 7, (9, 9), (0, 0))"

lemma example_left_ok: "\<forall>i. leftover_ok (example_left i)"
  by (simp add: leftover_ok_def example_left_def clock_ok_def)

text \<open>The same with \<^const>\<open>INT_MAX\<close> in the second file.\<close>

definition example_fs_max :: "string \<Rightarrow> string option" where
  "example_fs_max = [''x'' \<mapsto> ''3 -1'', ''y'' \<mapsto> render [INT_MAX]]"

lemma example_files_max: "files_are example_argv example_fs_max [[3, - 1], [INT_MAX]]"
  using integers_render [of "[INT_MAX]"]
  by (simp add: files_are_def example_argv_def example_fs_max_def example_texts INT_MAX_def)

text \<open>C3: Let the arguments be well-formed numbers, at least one coroutine asked for, every input file readable and
  made of numbers of an int below \<^const>\<open>INT_MAX\<close>, the clock never run backwards, and the uninitialised fields of the contexts
  hold a work time of less than 2 to the 62 and a time of the clock. Then for every such clock, and so for every interleaving of
  the coroutines, nothing is undefined. If \<^verbatim>\<open>output.txt\<close> can be opened for writing, the program ends with status 0 and the file
  holds the numbers of all files in ascending order; the arrays of the files, the contexts of the coroutines and the paths are
  all released. If it cannot, the program exits with status 1.\<close>

theorem sort_main_sorts:
  assumes "args_ok argv n" "1 \<le> n" "files_are argv fs inputs" "clock_runs clock" "\<forall>i. leftover_ok (left i)"
    and "\<forall>x \<in> set (concat inputs). x < INT_MAX"
  shows "(writable ''output.txt'' \<longrightarrow> (\<exists>g. sort_main left writable argv fs clock = Some (0, Some g) \<and>
      g_fs g ''output.txt'' = Some (render (sort (concat inputs))) \<and>
      g_heap g = Map.empty \<and> g_ctx g = Map.empty \<and> t_paths (g_storage g) = [])) \<and>
    (\<not> writable ''output.txt'' \<longrightarrow> sort_main left writable argv fs clock = Some (1, None))"
proof -
  from main_coroutines [OF assms(1-5)] obtain J s rs s' where
    s: "main_start left argv fs clock = Some ([0..<j_threads J], s)" "wait_all s [] = Some (rs, s')"
      "all_sorted J (s_glob s')" "0 < j_threads J" "length (j_paths J) = length argv - 3" "j_inputs J = inputs" by blast
  have len: "\<not> length argv < 4" using assms(1) by (simp add: args_ok_def)
  have max: "\<forall>x \<in> set (concat (j_inputs J)). x < INT_MAX" using assms(6) s(6) by simp
  have "\<exists>g. sort_main left writable argv fs clock = Some (0, Some g) \<and>
      g_fs g ''output.txt'' = Some (render (sort (concat inputs))) \<and>
      g_heap g = Map.empty \<and> g_ctx g = Map.empty \<and> t_paths (g_storage g) = []" if w: "writable ''output.txt''"
  proof -
    from main_end_ok [where writable = writable, OF s(3) max s(4) w] s(5,6) obtain g where
      g: "main_end writable (length argv - 3) [0..<j_threads J] (s_glob s') = Some (Inr g)"
        "g_fs g = (g_fs (s_glob s'))(''output.txt'' \<mapsto> render (sort (concat inputs)))"
        "g_heap g = Map.empty" "g_ctx g = Map.empty" "t_paths (g_storage g) = []" by auto
    have "sort_main left writable argv fs clock = Some (0, Some g)" using s len g(1) by (simp add: sort_main_def)
    with g show ?thesis by simp
  qed
  moreover have "sort_main left writable argv fs clock = Some (1, None)" if "\<not> writable ''output.txt''"
    using main_end_unwritable [where writable = writable, OF s(3) that] s(1,2) len by (simp add: sort_main_def)
  ultimately show ?thesis by blast
qed

theorem sort_main_sorts_witness:
  "(\<exists>g. sort_main example_left (\<lambda>_. True) example_argv example_fs example_clock = Some (0, Some g) \<and>
     g_fs g ''output.txt'' = Some (render (sort (concat [[3, - 1], [2]])))) \<and>
   sort_main example_left (\<lambda>_. False) example_argv example_fs example_clock = Some (1, None)"
  using sort_main_sorts [OF example_args _ example_files example_clock_runs example_left_ok, of "\<lambda>_. True"]
    sort_main_sorts [OF example_args _ example_files example_clock_runs example_left_ok, of "\<lambda>_. False"]
  by (auto simp: INT_MAX_def)

text \<open>C33: Under the same conditions, but with \<^const>\<open>INT_MAX\<close> in one of the files: if \<^verbatim>\<open>output.txt\<close> can be opened for writing,
  the program has no defined result, because the merge, after some rounds in which it wrote all other numbers in order, finds
  something left to merge but the index -1 for the element to take. If it cannot be opened, the program exits with
  status 1 before it merges.\<close>

theorem sort_main_int_max:
  assumes "args_ok argv n" "1 \<le> n" "files_are argv fs inputs" "clock_runs clock" "\<forall>i. leftover_ok (left i)"
    and "INT_MAX \<in> set (concat inputs)" "\<forall>x \<in> set (concat inputs). x \<le> INT_MAX"
  shows "(writable ''output.txt'' \<longrightarrow> sort_main left writable argv fs clock = None \<and>
      (\<exists>m s rs s' t g k is. main_start left argv fs clock = Some (m, s) \<and> wait_all s [] = Some (rs, s') \<and>
         total_time (s_glob s') = Some (t, g) \<and>
         merge_rounds g k (replicate (length argv - 3) 0, []) = Some (is, render (sort (below_max (concat inputs)))) \<and>
         find_min g 0 is (True, INT_MAX, - 1) = Some (False, INT_MAX, - 1))) \<and>
    (\<not> writable ''output.txt'' \<longrightarrow> sort_main left writable argv fs clock = Some (1, None))"
proof -
  from main_coroutines [OF assms(1-5)] obtain J s rs s' where
    s: "main_start left argv fs clock = Some ([0..<j_threads J], s)" "wait_all s [] = Some (rs, s')"
      "all_sorted J (s_glob s')" "length (j_paths J) = length argv - 3" "j_inputs J = inputs" by blast
  have len: "\<not> length argv < 4" using assms(1) by (simp add: args_ok_def)
  have J: "\<forall>x \<in> set (concat (j_inputs J)). x \<le> INT_MAX" "INT_MAX \<in> set (concat (j_inputs J))"
    using assms(6,7) s(5) by simp_all
  have "sort_main left writable argv fs clock = None \<and>
      (\<exists>t g k is. total_time (s_glob s') = Some (t, g) \<and>
         merge_rounds g k (replicate (length argv - 3) 0, []) = Some (is, render (sort (below_max (concat inputs)))) \<and>
         find_min g 0 is (True, INT_MAX, - 1) = Some (False, INT_MAX, - 1))" if "writable ''output.txt''"
    using main_end_int_max [where writable = writable, OF s(3) J that] s(1,2) len unfolding s(4,5) by (simp add: sort_main_def)
  moreover have "sort_main left writable argv fs clock = Some (1, None)" if "\<not> writable ''output.txt''"
    using main_end_unwritable [where writable = writable, OF s(3) that] s(1,2) len by (simp add: sort_main_def)
  ultimately show ?thesis using s(1,2) by blast
qed

theorem sort_main_int_max_witness:
  "sort_main example_left (\<lambda>_. True) example_argv example_fs_max example_clock = None \<and>
   sort_main example_left (\<lambda>_. False) example_argv example_fs_max example_clock = Some (1, None)"
  using sort_main_int_max [OF example_args _ example_files_max example_clock_runs example_left_ok, of "\<lambda>_. True"]
    sort_main_int_max [OF example_args _ example_files_max example_clock_runs example_left_ok, of "\<lambda>_. False"]
  by (simp add: INT_MAX_def)

text \<open>With no coroutine, \<^verbatim>\<open>main\<close> divides by zero or merges through an unset context, whatever the files hold.\<close>

lemma sort_main_no_coroutines:
  assumes "4 \<le> length argv" "atoi (argv ! 2) = Some n" "n \<le> 0"
    and "writable ''output.txt''"
  shows "sort_main left writable argv fs clock = None"
proof -
  have "main_end writable (length argv - 3) [] g = None" for g
    using assms(1,4) by (simp add: main_end_def merge_sorted_files_def bind_eq_None_conv split: prod.split)
  moreover have "m = []" if "main_start left argv fs clock = Some (m, s)" for m s
    using that assms(2,3) by (auto simp: main_start_def bind_eq_Some_iff Let_def min_def split: if_splits)
  ultimately show ?thesis
    using assms(1) by (cases "main_start left argv fs clock") (auto simp: sort_main_def bind_eq_None_conv)
qed

lemma sort_main_no_coroutines_example:
  "sort_main left (\<lambda>_. True) [''a.out'', ''1'', ''0'', ''x''] example_fs clock = None"
  using sort_main_no_coroutines [of "[''a.out'', ''1'', ''0'', ''x'']" 0] by (simp add: example_numbers)

text \<open>C26: The output can be read back by the program's own reader: the numbers come out as they were written.\<close>

theorem output_readable:
  assumes "\<forall>x \<in> set xs. - (2 ^ 31) \<le> x \<and> x \<le> INT_MAX" "int (length xs) \<le> INT_MAX"
  shows "count_integers (render xs) = Some (int (length xs)) \<and> read_array (length xs) (render xs) = Some xs"
  using integers_render [OF assms] by (simp add: integers_iff)

theorem output_readable_witness: "read_array 3 (render [2, - 10, 7]) = Some [2, - 10, 7]"
  using output_readable [of "[2, - 10, 7]"] by (simp add: INT_MAX_def numeral_3_eq_3)

end
