(* ===== verification/Thread_Pool.thy ===== *)
theory Thread_Pool
  imports Prelude
begin

section \<open>The thread pool\<close>

text \<open>
  \<^verbatim>\<open>hw4/thread_pool.c\<close>. Client threads call the functions, worker threads run \<^verbatim>\<open>_thread_worker\<close>. A state holds
  the pool, the tasks by address and for every thread where it is; an event is what one thread does between two
  points at which another can run: a critical section of the pool's mutex, of a task's mutex, or an access
  outside both. Waiting on a condition variable releases the mutex; by POSIX it may end at any time, so here a
  waiting thread may always look again. That is every behaviour there is, but says nothing about progress: theory
  \<open>Pool_Signals\<close> adds which thread is asleep and what the signals wake. A task's function with its argument
  is a value \<open>'c\<close>, and the parameter \<open>run\<close> gives its result.

  An event is \<open>Blocked\<close> if its thread is not at that point, \<open>Undefined\<close> if it uses freed memory or a null
  pointer, and otherwise gives the next state and, if a call returns with it, the code it returns.
\<close>

subsection \<open>State\<close>

record ('c, 'r) task =
  k_call :: 'c
  k_pool :: bool
  k_is_detached :: bool
  k_is_running :: bool
  k_is_finished :: bool
  k_result :: "'r option"
  k_next :: "nat option"

datatype worker = Created | Idle | Taken nat | Running nat | Exited

datatype client = Free | Pushing nat int | Joining nat | Timed_joining nat | Closing nat

text \<open>The workers in the order of their creation, each with the \<^verbatim>\<open>idx\<close> of its argument; \<^verbatim>\<open>threads\<close> holds positions
  of that list.\<close>

record ('c, 'r) pool =
  q_alive :: bool
  q_threads :: "nat list option"
  q_pending_task_count :: int
  q_running_task_count :: int
  q_pending_task_list :: "nat option"
  q_max_thread_count :: int
  q_thread_count :: int
  q_idle_thread_count :: int
  q_thread_idx_that_should_exit :: int
  q_tasks :: "nat \<Rightarrow> ('c, 'r) task option"
  q_fresh :: nat
  q_workers :: "(int \<times> worker) list"
  q_clients :: "nat \<Rightarrow> client"

datatype error_code =
    TPOOL_ERR_INVALID_ARGUMENT
  | TPOOL_ERR_TOO_MANY_TASKS
  | TPOOL_ERR_HAS_TASKS
  | TPOOL_ERR_TASK_NOT_PUSHED
  | TPOOL_ERR_TASK_IN_POOL
  | TPOOL_ERR_NOT_IMPLEMENTED
  | TPOOL_ERR_TIMEOUT

definition TPOOL_MAX_THREADS :: int where
  "TPOOL_MAX_THREADS = 20"

definition TPOOL_MAX_TASKS :: int where
  "TPOOL_MAX_TASKS = 100000"

text \<open>What a call returns: an error, nothing but success, or the result of a joined task.\<close>

datatype 'r reply = Error error_code | Success | Result "'r option"

datatype ('s, 'r) outcome = Blocked | Undefined | Next 's "'r reply option"

type_synonym ('c, 'r) step = "(('c, 'r) pool, 'r) outcome"

subsection \<open>Helpers\<close>

definition with_task :: "nat \<Rightarrow> ('c, 'r) pool \<Rightarrow> (('c, 'r) task \<Rightarrow> ('c, 'r) step) \<Rightarrow> ('c, 'r) step" where
  "with_task t s f = (case q_tasks s t of None \<Rightarrow> Undefined | Some k \<Rightarrow> f k)"

definition set_task :: "nat \<Rightarrow> ('c, 'r) task \<Rightarrow> ('c, 'r) pool \<Rightarrow> ('c, 'r) pool" where
  "set_task t k s = s\<lparr>q_tasks := (q_tasks s)(t \<mapsto> k)\<rparr>"

definition set_worker :: "nat \<Rightarrow> worker \<Rightarrow> ('c, 'r) pool \<Rightarrow> ('c, 'r) pool" where
  "set_worker w pc s = s\<lparr>q_workers := (q_workers s)[w := (fst (q_workers s ! w), pc)]\<rparr>"

definition set_client :: "nat \<Rightarrow> client \<Rightarrow> ('c, 'r) pool \<Rightarrow> ('c, 'r) pool" where
  "set_client c pc s = s\<lparr>q_clients := (q_clients s)(c := pc)\<rparr>"

definition worker_at :: "('c, 'r) pool \<Rightarrow> nat \<Rightarrow> worker option" where
  "worker_at s w = (if w < length (q_workers s) then Some (snd (q_workers s ! w)) else None)"

subsection \<open>The worker\<close>

text \<open>With the pool's mutex held: the test of the inner loop, and what follows it.\<close>

definition worker_wait :: "nat \<Rightarrow> ('c, 'r) pool \<Rightarrow> ('c, 'r) step" where
  "worker_wait w s =
     (let idx = fst (q_workers s ! w)
      in if q_pending_task_count s < 1 \<and> q_thread_idx_that_should_exit s \<noteq> idx then Next (set_worker w Idle s) None
         else if q_thread_idx_that_should_exit s = idx then Next (set_worker w Exited s) None
         else case q_pending_task_list s of
                None \<Rightarrow> Undefined
              | Some t \<Rightarrow> with_task t s (\<lambda>k.
                  Next (set_worker w (Taken t) (set_task t (k\<lparr>k_next := None\<rparr>)
                    (s\<lparr>q_pending_task_list := k_next k,
                       q_idle_thread_count := q_idle_thread_count s - 1,
                       q_pending_task_count := q_pending_task_count s - 1,
                       q_running_task_count := q_running_task_count s + 1\<rparr>))) None))"

definition worker_loop :: "nat \<Rightarrow> ('c, 'r) pool \<Rightarrow> ('c, 'r) step" where
  "worker_loop w s = worker_wait w (s\<lparr>q_idle_thread_count := q_idle_thread_count s + 1\<rparr>)"

definition worker_start :: "nat \<Rightarrow> ('c, 'r) pool \<Rightarrow> ('c, 'r) step" where
  "worker_start w s =
     (if worker_at s w = Some Created
      then if q_alive s then worker_loop w (s\<lparr>q_thread_count := q_thread_count s + 1\<rparr>) else Undefined
      else Blocked)"

definition worker_wake :: "nat \<Rightarrow> ('c, 'r) pool \<Rightarrow> ('c, 'r) step" where
  "worker_wake w s =
     (if worker_at s w = Some Idle then if q_alive s then worker_wait w s else Undefined else Blocked)"

definition worker_run :: "nat \<Rightarrow> ('c, 'r) pool \<Rightarrow> ('c, 'r) step" where
  "worker_run w s =
     (case worker_at s w of
        Some (Taken t) \<Rightarrow>
          with_task t s (\<lambda>k. Next (set_worker w (Running t) (set_task t (k\<lparr>k_is_running := True\<rparr>) s)) None)
      | _ \<Rightarrow> Blocked)"

text \<open>The task's function has returned. For a detached task \<^verbatim>\<open>thread_task_delete\<close> frees the task unless it still names
  its pool, and then its mutex is unlocked.\<close>

definition worker_finish :: "('c \<Rightarrow> 'r) \<Rightarrow> nat \<Rightarrow> ('c, 'r) pool \<Rightarrow> ('c, 'r) step" where
  "worker_finish run w s =
     (case worker_at s w of
        Some (Running t) \<Rightarrow>
          if \<not> q_alive s then Undefined
          else with_task t s (\<lambda>k.
            let s1 = s\<lparr>q_running_task_count := q_running_task_count s - 1\<rparr>
            in if k_is_detached k then if k_pool k then worker_loop w s1 else Undefined
               else worker_loop w (set_task t (k\<lparr>k_is_running := False, k_is_finished := True,
                                                 k_result := Some (run (k_call k))\<rparr>) s1))
      | _ \<Rightarrow> Blocked)"

subsection \<open>The pool's functions\<close>

definition thread_pool_new :: "int \<Rightarrow> error_code + ('c, 'r) pool" where
  "thread_pool_new max_thread_count =
     (if max_thread_count < 1 \<or> max_thread_count > TPOOL_MAX_THREADS then Inl TPOOL_ERR_INVALID_ARGUMENT
      else Inr \<lparr>q_alive = True, q_threads = None, q_pending_task_count = 0, q_running_task_count = 0,
        q_pending_task_list = None, q_max_thread_count = max_thread_count, q_thread_count = 0,
        q_idle_thread_count = 0, q_thread_idx_that_should_exit = - 1, q_tasks = Map.empty, q_fresh = 0,
        q_workers = [], q_clients = (\<lambda>_. Free)\<rparr>)"

definition thread_pool_thread_count :: "('c, 'r) pool \<Rightarrow> int" where
  "thread_pool_thread_count s = q_thread_count s"

text \<open>\<^verbatim>\<open>pthread_create(&pool->threads[i], ...)\<close> with \<open>i\<close> the index of the worker, in an array of \<open>i + 1\<close> elements.\<close>

definition create_worker :: "int \<Rightarrow> ('c, 'r) pool \<Rightarrow> ('c, 'r) pool" where
  "create_worker idx s =
     (let old = (case q_threads s of None \<Rightarrow> [] | Some ts \<Rightarrow> ts)
      in s\<lparr>q_threads := Some (take (nat idx) old @ [length (q_workers s)]),
           q_workers := q_workers s @ [(idx, Created)]\<rparr>)"

text \<open>\<^verbatim>\<open>thread_pool_push_task\<close>, from its start to the first wait, and from a wait on.\<close>

definition push_wait :: "nat \<Rightarrow> nat \<Rightarrow> int \<Rightarrow> ('c, 'r) pool \<Rightarrow> ('c, 'r) step" where
  "push_wait c t required s =
     (if q_thread_count s \<noteq> required then Next (set_client c (Pushing t required) s) None
      else with_task t s (\<lambda>k.
        Next (set_client c Free (set_task t (k\<lparr>k_pool := True, k_next := q_pending_task_list s, k_is_finished := False,
                                               k_is_running := False\<rparr>)
          (s\<lparr>q_pending_task_list := Some t, q_pending_task_count := q_pending_task_count s + 1\<rparr>))) (Some Success)))"

definition thread_pool_push_task :: "nat \<Rightarrow> nat \<Rightarrow> ('c, 'r) pool \<Rightarrow> ('c, 'r) step" where
  "thread_pool_push_task c t s =
     (if q_clients s c \<noteq> Free then Blocked
      else if \<not> q_alive s then Undefined
      else if q_pending_task_count s \<ge> TPOOL_MAX_TASKS then Next s (Some (Error TPOOL_ERR_TOO_MANY_TASKS))
      else if q_threads s = None then push_wait c t 1 (create_worker 0 s)
      else if q_idle_thread_count s = 0 \<and> q_thread_count s < q_max_thread_count s
      then push_wait c t (q_thread_count s + 1) (create_worker (q_thread_count s) s)
      else push_wait c t (q_thread_count s) s)"

definition push_wake :: "nat \<Rightarrow> ('c, 'r) pool \<Rightarrow> ('c, 'r) step" where
  "push_wake c s = (case q_clients s c of
       Pushing t required \<Rightarrow> if q_alive s then push_wait c t required s else Undefined
     | _ \<Rightarrow> Blocked)"

text \<open>\<^verbatim>\<open>thread_pool_delete\<close>: the loop that lets the workers exit one by one.\<close>

definition delete_next :: "nat \<Rightarrow> nat \<Rightarrow> ('c, 'r) pool \<Rightarrow> ('c, 'r) step" where
  "delete_next c i s =
     (if int i < q_thread_count s \<and> q_threads s \<noteq> None
      then Next (set_client c (Closing i) (s\<lparr>q_thread_idx_that_should_exit := int i\<rparr>)) None
      else Next (set_client c Free (s\<lparr>q_alive := False\<rparr>)) (Some Success))"

definition thread_pool_delete :: "nat \<Rightarrow> ('c, 'r) pool \<Rightarrow> ('c, 'r) step" where
  "thread_pool_delete c s =
     (if q_clients s c \<noteq> Free then Blocked
      else if \<not> q_alive s then Undefined
      else if q_running_task_count s > 0 \<or> q_pending_task_count s > 0 \<or> q_idle_thread_count s \<noteq> q_thread_count s
      then Next s (Some (Error TPOOL_ERR_HAS_TASKS))
      else delete_next c 0 s)"

text \<open>\<^verbatim>\<open>pthread_join\<close> returns when the worker has exited.\<close>

definition delete_joined :: "nat \<Rightarrow> ('c, 'r) pool \<Rightarrow> ('c, 'r) step" where
  "delete_joined c s = (case q_clients s c of
       Closing i \<Rightarrow>
         (case q_threads s of
            None \<Rightarrow> Undefined
          | Some ts \<Rightarrow>
              if i < length ts then if worker_at s (ts ! i) = Some Exited then delete_next c (i + 1) s else Blocked
              else Undefined)
     | _ \<Rightarrow> Blocked)"

subsection \<open>The tasks' functions\<close>

definition thread_task_new :: "'c \<Rightarrow> ('c, 'r) pool \<Rightarrow> ('c, 'r) pool" where
  "thread_task_new call s =
     set_task (q_fresh s) \<lparr>k_call = call, k_pool = False, k_is_detached = False, k_is_running = False, k_is_finished = False,
       k_result = None, k_next = None\<rparr> (s\<lparr>q_fresh := q_fresh s + 1\<rparr>)"

definition thread_task_is_finished :: "nat \<Rightarrow> ('c, 'r) pool \<Rightarrow> bool option" where
  "thread_task_is_finished t s = map_option k_is_finished (q_tasks s t)"

definition thread_task_is_running :: "nat \<Rightarrow> ('c, 'r) pool \<Rightarrow> bool option" where
  "thread_task_is_running t s = map_option k_is_running (q_tasks s t)"

definition take_result :: "nat \<Rightarrow> nat \<Rightarrow> ('c, 'r) task \<Rightarrow> ('c, 'r) pool \<Rightarrow> ('c, 'r) step" where
  "take_result c t k s = Next (set_client c Free (set_task t (k\<lparr>k_pool := False\<rparr>) s)) (Some (Result (k_result k)))"

definition join_wait :: "nat \<Rightarrow> nat \<Rightarrow> ('c, 'r) pool \<Rightarrow> ('c, 'r) step" where
  "join_wait c t s = with_task t s (\<lambda>k.
     if k_is_finished k then take_result c t k s else Next (set_client c (Joining t) s) None)"

definition thread_task_join :: "nat \<Rightarrow> nat \<Rightarrow> ('c, 'r) pool \<Rightarrow> ('c, 'r) step" where
  "thread_task_join c t s =
     (if q_clients s c \<noteq> Free then Blocked
      else with_task t s (\<lambda>k. if \<not> k_pool k then Next s (Some (Error TPOOL_ERR_TASK_NOT_PUSHED)) else join_wait c t s))"

definition join_wake :: "nat \<Rightarrow> ('c, 'r) pool \<Rightarrow> ('c, 'r) step" where
  "join_wake c s = (case q_clients s c of Joining t \<Rightarrow> join_wait c t s | _ \<Rightarrow> Blocked)"

text \<open>\<^verbatim>\<open>thread_task_timed_join\<close>; \<open>instant\<close> tells whether the timeout is below a nanosecond, \<open>timed_out\<close> whether the
  wait ended because of the deadline.\<close>

definition timed_wait :: "nat \<Rightarrow> nat \<Rightarrow> bool \<Rightarrow> ('c, 'r) pool \<Rightarrow> ('c, 'r) step" where
  "timed_wait c t timed_out s = with_task t s (\<lambda>k.
     if timed_out then Next (set_client c Free s) (Some (Error TPOOL_ERR_TIMEOUT))
     else if k_is_finished k then take_result c t k s
     else Next (set_client c (Timed_joining t) s) None)"

definition thread_task_timed_join :: "nat \<Rightarrow> nat \<Rightarrow> bool \<Rightarrow> ('c, 'r) pool \<Rightarrow> ('c, 'r) step" where
  "thread_task_timed_join c t instant s =
     (if q_clients s c \<noteq> Free then Blocked
      else with_task t s (\<lambda>k.
        if \<not> k_pool k then Next s (Some (Error TPOOL_ERR_TASK_NOT_PUSHED))
        else if instant then
          if k_is_finished k then take_result c t k s else Next s (Some (Error TPOOL_ERR_TIMEOUT))
        else timed_wait c t False s))"

definition timed_wake :: "nat \<Rightarrow> bool \<Rightarrow> ('c, 'r) pool \<Rightarrow> ('c, 'r) step" where
  "timed_wake c timed_out s = (case q_clients s c of Timed_joining t \<Rightarrow> timed_wait c t timed_out s | _ \<Rightarrow> Blocked)"

definition free_task :: "nat \<Rightarrow> ('c, 'r) pool \<Rightarrow> ('c, 'r) pool" where
  "free_task t s = s\<lparr>q_tasks := (q_tasks s)(t := None)\<rparr>"

definition thread_task_delete :: "nat \<Rightarrow> nat \<Rightarrow> ('c, 'r) pool \<Rightarrow> ('c, 'r) step" where
  "thread_task_delete c t s =
     (if q_clients s c \<noteq> Free then Blocked
      else with_task t s (\<lambda>k.
        if k_pool k then Next s (Some (Error TPOOL_ERR_TASK_IN_POOL)) else Next (free_task t s) (Some Success)))"

definition thread_task_detach :: "nat \<Rightarrow> nat \<Rightarrow> ('c, 'r) pool \<Rightarrow> ('c, 'r) step" where
  "thread_task_detach c t s =
     (if q_clients s c \<noteq> Free then Blocked
      else with_task t s (\<lambda>k.
        if \<not> k_pool k then Next s (Some (Error TPOOL_ERR_TASK_NOT_PUSHED))
        else if k_is_finished k then Next (free_task t s) (Some Success)
        else Next (set_task t (k\<lparr>k_pool := False, k_is_detached := True\<rparr>) s) (Some Success)))"

subsection \<open>Events\<close>

datatype 'c event =
    Task_new 'c
  | Push nat nat
  | Push_wake nat
  | Pool_delete nat
  | Delete_joined nat
  | Join nat nat
  | Join_wake nat
  | Timed_join nat nat bool
  | Timed_wake nat bool
  | Task_delete nat nat
  | Detach nat nat
  | Worker_start nat
  | Worker_wake nat
  | Worker_run nat
  | Worker_finish nat

fun pool_exec :: "('c \<Rightarrow> 'r) \<Rightarrow> 'c event \<Rightarrow> ('c, 'r) pool \<Rightarrow> ('c, 'r) step" where
  "pool_exec run (Task_new call) s = Next (thread_task_new call s) (Some Success)"
| "pool_exec run (Push c t) s = thread_pool_push_task c t s"
| "pool_exec run (Push_wake c) s = push_wake c s"
| "pool_exec run (Pool_delete c) s = thread_pool_delete c s"
| "pool_exec run (Delete_joined c) s = delete_joined c s"
| "pool_exec run (Join c t) s = thread_task_join c t s"
| "pool_exec run (Join_wake c) s = join_wake c s"
| "pool_exec run (Timed_join c t instant) s = thread_task_timed_join c t instant s"
| "pool_exec run (Timed_wake c timed_out) s = timed_wake c timed_out s"
| "pool_exec run (Task_delete c t) s = thread_task_delete c t s"
| "pool_exec run (Detach c t) s = thread_task_detach c t s"
| "pool_exec run (Worker_start w) s = worker_start w s"
| "pool_exec run (Worker_wake w) s = worker_wake w s"
| "pool_exec run (Worker_run w) s = worker_run w s"
| "pool_exec run (Worker_finish w) s = worker_finish run w s"

text \<open>A sequence of events, none of them blocked.\<close>

primrec pool_run :: "('c \<Rightarrow> 'r) \<Rightarrow> 'c event list \<Rightarrow> ('c, 'r) pool \<Rightarrow> ('c, 'r) step" where
  "pool_run run [] s = Next s None"
| "pool_run run (e # es) s = (case pool_exec run e s of Next s' r \<Rightarrow> if es = [] then Next s' r else pool_run run es s' | x \<Rightarrow> x)"

end
