(* ===== verification/Pool_Inv.thy ===== *)
theory Pool_Inv
  imports Thread_Pool
begin

section \<open>The invariant of the thread pool\<close>

text \<open>
  For one client thread that pushes only tasks that are in no pool and detaches only finished ones (\<open>polite\<close>):
  in every reachable state the counters of \<^verbatim>\<open>hw4/thread_pool.c\<close> count the workers in the corresponding places, the
  pending list holds each pending task once, no task is in two places, and results are what \<open>run\<close> says.
\<close>

subsection \<open>Lists of tasks and places of workers\<close>

fun task_list :: "(nat \<Rightarrow> ('c, 'r) task option) \<Rightarrow> nat option \<Rightarrow> nat list \<Rightarrow> bool" where
  "task_list h p [] \<longleftrightarrow> p = None"
| "task_list h p (t # ts) \<longleftrightarrow> p = Some t \<and> (\<exists>k. h t = Some k \<and> task_list h (k_next k) ts)"

lemma task_list_other: "t \<notin> set ts \<Longrightarrow> task_list (h(t := v)) p ts \<longleftrightarrow> task_list h p ts"
  by (induction ts arbitrary: p) auto

lemma task_list_alloc: "task_list h p ts \<Longrightarrow> t \<in> set ts \<Longrightarrow> h t \<noteq> None"
  by (induction ts arbitrary: p) auto

lemma task_list_head: "task_list h p ts \<Longrightarrow> p = (case ts of [] \<Rightarrow> None | t # _ \<Rightarrow> Some t)"
  by (cases ts) auto

definition places :: "('c, 'r) pool \<Rightarrow> worker list" where
  "places s = map snd (q_workers s)"

definition held :: "worker list \<Rightarrow> nat \<Rightarrow> bool" where
  "held ws t \<longleftrightarrow> Taken t \<in> set ws \<or> Running t \<in> set ws"

fun is_idle :: "worker \<Rightarrow> bool" where
  "is_idle Idle = True"
| "is_idle Exited = True"
| "is_idle _ = False"

fun is_busy :: "worker \<Rightarrow> bool" where
  "is_busy (Taken t) = True"
| "is_busy (Running t) = True"
| "is_busy _ = False"

definition task_of :: "worker \<Rightarrow> nat option" where
  "task_of pc = (case pc of Taken t \<Rightarrow> Some t | Running t \<Rightarrow> Some t | _ \<Rightarrow> None)"

definition count :: "(worker \<Rightarrow> bool) \<Rightarrow> worker list \<Rightarrow> int" where
  "count P ws = int (length (filter P ws))"

lemma count_update:
  "w < length ws \<Longrightarrow> count P (ws[w := pc]) = count P ws - (if P (ws ! w) then 1 else 0) + (if P pc then 1 else 0)"
  using length_filter_update [of w ws P pc] by (simp add: count_def split: if_splits)

lemma count_snoc: "count P (ws @ [pc]) = count P ws + (if P pc then 1 else 0)"
  by (simp add: count_def)

lemma count_nonneg: "0 \<le> count P ws"
  by (simp add: count_def)

lemma count_pos: "0 < count P ws \<longleftrightarrow> (\<exists>pc \<in> set ws. P pc)"
  by (auto simp: count_def filter_empty_conv)

lemma count_le: "count P ws \<le> int (length ws)"
  by (simp add: count_def)

lemma count_all: "count P ws = int (length ws) \<longleftrightarrow> (\<forall>pc \<in> set ws. P pc)"
  by (simp add: count_def length_filter_full)

lemma mem_update:
  assumes "w < length ws" "ws ! w \<noteq> x"
  shows "x \<in> set (ws[w := y]) \<longleftrightarrow> x = y \<or> x \<in> set ws"
proof
  assume "x \<in> set (ws[w := y])"
  then show "x = y \<or> x \<in> set ws" using set_update_subset_insert by fastforce
next
  assume "x = y \<or> x \<in> set ws"
  then show "x \<in> set (ws[w := y])"
  proof
    assume "x = y"
    then show ?thesis using assms(1) by (simp add: set_update_memI)
  next
    assume "x \<in> set ws"
    then obtain i where "i < length ws" "ws ! i = x" by (auto simp: in_set_conv_nth)
    moreover from this assms(2) have "i \<noteq> w" by auto
    ultimately show ?thesis by (metis length_list_update nth_list_update_neq nth_mem)
  qed
qed

text \<open>Two different workers never hold the same task.\<close>

definition separate :: "worker list \<Rightarrow> bool" where
  "separate ws \<longleftrightarrow> (\<forall>i j t. i < length ws \<longrightarrow> j < length ws \<longrightarrow> task_of (ws ! i) = Some t \<longrightarrow> task_of (ws ! j) = Some t \<longrightarrow> i = j)"

lemma task_of_Some: "task_of pc = Some t \<longleftrightarrow> pc = Taken t \<or> pc = Running t"
  by (cases pc) (auto simp: task_of_def)

lemma task_of_simps [simp]:
  "task_of (Taken t) = Some t" "task_of (Running t) = Some t" "task_of Idle = None" "task_of Created = None" "task_of Exited = None"
  by (simp_all add: task_of_def)

lemma held_task_of: "held ws t \<longleftrightarrow> (\<exists>i < length ws. task_of (ws ! i) = Some t)"
  unfolding held_def task_of_Some in_set_conv_nth by metis

lemma separate_update:
  assumes "separate ws" "w < length ws" "\<And>t. task_of pc = Some t \<Longrightarrow> task_of (ws ! w) = Some t \<or> \<not> held ws t"
  shows "separate (ws[w := pc])"
  unfolding separate_def
proof (intro allI impI)
  fix i j t
  assume ij: "i < length (ws[w := pc])" "j < length (ws[w := pc])"
    "task_of (ws[w := pc] ! i) = Some t" "task_of (ws[w := pc] ! j) = Some t"
  show "i = j"
  proof (cases "i = w \<or> j = w")
    case True
    then have pc: "task_of pc = Some t" using ij assms(2) by auto
    from assms(3) [OF pc] show ?thesis
    proof
      assume w: "task_of (ws ! w) = Some t"
      have "task_of (ws ! i) = Some t" "task_of (ws ! j) = Some t"
        using ij w by (cases "i = w"; cases "j = w"; simp)+
      with assms(1) ij show ?thesis by (auto simp: separate_def)
    next
      assume "\<not> held ws t"
      then have "task_of (ws ! k) \<noteq> Some t" if "k < length ws" for k using that by (auto simp: held_task_of)
      with ij have "i = w" "j = w" by (cases "i = w"; cases "j = w"; simp)+
      then show ?thesis by simp
    qed
  next
    case False
    with assms(1) ij show ?thesis by (auto simp: separate_def)
  qed
qed

lemma separate_snoc: "separate ws \<Longrightarrow> task_of pc = None \<Longrightarrow> separate (ws @ [pc])"
  by (auto simp: separate_def nth_append less_Suc_eq split: if_splits)

lemma held_update:
  assumes "separate ws" "w < length ws"
  shows "held (ws[w := pc]) t \<longleftrightarrow> task_of pc = Some t \<or> held ws t \<and> task_of (ws ! w) \<noteq> Some t"
proof -
  have "(\<exists>i < length ws. i \<noteq> w \<and> task_of (ws ! i) = Some t) \<longleftrightarrow> held ws t \<and> task_of (ws ! w) \<noteq> Some t"
    using assms unfolding held_task_of separate_def by blast
  moreover have "held (ws[w := pc]) t \<longleftrightarrow> task_of pc = Some t \<or> (\<exists>i < length ws. i \<noteq> w \<and> task_of (ws ! i) = Some t)"
    using assms(2) unfolding held_task_of by (auto simp: nth_list_update)
  ultimately show ?thesis by simp
qed

lemma held_snoc: "held (ws @ [Created]) t \<longleftrightarrow> held ws t"
  by (auto simp: held_def)

subsection \<open>The invariant\<close>

text \<open>The tasks: pending ones \<open>ts\<close>, those a worker holds, and the rest.\<close>

definition tasks_ok :: "('c \<Rightarrow> 'r) \<Rightarrow> (nat \<Rightarrow> ('c, 'r) task option) \<Rightarrow> nat list \<Rightarrow> worker list \<Rightarrow> bool" where
  "tasks_ok run h ts ws \<longleftrightarrow> distinct ts \<and>
     (\<forall>t \<in> set ts. \<exists>k. h t = Some k \<and> k_pool k \<and> \<not> k_is_finished k \<and> \<not> k_is_running k \<and> \<not> held ws t) \<and>
     (\<forall>t. held ws t \<longrightarrow> (\<exists>k. h t = Some k \<and> k_pool k \<and> \<not> k_is_finished k)) \<and>
     (\<forall>t k. h t = Some k \<longrightarrow> \<not> k_is_detached k \<and> (k_is_finished k \<longrightarrow> k_result k = Some (run (k_call k))) \<and>
        (k_pool k \<and> \<not> k_is_finished k \<longrightarrow> t \<in> set ts \<or> held ws t) \<and> (k_is_running k \<longleftrightarrow> Running t \<in> set ws))"

definition workers_ok :: "('c, 'r) pool \<Rightarrow> bool" where
  "workers_ok s \<longleftrightarrow> (\<forall>w < length (q_workers s). fst (q_workers s ! w) = int w) \<and> separate (places s) \<and>
     q_threads s = (if q_workers s = [] then None else Some [0..<length (q_workers s)]) \<and>
     q_idle_thread_count s = count is_idle (places s) \<and>
     q_running_task_count s = count is_busy (places s) \<and>
     q_thread_count s = count (\<lambda>pc. pc \<noteq> Created) (places s) \<and>
     int (length (q_workers s)) \<le> q_max_thread_count s \<and>
     1 \<le> q_max_thread_count s \<and> q_max_thread_count s \<le> TPOOL_MAX_THREADS"

text \<open>Where the client is: while it waits for a new worker, no other one is new; while it deletes the pool, the
  workers before the current one have exited and nothing is left to do.\<close>

definition client_ok :: "('c, 'r) pool \<Rightarrow> bool" where
  "client_ok s \<longleftrightarrow>
     (case q_clients s 0 of
        Pushing t required \<Rightarrow> required = int (length (q_workers s)) \<and> q_alive s \<and> q_thread_idx_that_should_exit s = - 1 \<and>
          (\<exists>k. q_tasks s t = Some k \<and> \<not> k_pool k) \<and> Exited \<notin> set (places s) \<and> q_workers s \<noteq> [] \<and>
          q_pending_task_count s < TPOOL_MAX_TASKS
      | Closing i \<Rightarrow> q_alive s \<and> q_thread_idx_that_should_exit s = int i \<and> i < length (q_workers s) \<and>
          q_pending_task_count s = 0 \<and> Created \<notin> set (places s) \<and> (\<forall>pc \<in> set (places s). \<not> is_busy pc) \<and>
          (\<forall>w < length (places s). places s ! w = Exited \<longrightarrow> w \<le> i) \<and> (\<forall>w < i. places s ! w = Exited)
      | pc \<Rightarrow> Created \<notin> set (places s) \<and>
          (if q_alive s then q_thread_idx_that_should_exit s = - 1 \<and> Exited \<notin> set (places s) \<and> (q_workers s = [] \<longrightarrow> q_pending_task_count s = 0)
           else \<forall>w \<in> set (places s). w = Exited) \<and>
          (case pc of Joining t \<Rightarrow> \<exists>k. q_tasks s t = Some k \<and> k_pool k
           | Timed_joining t \<Rightarrow> \<exists>k. q_tasks s t = Some k \<and> k_pool k | _ \<Rightarrow> True))"

definition pool_inv :: "('c \<Rightarrow> 'r) \<Rightarrow> ('c, 'r) pool \<Rightarrow> bool" where
  "pool_inv run s \<longleftrightarrow> workers_ok s \<and> client_ok s \<and> (\<forall>t \<ge> q_fresh s. q_tasks s t = None) \<and>
     (\<exists>ts. task_list (q_tasks s) (q_pending_task_list s) ts \<and> tasks_ok run (q_tasks s) ts (places s) \<and>
        q_pending_task_count s = int (length ts) \<and> int (length ts) \<le> TPOOL_MAX_TASKS)"

subsection \<open>Polite clients\<close>

fun polite :: "'c event \<Rightarrow> ('c, 'r) pool \<Rightarrow> bool" where
  "polite (Task_new call) s = True"
| "polite (Push c t) s = (c = 0 \<and> q_alive s \<and> (\<exists>k. q_tasks s t = Some k \<and> \<not> k_pool k))"
| "polite (Push_wake c) s = (c = 0)"
| "polite (Pool_delete c) s = (c = 0 \<and> q_alive s)"
| "polite (Delete_joined c) s = (c = 0)"
| "polite (Join c t) s = (c = 0 \<and> q_tasks s t \<noteq> None)"
| "polite (Join_wake c) s = (c = 0)"
| "polite (Timed_join c t instant) s = (c = 0 \<and> q_tasks s t \<noteq> None)"
| "polite (Timed_wake c timed_out) s = (c = 0)"
| "polite (Task_delete c t) s = (c = 0 \<and> q_tasks s t \<noteq> None)"
| "polite (Detach c t) s = (c = 0 \<and> (\<exists>k. q_tasks s t = Some k \<and> (k_pool k \<longrightarrow> k_is_finished k)))"
| "polite _ s = True"

subsection \<open>Moving a worker\<close>

definition bit :: "bool \<Rightarrow> int" where
  "bit b = (if b then 1 else 0)"

lemma places_set_worker [simp]: "w < length (q_workers s) \<Longrightarrow> places (set_worker w pc s) = (places s)[w := pc]"
  by (simp add: places_def set_worker_def map_update)

lemma length_places [simp]: "length (places s) = length (q_workers s)"
  by (simp add: places_def)

lemma worker_at_places: "worker_at s w = Some pc \<longleftrightarrow> w < length (q_workers s) \<and> places s ! w = pc"
  by (auto simp: worker_at_def places_def)

lemma set_worker_fields [simp]:
  "q_alive (set_worker w pc s) = q_alive s" "q_threads (set_worker w pc s) = q_threads s"
  "q_pending_task_count (set_worker w pc s) = q_pending_task_count s"
  "q_running_task_count (set_worker w pc s) = q_running_task_count s"
  "q_pending_task_list (set_worker w pc s) = q_pending_task_list s"
  "q_max_thread_count (set_worker w pc s) = q_max_thread_count s"
  "q_thread_count (set_worker w pc s) = q_thread_count s"
  "q_idle_thread_count (set_worker w pc s) = q_idle_thread_count s"
  "q_thread_idx_that_should_exit (set_worker w pc s) = q_thread_idx_that_should_exit s"
  "q_tasks (set_worker w pc s) = q_tasks s" "q_fresh (set_worker w pc s) = q_fresh s"
  "q_clients (set_worker w pc s) = q_clients s"
  "length (q_workers (set_worker w pc s)) = length (q_workers s)"
  by (simp_all add: set_worker_def)

lemma set_task_fields [simp]:
  "q_alive (set_task t k s) = q_alive s" "q_threads (set_task t k s) = q_threads s"
  "q_pending_task_count (set_task t k s) = q_pending_task_count s"
  "q_running_task_count (set_task t k s) = q_running_task_count s"
  "q_pending_task_list (set_task t k s) = q_pending_task_list s"
  "q_max_thread_count (set_task t k s) = q_max_thread_count s"
  "q_thread_count (set_task t k s) = q_thread_count s"
  "q_idle_thread_count (set_task t k s) = q_idle_thread_count s"
  "q_thread_idx_that_should_exit (set_task t k s) = q_thread_idx_that_should_exit s"
  "q_tasks (set_task t k s) = (q_tasks s)(t \<mapsto> k)" "q_fresh (set_task t k s) = q_fresh s"
  "q_clients (set_task t k s) = q_clients s" "q_workers (set_task t k s) = q_workers s"
  "places (set_task t k s) = places s"
  by (simp_all add: set_task_def places_def)

lemma set_client_fields [simp]:
  "q_alive (set_client c pc s) = q_alive s" "q_threads (set_client c pc s) = q_threads s"
  "q_pending_task_count (set_client c pc s) = q_pending_task_count s"
  "q_running_task_count (set_client c pc s) = q_running_task_count s"
  "q_pending_task_list (set_client c pc s) = q_pending_task_list s"
  "q_max_thread_count (set_client c pc s) = q_max_thread_count s"
  "q_thread_count (set_client c pc s) = q_thread_count s"
  "q_idle_thread_count (set_client c pc s) = q_idle_thread_count s"
  "q_thread_idx_that_should_exit (set_client c pc s) = q_thread_idx_that_should_exit s"
  "q_tasks (set_client c pc s) = q_tasks s" "q_fresh (set_client c pc s) = q_fresh s"
  "q_clients (set_client c pc s) = (q_clients s)(c := pc)" "q_workers (set_client c pc s) = q_workers s"
  "places (set_client c pc s) = places s"
  by (simp_all add: set_client_def places_def)

lemma places_cong: "q_workers s' = q_workers s \<Longrightarrow> places s' = places s"
  by (simp add: places_def)

lemma workers_ok_update:
  assumes "workers_ok s" "w < length (q_workers s)"
    and "q_workers s' = q_workers (set_worker w pc s)" "q_threads s' = q_threads s" "q_max_thread_count s' = q_max_thread_count s"
    and "q_idle_thread_count s' = q_idle_thread_count s - bit (is_idle (places s ! w)) + bit (is_idle pc)"
    and "q_running_task_count s' = q_running_task_count s - bit (is_busy (places s ! w)) + bit (is_busy pc)"
    and "q_thread_count s' = q_thread_count s - bit (places s ! w \<noteq> Created) + bit (pc \<noteq> Created)"
    and "\<And>t. task_of pc = Some t \<Longrightarrow> task_of (places s ! w) = Some t \<or> \<not> held (places s) t"
  shows "workers_ok s'"
proof -
  have pl: "places s' = (places s)[w := pc]" using places_cong [OF assms(3)] assms(2) by simp
  have "fst (q_workers s' ! v) = int v" if "v < length (q_workers s')" for v
    using that assms(1,2,3) by (cases "v = w") (auto simp: workers_ok_def set_worker_def)
  moreover have "separate (places s')" unfolding pl using assms(1,2,9) by (intro separate_update) (auto simp: workers_ok_def)
  moreover have "length (q_workers s') = length (q_workers s)" using assms(3) by simp
  moreover from this have "q_workers s' = [] \<longleftrightarrow> q_workers s = []" by (metis length_0_conv)
  ultimately show ?thesis
    using assms(1,2,4-8) unfolding workers_ok_def pl by (simp add: count_update bit_def)
qed

definition keeps_inv :: "('c \<Rightarrow> 'r) \<Rightarrow> ('c, 'r) step \<Rightarrow> bool" where
  "keeps_inv run st \<longleftrightarrow> (case st of Blocked \<Rightarrow> True | Undefined \<Rightarrow> False | Next s' r \<Rightarrow> pool_inv run s')"

lemma keeps_inv_simps [simp]: "keeps_inv run Blocked" "\<not> keeps_inv run Undefined" "keeps_inv run (Next s' r) \<longleftrightarrow> pool_inv run s'"
  by (simp_all add: keeps_inv_def)

lemma pool_invE:
  assumes "pool_inv run s"
  obtains ts where "workers_ok s" "client_ok s" "\<forall>t \<ge> q_fresh s. q_tasks s t = None"
    "task_list (q_tasks s) (q_pending_task_list s) ts" "tasks_ok run (q_tasks s) ts (places s)"
    "q_pending_task_count s = int (length ts)" "int (length ts) \<le> TPOOL_MAX_TASKS"
  using assms by (auto simp: pool_inv_def)

subsection \<open>The worker\<close>

text \<open>Taking the first task.\<close>

lemma task_list_take:
  assumes "task_list h (Some t) (t # ts)" "t \<notin> set ts" "h t = Some k"
  shows "task_list (h(t \<mapsto> k\<lparr>k_next := None\<rparr>)) (k_next k) ts"
  using assms by (simp add: task_list_other)

lemma tasks_ok_take:
  assumes ok: "tasks_ok run h (t # ts) ws" and w: "w < length ws" "ws ! w = Idle" "separate ws" and k: "h t = Some k"
  shows "tasks_ok run (h(t \<mapsto> k\<lparr>k_next := None\<rparr>)) ts (ws[w := Taken t])"
proof -
  have held: "held (ws[w := Taken t]) u \<longleftrightarrow> u = t \<or> held ws u" for u
    using held_update [OF w(3,1), of "Taken t" u] w(2) by auto
  have "Running u \<in> set (ws[w := Taken t]) \<longleftrightarrow> Running u \<in> set ws" for u using w by (simp add: mem_update)
  with ok k show ?thesis unfolding tasks_ok_def held by (auto split: if_splits)
qed

lemma client_ok_worker:
  assumes "client_ok s" "w < length (q_workers s)" "places s ! w = Idle" "\<not> is_idle pc" "pc \<noteq> Created" "q_pending_task_count s \<noteq> 0"
    and "q_alive s" "q_clients s' = q_clients s" "q_alive s' = q_alive s" "q_thread_idx_that_should_exit s' = q_thread_idx_that_should_exit s"
    and "places s' = (places s)[w := pc]" "length (q_workers s') = length (q_workers s)"
    and "q_pending_task_count s' \<le> q_pending_task_count s"
    and "\<And>t k. q_tasks s t = Some k \<Longrightarrow> \<exists>k'. q_tasks s' t = Some k' \<and> k_pool k' = k_pool k"
  shows "client_ok s'"
proof -
  have mem: "Exited \<in> set (places s') \<longleftrightarrow> Exited \<in> set (places s)" "Created \<in> set (places s') \<longleftrightarrow> Created \<in> set (places s)"
    using assms(2-5,11) by (auto simp: mem_update)
  have task: "\<exists>k. q_tasks s' t = Some k \<and> k_pool k = b" if "\<exists>k. q_tasks s t = Some k \<and> k_pool k = b" for t b
    using that assms(14) by blast
  have "q_workers s' = [] \<longleftrightarrow> q_workers s = []" using assms(12) by (metis length_0_conv)
  then show ?thesis
    using assms(1,6-10,12,13) task [where b = True] task [where b = False]
    unfolding client_ok_def mem by (cases "q_clients s 0") auto
qed

lemma worker_take_inv:
  assumes inv: "pool_inv run s" and w: "worker_at s w = Some Idle" and alive: "q_alive s"
    and p: "\<not> q_pending_task_count s < 1" and e: "q_thread_idx_that_should_exit s \<noteq> fst (q_workers s ! w)"
  shows "keeps_inv run (worker_wait w s)"
proof -
  from inv obtain ts where ok: "workers_ok s" "client_ok s" "\<forall>t \<ge> q_fresh s. q_tasks s t = None"
    "task_list (q_tasks s) (q_pending_task_list s) ts" "tasks_ok run (q_tasks s) ts (places s)"
    "q_pending_task_count s = int (length ts)" "int (length ts) \<le> TPOOL_MAX_TASKS" by (rule pool_invE)
  have wl: "w < length (q_workers s)" "places s ! w = Idle" using w by (simp_all add: worker_at_places)
  have sep: "separate (places s)" using ok(1) by (simp add: workers_ok_def)
  obtain t us where ts: "ts = t # us" using p ok(6) by (cases ts) auto
  obtain k where k: "q_tasks s t = Some k" "q_pending_task_list s = Some t" using ok(4) ts by auto
  have dist: "t \<notin> set us" and notheld: "\<not> held (places s) t" using ok(5) ts by (auto simp: tasks_ok_def)
  define s1 where "s1 = set_task t (k\<lparr>k_next := None\<rparr>)
    (s\<lparr>q_pending_task_list := k_next k, q_idle_thread_count := q_idle_thread_count s - 1,
       q_pending_task_count := q_pending_task_count s - 1, q_running_task_count := q_running_task_count s + 1\<rparr>)"
  define s' where "s' = set_worker w (Taken t) s1"
  have s1: "q_workers s1 = q_workers s" "q_clients s1 = q_clients s" "q_alive s1 = q_alive s" "q_threads s1 = q_threads s"
    "q_tasks s1 = (q_tasks s)(t \<mapsto> k\<lparr>k_next := None\<rparr>)" "q_fresh s1 = q_fresh s" "q_pending_task_list s1 = k_next k"
    "q_idle_thread_count s1 = q_idle_thread_count s - 1" "q_pending_task_count s1 = q_pending_task_count s - 1"
    "q_running_task_count s1 = q_running_task_count s + 1" "q_thread_count s1 = q_thread_count s"
    "q_max_thread_count s1 = q_max_thread_count s"
    "q_thread_idx_that_should_exit s1 = q_thread_idx_that_should_exit s"
    by (simp_all add: s1_def)
  have step: "worker_wait w s = Next s' None"
    using p e k by (simp add: worker_wait_def with_task_def s'_def s1_def Let_def)
  have pl: "places s' = (places s)[w := Taken t]" using wl places_cong [of s1 s] by (simp add: s'_def s1)
  have "workers_ok s'"
  proof (rule workers_ok_update [OF ok(1) wl(1), of s' "Taken t"])
    show "q_workers s' = q_workers (set_worker w (Taken t) s)" by (simp add: s'_def set_worker_def s1)
  qed (use notheld wl in \<open>simp_all add: s'_def s1 bit_def\<close>)
  moreover have "client_ok s'"
  proof (rule client_ok_worker [OF ok(2) wl, of "Taken t" s'])
    show "\<exists>k'. q_tasks s' u = Some k' \<and> k_pool k' = k_pool k0" if "q_tasks s u = Some k0" for u k0
      using that k by (auto simp: s'_def s1)
  qed (use p alive pl in \<open>simp_all add: s'_def s1\<close>)
  moreover have "task_list (q_tasks s') (q_pending_task_list s') us"
    using task_list_take [of "q_tasks s" t us k] ok(4) k ts dist by (simp add: s'_def s1)
  moreover have "tasks_ok run (q_tasks s') us (places s')"
    unfolding pl using tasks_ok_take [of run "q_tasks s" t us "places s" w k] ok(5) ts wl sep k by (simp add: s'_def s1)
  moreover have "q_pending_task_count s' = int (length us)" "int (length us) \<le> TPOOL_MAX_TASKS"
    using ok(6,7) ts by (simp_all add: s'_def s1)
  moreover have "\<forall>u \<ge> q_fresh s'. q_tasks s' u = None" using ok(3) k by (auto simp: s'_def s1)
  ultimately show ?thesis unfolding step by (auto simp: pool_inv_def)
qed

lemma tasks_ok_places:
  assumes "tasks_ok run h ts ws" "\<And>t. held ws' t \<longleftrightarrow> held ws t" "\<And>t. Running t \<in> set ws' \<longleftrightarrow> Running t \<in> set ws"
  shows "tasks_ok run h ts ws'"
  using assms unfolding tasks_ok_def by simp

lemma worker_wait_idle:
  assumes inv: "pool_inv run s" and w: "worker_at s w = Some Idle" and alive: "q_alive s"
  shows "keeps_inv run (worker_wait w s)"
proof -
  from inv obtain ts where ok: "workers_ok s" "client_ok s" "\<forall>t \<ge> q_fresh s. q_tasks s t = None"
    "task_list (q_tasks s) (q_pending_task_list s) ts" "tasks_ok run (q_tasks s) ts (places s)"
    "q_pending_task_count s = int (length ts)" "int (length ts) \<le> TPOOL_MAX_TASKS" by (rule pool_invE)
  have wl: "w < length (q_workers s)" "places s ! w = Idle" using w by (simp_all add: worker_at_places)
  have idx: "fst (q_workers s ! w) = int w" using ok(1) wl by (simp add: workers_ok_def)
  have sep: "separate (places s)" using ok(1) by (simp add: workers_ok_def)
  show ?thesis
  proof (cases "q_thread_idx_that_should_exit s = fst (q_workers s ! w)")
    case False
    show ?thesis
    proof (cases "q_pending_task_count s < 1")
      case True
      have "(q_workers s)[w := (fst (q_workers s ! w), Idle)] = q_workers s"
        using wl by (simp add: list_update_same_conv prod_eq_iff places_def)
      then have "set_worker w Idle s = s" by (simp add: set_worker_def)
      with False True inv show ?thesis by (simp add: worker_wait_def Let_def)
    qed (rule worker_take_inv [OF inv w alive _ False])
  next
    case True
    define s' where "s' = set_worker w Exited s"
    have step: "worker_wait w s = Next s' None" using True by (simp add: worker_wait_def Let_def s'_def)
    have pl: "places s' = (places s)[w := Exited]" using wl by (simp add: s'_def)
    have wok: "workers_ok s'"
    proof (rule workers_ok_update [OF ok(1) wl(1), of s' Exited])
      show "q_workers s' = q_workers (set_worker w Exited s)" by (simp add: s'_def)
    qed (use wl in \<open>simp_all add: s'_def bit_def\<close>)
    have c: "q_clients s 0 = Closing w"
      using ok(2) True idx alive by (auto simp: client_ok_def split: client.splits)
    have old: "q_thread_idx_that_should_exit s = int w" "q_pending_task_count s = 0" "Created \<notin> set (places s)"
      "\<forall>pc \<in> set (places s). \<not> is_busy pc" "\<forall>v < length (places s). places s ! v = Exited \<longrightarrow> v \<le> w"
      "\<forall>v < w. places s ! v = Exited"
      using ok(2) c by (simp_all add: client_ok_def)
    have "Created \<notin> set (places s')" using old(3) wl unfolding pl by (simp add: mem_update)
    moreover have "\<forall>pc \<in> set (places s'). \<not> is_busy pc"
      using old(4) set_update_subset_insert [of "places s" w Exited] unfolding pl by (metis insert_iff is_busy.simps(5) subsetD)
    moreover have "\<forall>v < length (places s'). places s' ! v = Exited \<longrightarrow> v \<le> w"
      using old(5) unfolding pl by (metis length_list_update nth_list_update_neq order_refl)
    moreover have "\<forall>v < w. places s' ! v = Exited"
      using old(6) unfolding pl by (simp add: nth_list_update)
    ultimately have cok: "client_ok s'"
      using old(1,2) c alive wl(1) unfolding client_ok_def by (simp add: s'_def)
    have "tasks_ok run (q_tasks s') ts (places s')"
      using ok(5) unfolding pl s'_def set_worker_fields
      by (rule tasks_ok_places) (use wl sep in \<open>simp_all add: held_update mem_update\<close>)
    then have "pool_inv run s'"
      unfolding pool_inv_def using wok cok ok(3,4,6,7) unfolding s'_def set_worker_fields by blast
    then show ?thesis unfolding step by simp
  qed
qed

text \<open>The test does not depend on where the worker was.\<close>

lemma set_worker_set_worker [simp]: "w < length (q_workers s) \<Longrightarrow> set_worker w pc (set_worker w pc' s) = set_worker w pc s"
  by (simp add: set_worker_def)

lemma worker_wait_as_idle:
  assumes "w < length (q_workers s)"
  shows "worker_wait w s = worker_wait w (set_worker w Idle s)"
proof -
  have "fst (q_workers (set_worker w Idle s) ! w) = fst (q_workers s ! w)" using assms by (simp add: set_worker_def)
  moreover have "set_worker w (Taken t) (set_task t k (s\<lparr>q_pending_task_list := a, q_idle_thread_count := b,
       q_pending_task_count := c, q_running_task_count := d\<rparr>)) =
    set_worker w (Taken t) (set_task t k ((set_worker w Idle s)\<lparr>q_pending_task_list := a, q_idle_thread_count := b,
       q_pending_task_count := c, q_running_task_count := d\<rparr>))" for t k a b c d
    using assms by (simp add: set_worker_def set_task_def)
  ultimately show ?thesis
    using assms unfolding worker_wait_def with_task_def Let_def by (simp cong: option.case_cong)
qed

lemma worker_wait_inv:
  assumes "pool_inv run (set_worker w Idle s)" "w < length (q_workers s)" "q_alive s"
  shows "keeps_inv run (worker_wait w s)"
  unfolding worker_wait_as_idle [OF assms(2)]
  using assms by (intro worker_wait_idle) (simp_all add: worker_at_places)

text \<open>A worker that is not waiting moves on: the client is not deleting the pool.\<close>

lemma active_alive: "client_ok s \<Longrightarrow> w < length (q_workers s) \<Longrightarrow> places s ! w \<noteq> Exited \<Longrightarrow> q_alive s"
  using nth_mem [of w "places s"] by (auto simp: client_ok_def split: client.splits if_splits)

lemma client_ok_move:
  assumes "client_ok s" "w < length (q_workers s)" "\<not> is_idle (places s ! w)" "pc \<noteq> Created" "pc \<noteq> Exited"
    and "q_clients s' = q_clients s" "q_alive s' = q_alive s" "q_thread_idx_that_should_exit s' = q_thread_idx_that_should_exit s"
    and "places s' = (places s)[w := pc]" "length (q_workers s') = length (q_workers s)"
    and "q_pending_task_count s' = q_pending_task_count s"
    and "\<And>t k. q_tasks s t = Some k \<Longrightarrow> \<exists>k'. q_tasks s' t = Some k' \<and> k_pool k' = k_pool k"
  shows "client_ok s'"
proof -
  have "places s ! w \<noteq> Exited" using assms(3) by (cases "places s ! w") simp_all
  then have alive: "q_alive s" by (rule active_alive [OF assms(1,2)])
  have wm: "places s ! w \<in> set (places s)" using assms(2) by simp
  have mem: "Exited \<in> set (places s') \<Longrightarrow> Exited \<in> set (places s)" "Created \<in> set (places s') \<Longrightarrow> Created \<in> set (places s)"
    using set_update_subset_insert [of "places s" w pc] assms(4,5,9) by auto
  have busy: "places s ! w = Created \<or> is_busy (places s ! w)" using assms(3) by (cases "places s ! w") simp_all
  have nc: "q_clients s 0 \<noteq> Closing i" for i
  proof
    assume "q_clients s 0 = Closing i"
    then have "Created \<notin> set (places s)" "\<forall>pc \<in> set (places s). \<not> is_busy pc" using assms(1) by (simp_all add: client_ok_def)
    with busy wm show False by metis
  qed
  have task: "\<exists>k. q_tasks s' t = Some k \<and> k_pool k = b" if "\<exists>k. q_tasks s t = Some k \<and> k_pool k = b" for t b
    using that assms(12) by blast
  have "q_workers s' = [] \<longleftrightarrow> q_workers s = []" using assms(10) by (metis length_0_conv)
  then show ?thesis
    using assms(1,6-8,10,11) alive nc mem task [where b = True] task [where b = False]
    unfolding client_ok_def by (cases "q_clients s 0") auto
qed

lemma running_update:
  assumes "separate ws" "w < length ws"
  shows "Running t \<in> set (ws[w := pc]) \<longleftrightarrow> pc = Running t \<or> Running t \<in> set ws \<and> ws ! w \<noteq> Running t"
proof (cases "ws ! w = Running t")
  case True
  have "Running t \<notin> set (ws[w := pc])" if "pc \<noteq> Running t"
  proof
    assume "Running t \<in> set (ws[w := pc])"
    then obtain i where i: "i < length ws" "ws[w := pc] ! i = Running t" by (auto simp: in_set_conv_nth)
    with that assms(2) have "i \<noteq> w" by auto
    with i have "ws ! i = Running t" by simp
    with True i(1) assms \<open>i \<noteq> w\<close> show False unfolding separate_def by (metis task_of_simps(2))
  qed
  with True assms(2) show ?thesis by (auto simp: set_update_memI)
qed (use assms in \<open>auto simp: mem_update\<close>)

lemma tasks_ok_run:
  assumes ok: "tasks_ok run h ts ws" and w: "w < length ws" "ws ! w = Taken t" "separate ws" and k: "h t = Some k"
  shows "tasks_ok run (h(t \<mapsto> k\<lparr>k_is_running := True\<rparr>)) ts (ws[w := Running t])"
proof -
  have held: "held (ws[w := Running t]) u \<longleftrightarrow> held ws u" for u
    using held_update [OF w(3,1), of "Running t" u] w(1,2) nth_mem [of w ws] by (auto simp: held_def)
  have "held ws t" using w nth_mem [of w ws] by (auto simp: held_def)
  with ok k show ?thesis unfolding tasks_ok_def held running_update [OF w(3,1)] by (auto simp: w(2) split: if_splits)
qed

lemma tasks_ok_finish:
  assumes ok: "tasks_ok run h ts ws" and w: "w < length ws" "ws ! w = Running t" "separate ws" and k: "h t = Some k"
  shows "tasks_ok run (h(t \<mapsto> k\<lparr>k_is_running := False, k_is_finished := True, k_result := Some (run (k_call k))\<rparr>)) ts (ws[w := Idle])"
proof -
  have held: "held (ws[w := Idle]) u \<longleftrightarrow> held ws u \<and> u \<noteq> t" for u
    using held_update [OF w(3,1), of Idle u] w(2) by auto
  have "held ws t" using w nth_mem [of w ws] by (auto simp: held_def)
  with ok k show ?thesis unfolding tasks_ok_def held running_update [OF w(3,1)] by (auto simp: w(2) split: if_splits)
qed

lemma task_list_same:
  assumes "task_list h p ts" "h t = Some k" "k_next k' = k_next k"
  shows "task_list (h(t \<mapsto> k')) p ts"
  using assms by (induction ts arbitrary: p) auto

text \<open>One step of a worker that leaves the pending list alone.\<close>

lemma worker_move_inv:
  assumes inv: "pool_inv run s" and w: "w < length (q_workers s)" "\<not> is_idle (places s ! w)" "pc \<noteq> Created" "pc \<noteq> Exited"
    and same: "q_workers s' = q_workers (set_worker w pc s)" "q_threads s' = q_threads s" "q_max_thread_count s' = q_max_thread_count s"
      "q_clients s' = q_clients s" "q_alive s' = q_alive s" "q_thread_idx_that_should_exit s' = q_thread_idx_that_should_exit s"
      "q_pending_task_count s' = q_pending_task_count s" "q_pending_task_list s' = q_pending_task_list s" "q_fresh s' = q_fresh s"
    and counts: "q_idle_thread_count s' = q_idle_thread_count s - bit (is_idle (places s ! w)) + bit (is_idle pc)"
      "q_running_task_count s' = q_running_task_count s - bit (is_busy (places s ! w)) + bit (is_busy pc)"
      "q_thread_count s' = q_thread_count s - bit (places s ! w \<noteq> Created) + bit (pc \<noteq> Created)"
    and task: "\<And>t. task_of pc = Some t \<Longrightarrow> task_of (places s ! w) = Some t"
    and h: "q_tasks s' = q_tasks s \<or> (\<exists>t k k'. q_tasks s t = Some k \<and> q_tasks s' = (q_tasks s)(t \<mapsto> k') \<and>
      k_next k' = k_next k \<and> k_pool k' = k_pool k)"
    and tasks: "\<And>ts. tasks_ok run (q_tasks s) ts (places s) \<Longrightarrow> tasks_ok run (q_tasks s') ts ((places s)[w := pc])"
  shows "pool_inv run s'"
proof -
  from inv obtain ts where ok: "workers_ok s" "client_ok s" "\<forall>t \<ge> q_fresh s. q_tasks s t = None"
    "task_list (q_tasks s) (q_pending_task_list s) ts" "tasks_ok run (q_tasks s) ts (places s)"
    "q_pending_task_count s = int (length ts)" "int (length ts) \<le> TPOOL_MAX_TASKS" by (rule pool_invE)
  have pl: "places s' = (places s)[w := pc]" using places_cong [OF same(1)] w(1) by simp
  have "workers_ok s'"
    by (rule workers_ok_update [OF ok(1) w(1) same(1)]) (use same counts task in auto)
  moreover have "client_ok s'"
  proof (rule client_ok_move [OF ok(2) w])
    show "length (q_workers s') = length (q_workers s)" using same(1) by simp
    show "\<exists>k'. q_tasks s' u = Some k' \<and> k_pool k' = k_pool k0" if "q_tasks s u = Some k0" for u k0
      using h that by auto
  qed (use same pl in auto)
  moreover have "task_list (q_tasks s') (q_pending_task_list s') ts"
    using h ok(4) by (auto simp: same intro: task_list_same)
  moreover have "tasks_ok run (q_tasks s') ts (places s')" unfolding pl by (rule tasks [OF ok(5)])
  moreover have "\<forall>t \<ge> q_fresh s'. q_tasks s' t = None" using h ok(3) by (auto simp: same)
  ultimately show ?thesis using ok(6,7) unfolding pool_inv_def same by blast
qed

lemma pool_inv_separate: "pool_inv run s \<Longrightarrow> separate (places s)"
  by (simp add: pool_inv_def workers_ok_def)

lemma held_task:
  assumes "pool_inv run s" "w < length (q_workers s)" "task_of (places s ! w) = Some t"
  obtains k where "q_tasks s t = Some k" "k_pool k" "\<not> k_is_finished k" "\<not> k_is_detached k"
proof -
  have "held (places s) t" using assms(2,3) by (auto simp: held_task_of)
  with assms(1) that show ?thesis by (auto simp: pool_inv_def tasks_ok_def)
qed

lemma worker_start_inv:
  assumes inv: "pool_inv run s"
  shows "keeps_inv run (worker_start w s)"
proof (cases "worker_at s w = Some Created")
  case True
  then have w: "w < length (q_workers s)" "places s ! w = Created" by (simp_all add: worker_at_places)
  have alive: "q_alive s" using inv w active_alive [of s w] by (simp add: pool_inv_def)
  let ?s = "s\<lparr>q_thread_count := q_thread_count s + 1, q_idle_thread_count := q_idle_thread_count s + 1\<rparr>"
  have "pool_inv run (set_worker w Idle ?s)"
  proof (rule worker_move_inv [OF inv w(1), of Idle])
    show "tasks_ok run (q_tasks (set_worker w Idle ?s)) ts ((places s)[w := Idle])" if "tasks_ok run (q_tasks s) ts (places s)" for ts
    proof -
      have "tasks_ok run (q_tasks s) ts ((places s)[w := Idle])"
        by (rule tasks_ok_places [OF that]) (use w pool_inv_separate [OF inv] in \<open>simp_all add: held_update mem_update\<close>)
      then show ?thesis by simp
    qed
  qed (use w in \<open>simp_all add: bit_def set_worker_def\<close>)
  then have "keeps_inv run (worker_wait w ?s)" by (rule worker_wait_inv) (use w alive in simp_all)
  then show ?thesis using True alive by (simp add: worker_start_def worker_loop_def)
qed (simp add: worker_start_def)

lemma worker_wake_inv:
  assumes inv: "pool_inv run s"
  shows "keeps_inv run (worker_wake w s)"
proof (cases "worker_at s w = Some Idle")
  case True
  then have w: "w < length (q_workers s)" "places s ! w = Idle" by (simp_all add: worker_at_places)
  have alive: "q_alive s" using inv w active_alive [of s w] by (simp add: pool_inv_def)
  then show ?thesis using True worker_wait_idle [OF inv True alive] by (simp add: worker_wake_def)
qed (simp add: worker_wake_def)

lemma worker_run_inv:
  assumes inv: "pool_inv run s"
  shows "keeps_inv run (worker_run w s)"
proof (cases "\<exists>t. worker_at s w = Some (Taken t)")
  case True
  then obtain t where at: "worker_at s w = Some (Taken t)" by blast
  then have w: "w < length (q_workers s)" "places s ! w = Taken t" by (simp_all add: worker_at_places)
  from w obtain k where k: "q_tasks s t = Some k" using held_task [OF inv w(1), of t] by auto
  have "pool_inv run (set_worker w (Running t) (set_task t (k\<lparr>k_is_running := True\<rparr>) s))" (is "pool_inv run ?s")
  proof (rule worker_move_inv [OF inv w(1), of "Running t"])
    show "tasks_ok run (q_tasks ?s) ts ((places s)[w := Running t])" if "tasks_ok run (q_tasks s) ts (places s)" for ts
      using tasks_ok_run [OF that _ _ pool_inv_separate [OF inv] k, of w] w by simp
  next
    show "q_tasks ?s = q_tasks s \<or> (\<exists>t k k'. q_tasks s t = Some k \<and> q_tasks ?s = (q_tasks s)(t \<mapsto> k') \<and>
        k_next k' = k_next k \<and> k_pool k' = k_pool k)"
      using k by (intro disjI2 exI [of _ t] exI [of _ k] exI [of _ "k\<lparr>k_is_running := True\<rparr>"]) simp
  qed (use w in \<open>simp_all add: bit_def set_worker_def set_task_def\<close>)
  then show ?thesis using at k by (simp add: worker_run_def with_task_def)
qed (auto simp: worker_run_def split: option.splits worker.splits)

lemma worker_finish_inv:
  assumes inv: "pool_inv run s"
  shows "keeps_inv run (worker_finish run w s)"
proof (cases "\<exists>t. worker_at s w = Some (Running t)")
  case True
  then obtain t where at: "worker_at s w = Some (Running t)" by blast
  then have w: "w < length (q_workers s)" "places s ! w = Running t" by (simp_all add: worker_at_places)
  have alive: "q_alive s" using inv w active_alive [of s w] by (simp add: pool_inv_def)
  from w obtain k where k: "q_tasks s t = Some k" "\<not> k_is_detached k" using held_task [OF inv w(1), of t] by auto
  let ?k = "k\<lparr>k_is_running := False, k_is_finished := True, k_result := Some (run (k_call k))\<rparr>"
  let ?s = "set_task t ?k (s\<lparr>q_running_task_count := q_running_task_count s - 1, q_idle_thread_count := q_idle_thread_count s + 1\<rparr>)"
  have "pool_inv run (set_worker w Idle ?s)" (is "pool_inv run ?s'")
  proof (rule worker_move_inv [OF inv w(1), of Idle])
    show "tasks_ok run (q_tasks ?s') ts ((places s)[w := Idle])" if "tasks_ok run (q_tasks s) ts (places s)" for ts
      using tasks_ok_finish [OF that _ _ pool_inv_separate [OF inv] k(1), of w] w by simp
  next
    show "q_tasks ?s' = q_tasks s \<or> (\<exists>t k k'. q_tasks s t = Some k \<and> q_tasks ?s' = (q_tasks s)(t \<mapsto> k') \<and>
        k_next k' = k_next k \<and> k_pool k' = k_pool k)"
      using k by (intro disjI2 exI [of _ t] exI [of _ k] exI [of _ ?k]) simp
  qed (use w in \<open>simp_all add: bit_def set_worker_def set_task_def\<close>)
  then have "keeps_inv run (worker_wait w ?s)" by (rule worker_wait_inv) (use w alive in simp_all)
  moreover have eq: "(set_task t ?k (s\<lparr>q_running_task_count := q_running_task_count s - 1\<rparr>))\<lparr>q_idle_thread_count := q_idle_thread_count s + 1\<rparr> = ?s"
    by (cases s) (simp add: set_task_def)
  have "worker_finish run w s = worker_wait w ?s"
    using at alive k unfolding eq [symmetric] by (simp add: worker_finish_def with_task_def worker_loop_def Let_def)
  ultimately show ?thesis by simp
qed (auto simp: worker_finish_def split: option.splits worker.splits)

end
