(* ===== verification/Pool_Client.thy ===== *)
theory Pool_Client
  imports Pool_Inv
begin

section \<open>The client's steps keep the invariant\<close>

text \<open>
  Every function of \<^verbatim>\<open>hw4/thread_pool.c\<close> that the client thread calls, and every wake-up inside one, keeps
  \<open>pool_inv\<close> and uses no freed memory, under the preconditions of \<open>polite\<close>.
\<close>

subsection \<open>Tasks outside the pool\<close>

lemma tasks_ok_outside:
  assumes "tasks_ok run h ts ws" "h t = Some k" "k_pool k \<longrightarrow> k_is_finished k"
  shows "t \<notin> set ts" "\<not> held ws t" "\<not> k_is_running k" "\<not> k_is_detached k"
proof -
  show nheld: "\<not> held ws t" "t \<notin> set ts" "\<not> k_is_detached k" using assms by (auto simp: tasks_ok_def)
  then have "Running t \<notin> set ws" by (auto simp: held_def)
  then show "\<not> k_is_running k" using assms(1,2) by (auto simp: tasks_ok_def)
qed

lemma tasks_ok_release:
  assumes "tasks_ok run h ts ws" "h t = Some k" "k_is_finished k"
  shows "tasks_ok run (h(t \<mapsto> k\<lparr>k_pool := False\<rparr>)) ts ws"
  using assms tasks_ok_outside [OF assms(1,2)] unfolding tasks_ok_def by (auto split: if_splits)

lemma tasks_ok_free:
  assumes "tasks_ok run h ts ws" "h t = Some k" "k_pool k \<longrightarrow> k_is_finished k"
  shows "tasks_ok run (h(t := None)) ts ws"
  using assms tasks_ok_outside [OF assms] unfolding tasks_ok_def by (auto split: if_splits)

lemma tasks_ok_new:
  assumes "tasks_ok run h ts ws" "h t = None" "\<not> k_pool k" "\<not> k_is_detached k" "\<not> k_is_running k" "\<not> k_is_finished k"
  shows "tasks_ok run (h(t \<mapsto> k)) ts ws"
proof -
  have "t \<notin> set ts" and nheld: "\<not> held ws t" using assms by (auto simp: tasks_ok_def)
  moreover from nheld have "Running t \<notin> set ws" by (auto simp: held_def)
  ultimately show ?thesis using assms unfolding tasks_ok_def by (auto split: if_splits)
qed

lemma tasks_ok_push:
  assumes "tasks_ok run h ts ws" "h t = Some k" "\<not> k_pool k"
  shows "tasks_ok run (h(t \<mapsto> k\<lparr>k_pool := True, k_next := p, k_is_finished := False, k_is_running := False\<rparr>)) (t # ts) ws"
proof -
  note out = tasks_ok_outside [OF assms(1,2)]
  have "Running t \<notin> set ws" using out assms(3) by (auto simp: held_def)
  then show ?thesis using assms out unfolding tasks_ok_def by (auto split: if_splits)
qed

subsection \<open>Steps that leave the workers alone\<close>

lemma workers_ok_same:
  assumes "workers_ok s" "q_workers s' = q_workers s" "q_threads s' = q_threads s" "q_max_thread_count s' = q_max_thread_count s"
    "q_idle_thread_count s' = q_idle_thread_count s" "q_running_task_count s' = q_running_task_count s"
    "q_thread_count s' = q_thread_count s"
  shows "workers_ok s'"
  using assms places_cong [of s' s] unfolding workers_ok_def by simp

text \<open>The client changes where it is, and at most the finished task it is about.\<close>

lemma client_move_inv:
  assumes inv: "pool_inv run s"
    and same: "q_workers s' = q_workers s" "q_threads s' = q_threads s" "q_max_thread_count s' = q_max_thread_count s"
      "q_idle_thread_count s' = q_idle_thread_count s" "q_running_task_count s' = q_running_task_count s"
      "q_thread_count s' = q_thread_count s" "q_pending_task_list s' = q_pending_task_list s"
      "q_pending_task_count s' = q_pending_task_count s" "q_fresh s' = q_fresh s"
    and h: "q_tasks s' = q_tasks s \<or> (\<exists>t k v. q_tasks s t = Some k \<and> (k_pool k \<longrightarrow> k_is_finished k) \<and> q_tasks s' = (q_tasks s)(t := v) \<and>
      (v = None \<or> v = Some (k\<lparr>k_pool := False\<rparr>) \<and> k_is_finished k))"
    and c: "client_ok s'"
  shows "pool_inv run s'"
proof -
  from inv obtain ts where ok: "workers_ok s" "\<forall>t \<ge> q_fresh s. q_tasks s t = None"
    "task_list (q_tasks s) (q_pending_task_list s) ts" "tasks_ok run (q_tasks s) ts (places s)"
    "q_pending_task_count s = int (length ts)" "int (length ts) \<le> TPOOL_MAX_TASKS" by (rule pool_invE)
  have pl: "places s' = places s" by (rule places_cong [OF same(1)])
  have "workers_ok s'" by (rule workers_ok_same [OF ok(1)]) (fact same)+
  moreover have "task_list (q_tasks s') (q_pending_task_list s') ts \<and> tasks_ok run (q_tasks s') ts (places s') \<and>
      (\<forall>t \<ge> q_fresh s'. q_tasks s' t = None)"
    using h
  proof (elim disjE exE conjE)
    assume "q_tasks s' = q_tasks s"
    then show ?thesis using ok same pl by simp
  next
    fix t k v
    assume k: "q_tasks s t = Some k" "k_pool k \<longrightarrow> k_is_finished k" and eq: "q_tasks s' = (q_tasks s)(t := v)" and v: "v = None"
    have "t \<notin> set ts" by (rule tasks_ok_outside [OF ok(4) k])
    then show ?thesis using tasks_ok_free [OF ok(4) k] ok(2,3) by (simp add: eq v same pl task_list_other)
  next
    fix t k v
    assume k: "q_tasks s t = Some k" "k_pool k \<longrightarrow> k_is_finished k" and eq: "q_tasks s' = (q_tasks s)(t := v)"
      and v: "v = Some (k\<lparr>k_pool := False\<rparr>)" "k_is_finished k"
    have "t \<notin> set ts" by (rule tasks_ok_outside [OF ok(4) k])
    moreover have "t < q_fresh s" using ok(2) k(1) by (metis linorder_not_less option.distinct(1))
    ultimately show ?thesis
      using tasks_ok_release [OF ok(4) k(1) v(2)] ok(2,3) by (simp add: eq v(1) same pl task_list_other)
  qed
  ultimately show ?thesis using ok(5,6) c unfolding pool_inv_def same by blast
qed

text \<open>What holds while the client is neither pushing nor deleting.\<close>

definition resting :: "('c, 'r) pool \<Rightarrow> bool" where
  "resting s \<longleftrightarrow> Created \<notin> set (places s) \<and>
     (if q_alive s then q_thread_idx_that_should_exit s = - 1 \<and> Exited \<notin> set (places s) \<and> (q_workers s = [] \<longrightarrow> q_pending_task_count s = 0)
      else \<forall>w \<in> set (places s). w = Exited)"

lemma client_ok_resting:
  "q_clients s 0 = Free \<Longrightarrow> client_ok s \<longleftrightarrow> resting s"
  "q_clients s 0 = Joining t \<Longrightarrow> client_ok s \<longleftrightarrow> resting s \<and> (\<exists>k. q_tasks s t = Some k \<and> k_pool k)"
  "q_clients s 0 = Timed_joining t \<Longrightarrow> client_ok s \<longleftrightarrow> resting s \<and> (\<exists>k. q_tasks s t = Some k \<and> k_pool k)"
  by (simp_all add: client_ok_def resting_def)

lemma resting_same:
  "q_workers s' = q_workers s \<Longrightarrow> q_alive s' = q_alive s \<Longrightarrow> q_thread_idx_that_should_exit s' = q_thread_idx_that_should_exit s \<Longrightarrow>
   q_pending_task_count s' = q_pending_task_count s \<Longrightarrow> resting s' \<longleftrightarrow> resting s"
  using places_cong [of s' s] by (simp add: resting_def)

lemma pool_inv_resting:
  assumes "pool_inv run s"
  shows "q_clients s 0 = Free \<Longrightarrow> resting s"
    and "q_clients s 0 = Joining t \<Longrightarrow> resting s \<and> (\<exists>k. q_tasks s t = Some k \<and> k_pool k)"
    and "q_clients s 0 = Timed_joining t \<Longrightarrow> resting s \<and> (\<exists>k. q_tasks s t = Some k \<and> k_pool k)"
  using assms client_ok_resting [of s] by (auto simp: pool_inv_def)

lemma client_rest_inv:
  assumes inv: "pool_inv run s" and rest: "resting s"
  shows "pool_inv run (set_client 0 Free s)"
    and "q_tasks s t = Some k \<Longrightarrow> k_pool k \<Longrightarrow> pool_inv run (set_client 0 (Joining t) s)"
    and "q_tasks s t = Some k \<Longrightarrow> k_pool k \<Longrightarrow> pool_inv run (set_client 0 (Timed_joining t) s)"
  by (rule client_move_inv [OF inv]; simp add: client_ok_resting resting_same [of _ s] rest)+

lemma take_result_inv:
  assumes inv: "pool_inv run s" and rest: "resting s" and k: "q_tasks s t = Some k" "k_is_finished k"
  shows "keeps_inv run (take_result 0 t k s)"
proof -
  let ?s = "set_client 0 Free (set_task t (k\<lparr>k_pool := False\<rparr>) s)"
  have "pool_inv run ?s"
  proof (rule client_move_inv [OF inv])
    show "client_ok ?s" by (simp add: client_ok_resting resting_same [of _ s] rest)
  qed (use k in auto)
  then show ?thesis by (simp add: take_result_def)
qed

lemma free_task_inv:
  assumes inv: "pool_inv run s" and c: "q_clients s 0 = Free" and k: "q_tasks s t = Some k" "k_pool k \<longrightarrow> k_is_finished k"
  shows "pool_inv run (free_task t s)"
proof (rule client_move_inv [OF inv])
  show "client_ok (free_task t s)"
    using pool_inv_resting(1) [OF inv c] c resting_same [of "free_task t s" s] by (simp add: client_ok_resting free_task_def)
qed (use k in \<open>auto simp: free_task_def\<close>)

subsection \<open>Functions on tasks\<close>

lemma join_wait_inv:
  assumes "pool_inv run s" "resting s" "q_tasks s t = Some k" "k_pool k"
  shows "keeps_inv run (join_wait 0 t s)"
  using assms take_result_inv client_rest_inv(2) by (auto simp: join_wait_def with_task_def)

lemma thread_task_join_inv:
  assumes inv: "pool_inv run s" and t: "q_tasks s t \<noteq> None"
  shows "keeps_inv run (thread_task_join 0 t s)"
  using pool_inv_resting(1) [OF inv] t inv join_wait_inv [OF inv] by (auto simp: thread_task_join_def with_task_def)

lemma join_wake_inv: "pool_inv run s \<Longrightarrow> keeps_inv run (join_wake 0 s)"
  using pool_inv_resting(2) [of run s] join_wait_inv [of run s] unfolding join_wake_def by (fastforce split: client.splits)

lemma timed_wait_inv:
  assumes "pool_inv run s" "resting s" "q_tasks s t = Some k" "k_pool k"
  shows "keeps_inv run (timed_wait 0 t timed_out s)"
  using assms take_result_inv client_rest_inv(1,3) by (auto simp: timed_wait_def with_task_def)

lemma thread_task_timed_join_inv:
  assumes inv: "pool_inv run s" and t: "q_tasks s t \<noteq> None"
  shows "keeps_inv run (thread_task_timed_join 0 t instant s)"
  using pool_inv_resting(1) [OF inv] t inv timed_wait_inv [OF inv] take_result_inv [OF inv]
  by (auto simp: thread_task_timed_join_def with_task_def)

lemma timed_wake_inv: "pool_inv run s \<Longrightarrow> keeps_inv run (timed_wake 0 timed_out s)"
  using pool_inv_resting(3) [of run s] timed_wait_inv [of run s] unfolding timed_wake_def by (fastforce split: client.splits)

lemma thread_task_delete_inv:
  assumes inv: "pool_inv run s" and t: "q_tasks s t \<noteq> None"
  shows "keeps_inv run (thread_task_delete 0 t s)"
  using t inv free_task_inv [OF inv] by (auto simp: thread_task_delete_def with_task_def)

lemma thread_task_detach_inv:
  assumes inv: "pool_inv run s" and t: "q_tasks s t = Some k" "k_pool k \<longrightarrow> k_is_finished k"
  shows "keeps_inv run (thread_task_detach 0 t s)"
  using t inv free_task_inv [OF inv _ t] by (auto simp: thread_task_detach_def with_task_def)

lemma thread_task_new_inv:
  assumes inv: "pool_inv run s"
  shows "pool_inv run (thread_task_new call s)"
proof -
  from inv obtain ts where ok: "workers_ok s" "client_ok s" "\<forall>t \<ge> q_fresh s. q_tasks s t = None"
    "task_list (q_tasks s) (q_pending_task_list s) ts" "tasks_ok run (q_tasks s) ts (places s)"
    "q_pending_task_count s = int (length ts)" "int (length ts) \<le> TPOOL_MAX_TASKS" by (rule pool_invE)
  let ?t = "q_fresh s" and ?s = "thread_task_new call s"
  have no: "q_tasks s ?t = None" using ok(3) by simp
  have out: "?t \<notin> set ts" using task_list_alloc [OF ok(4), of ?t] no by blast
  obtain k where k: "q_tasks ?s = (q_tasks s)(?t \<mapsto> k)" "\<not> k_pool k" "\<not> k_is_detached k" "\<not> k_is_running k" "\<not> k_is_finished k"
    by (simp add: thread_task_new_def)
  have pl: "places ?s = places s" by (rule places_cong) (simp add: thread_task_new_def)
  have "workers_ok ?s" by (rule workers_ok_same [OF ok(1)]) (simp_all add: thread_task_new_def)
  moreover have "client_ok ?s"
  proof -
    have "\<exists>k. q_tasks ?s t = Some k \<and> k_pool k = b" if "\<exists>k. q_tasks s t = Some k \<and> k_pool k = b" for t b
      using that no unfolding k(1) by auto
    from this [where b = True] this [where b = False] show ?thesis
      using ok(2) unfolding client_ok_def pl by (cases "q_clients s 0") (auto simp: thread_task_new_def)
  qed
  moreover have "task_list (q_tasks ?s) (q_pending_task_list ?s) ts"
    using ok(4) out unfolding k(1) by (simp add: task_list_other) (simp add: thread_task_new_def)
  moreover have "tasks_ok run (q_tasks ?s) ts (places ?s)"
    using tasks_ok_new [OF ok(5) no k(2-)] unfolding pl k(1) .
  moreover have "\<forall>t \<ge> q_fresh ?s. q_tasks ?s t = None" using ok(3) unfolding k(1) by (simp add: thread_task_new_def)
  moreover have "q_pending_task_count ?s = int (length ts)" using ok(6) by (simp add: thread_task_new_def)
  ultimately show ?thesis using ok(7) unfolding pool_inv_def by blast
qed

subsection \<open>Pushing\<close>

lemma thread_count_all:
  assumes "workers_ok s"
  shows "q_thread_count s = int (length (q_workers s)) \<longleftrightarrow> Created \<notin> set (places s)"
proof -
  have "q_thread_count s = count (\<lambda>pc. pc \<noteq> Created) (places s)" using assms by (simp add: workers_ok_def)
  then show ?thesis using count_all [of "\<lambda>pc. pc \<noteq> Created" "places s"] by auto
qed

lemma create_worker_inv:
  assumes inv: "pool_inv run s" and c: "q_clients s 0 = Free" and alive: "q_alive s" and k: "q_tasks s t = Some k" "\<not> k_pool k"
    and room: "int (length (q_workers s)) < q_max_thread_count s" and pend: "q_pending_task_count s < TPOOL_MAX_TASKS"
  shows "pool_inv run (set_client 0 (Pushing t (int (length (q_workers s)) + 1)) (create_worker (int (length (q_workers s))) s))"
    (is "pool_inv run ?s")
proof -
  from inv obtain ts where ok: "workers_ok s" "\<forall>t \<ge> q_fresh s. q_tasks s t = None"
    "task_list (q_tasks s) (q_pending_task_list s) ts" "tasks_ok run (q_tasks s) ts (places s)"
    "q_pending_task_count s = int (length ts)" "int (length ts) \<le> TPOOL_MAX_TASKS" by (rule pool_invE)
  have rest: "resting s" by (rule pool_inv_resting(1) [OF inv c])
  have ws: "q_workers ?s = q_workers s @ [(int (length (q_workers s)), Created)]" by (simp add: create_worker_def Let_def)
  then have pl: "places ?s = places s @ [Created]" by (simp add: places_def)
  have same: "q_tasks ?s = q_tasks s" "q_pending_task_list ?s = q_pending_task_list s" "q_fresh ?s = q_fresh s"
    "q_pending_task_count ?s = q_pending_task_count s"
    by (simp_all add: create_worker_def Let_def)
  have "q_threads ?s = Some [0..<Suc (length (q_workers s))]"
    using ok(1) by (simp add: create_worker_def Let_def workers_ok_def)
  then have "workers_ok ?s"
    using ok(1) room separate_snoc [of "places s" Created] unfolding workers_ok_def pl ws
    by (auto simp: create_worker_def Let_def count_snoc nth_append less_Suc_eq)
  moreover have "client_ok ?s"
    using rest alive k pend unfolding client_ok_def pl ws resting_def by (simp add: create_worker_def Let_def)
  moreover have "tasks_ok run (q_tasks ?s) ts (places ?s)"
    unfolding pl same by (rule tasks_ok_places [OF ok(4)]) (simp_all add: held_snoc)
  ultimately show ?thesis unfolding pool_inv_def same using ok by blast
qed

lemma push_now_inv:
  assumes inv: "pool_inv run s" and alive: "q_alive s" and k: "q_tasks s t = Some k" "\<not> k_pool k"
    and ws: "q_workers s \<noteq> []" "Created \<notin> set (places s)" "Exited \<notin> set (places s)" "q_thread_idx_that_should_exit s = - 1"
    and pend: "q_pending_task_count s < TPOOL_MAX_TASKS"
  shows "pool_inv run (set_client 0 Free (set_task t (k\<lparr>k_pool := True, k_next := q_pending_task_list s, k_is_finished := False,
             k_is_running := False\<rparr>)
           (s\<lparr>q_pending_task_list := Some t, q_pending_task_count := q_pending_task_count s + 1\<rparr>)))" (is "pool_inv run ?s")
proof -
  from inv obtain ts where ok: "workers_ok s" "\<forall>t \<ge> q_fresh s. q_tasks s t = None"
    "task_list (q_tasks s) (q_pending_task_list s) ts" "tasks_ok run (q_tasks s) ts (places s)"
    "q_pending_task_count s = int (length ts)" "int (length ts) \<le> TPOOL_MAX_TASKS" by (rule pool_invE)
  have pl: "places ?s = places s" by (rule places_cong) simp
  have out: "t \<notin> set ts" using tasks_ok_outside(1) [OF ok(4) k(1)] k(2) by simp
  have "workers_ok ?s" by (rule workers_ok_same [OF ok(1)]) simp_all
  moreover have "client_ok ?s" unfolding client_ok_def pl using ws alive by simp
  moreover have "task_list (q_tasks ?s) (q_pending_task_list ?s) (t # ts)" using ok(3) out by (simp add: task_list_other)
  moreover have "tasks_ok run (q_tasks ?s) (t # ts) (places ?s)" unfolding pl using tasks_ok_push [OF ok(4) k] by simp
  moreover have "t < q_fresh s" using ok(2) k(1) by (metis linorder_not_less option.distinct(1))
  then have "\<forall>t \<ge> q_fresh ?s. q_tasks ?s t = None" using ok(2) by simp
  moreover have "q_pending_task_count ?s = int (length (t # ts))" "int (length (t # ts)) \<le> TPOOL_MAX_TASKS"
    using ok(5) pend by simp_all
  ultimately show ?thesis unfolding pool_inv_def by blast
qed

lemma thread_pool_push_task_inv:
  assumes inv: "pool_inv run s" and alive: "q_alive s" and k: "q_tasks s t = Some k" "\<not> k_pool k"
  shows "keeps_inv run (thread_pool_push_task 0 t s)"
proof (cases "q_clients s 0 = Free \<and> q_pending_task_count s < TPOOL_MAX_TASKS")
  case True
  then have c: "q_clients s 0 = Free" and pend: "q_pending_task_count s < TPOOL_MAX_TASKS" by simp_all
  have wok: "workers_ok s" using inv by (simp add: pool_inv_def)
  have rest: "resting s" by (rule pool_inv_resting(1) [OF inv c])
  have "Created \<notin> set (places s)" using rest by (simp add: resting_def)
  then have tc: "q_thread_count s = int (length (q_workers s))" using thread_count_all [OF wok] by simp
  note create = create_worker_inv [OF inv c alive k _ pend]
  have tc': "q_thread_count (create_worker i s) = q_thread_count s" for i by (simp add: create_worker_def Let_def)
  show ?thesis
  proof (cases "q_workers s = []")
    case True
    then have "q_threads s = None" "0 < q_max_thread_count s" using wok by (simp_all add: workers_ok_def)
    then show ?thesis
      using create c pend alive True tc by (simp add: thread_pool_push_task_def push_wait_def tc')
  next
    case False
    then have thr: "q_threads s = Some [0..<length (q_workers s)]" using wok by (simp add: workers_ok_def)
    show ?thesis
    proof (cases "q_idle_thread_count s = 0 \<and> q_thread_count s < q_max_thread_count s")
      case True
      then show ?thesis using create c pend alive tc thr by (simp add: thread_pool_push_task_def push_wait_def tc')
    next
      case full: False
      have "pool_inv run (set_client 0 Free (set_task t (k\<lparr>k_pool := True, k_next := q_pending_task_list s, k_is_finished := False,
             k_is_running := False\<rparr>)
           (s\<lparr>q_pending_task_list := Some t, q_pending_task_count := q_pending_task_count s + 1\<rparr>)))"
        by (rule push_now_inv [OF inv alive k False]) (use rest pend alive in \<open>simp_all add: resting_def\<close>)
      moreover have "thread_pool_push_task 0 t s = push_wait 0 t (q_thread_count s) s"
        unfolding thread_pool_push_task_def if_not_P [OF full] using c pend alive thr by simp
      ultimately show ?thesis using k by (simp add: push_wait_def with_task_def)
    qed
  qed
qed (use inv alive in \<open>auto simp: thread_pool_push_task_def\<close>)

lemma push_wake_inv:
  assumes inv: "pool_inv run s"
  shows "keeps_inv run (push_wake 0 s)"
proof (cases "\<exists>t required. q_clients s 0 = Pushing t required")
  case True
  then obtain t required where c: "q_clients s 0 = Pushing t required" by blast
  with inv obtain k where p: "required = int (length (q_workers s))" "q_alive s" "q_thread_idx_that_should_exit s = - 1"
    "q_tasks s t = Some k" "\<not> k_pool k" "Exited \<notin> set (places s)" "q_workers s \<noteq> []" "q_pending_task_count s < TPOOL_MAX_TASKS"
    by (auto simp: pool_inv_def client_ok_def)
  show ?thesis
  proof (cases "q_thread_count s = required")
    case True
    then have "Created \<notin> set (places s)" using inv p(1) thread_count_all [of s] by (simp add: pool_inv_def)
    then show ?thesis
      using push_now_inv [OF inv p(2,4,5,7) _ p(6,3,8)] True p(2,4) c by (simp add: push_wake_def push_wait_def with_task_def)
  next
    case False
    have "set_client 0 (Pushing t required) s = s" using c by (simp add: set_client_def fun_upd_idem)
    with False show ?thesis using inv p(2) c by (simp add: push_wake_def push_wait_def)
  qed
qed (auto simp: push_wake_def split: client.splits)

subsection \<open>Deleting the pool\<close>

text \<open>The client is about to look at worker \<open>i\<close>; those before it have exited and no task is left.\<close>

lemma delete_next_inv:
  assumes inv: "pool_inv run s" and alive: "q_alive s" and none: "q_pending_task_count s = 0" "Created \<notin> set (places s)"
    "\<forall>pc \<in> set (places s). \<not> is_busy pc" and exited: "\<And>w. w < length (q_workers s) \<Longrightarrow> places s ! w = Exited \<longleftrightarrow> w < i"
    and i: "i \<le> length (q_workers s)"
  shows "keeps_inv run (delete_next 0 i s)"
proof -
  have wok: "workers_ok s" using inv by (simp add: pool_inv_def)
  have tc: "q_thread_count s = int (length (q_workers s))" using thread_count_all [OF wok] none(2) by simp
  have thr: "q_threads s \<noteq> None \<longleftrightarrow> q_workers s \<noteq> []" using wok by (simp add: workers_ok_def)
  show ?thesis
  proof (cases "i < length (q_workers s)")
    case True
    let ?s = "set_client 0 (Closing i) (s\<lparr>q_thread_idx_that_should_exit := int i\<rparr>)"
    have pl: "places ?s = places s" by (rule places_cong) simp
    have "pool_inv run ?s"
    proof (rule client_move_inv [OF inv])
      show "client_ok ?s"
        unfolding client_ok_def pl using True alive none exited by simp
    qed simp_all
    moreover have "q_workers s \<noteq> []" using True by auto
    ultimately show ?thesis using True by (simp add: delete_next_def tc thr [simplified])
  next
    case False
    let ?s = "set_client 0 Free (s\<lparr>q_alive := False\<rparr>)"
    have pl: "places ?s = places s" by (rule places_cong) simp
    have "w = Exited" if w: "w \<in> set (places s)" for w
    proof -
      obtain v where "v < length (q_workers s)" "places s ! v = w" using w unfolding in_set_conv_nth length_places by blast
      then show ?thesis using exited [of v] False by simp
    qed
    then have "client_ok ?s" unfolding client_ok_def pl using none by simp
    then have "pool_inv run ?s" by (rule client_move_inv [OF inv, rotated -1]) simp_all
    then show ?thesis using False by (simp add: delete_next_def tc)
  qed
qed

lemma thread_pool_delete_inv:
  assumes inv: "pool_inv run s" and alive: "q_alive s"
  shows "keeps_inv run (thread_pool_delete 0 s)"
proof (cases "q_clients s 0 = Free \<and> \<not> (q_running_task_count s > 0 \<or> q_pending_task_count s > 0 \<or> q_idle_thread_count s \<noteq> q_thread_count s)")
  case True
  have rest: "resting s" using pool_inv_resting(1) [OF inv] True by simp
  have wok: "workers_ok s" using inv by (simp add: pool_inv_def)
  have run0: "\<not> 0 < count is_busy (places s)" using True wok by (simp add: workers_ok_def)
  have pend: "q_pending_task_count s = 0" using True inv by (auto simp: pool_inv_def)
  have "keeps_inv run (delete_next 0 0 s)"
  proof (rule delete_next_inv [OF inv alive pend])
    show "\<forall>pc \<in> set (places s). \<not> is_busy pc" using run0 unfolding count_pos by blast
    have "Exited \<notin> set (places s)" using rest alive by (simp add: resting_def)
    then show "places s ! w = Exited \<longleftrightarrow> w < 0" if "w < length (q_workers s)" for w
      using nth_mem [of w "places s"] that by (metis length_places not_less_zero)
  qed (use rest in \<open>simp_all add: resting_def\<close>)
  then show ?thesis using True alive by (simp add: thread_pool_delete_def)
qed (use inv alive in \<open>auto simp: thread_pool_delete_def\<close>)

lemma delete_joined_inv:
  assumes inv: "pool_inv run s"
  shows "keeps_inv run (delete_joined 0 s)"
proof (cases "\<exists>i. q_clients s 0 = Closing i")
  case True
  then obtain i where c: "q_clients s 0 = Closing i" by blast
  with inv have p: "q_alive s" "q_thread_idx_that_should_exit s = int i" "i < length (q_workers s)" "q_pending_task_count s = 0"
    "Created \<notin> set (places s)" "\<forall>pc \<in> set (places s). \<not> is_busy pc"
    "\<forall>w < length (places s). places s ! w = Exited \<longrightarrow> w \<le> i" "\<forall>w < i. places s ! w = Exited"
    by (simp_all add: pool_inv_def client_ok_def)
  have thr: "q_threads s = Some [0..<length (q_workers s)]" using inv p(3) by (auto simp: pool_inv_def workers_ok_def)
  show ?thesis
  proof (cases "places s ! i = Exited")
    case True
    have "keeps_inv run (delete_next 0 (i + 1) s)"
    proof (rule delete_next_inv [OF inv p(1,4,5,6)])
      show "places s ! w = Exited \<longleftrightarrow> w < i + 1" if "w < length (q_workers s)" for w
        using p(7,8) True that by (metis length_places less_add_one less_antisym linorder_not_less not_less_eq Suc_eq_plus1)
    qed (use p(3) in simp)
    then show ?thesis using True c thr p(3) worker_at_places [of s i Exited] by (simp add: delete_joined_def)
  next
    case False
    then show ?thesis using c thr p(3) worker_at_places [of s i Exited] by (simp add: delete_joined_def)
  qed
qed (auto simp: delete_joined_def split: client.splits)

subsection \<open>Every event\<close>

lemma pool_exec_inv: "pool_inv run s \<Longrightarrow> polite e s \<Longrightarrow> keeps_inv run (pool_exec run e s)"
  by (cases e)
     (auto simp: thread_task_new_inv thread_pool_push_task_inv push_wake_inv thread_pool_delete_inv delete_joined_inv
        thread_task_join_inv join_wake_inv thread_task_timed_join_inv timed_wake_inv thread_task_delete_inv thread_task_detach_inv
        worker_start_inv worker_wake_inv worker_run_inv worker_finish_inv)

lemma thread_pool_new_inv:
  assumes "thread_pool_new m = Inr s"
  shows "pool_inv run s"
proof -
  have "tasks_ok run (q_tasks s) [] (places s)" "separate (places s)"
    using assms by (auto simp: thread_pool_new_def tasks_ok_def places_def held_def separate_def split: if_splits)
  then show ?thesis
    using assms by (auto simp: thread_pool_new_def pool_inv_def workers_ok_def client_ok_def places_def count_def TPOOL_MAX_TASKS_def
      split: if_splits)
qed

end
