(* ===== verification/Pool_Correct.thy ===== *)
theory Pool_Correct
  imports Pool_Client
begin

section \<open>The thread pool is correct\<close>

text \<open>
  What \<^verbatim>\<open>hw4/thread_pool.c\<close> promises to one client thread that pushes no task twice and detaches only finished
  tasks, in every interleaving with the workers; and what happens to a client that does not keep to that.
\<close>

subsection \<open>Reachable states\<close>

text \<open>An event of such a client, or of a worker.\<close>

inductive pool_step :: "('c \<Rightarrow> 'r) \<Rightarrow> ('c, 'r) pool \<Rightarrow> ('c, 'r) pool \<Rightarrow> bool" for run where
  "polite e s \<Longrightarrow> pool_exec run e s = Next s' r \<Longrightarrow> pool_step run s s'"

inductive_cases pool_stepE: "pool_step run s s'"

definition pool_init :: "int \<Rightarrow> ('c, 'r) pool \<Rightarrow> bool" where
  "pool_init m s \<longleftrightarrow> thread_pool_new m = Inr s"

definition pool_reachable :: "('c \<Rightarrow> 'r) \<Rightarrow> int \<Rightarrow> ('c, 'r) pool \<Rightarrow> bool" where
  "pool_reachable run m = reachable (pool_init m) (pool_step run)"

lemma pool_step_inv: "pool_inv run s \<Longrightarrow> pool_step run s s' \<Longrightarrow> pool_inv run s'"
  using pool_exec_inv by (fastforce elim: pool_stepE)

lemma q_max_same: "pool_exec run e s = Next s' r \<Longrightarrow> q_max_thread_count s' = q_max_thread_count s"
  by (cases e)
     (auto simp: thread_task_new_def thread_pool_push_task_def push_wait_def push_wake_def thread_pool_delete_def delete_next_def
        delete_joined_def thread_task_join_def join_wait_def join_wake_def take_result_def thread_task_timed_join_def timed_wait_def
        timed_wake_def thread_task_delete_def free_task_def thread_task_detach_def worker_start_def worker_wake_def worker_run_def
        worker_finish_def worker_loop_def worker_wait_def with_task_def create_worker_def Let_def
        split: if_splits option.splits client.splits worker.splits)

interpretation pool: invariant_system "pool_init m" "pool_step run" "\<lambda>s. pool_inv run s \<and> q_max_thread_count s = m" for m run
proof
  show "pool_inv run s \<and> q_max_thread_count s = m" if "pool_init m s" for s :: "('a, 'b) pool"
    using that thread_pool_new_inv [of m s run] by (auto simp: pool_init_def thread_pool_new_def split: if_splits)
next
  show "pool_inv run t \<and> q_max_thread_count t = m" if "pool_inv run s \<and> q_max_thread_count s = m" "pool_step run s t" for s t
    using that pool_step_inv q_max_same by (metis pool_stepE)
qed

lemma pool_reachable_inv: "pool_reachable run m s \<Longrightarrow> pool_inv run s"
  using pool.inv_reachable by (auto simp: pool_reachable_def)

lemma pool_reachable_max: "pool_reachable run m s \<Longrightarrow> q_max_thread_count s = m"
  using pool.inv_reachable by (auto simp: pool_reachable_def)

lemma pool_reachable_run:
  assumes "pool_reachable run m s" "polite e s" "pool_exec run e s = Next s' r"
  shows "pool_reachable run m s'"
  using assms unfolding pool_reachable_def by (blast intro: reachable.intros pool_step.intros)

lemma pool_reachable_new: "thread_pool_new m = Inr s \<Longrightarrow> pool_reachable run m s"
  unfolding pool_reachable_def by (rule reachable.intros) (simp add: pool_init_def)

subsection \<open>The counters\<close>

lemma count_split: "count is_idle ws + count is_busy ws = count (\<lambda>pc. pc \<noteq> Created) ws"
  by (induction ws) (auto simp: count_def elim: is_idle.elims is_busy.elims split: worker.splits)

lemma count_or: "(\<And>pc. Q pc \<longleftrightarrow> P pc \<or> R pc) \<Longrightarrow> (\<And>pc. \<not> (P pc \<and> R pc)) \<Longrightarrow> count Q ws = count P ws + count R ws"
  by (induction ws) (auto simp: count_def)

subsection \<open>Progress\<close>

fun weight :: "worker \<Rightarrow> nat" where
  "weight Created = 2"
| "weight Idle = 1"
| "weight (Taken t) = 3"
| "weight (Running t) = 2"
| "weight Exited = 0"

text \<open>An upper bound on what the workers still do on their own.\<close>

definition work :: "('c, 'r) pool \<Rightarrow> nat" where
  "work s = 3 * nat (q_pending_task_count s) + sum_list (map weight (places s))"

lemma work_set_worker:
  "w < length (q_workers s) \<Longrightarrow> work (set_worker w pc s) + weight (places s ! w) = work s + weight pc"
  using sum_weight_update [of w "places s" weight pc] by (simp add: work_def)

lemma work_cong: "q_workers s' = q_workers s \<Longrightarrow> q_pending_task_count s' = q_pending_task_count s \<Longrightarrow> work s' = work s"
  using places_cong [of s' s] by (simp add: work_def)

lemma worker_wait_work:
  assumes "worker_wait w s = Next s' r" "w < length (q_workers s)"
  shows "s' = set_worker w Idle s \<or> work s' + weight (places s ! w) < work s + 1"
proof -
  consider "s' = set_worker w Idle s" | "s' = set_worker w Exited s"
    | t k where "\<not> q_pending_task_count s < 1" "s' = set_worker w (Taken t) (set_task t (k\<lparr>k_next := None\<rparr>)
                    (s\<lparr>q_pending_task_list := k_next k,
                       q_idle_thread_count := q_idle_thread_count s - 1,
                       q_pending_task_count := q_pending_task_count s - 1,
                       q_running_task_count := q_running_task_count s + 1\<rparr>))"
    using assms(1) by (auto simp: worker_wait_def with_task_def Let_def split: if_splits option.splits)
  then show ?thesis
  proof cases
    case 2
    then show ?thesis using work_set_worker [OF assms(2), of Exited] by simp
  next
    case (3 t k)
    let ?s = "set_task t (k\<lparr>k_next := None\<rparr>) (s\<lparr>q_pending_task_list := k_next k, q_idle_thread_count := q_idle_thread_count s - 1,
       q_pending_task_count := q_pending_task_count s - 1, q_running_task_count := q_running_task_count s + 1\<rparr>)"
    have pl: "places ?s = places s" by (rule places_cong) simp
    have "work ?s + 3 = work s" using 3(1) unfolding work_def pl by simp
    moreover have "work s' + weight (places ?s ! w) = work ?s + 3"
      using work_set_worker [of w ?s "Taken t"] assms(2) 3(2) by simp
    ultimately show ?thesis unfolding pl by simp
  qed simp
qed

fun worker_event :: "'c event \<Rightarrow> bool" where
  "worker_event (Worker_start w) = True"
| "worker_event (Worker_wake w) = True"
| "worker_event (Worker_run w) = True"
| "worker_event (Worker_finish w) = True"
| "worker_event _ = False"

lemma worker_wait_less:
  assumes "worker_wait w s' = Next s'' r" "w < length (q_workers s)" "weight (places s ! w) \<ge> 2"
    and "q_workers s' = q_workers s" "q_pending_task_count s' = q_pending_task_count s"
  shows "work s'' < work s"
proof -
  have same: "work s' = work s" "places s' = places s" using work_cong places_cong assms(4,5) by blast+
  have "work (set_worker w Idle s') + weight (places s ! w) = work s + 1"
    using work_set_worker [of w s' Idle] assms(2,4) same by simp
  then show ?thesis using worker_wait_work [OF assms(1)] assms(2-4) same by fastforce
qed

lemma set_worker_same: "w < length (q_workers s) \<Longrightarrow> places s ! w = pc \<Longrightarrow> set_worker w pc s = s"
  using list_update_id [of "q_workers s" w] by (cases "q_workers s ! w") (auto simp: set_worker_def places_def)

text \<open>Every step of a worker that does not wait lowers the bound.\<close>

lemma worker_step_less:
  assumes "worker_event e" "\<And>w. e \<noteq> Worker_wake w" "pool_exec run e s = Next s' r"
  shows "work s' < work s"
  using assms
proof (cases e)
  case (Worker_start w)
  then show ?thesis
    using assms worker_wait_less [of w _ s' r s]
    by (auto simp: worker_start_def worker_loop_def worker_at_places split: if_splits)
next
  case (Worker_run w)
  with assms obtain t k where w: "worker_at s w = Some (Taken t)" "s' = set_worker w (Running t) (set_task t (k\<lparr>k_is_running := True\<rparr>) s)"
    by (auto simp: worker_run_def with_task_def split: option.splits worker.splits)
  then show ?thesis
    using work_set_worker [of w "set_task t (k\<lparr>k_is_running := True\<rparr>) s" "Running t"] work_cong [of "set_task t (k\<lparr>k_is_running := True\<rparr>) s" s]
    by (simp add: worker_at_places)
next
  case (Worker_finish w)
  with assms obtain t s1 where w: "worker_at s w = Some (Running t)" "worker_loop w s1 = Next s' r"
    "q_workers s1 = q_workers s" "q_pending_task_count s1 = q_pending_task_count s"
    by (auto simp: worker_finish_def with_task_def Let_def split: option.splits worker.splits if_splits)
  then show ?thesis
    using worker_wait_less [of w _ s' r s] by (auto simp: worker_loop_def worker_at_places)
next
  case (Worker_wake w)
  with assms(2) show ?thesis by blast
qed simp_all

lemma worker_event_work:
  assumes "worker_event e" "pool_exec run e s = Next s' r"
  shows "s' = s \<or> work s' < work s"
proof (cases "\<exists>w. e = Worker_wake w")
  case True
  then obtain w where "e = Worker_wake w" by blast
  with assms have w: "w < length (q_workers s)" "places s ! w = Idle" "worker_wait w s = Next s' r"
    by (auto simp: worker_wake_def worker_at_places split: if_splits)
  then show ?thesis using worker_wait_work [OF w(3,1)] set_worker_same [OF w(1,2)] by auto
qed (use worker_step_less [OF assms(1) _ assms(2)] in blast)

text \<open>What a worker does next, and that it can.\<close>

definition next_event :: "nat \<Rightarrow> worker \<Rightarrow> 'c event" where
  "next_event w pc = (case pc of Created \<Rightarrow> Worker_start w | Idle \<Rightarrow> Worker_wake w | Taken t \<Rightarrow> Worker_run w | _ \<Rightarrow> Worker_finish w)"

lemma next_event_worker: "worker_event (next_event w pc)" "polite (next_event w pc) s"
  by (auto simp: next_event_def split: worker.splits)

lemma worker_enabled:
  assumes inv: "pool_inv run s" and w: "w < length (q_workers s)" "places s ! w \<noteq> Exited"
  shows "\<exists>s' r. pool_exec run (next_event w (places s ! w)) s = Next s' r"
proof -
  let ?e = "next_event w (places s ! w)"
  have alive: "q_alive s" using inv w active_alive [of s w] by (simp add: pool_inv_def)
  have at: "worker_at s w = Some (places s ! w)" using w(1) by (simp add: worker_at_places)
  have "pool_exec run ?e s \<noteq> Undefined" using pool_exec_inv [OF inv next_event_worker(2), of w "places s ! w"] by auto
  moreover have "pool_exec run ?e s \<noteq> Blocked"
    using at alive w(2)
    by (auto simp: next_event_def worker_start_def worker_wake_def worker_run_def worker_finish_def worker_loop_def worker_wait_def
        with_task_def Let_def split: worker.splits option.splits)
  ultimately show ?thesis by (cases "pool_exec run ?e s") auto
qed

lemma unfinished_iff:
  assumes inv: "pool_inv run s"
  shows "(\<exists>t k. q_tasks s t = Some k \<and> k_pool k \<and> \<not> k_is_finished k) \<longleftrightarrow> q_pending_task_count s \<noteq> 0 \<or> q_running_task_count s \<noteq> 0"
proof -
  from inv obtain ts where ok: "workers_ok s" "tasks_ok run (q_tasks s) ts (places s)" "q_pending_task_count s = int (length ts)"
    by (rule pool_invE)
  have "(\<exists>t. held (places s) t) \<longleftrightarrow> 0 < count is_busy (places s)"
  proof -
    have "is_busy pc \<longleftrightarrow> (\<exists>t. pc = Taken t \<or> pc = Running t)" for pc by (cases pc) auto
    then show ?thesis unfolding count_pos held_def by metis
  qed
  then have "(\<exists>t. held (places s) t) \<longleftrightarrow> q_running_task_count s \<noteq> 0"
    using ok(1) count_nonneg [of is_busy "places s"] by (auto simp: workers_ok_def)
  moreover have "(\<exists>t. t \<in> set ts) \<longleftrightarrow> q_pending_task_count s \<noteq> 0" using ok(3) by (cases ts) auto
  moreover have "(\<exists>t k. q_tasks s t = Some k \<and> k_pool k \<and> \<not> k_is_finished k) \<longleftrightarrow> (\<exists>t. t \<in> set ts \<or> held (places s) t)"
  proof -
    have "\<forall>t \<in> set ts. \<exists>k. q_tasks s t = Some k \<and> k_pool k \<and> \<not> k_is_finished k"
      "\<forall>t. held (places s) t \<longrightarrow> (\<exists>k. q_tasks s t = Some k \<and> k_pool k \<and> \<not> k_is_finished k)"
      "\<forall>t k. q_tasks s t = Some k \<longrightarrow> k_pool k \<and> \<not> k_is_finished k \<longrightarrow> t \<in> set ts \<or> held (places s) t"
      using ok(2) unfolding tasks_ok_def by fast+
    then show ?thesis by blast
  qed
  ultimately show ?thesis by blast
qed

lemma idle_plus_running:
  assumes "pool_inv run s"
  shows "q_idle_thread_count s + q_running_task_count s = q_thread_count s"
  using assms count_split [of "places s"] by (simp add: pool_inv_def workers_ok_def)

subsection \<open>Sequences of events\<close>

primrec polite_all :: "('c \<Rightarrow> 'r) \<Rightarrow> 'c event list \<Rightarrow> ('c, 'r) pool \<Rightarrow> bool" where
  "polite_all run [] s = True"
| "polite_all run (e # es) s = (polite e s \<and> (case pool_exec run e s of Next s' _ \<Rightarrow> polite_all run es s' | _ \<Rightarrow> False))"

text \<open>A property of states that every event keeps is kept by a sequence of them.\<close>

lemma pool_run_keeps:
  assumes "\<And>e s s' r. P s \<Longrightarrow> polite e s \<Longrightarrow> pool_exec run e s = Next s' r \<Longrightarrow> P s'"
  shows "P s \<Longrightarrow> polite_all run es s \<Longrightarrow> pool_run run es s = Next s' r \<Longrightarrow> P s'"
proof (induction es arbitrary: s)
  case (Cons e es)
  then obtain s1 r1 where "pool_exec run e s = Next s1 r1" by (cases "pool_exec run e s") auto
  with Cons assms [of s e s1 r1] show ?case by (auto split: if_splits)
qed simp

lemma pool_reachable_trace:
  assumes "pool_reachable run m s" "polite_all run es s" "pool_run run es s = Next s' r"
  shows "pool_reachable run m s'"
  by (rule pool_run_keeps [where P = "pool_reachable run m", OF _ assms]) (rule pool_reachable_run)

text \<open>What a task's function and argument are never changes, and an address is never used again.\<close>

lemma call_kept:
  assumes "t < q_fresh s \<and> (\<forall>k. q_tasks s t = Some k \<longrightarrow> k_call k = call)" "pool_exec run e s = Next s' r"
  shows "t < q_fresh s' \<and> (\<forall>k. q_tasks s' t = Some k \<longrightarrow> k_call k = call)"
proof -
  have "q_fresh s \<le> q_fresh s' \<and> (\<forall>k. q_tasks s' t = Some k \<longrightarrow> t = q_fresh s \<or> (\<exists>k0. q_tasks s t = Some k0 \<and> k_call k = k_call k0))"
    using assms(2)
    by (cases e)
       (auto simp: thread_task_new_def thread_pool_push_task_def push_wait_def push_wake_def thread_pool_delete_def delete_next_def
          delete_joined_def thread_task_join_def join_wait_def join_wake_def take_result_def thread_task_timed_join_def timed_wait_def
          timed_wake_def thread_task_delete_def free_task_def thread_task_detach_def worker_start_def worker_wake_def worker_run_def
          worker_finish_def worker_loop_def worker_wait_def with_task_def create_worker_def Let_def
          split: if_splits option.splits client.splits worker.splits)
  with assms(1) show ?thesis by fastforce
qed

text \<open>The task whose result an event returns.\<close>

fun joined :: "'c event \<Rightarrow> ('c, 'r) pool \<Rightarrow> nat option" where
  "joined (Join c t) s = Some t"
| "joined (Timed_join c t instant) s = Some t"
| "joined (Join_wake c) s = (case q_clients s c of Joining t \<Rightarrow> Some t | _ \<Rightarrow> None)"
| "joined (Timed_wake c timed_out) s = (case q_clients s c of Timed_joining t \<Rightarrow> Some t | _ \<Rightarrow> None)"
| "joined _ s = None"

lemma result_taken:
  assumes "pool_exec run e s = Next s' (Some (Result r))"
  shows "\<exists>t k. joined e s = Some t \<and> q_tasks s t = Some k \<and> k_is_finished k \<and> r = k_result k"
  using assms
  by (cases e)
     (auto simp: thread_pool_push_task_def push_wait_def push_wake_def thread_pool_delete_def delete_next_def
        delete_joined_def thread_task_join_def join_wait_def join_wake_def take_result_def thread_task_timed_join_def timed_wait_def
        timed_wake_def thread_task_delete_def free_task_def thread_task_detach_def worker_start_def worker_wake_def worker_run_def
        worker_finish_def worker_loop_def worker_wait_def with_task_def create_worker_def Let_def
        split: if_splits option.splits client.splits worker.splits)

subsection \<open>Properties\<close>

text \<open>C2: For one client that pushes no task while it is in a pool, detaches only finished ones and does not use a
  deleted pool or task, no call and no step of a worker ever uses freed memory or a null pointer, in any
  interleaving; the number of threads stays within the limit given to \<^verbatim>\<open>thread_pool_new\<close>, that within
  \<^verbatim>\<open>TPOOL_MAX_THREADS\<close>, and the pending tasks within \<^verbatim>\<open>TPOOL_MAX_TASKS\<close>; every started worker is counted as
  idle or as running a task, never both; and the pending list is a list of \<^verbatim>\<open>pending_task_count\<close> different tasks.\<close>

theorem pool_safe:
  assumes "pool_reachable run m s"
  shows "(\<forall>e. polite e s \<longrightarrow> pool_exec run e s \<noteq> Undefined) \<and>
    0 \<le> thread_pool_thread_count s \<and> thread_pool_thread_count s \<le> m \<and> m \<le> TPOOL_MAX_THREADS \<and>
    q_idle_thread_count s + q_running_task_count s = thread_pool_thread_count s \<and>
    q_running_task_count s = int (length (filter is_busy (places s))) \<and>
    q_pending_task_count s \<le> TPOOL_MAX_TASKS \<and>
    (\<exists>ts. task_list (q_tasks s) (q_pending_task_list s) ts \<and> distinct ts \<and> q_pending_task_count s = int (length ts))"
proof -
  have inv: "pool_inv run s" by (rule pool_reachable_inv [OF assms])
  have m: "q_max_thread_count s = m" by (rule pool_reachable_max [OF assms])
  have "\<forall>e. polite e s \<longrightarrow> pool_exec run e s \<noteq> Undefined" using pool_exec_inv [OF inv] by fastforce
  moreover have "q_thread_count s = count (\<lambda>pc. pc \<noteq> Created) (places s)" "q_running_task_count s = count is_busy (places s)"
    "int (length (q_workers s)) \<le> m" "m \<le> TPOOL_MAX_THREADS"
    using inv m by (simp_all add: pool_inv_def workers_ok_def)
  moreover have "count (\<lambda>pc. pc \<noteq> Created) (places s) \<le> int (length (q_workers s))"
    using count_le [of "\<lambda>pc. pc \<noteq> Created" "places s"] by simp
  moreover from inv obtain ts where "task_list (q_tasks s) (q_pending_task_list s) ts" "tasks_ok run (q_tasks s) ts (places s)"
    "q_pending_task_count s = int (length ts)" "int (length ts) \<le> TPOOL_MAX_TASKS" by (rule pool_invE)
  moreover from this have "distinct ts" by (simp add: tasks_ok_def)
  ultimately show ?thesis
    using idle_plus_running [OF inv] count_nonneg [of "\<lambda>pc. pc \<noteq> Created" "places s"]
    unfolding thread_pool_thread_count_def count_def by auto
qed

text \<open>C6: A client that creates a task, and whatever it and the workers do then, gets from a successful
  \<^verbatim>\<open>thread_task_join\<close> or \<^verbatim>\<open>thread_task_timed_join\<close> of that task (at once or after waiting) what the task's function returns for its
  argument, and the task is finished by then.\<close>

theorem join_gives_result:
  assumes "pool_reachable run m s0" "polite_all run es (thread_task_new call s0)"
    and "pool_run run es (thread_task_new call s0) = Next s x"
    and "joined e s = Some (q_fresh s0)" "pool_exec run e s = Next s' (Some (Result r))"
  shows "r = Some (run call) \<and> thread_task_is_finished (q_fresh s0) s = Some True"
proof -
  let ?t = "q_fresh s0" and ?s1 = "thread_task_new call s0"
  have "polite (Task_new call) s0" by simp
  then have r1: "pool_reachable run m ?s1" by (rule pool_reachable_run [OF assms(1)]) simp
  have "pool_reachable run m s" by (rule pool_reachable_trace [OF r1 assms(2,3)])
  then have inv: "pool_inv run s" by (rule pool_reachable_inv)
  have "?t < q_fresh s \<and> (\<forall>k. q_tasks s ?t = Some k \<longrightarrow> k_call k = call)"
  proof (rule pool_run_keeps [where P = "\<lambda>s. ?t < q_fresh s \<and> (\<forall>k. q_tasks s ?t = Some k \<longrightarrow> k_call k = call)", OF _ _ assms(2,3)])
    show "?t < q_fresh ?s1 \<and> (\<forall>k. q_tasks ?s1 ?t = Some k \<longrightarrow> k_call k = call)" by (simp add: thread_task_new_def)
  qed (rule call_kept)
  moreover obtain k where k: "q_tasks s ?t = Some k" "k_is_finished k" "r = k_result k"
    using result_taken [OF assms(5)] assms(4) by auto
  moreover have "k_result k = Some (run (k_call k))" using inv k(1,2) by (auto simp: pool_inv_def tasks_ok_def)
  ultimately show ?thesis by (simp add: thread_task_is_finished_def)
qed

text \<open>C27: \<^verbatim>\<open>thread_pool_delete\<close> (called now, or going on after a worker was joined) refuses with
  \<^verbatim>\<open>TPOOL_ERR_HAS_TASKS\<close> exactly if some task of the pool is not finished; and when it returns success, every
  worker has exited and the pool is freed.\<close>

theorem pool_delete_correct:
  assumes "pool_reachable run m s" "polite e s" "e = Pool_delete 0 \<or> e = Delete_joined 0" "pool_exec run e s = Next s' (Some x)"
  shows "(x = Error TPOOL_ERR_HAS_TASKS \<longleftrightarrow> (\<exists>t k. q_tasks s t = Some k \<and> k_pool k \<and> \<not> k_is_finished k)) \<and>
    (x = Error TPOOL_ERR_HAS_TASKS \<and> s' = s \<or> x = Success \<and> \<not> q_alive s' \<and> (\<forall>pc \<in> set (places s'). pc = Exited))"
proof -
  have inv: "pool_inv run s" by (rule pool_reachable_inv [OF assms(1)])
  have inv': "pool_inv run s'" using pool_exec_inv [OF inv assms(2)] assms(4) by simp
  have nn: "0 \<le> q_pending_task_count s" "0 \<le> q_running_task_count s"
    using inv count_nonneg [of is_busy "places s"] by (auto simp: pool_inv_def workers_ok_def)
  have closing: "q_pending_task_count s = 0 \<and> q_running_task_count s = 0" if "q_clients s 0 = Closing i" for i
  proof -
    have "\<not> 0 < count is_busy (places s)" "q_pending_task_count s = 0"
      unfolding count_pos using inv that by (auto simp: pool_inv_def client_ok_def)
    then show ?thesis using inv nn by (simp add: pool_inv_def workers_ok_def)
  qed
  have "(x = Error TPOOL_ERR_HAS_TASKS \<and> s' = s \<and> (q_pending_task_count s \<noteq> 0 \<or> q_running_task_count s \<noteq> 0)) \<or>
      (x = Success \<and> \<not> q_alive s' \<and> q_clients s' 0 = Free \<and> q_pending_task_count s = 0 \<and> q_running_task_count s = 0)"
    using assms(3,4) idle_plus_running [OF inv] nn closing
    by (auto simp: thread_pool_delete_def delete_joined_def delete_next_def split: if_splits client.splits option.splits)
  moreover have "\<forall>pc \<in> set (places s'). pc = Exited" if "\<not> q_alive s'" "q_clients s' 0 = Free"
    using inv' that by (auto simp: pool_inv_def client_ok_def)
  ultimately show ?thesis unfolding unfinished_iff [OF inv] by auto
qed

text \<open>C28: A task that is detached while it runs ends in a use of freed memory: whatever the reachable state, if the
  client detaches a task that a worker is running, then \<^verbatim>\<open>thread_task_detach\<close> succeeds, and when the task's function has returned, the
  worker frees the task and then unlocks its mutex.\<close>

theorem detach_running_undefined:
  assumes "pool_reachable run m s" "worker_at s w = Some (Running t)" "q_clients s 0 = Free"
  shows "\<exists>s'. pool_exec run (Detach 0 t) s = Next s' (Some Success) \<and> pool_exec run (Worker_finish w) s' = Undefined"
proof -
  have inv: "pool_inv run s" by (rule pool_reachable_inv [OF assms(1)])
  have w: "w < length (q_workers s)" "places s ! w = Running t" using assms(2) by (simp_all add: worker_at_places)
  then obtain k where k: "q_tasks s t = Some k" "k_pool k" "\<not> k_is_finished k" using held_task [OF inv w(1), of t] by auto
  have alive: "q_alive s" using inv w active_alive [of s w] by (simp add: pool_inv_def)
  show ?thesis
    using assms(2,3) k alive
    by (simp add: thread_task_detach_def with_task_def worker_finish_def worker_at_def set_task_def split: if_splits)
qed

text \<open>The loop of \<^verbatim>\<open>thread_pool_push_task\<close> waits for an exact number of threads, which never goes down.\<close>

lemma thread_count_grows: "pool_exec run e s = Next s' r \<Longrightarrow> q_thread_count s \<le> q_thread_count s'"
  by (cases e)
     (auto simp: thread_task_new_def thread_pool_push_task_def push_wait_def push_wake_def thread_pool_delete_def delete_next_def
        delete_joined_def thread_task_join_def join_wait_def join_wake_def take_result_def thread_task_timed_join_def timed_wait_def
        timed_wake_def thread_task_delete_def free_task_def thread_task_detach_def worker_start_def worker_wake_def worker_run_def
        worker_finish_def worker_loop_def worker_wait_def with_task_def create_worker_def Let_def
        split: if_splits option.splits client.splits worker.splits)

lemma overtaken_stays:
  assumes "q_clients s c = Pushing t required" "q_thread_count s \<noteq> required" "pool_exec run e s = Next s' r"
  shows "q_clients s' c = Pushing t required"
  using assms
  by (cases e)
     (auto simp: thread_task_new_def thread_pool_push_task_def push_wait_def push_wake_def thread_pool_delete_def delete_next_def
        delete_joined_def thread_task_join_def join_wait_def join_wake_def take_result_def thread_task_timed_join_def timed_wait_def
        timed_wake_def thread_task_delete_def free_task_def thread_task_detach_def worker_start_def worker_wake_def worker_run_def
        worker_finish_def worker_loop_def worker_wait_def with_task_def create_worker_def Let_def set_client_def set_task_def set_worker_def
        split: if_splits option.splits client.splits worker.splits)

lemma overtaken_for_ever:
  "pool_run run es s = Next s' r \<Longrightarrow> q_clients s c = Pushing t required \<Longrightarrow> required < q_thread_count s \<Longrightarrow>
     q_clients s' c = Pushing t required \<and> required < q_thread_count s'"
proof (induction es arbitrary: s)
  case (Cons e es)
  then obtain s1 r1 where s1: "pool_exec run e s = Next s1 r1" by (cases "pool_exec run e s") auto
  have "q_clients s1 c = Pushing t required" using overtaken_stays [OF Cons.prems(2) _ s1] Cons.prems(3) by simp
  moreover have "required < q_thread_count s1" using thread_count_grows [OF s1] Cons.prems(3) by simp
  ultimately show ?case using Cons.IH [of s1] Cons.prems(1) s1 by (auto split: if_splits)
qed simp

text \<open>C29: A call of \<^verbatim>\<open>thread_pool_push_task\<close> never returns once the pool has more threads than it waits for, whatever any thread does
  afterwards; and two clients that push the first two tasks of a new pool at the same time get there, for any limit on threads: each
  creates a worker, with the same index, for a pool that may allow only one, and when both workers have started before a client looks
  again, both clients are left in their calls for ever.\<close>

theorem push_race:
  assumes "1 \<le> m" "m \<le> TPOOL_MAX_THREADS"
  shows "(\<forall>(s :: ('c, 'r) pool) c t required es s' r. q_clients s c = Pushing t required \<and> required < q_thread_count s \<and>
      pool_run run es s = Next s' r \<longrightarrow> q_clients s' c = Pushing t required \<and> required < q_thread_count s') \<and>
    (\<exists>s s'. thread_pool_new m = Inr s \<and>
      pool_run run [Task_new a, Task_new b, Push 0 0, Push 1 1, Worker_start 0, Worker_start 1] s = Next s' None \<and>
      thread_pool_thread_count s' = 2 \<and> map fst (q_workers s') = [0, 0] \<and>
      (\<forall>es s'' r. pool_run run es s' = Next s'' r \<longrightarrow> q_clients s'' 0 = Pushing 0 1 \<and> q_clients s'' 1 = Pushing 1 1))"
proof -
  obtain s :: "('c, 'r) pool" where s: "thread_pool_new m = Inr s" using assms by (simp add: thread_pool_new_def)
  have "\<exists>s'. pool_run run [Task_new a, Task_new b, Push 0 0, Push 1 1, Worker_start 0, Worker_start 1] s = Next s' None \<and>
      q_thread_count s' = 2 \<and> map fst (q_workers s') = [0, 0] \<and> q_clients s' 0 = Pushing 0 1 \<and> q_clients s' 1 = Pushing 1 1"
  proof -
    have "s = \<lparr>q_alive = True, q_threads = None, q_pending_task_count = 0, q_running_task_count = 0,
        q_pending_task_list = None, q_max_thread_count = m, q_thread_count = 0, q_idle_thread_count = 0,
        q_thread_idx_that_should_exit = - 1, q_tasks = Map.empty, q_fresh = 0, q_workers = [], q_clients = (\<lambda>_. Free)\<rparr>"
      using s assms by (simp add: thread_pool_new_def)
    moreover have "0 < m" using assms by simp
    ultimately show ?thesis
      by (simp add: TPOOL_MAX_TASKS_def thread_task_new_def set_task_def thread_pool_push_task_def
        push_wait_def create_worker_def set_client_def worker_start_def worker_at_def worker_loop_def worker_wait_def set_worker_def
        Let_def fun_upd_def)
  qed
  then obtain s' where s': "pool_run run [Task_new a, Task_new b, Push 0 0, Push 1 1, Worker_start 0, Worker_start 1] s = Next s' None"
    "q_thread_count s' = 2" "map fst (q_workers s') = [0, 0]" "q_clients s' 0 = Pushing 0 1" "q_clients s' 1 = Pushing 1 1" by (elim exE conjE)
  have "q_clients s'' 0 = Pushing 0 1 \<and> q_clients s'' 1 = Pushing 1 1" if "pool_run run es s' = Next s'' r" for es s'' r
    using overtaken_for_ever [OF that s'(4)] overtaken_for_ever [OF that s'(5)] s'(2) by simp
  note stays = this
  have "\<exists>s s'. thread_pool_new m = Inr s \<and>
      pool_run run [Task_new a, Task_new b, Push 0 0, Push 1 1, Worker_start 0, Worker_start 1] s = Next s' None \<and>
      thread_pool_thread_count s' = 2 \<and> map fst (q_workers s') = [0, 0] \<and>
      (\<forall>es s'' r. pool_run run es s' = Next s'' r \<longrightarrow> q_clients s'' 0 = Pushing 0 1 \<and> q_clients s'' 1 = Pushing 1 1)"
    unfolding thread_pool_thread_count_def
    by (intro exI [of _ s] exI [of _ s'] conjI allI impI s s') (drule stays, simp)+
  moreover have "\<forall>(s :: ('c, 'r) pool) c t required es s' r. q_clients s c = Pushing t required \<and> required < q_thread_count s \<and>
      pool_run run es s = Next s' r \<longrightarrow> q_clients s' c = Pushing t required \<and> required < q_thread_count s'"
    using overtaken_for_ever by blast
  ultimately show ?thesis by (intro conjI)
qed

subsection \<open>Witnesses\<close>

text \<open>A pool for two threads in which a worker runs task 0 and task 1 is pending; the task's function is \<^term>\<open>Suc\<close>.\<close>

lemmas pool_defs = thread_pool_new_def TPOOL_MAX_THREADS_def TPOOL_MAX_TASKS_def thread_task_new_def set_task_def
  thread_pool_push_task_def push_wait_def create_worker_def set_client_def worker_start_def worker_at_def worker_loop_def
  worker_wait_def set_worker_def push_wake_def thread_pool_thread_count_def with_task_def worker_wake_def worker_run_def
  worker_finish_def thread_task_join_def join_wait_def join_wake_def take_result_def thread_task_detach_def thread_pool_delete_def
  delete_next_def delete_joined_def Let_def

definition demo_events :: "nat event list" where
  "demo_events = [Push 0 0, Worker_start 0, Push_wake 0, Worker_wake 0, Worker_run 0]"

definition demo_new :: "(nat, nat) pool" where
  "demo_new = (case thread_pool_new 2 of Inr s \<Rightarrow> s | Inl _ \<Rightarrow> undefined)"

lemma demo_new: "thread_pool_new 2 = Inr demo_new"
  by (simp add: demo_new_def thread_pool_new_def TPOOL_MAX_THREADS_def)

lemma demo_new_eq: "demo_new = \<lparr>q_alive = True, q_threads = None, q_pending_task_count = 0, q_running_task_count = 0,
  q_pending_task_list = None, q_max_thread_count = 2, q_thread_count = 0, q_idle_thread_count = 0,
  q_thread_idx_that_should_exit = - 1, q_tasks = Map.empty, q_fresh = 0, q_workers = [], q_clients = (\<lambda>_. Free)\<rparr>"
  by (simp add: demo_new_def thread_pool_new_def TPOOL_MAX_THREADS_def)

lemma demo_reachable: "pool_reachable Suc 2 demo_new"
  by (rule pool_reachable_new [OF demo_new])

lemma demo_run:
  "\<exists>s x. pool_run Suc demo_events (thread_task_new 41 demo_new) = Next s x \<and> polite_all Suc demo_events (thread_task_new 41 demo_new) \<and>
     worker_at s 0 = Some (Running 0) \<and> q_clients s 0 = Free \<and> q_alive s"
  by (simp add: demo_events_def demo_new_eq pool_defs)

lemma demo_running: "\<exists>s. pool_reachable Suc 2 s \<and> worker_at s 0 = Some (Running 0) \<and> q_clients s 0 = Free \<and> q_alive s"
proof -
  from demo_run obtain s x where s: "pool_run Suc demo_events (thread_task_new 41 demo_new) = Next s x"
    "polite_all Suc demo_events (thread_task_new 41 demo_new)" "worker_at s 0 = Some (Running 0)" "q_clients s 0 = Free" "q_alive s"
    by blast
  have "polite (Task_new 41) demo_new" by simp
  then have "pool_reachable Suc 2 (thread_task_new 41 demo_new)" by (rule pool_reachable_run [OF demo_reachable]) simp
  then have "pool_reachable Suc 2 s" by (rule pool_reachable_trace [OF _ s(2,1)])
  with s show ?thesis by blast
qed

theorem pool_safe_witness:
  "\<exists>s. pool_reachable Suc 2 s \<and> pool_exec Suc (Worker_finish 0) s \<noteq> Undefined \<and> thread_pool_thread_count s \<le> 2"
  using demo_running pool_safe [of Suc 2] by (metis polite.simps(15))

theorem join_gives_result_witness:
  "\<exists>s s' r x. pool_run Suc (demo_events @ [Join 0 0, Worker_finish 0]) (thread_task_new 41 demo_new) = Next s x \<and>
     pool_exec Suc (Join_wake 0) s = Next s' (Some (Result r)) \<and> r = Some 42"
proof -
  have "\<exists>s s' r x. pool_run Suc (demo_events @ [Join 0 0, Worker_finish 0]) (thread_task_new 41 demo_new) = Next s x \<and>
     polite_all Suc (demo_events @ [Join 0 0, Worker_finish 0]) (thread_task_new 41 demo_new) \<and>
     joined (Join_wake 0 :: nat event) s = Some (q_fresh demo_new) \<and>
     pool_exec Suc (Join_wake 0) s = Next s' (Some (Result r))"
    by (simp add: demo_events_def demo_new_eq pool_defs)
  then show ?thesis using join_gives_result [OF demo_reachable] by fastforce
qed

theorem push_race_witness:
  "\<exists>s s' :: (nat, nat) pool. thread_pool_new 1 = Inr s \<and>
     pool_run Suc [Task_new 5, Task_new 6, Push 0 0, Push 1 1, Worker_start 0, Worker_start 1] s = Next s' None \<and>
     q_max_thread_count s = 1 \<and> thread_pool_thread_count s' = 2"
  using push_race [of 1 Suc 5 6] by (auto simp: TPOOL_MAX_THREADS_def thread_pool_new_def)

theorem pool_delete_correct_witness:
  "(\<exists>s. pool_reachable Suc 2 s \<and> worker_at s 0 = Some (Running 0) \<and>
      pool_exec Suc (Pool_delete 0) s = Next s (Some (Error TPOOL_ERR_HAS_TASKS)) \<and>
      (\<exists>t k. q_tasks s t = Some k \<and> k_pool k \<and> \<not> k_is_finished k)) \<and>
   (\<exists>s s' x. pool_reachable Suc 2 s \<and> pool_exec Suc (Pool_delete 0) s = Next s' (Some x) \<and> (x = Success \<longrightarrow> \<not> q_alive s'))"
proof
  obtain s where s: "pool_reachable Suc 2 s" "worker_at s 0 = Some (Running 0)" "q_clients s 0 = Free" "q_alive s"
    using demo_running by blast
  have "Running 0 \<in> set (places s)" using s(2) by (metis worker_at_places length_places nth_mem)
  then have "0 < count is_busy (places s)" unfolding count_pos by force
  then have "0 < q_running_task_count s" using pool_reachable_inv [OF s(1)] by (simp add: pool_inv_def workers_ok_def)
  then have exec: "pool_exec Suc (Pool_delete 0) s = Next s (Some (Error TPOOL_ERR_HAS_TASKS))"
    using s(3,4) by (simp add: thread_pool_delete_def)
  have "polite (Pool_delete 0 :: nat event) s" using s(4) by simp
  from pool_delete_correct [OF s(1) this _ exec] s(1,2) exec
  show "\<exists>s. pool_reachable Suc 2 s \<and> worker_at s 0 = Some (Running 0) \<and>
      pool_exec Suc (Pool_delete 0) s = Next s (Some (Error TPOOL_ERR_HAS_TASKS)) \<and>
      (\<exists>t k. q_tasks s t = Some k \<and> k_pool k \<and> \<not> k_is_finished k)" by blast
next
  have pol: "polite (Pool_delete 0 :: nat event) demo_new" by (simp add: demo_new_eq)
  have step: "pool_exec Suc (Pool_delete 0) demo_new = Next (set_client 0 Free (demo_new\<lparr>q_alive := False\<rparr>)) (Some Success)"
    by (simp add: demo_new_eq pool_defs)
  show "\<exists>s s' x. pool_reachable Suc 2 s \<and> pool_exec Suc (Pool_delete 0) s = Next s' (Some x) \<and> (x = Success \<longrightarrow> \<not> q_alive s')"
    using pool_delete_correct [OF demo_reachable pol _ step] demo_reachable step by fastforce
qed

theorem detach_running_undefined_witness:
  "\<exists>s s'. pool_reachable Suc 2 s \<and> pool_exec Suc (Detach 0 0) s = Next s' (Some Success) \<and>
     pool_exec Suc (Worker_finish 0) s' = Undefined"
  using demo_running detach_running_undefined [of Suc 2] by metis

end
