(* ===== verification/Pool_Signals.thy ===== *)
theory Pool_Signals
  imports Pool_Correct
begin

section \<open>Signals of the thread pool\<close>

text \<open>
  The condition variables of \<^verbatim>\<open>hw4/thread_pool.c\<close>. The theories before let a waiting thread look again at any time, which is sound for
  safety but hides a forgotten signal. Here a state is a pool with the set of waiting threads that have been woken and
  have not looked yet; all others that wait are asleep. An event of the pool is the same as before, but a sleeping thread takes part
  only after it has been woken: by the signal or broadcast that the code makes with the event, of which \<open>notifies\<close> keeps the list, or
  on its own (\<open>spurious\<close>, which POSIX allows and which is never needed for progress). As POSIX has it, a signal
  wakes at least one thread that sleeps on its condition variable, if any does.
\<close>

subsection \<open>Waiting and waking\<close>

datatype waiter = Worker_thread nat | Client_thread nat

text \<open>\<^verbatim>\<open>pool->cv\<close>, \<^verbatim>\<open>pool->spawn_cv\<close> and \<^verbatim>\<open>task->cv\<close>.\<close>

datatype cond = Pool_cv | Spawn_cv | Task_cv nat

datatype notification = Signal cond | Broadcast cond

definition waits_on :: "('c, 'r) pool \<Rightarrow> waiter \<Rightarrow> cond option" where
  "waits_on s x =
     (case x of
        Worker_thread w \<Rightarrow> if worker_at s w = Some Idle then Some Pool_cv else None
      | Client_thread c \<Rightarrow>
          (case q_clients s c of
             Pushing t required \<Rightarrow> Some Spawn_cv
           | Joining t \<Rightarrow> Some (Task_cv t)
           | Timed_joining t \<Rightarrow> Some (Task_cv t)
           | _ \<Rightarrow> None))"

text \<open>What the code notifies with an event that took it from \<open>s\<close> to \<open>s'\<close> and returned \<open>r\<close>: a worker that has started
  (\<^verbatim>\<open>spawn_cv\<close>), a task that was pushed (\<^verbatim>\<open>cv\<close>), a task that is finished (its \<^verbatim>\<open>cv\<close>), and each round of \<^verbatim>\<open>thread_pool_delete\<close>, a
  broadcast of \<^verbatim>\<open>cv\<close>.\<close>

fun notifies :: "'c event \<Rightarrow> ('c, 'r) pool \<Rightarrow> 'r reply option \<Rightarrow> ('c, 'r) pool \<Rightarrow> notification option" where
  "notifies (Worker_start w) s r s' = Some (Signal Spawn_cv)"
| "notifies (Push c t) s r s' = (if r = Some Success then Some (Signal Pool_cv) else None)"
| "notifies (Push_wake c) s r s' = (if r = Some Success then Some (Signal Pool_cv) else None)"
| "notifies (Pool_delete c) s r s' = (if r = None then Some (Broadcast Pool_cv) else None)"
| "notifies (Delete_joined c) s r s' = (if r = None then Some (Broadcast Pool_cv) else None)"
| "notifies (Worker_finish w) s r s' =
     (case worker_at s w of
        Some (Running t) \<Rightarrow>
          (case q_tasks s t of None \<Rightarrow> None | Some k \<Rightarrow> if k_is_detached k then None else Some (Signal (Task_cv t)))
      | _ \<Rightarrow> None)"
| "notifies _ s r s' = None"

text \<open>The waiting thread that looks again with an event; the wait of \<^verbatim>\<open>thread_task_timed_join\<close> may also end at its deadline.\<close>

fun looks :: "'c event \<Rightarrow> waiter option" where
  "looks (Worker_wake w) = Some (Worker_thread w)"
| "looks (Push_wake c) = Some (Client_thread c)"
| "looks (Join_wake c) = Some (Client_thread c)"
| "looks (Timed_wake c timed_out) = Some (Client_thread c)"
| "looks _ = None"

fun may_look :: "'c event \<Rightarrow> waiter set \<Rightarrow> bool" where
  "may_look (Timed_wake c True) A = True"
| "may_look e A = (case looks e of None \<Rightarrow> True | Some x \<Rightarrow> x \<in> A)"

definition sleepers :: "('c, 'r) pool \<Rightarrow> waiter set \<Rightarrow> cond \<Rightarrow> waiter set" where
  "sleepers s A c = {x. waits_on s x = Some c \<and> x \<notin> A}"

definition wakes :: "('c, 'r) pool \<Rightarrow> waiter set \<Rightarrow> notification option \<Rightarrow> waiter set \<Rightarrow> bool" where
  "wakes s A n K \<longleftrightarrow>
     (case n of
        None \<Rightarrow> K = {}
      | Some (Signal c) \<Rightarrow> K \<subseteq> sleepers s A c \<and> (sleepers s A c \<noteq> {} \<longrightarrow> K \<noteq> {})
      | Some (Broadcast c) \<Rightarrow> K = sleepers s A c)"

subsection \<open>Steps\<close>

type_synonym ('c, 'r) signalled = "('c, 'r) pool \<times> waiter set"

inductive signal_step :: "('c \<Rightarrow> 'r) \<Rightarrow> 'c event \<Rightarrow> ('c, 'r) signalled \<Rightarrow> 'r reply option \<Rightarrow> ('c, 'r) signalled \<Rightarrow> bool" for run where
  signal_stepI: "polite e s \<Longrightarrow> may_look e A \<Longrightarrow> pool_exec run e s = Next s' r \<Longrightarrow> wakes s A (notifies e s r s') K \<Longrightarrow>
    signal_step run e (s, A) r (s', (A - set_option (looks e)) \<union> K)"

inductive spurious :: "('c, 'r) signalled \<Rightarrow> ('c, 'r) signalled \<Rightarrow> bool" where
  spuriousI: "waits_on s x \<noteq> None \<Longrightarrow> x \<notin> A \<Longrightarrow> spurious (s, A) (s, insert x A)"

inductive_cases signal_stepE: "signal_step run e (s, A) r (s', A')"
inductive_cases spuriousE: "spurious (s, A) (s', A')"

definition signalled_init :: "int \<Rightarrow> ('c, 'r) signalled \<Rightarrow> bool" where
  "signalled_init m x \<longleftrightarrow> thread_pool_new m = Inr (fst x) \<and> snd x = {}"

definition signalled_step :: "('c \<Rightarrow> 'r) \<Rightarrow> ('c, 'r) signalled \<Rightarrow> ('c, 'r) signalled \<Rightarrow> bool" where
  "signalled_step run x y \<longleftrightarrow> (\<exists>e r. signal_step run e x r y) \<or> spurious x y"

abbreviation signalled_reachable :: "('c \<Rightarrow> 'r) \<Rightarrow> int \<Rightarrow> ('c, 'r) signalled \<Rightarrow> bool" where
  "signalled_reachable run m \<equiv> reachable (signalled_init m) (signalled_step run)"

text \<open>The pools are the reachable ones of the model without signals: a sleeping thread may wake up on its own.\<close>

lemma signalled_pool: "signalled_reachable run m x \<Longrightarrow> pool_reachable run m (fst x)"
proof (induction rule: reachable.induct)
  case (reachable_init x)
  then show ?case by (intro pool_reachable_new) (simp add: signalled_init_def)
next
  case (reachable_step x y)
  from reachable_step.hyps(2) show ?case
    unfolding signalled_step_def
  proof (elim disjE exE)
    fix e r assume "signal_step run e x r y"
    then show ?thesis using reachable_step.IH by cases (auto intro: pool_reachable_run)
  next
    assume "spurious x y"
    then show ?thesis using reachable_step.IH by cases simp
  qed
qed

lemma looks_waits: "pool_exec run e s = Next s' r \<Longrightarrow> looks e = Some x \<Longrightarrow> waits_on s x \<noteq> None"
  by (cases e) (auto simp: waits_on_def worker_wake_def push_wake_def join_wake_def timed_wake_def split: if_splits client.splits)

lemma wakes_exists: "\<exists>K. wakes s A n K"
  by (cases n; cases "the n") (auto simp: wakes_def)

lemma pool_signalled: "pool_reachable run m s \<Longrightarrow> \<exists>A. signalled_reachable run m (s, A)"
  unfolding pool_reachable_def
proof (induction rule: reachable.induct)
  case (reachable_init s)
  then have "signalled_reachable run m (s, {})"
    by (intro reachable.reachable_init) (simp add: pool_init_def signalled_init_def)
  then show ?case ..
next
  case (reachable_step s s')
  then obtain A e r where A: "signalled_reachable run m (s, A)" and e: "polite e s" "pool_exec run e s = Next s' r"
    by (auto elim: pool_stepE)
  obtain B where B: "signalled_reachable run m (s, B)" "may_look e B"
  proof (cases "looks e")
    case None
    then have "may_look e A" by (cases e) (auto elim: may_look.elims)
    with A that show ?thesis by blast
  next
    case (Some x)
    then have look: "may_look e C" if "x \<in> C" for C
      using that by (cases "(e, C)" rule: may_look.cases) auto
    show ?thesis
    proof (cases "x \<in> A")
      case True
      with A that look show ?thesis by blast
    next
      case False
      have "signalled_step run (s, A) (s, insert x A)"
        unfolding signalled_step_def using spuriousI [OF looks_waits [OF e(2) Some] False] by blast
      with A have "signalled_reachable run m (s, insert x A)" by (rule reachable.reachable_step)
      with that look show ?thesis by blast
    qed
  qed
  obtain K where "wakes s B (notifies e s r s') K" using wakes_exists by blast
  from signal_stepI [OF e(1) B(2) e(2) this] have "signalled_step run (s, B) (s', (B - set_option (looks e)) \<union> K)"
    unfolding signalled_step_def by blast
  with B(1) have "signalled_reachable run m (s', (B - set_option (looks e)) \<union> K)" by (rule reachable.reachable_step)
  then show ?case ..
qed

subsection \<open>What an event does\<close>

lemmas worker_defs = worker_start_def worker_wake_def worker_run_def worker_finish_def worker_loop_def worker_wait_def with_task_def
  worker_at_places next_event_def Let_def

lemma worker_wait_result:
  assumes "worker_wait w s = Next s' r" "w < length (q_workers s)"
  obtains pc where "places s' = (places s)[w := pc]"
    "pc = Idle \<and> q_pending_task_count s' < 1 \<or> pc = Exited \<and> q_thread_idx_that_should_exit s = fst (q_workers s ! w) \<and>
       q_pending_task_count s' = q_pending_task_count s \<or> is_busy pc"
    "q_clients s' = q_clients s" "q_thread_count s' = q_thread_count s"
    "\<And>t k'. q_tasks s' t = Some k' \<Longrightarrow> \<exists>k. q_tasks s t = Some k \<and> k_is_finished k' = k_is_finished k"
proof -
  consider "q_pending_task_count s < 1" "s' = set_worker w Idle s"
    | "q_thread_idx_that_should_exit s = fst (q_workers s ! w)" "s' = set_worker w Exited s"
    | t k s1 where "q_tasks s t = Some k" "s' = set_worker w (Taken t) (set_task t (k\<lparr>k_next := None\<rparr>) s1)" "q_workers s1 = q_workers s"
        "q_clients s1 = q_clients s" "q_thread_count s1 = q_thread_count s" "q_tasks s1 = q_tasks s"
    using assms(1) by (auto simp: worker_wait_def with_task_def Let_def split: if_splits option.splits)
  then show thesis
  proof cases
    case 1
    with that [of Idle] assms(2) show thesis by simp
  next
    case 2
    with that [of Exited] assms(2) show thesis by simp
  next
    case (3 t k s1)
    have pl: "places s1 = places s" by (rule places_cong [OF 3(3)])
    have "\<exists>k. q_tasks s t' = Some k \<and> k_is_finished k' = k_is_finished k" if "q_tasks s' t' = Some k'" for t' k'
      using that 3 by (auto split: if_splits)
    with that [of "Taken t"] assms(2) 3(2-5) pl show thesis by simp
  qed
qed

lemma worker_result:
  assumes "worker_event e" "pool_exec run e s = Next s' r"
  obtains w pc where "w < length (q_workers s)" "e = next_event w (places s ! w)" "places s ! w \<noteq> Exited" "places s' = (places s)[w := pc]"
    "pc = Idle \<and> q_pending_task_count s' < 1 \<or> pc = Exited \<and> q_thread_idx_that_should_exit s = fst (q_workers s ! w) \<and>
       q_pending_task_count s' = q_pending_task_count s \<or> is_busy pc"
    "q_clients s' = q_clients s" "places s ! w \<noteq> Created \<Longrightarrow> q_thread_count s' = q_thread_count s"
    "\<And>t k'. q_tasks s' t = Some k' \<Longrightarrow> k_is_finished k' \<Longrightarrow>
       (\<exists>k. q_tasks s t = Some k \<and> (k_is_finished k \<or> \<not> k_is_detached k \<and> places s ! w = Running t))"
proof -
  note result = that
  have looped: thesis
    if wait: "worker_wait w s1 = Next s' r" "w < length (q_workers s)" and same: "q_workers s1 = q_workers s" "q_clients s1 = q_clients s"
      "q_thread_idx_that_should_exit s1 = q_thread_idx_that_should_exit s" "q_pending_task_count s1 = q_pending_task_count s"
      "places s ! w \<noteq> Created \<Longrightarrow> q_thread_count s1 = q_thread_count s"
      and e: "e = next_event w (places s ! w)" "places s ! w \<noteq> Exited"
      and tasks: "\<And>t k'. q_tasks s1 t = Some k' \<Longrightarrow> k_is_finished k' \<Longrightarrow>
        (\<exists>k. q_tasks s t = Some k \<and> (k_is_finished k \<or> \<not> k_is_detached k \<and> places s ! w = Running t))" for w s1
  proof -
    have pl: "places s1 = places s" by (rule places_cong [OF same(1)])
    from wait(1) have "w < length (q_workers s1)" using wait(2) same(1) by simp
    note wait_result = worker_wait_result [OF wait(1) this]
    obtain pc where pc: "places s' = (places s1)[w := pc]"
      "pc = Idle \<and> q_pending_task_count s' < 1 \<or> pc = Exited \<and> q_thread_idx_that_should_exit s1 = fst (q_workers s1 ! w) \<and>
         q_pending_task_count s' = q_pending_task_count s1 \<or> is_busy pc"
      "q_clients s' = q_clients s1" "q_thread_count s' = q_thread_count s1"
      "\<And>t k'. q_tasks s' t = Some k' \<Longrightarrow> \<exists>k. q_tasks s1 t = Some k \<and> k_is_finished k' = k_is_finished k" by (rule wait_result) (rule that, assumption+)
    show thesis
    proof (rule result [OF wait(2) e])
      show "\<exists>k. q_tasks s t = Some k \<and> (k_is_finished k \<or> \<not> k_is_detached k \<and> places s ! w = Running t)"
        if "q_tasks s' t = Some k'" "k_is_finished k'" for t k' using pc(5) [OF that(1)] that(2) tasks by metis
    qed (use pc same pl in simp_all)
  qed
  from assms show thesis
  proof (cases e)
    case (Worker_start w)
    with assms(2) show thesis
      by (intro looped [of w "s\<lparr>q_thread_count := q_thread_count s + 1, q_idle_thread_count := q_idle_thread_count s + 1\<rparr>"])
        (auto simp: worker_start_def worker_loop_def worker_at_places next_event_def split: if_splits)
  next
    case (Worker_wake w)
    with assms(2) show thesis
      by (intro looped [of w s]) (auto simp: worker_wake_def worker_at_places next_event_def split: if_splits)
  next
    case (Worker_run w)
    with assms(2) obtain t k where w: "w < length (q_workers s)" "places s ! w = Taken t" "q_tasks s t = Some k"
      "s' = set_worker w (Running t) (set_task t (k\<lparr>k_is_running := True\<rparr>) s)"
      by (auto simp: worker_run_def with_task_def worker_at_places split: option.splits worker.splits)
    have "places (set_task t (k\<lparr>k_is_running := True\<rparr>) s) = places s" by (rule places_cong) simp
    then show thesis
      using w Worker_run by (intro result [of w "Running t"]) (auto simp: next_event_def split: if_splits)
  next
    case (Worker_finish w)
    with assms(2) obtain t k where w: "w < length (q_workers s)" "places s ! w = Running t" "q_tasks s t = Some k"
      by (auto simp: worker_finish_def with_task_def worker_at_places split: option.splits worker.splits if_splits)
    define s0 where "s0 = s\<lparr>q_running_task_count := q_running_task_count s - 1\<rparr>"
    define s1 where "s1 = (if k_is_detached k then s0
      else set_task t (k\<lparr>k_is_running := False, k_is_finished := True, k_result := Some (run (k_call k))\<rparr>) s0)"
    have "worker_at s w = Some (Running t)" using w(1,2) by (simp add: worker_at_places)
    then have "worker_loop w s1 = Next s' r"
      using assms(2) Worker_finish w(3)
      by (simp add: worker_finish_def with_task_def Let_def s1_def s0_def split: if_splits)
    moreover have "q_workers s1 = q_workers s" "q_clients s1 = q_clients s" "q_thread_count s1 = q_thread_count s"
      "q_thread_idx_that_should_exit s1 = q_thread_idx_that_should_exit s" "q_pending_task_count s1 = q_pending_task_count s"
      by (simp_all add: s1_def s0_def)
    moreover have "\<exists>k. q_tasks s t' = Some k \<and> (k_is_finished k \<or> \<not> k_is_detached k \<and> places s ! w = Running t')"
      if "q_tasks s1 t' = Some k'" "k_is_finished k'" for t' k'
      using that w by (cases "t' = t") (auto simp: s1_def s0_def split: if_splits)
    ultimately show thesis
      using w Worker_finish
      by (intro looped [of w "s1\<lparr>q_idle_thread_count := q_idle_thread_count s1 + 1\<rparr>"])
        (auto simp: worker_loop_def next_event_def)
  qed simp_all
qed

lemmas client_defs = thread_task_new_def thread_pool_push_task_def push_wait_def push_wake_def thread_pool_delete_def delete_next_def
  delete_joined_def thread_task_join_def join_wait_def join_wake_def take_result_def thread_task_timed_join_def timed_wait_def
  timed_wake_def thread_task_delete_def free_task_def thread_task_detach_def with_task_def create_worker_def Let_def

lemma client_workers:
  assumes "\<not> worker_event e" "pool_exec run e s = Next s' r"
  shows "q_workers s' = q_workers s \<and> q_pending_task_count s' = q_pending_task_count s \<or> Created \<in> set (places s') \<or>
    notifies e s r s' = Some (Signal Pool_cv) \<and> q_workers s' = q_workers s"
  using assms by (cases e) (auto simp: client_defs places_def split: if_splits option.splits client.splits)

lemma client_pushed:
  assumes "polite e s" "pool_exec run e s = Next s' r" "notifies e s r s' = Some (Signal Pool_cv)"
  shows "q_alive s' \<and> q_clients s' 0 = Free"
  using assms by (cases e) (auto simp: client_defs split: if_splits option.splits client.splits worker.splits)

lemma client_pushing:
  assumes "\<not> worker_event e" "polite e s" "pool_exec run e s = Next s' r" "q_clients s' 0 = Pushing t required"
  shows "q_thread_count s' \<noteq> required \<or> q_clients s 0 = Pushing t required \<and> q_thread_count s' = q_thread_count s \<and> looks e = None"
  using assms by (cases e) (auto simp: client_defs split: if_splits option.splits client.splits)

lemma client_joining:
  assumes "\<not> worker_event e" "polite e s" "pool_exec run e s = Next s' r" "q_clients s' 0 = Joining t \<or> q_clients s' 0 = Timed_joining t"
    "q_tasks s' t = Some k'" "k_is_finished k'"
  shows "q_clients s 0 = q_clients s' 0 \<and> looks e = None \<and> (\<exists>k. q_tasks s t = Some k \<and> k_is_finished k)"
  using assms by (cases e) (auto simp: client_defs split: if_splits option.splits client.splits)

lemma client_closing:
  assumes "\<not> worker_event e" "polite e s" "pool_exec run e s = Next s' r" "q_clients s' 0 = Closing i"
  shows "q_workers s' = q_workers s \<and> (notifies e s r s' = Some (Broadcast Pool_cv) \<or> q_clients s 0 = Closing i \<and> looks e = None)"
  using assms by (cases e) (auto simp: client_defs split: if_splits option.splits client.splits)

lemma other_clients:
  assumes "polite e s" "pool_exec run e s = Next s' r" "c \<noteq> 0"
  shows "q_clients s' c = q_clients s c"
proof (cases "worker_event e")
  case True
  from worker_result [OF this assms(2)] have "q_clients s' = q_clients s" by blast
  then show ?thesis by (simp only:)
next
  case False
  with assms show ?thesis by (cases e) (auto simp: client_defs split: if_splits option.splits client.splits)
qed

subsection \<open>No thread is forgotten\<close>

text \<open>A worker that will do something without being woken.\<close>

definition active :: "('c, 'r) pool \<Rightarrow> waiter set \<Rightarrow> nat \<Rightarrow> bool" where
  "active s A w \<longleftrightarrow> w < length (q_workers s) \<and> places s ! w \<noteq> Exited \<and> (places s ! w = Idle \<longrightarrow> Worker_thread w \<in> A)"

text \<open>While tasks are pending some worker is active; a client sleeps only while what it waits for is not there; and the worker that
  \<^verbatim>\<open>thread_pool_delete\<close> joins has exited or been woken.\<close>

definition wake_inv :: "('c, 'r) pool \<Rightarrow> waiter set \<Rightarrow> bool" where
  "wake_inv s A \<longleftrightarrow>
     (1 \<le> q_pending_task_count s \<longrightarrow> (\<exists>w. active s A w)) \<and>
     (\<forall>c. c \<noteq> 0 \<longrightarrow> q_clients s c = Free) \<and>
     (case q_clients s 0 of
        Pushing t required \<Rightarrow> q_thread_count s = required \<longrightarrow> Client_thread 0 \<in> A
      | Joining t \<Rightarrow> (\<forall>k. q_tasks s t = Some k \<and> k_is_finished k \<longrightarrow> Client_thread 0 \<in> A)
      | Timed_joining t \<Rightarrow> (\<forall>k. q_tasks s t = Some k \<and> k_is_finished k \<longrightarrow> Client_thread 0 \<in> A)
      | Closing i \<Rightarrow> places s ! i = Exited \<or> Worker_thread i \<in> A
      | Free \<Rightarrow> True)"

lemma sleeping_worker: "Worker_thread w \<in> sleepers s A c \<longleftrightarrow> c = Pool_cv \<and> w < length (q_workers s) \<and> places s ! w = Idle \<and> Worker_thread w \<notin> A"
  by (auto simp: sleepers_def waits_on_def worker_at_places split: if_splits)

lemma sleeping_on_pool: "x \<in> sleepers s A Pool_cv \<Longrightarrow> \<exists>w. x = Worker_thread w"
  by (cases x) (auto simp: sleepers_def waits_on_def split: client.splits)

lemma sleeping_client:
  "Client_thread c \<in> sleepers s A cv \<longleftrightarrow> Client_thread c \<notin> A \<and> (case q_clients s c of
     Pushing t required \<Rightarrow> cv = Spawn_cv | Joining t \<Rightarrow> cv = Task_cv t | Timed_joining t \<Rightarrow> cv = Task_cv t | _ \<Rightarrow> False)"
  by (auto simp: sleepers_def waits_on_def split: client.splits)

text \<open>Only client 0 waits for a worker to start or a task to finish, so that a signal wakes it.\<close>

lemma signal_wakes_client:
  assumes "\<forall>c. c \<noteq> 0 \<longrightarrow> q_clients s c = Free" "cv \<noteq> Pool_cv" "wakes s A (Some (Signal cv)) K"
    "Client_thread 0 \<in> sleepers s A cv"
  shows "Client_thread 0 \<in> K"
proof -
  have "x = Client_thread 0" if "x \<in> sleepers s A cv" for x
  proof (cases x)
    case (Worker_thread w)
    then show ?thesis using that assms(2) sleeping_worker by metis
  next
    case (Client_thread c)
    with that assms(1) show ?thesis by (cases "c = 0") (auto simp: sleeping_client)
  qed
  note only = this
  from assms(3,4) have "K \<subseteq> sleepers s A cv" "K \<noteq> {}" by (auto simp: wakes_def)
  then show ?thesis using only by blast
qed

lemma wake_inv_signals:
  assumes "wake_inv s A"
  shows "1 \<le> q_pending_task_count s \<Longrightarrow> \<exists>w. active s A w" "\<forall>c. c \<noteq> 0 \<longrightarrow> q_clients s c = Free"
    "q_clients s 0 = Pushing t required \<Longrightarrow> q_thread_count s = required \<Longrightarrow> Client_thread 0 \<in> A"
    "q_clients s 0 = Joining t \<or> q_clients s 0 = Timed_joining t \<Longrightarrow> q_tasks s t = Some k \<Longrightarrow> k_is_finished k \<Longrightarrow> Client_thread 0 \<in> A"
    "q_clients s 0 = Closing i \<Longrightarrow> places s ! i = Exited \<or> Worker_thread i \<in> A"
  using assms by (auto simp: wake_inv_def)

lemma wake_invI:
  assumes "1 \<le> q_pending_task_count s \<Longrightarrow> \<exists>w. active s A w" "\<forall>c. c \<noteq> 0 \<longrightarrow> q_clients s c = Free"
    "\<And>t required. q_clients s 0 = Pushing t required \<Longrightarrow> q_thread_count s = required \<Longrightarrow> Client_thread 0 \<in> A"
    "\<And>t k. q_clients s 0 = Joining t \<or> q_clients s 0 = Timed_joining t \<Longrightarrow> q_tasks s t = Some k \<Longrightarrow> k_is_finished k \<Longrightarrow> Client_thread 0 \<in> A"
    "\<And>i. q_clients s 0 = Closing i \<Longrightarrow> places s ! i = Exited \<or> Worker_thread i \<in> A"
  shows "wake_inv s A"
  using assms by (cases "q_clients s 0") (simp_all add: wake_inv_def)

lemma worker_looks:
  assumes "worker_event e" "looks e = Some x"
  shows "\<exists>w. e = Worker_wake w \<and> x = Worker_thread w"
  using assms by (cases e) auto

lemma next_event_looks: "looks (next_event w pc) = (if pc = Idle then Some (Worker_thread w) else None)"
  by (cases pc) (simp_all add: next_event_def)

text \<open>Of a step of a worker.\<close>

lemma wake_inv_worker:
  assumes inv: "pool_inv run s" and wake: "wake_inv s A" and e: "worker_event e"
    and exec: "pool_exec run e s = Next s' r" and K: "wakes s A (notifies e s r s') K"
  shows "wake_inv s' ((A - set_option (looks e)) \<union> K)" (is "wake_inv s' ?A")
proof -
  note W = wake_inv_signals [OF wake]
  obtain w pc where w: "w < length (q_workers s)" "e = next_event w (places s ! w)" "places s ! w \<noteq> Exited"
    and pl: "places s' = (places s)[w := pc]"
    and pc: "pc = Idle \<and> q_pending_task_count s' < 1 \<or> pc = Exited \<and> q_thread_idx_that_should_exit s = fst (q_workers s ! w) \<and>
       q_pending_task_count s' = q_pending_task_count s \<or> is_busy pc"
    and clients: "q_clients s' = q_clients s"
    and count: "places s ! w \<noteq> Created \<Longrightarrow> q_thread_count s' = q_thread_count s"
    and tasks: "\<And>t k'. q_tasks s' t = Some k' \<Longrightarrow> k_is_finished k' \<Longrightarrow>
       (\<exists>k. q_tasks s t = Some k \<and> (k_is_finished k \<or> \<not> k_is_detached k \<and> places s ! w = Running t))" by (rule worker_result [OF e exec]) (rule that, assumption+)
  have len: "length (q_workers s') = length (q_workers s)" using pl by (metis length_list_update length_places)
  have client: "Client_thread 0 \<in> ?A" if "Client_thread 0 \<in> A \<or> Client_thread 0 \<in> K"
    using that w(2) by (auto simp: next_event_looks)
  have kept: "Worker_thread v \<in> ?A" if "Worker_thread v \<in> A" "v \<noteq> w" for v
    using that w(2) by (auto simp: next_event_looks)
  have idx: "fst (q_workers s ! w) = int w" using inv w(1) by (simp add: pool_inv_def workers_ok_def)
  have at: "worker_at s w = Some (places s ! w)" using w(1) by (simp add: worker_at_places)
  have "\<exists>v. active s' ?A v" if "1 \<le> q_pending_task_count s'"
  proof -
    have "q_thread_idx_that_should_exit s \<noteq> int w" if "1 \<le> q_pending_task_count s"
      using that inv w(1,3) active_alive [of s w] by (auto simp: pool_inv_def client_ok_def split: client.splits)
    then have "is_busy pc" using pc that idx by auto
    then have "active s' ?A w" using w(1) by (auto simp: active_def pl len)
    then show ?thesis ..
  qed
  note pending = this
  have others: "\<forall>c. c \<noteq> 0 \<longrightarrow> q_clients s' c = Free" using W(2) clients by simp
  have pushing: "Client_thread 0 \<in> ?A" if push: "q_clients s' 0 = Pushing t required" "q_thread_count s' = required" for t required
  proof (cases "places s ! w = Created")
    case False
    with count W(3) push clients client show ?thesis by auto
  next
    case True
    then have "wakes s A (Some (Signal Spawn_cv)) K" using K w(2) by (simp add: next_event_def)
    with W(2) signal_wakes_client [of s Spawn_cv A K] push(1) clients client show ?thesis by (auto simp: sleeping_client)
  qed
  have joining: "Client_thread 0 \<in> ?A"
    if join: "q_clients s' 0 = Joining t \<or> q_clients s' 0 = Timed_joining t" and k': "q_tasks s' t = Some k'" "k_is_finished k'" for t k'
  proof -
    from tasks [OF k'] obtain k where k: "q_tasks s t = Some k" "k_is_finished k \<or> \<not> k_is_detached k \<and> places s ! w = Running t" by blast
    show ?thesis
    proof (cases "k_is_finished k")
      case True
      with W(4) k(1) join clients client show ?thesis by auto
    next
      case False
      with k w(2) at K have "wakes s A (Some (Signal (Task_cv t))) K" by (simp add: next_event_def)
      then have "Client_thread 0 \<in> K" if "Client_thread 0 \<in> sleepers s A (Task_cv t)"
        using signal_wakes_client [OF W(2) _ _ that] by simp
      moreover have "Client_thread 0 \<in> A \<or> Client_thread 0 \<in> sleepers s A (Task_cv t)"
        using join clients by (auto simp: sleeping_client)
      ultimately show ?thesis using client by blast
    qed
  qed
  have closing: "places s' ! i = Exited \<or> Worker_thread i \<in> ?A" if close: "q_clients s' 0 = Closing i" for i
  proof (cases "i = w")
    case False
    with W(5) close clients kept show ?thesis by (auto simp: pl)
  next
    case True
    have p: "q_pending_task_count s = 0" "q_thread_idx_that_should_exit s = int i" "Created \<notin> set (places s)"
      "\<forall>pc \<in> set (places s). \<not> is_busy pc" using inv close clients by (simp_all add: pool_inv_def client_ok_def)
    have "places s ! w \<in> set (places s)" using w(1) by simp
    with p(3,4) w(3) have "places s ! w = Idle" by (cases "places s ! w") auto
    then have "e = Worker_wake w" using w(2) by (simp add: next_event_def)
    then have "s' = set_worker w Exited s"
      using exec at \<open>places s ! w = Idle\<close> p(1,2) idx True by (auto simp: worker_wake_def worker_wait_def Let_def split: if_splits)
    then show ?thesis using True w(1) by simp
  qed
  show ?thesis by (rule wake_invI) (fact pending others pushing joining closing)+
qed

text \<open>Of a step of the client.\<close>

lemma wake_inv_client:
  assumes inv: "pool_inv run s" "pool_inv run s'" and wake: "wake_inv s A" and e: "\<not> worker_event e" and pol: "polite e s"
    and exec: "pool_exec run e s = Next s' r" and K: "wakes s A (notifies e s r s') K"
  shows "wake_inv s' ((A - set_option (looks e)) \<union> K)" (is "wake_inv s' ?A")
proof -
  note W = wake_inv_signals [OF wake]
  have kept: "Worker_thread v \<in> ?A" if "Worker_thread v \<in> A" for v using that e by (cases e) auto
  have "\<exists>v. active s' ?A v" if pend: "1 \<le> q_pending_task_count s'"
  proof -
    from client_workers [OF e exec] show ?thesis
    proof (elim disjE conjE)
      assume same: "q_workers s' = q_workers s" "q_pending_task_count s' = q_pending_task_count s"
      then obtain w where "active s A w" using W(1) pend by auto
      then have "active s' ?A w" using kept same(1) places_cong [OF same(1)] by (auto simp: active_def)
      then show ?thesis ..
    next
      assume "Created \<in> set (places s')"
      then obtain w where "w < length (q_workers s')" "places s' ! w = Created" by (auto simp: in_set_conv_nth)
      then have "active s' ?A w" by (simp add: active_def)
      then show ?thesis ..
    next
      assume push: "notifies e s r s' = Some (Signal Pool_cv)" and same: "q_workers s' = q_workers s"
      have pl: "places s' = places s" by (rule places_cong [OF same])
      have "resting s'" "q_alive s'" using client_pushed [OF pol exec push] pool_inv_resting(1) [OF inv(2)] by simp_all
      then have w: "0 < length (q_workers s')" "Exited \<notin> set (places s')" using pend by (auto simp: resting_def)
      then have exited: "places s' ! v \<noteq> Exited" if "v < length (q_workers s')" for v using that by (metis length_places nth_mem)
      show ?thesis
      proof (cases "active s' ?A 0")
        case False
        then have "Worker_thread 0 \<in> sleepers s A Pool_cv"
          using w(1) exited kept same pl by (auto simp: active_def sleeping_worker)
        then have "K \<noteq> {}" "K \<subseteq> sleepers s A Pool_cv" using K push by (auto simp: wakes_def)
        then obtain v where v: "Worker_thread v \<in> K" "Worker_thread v \<in> sleepers s A Pool_cv" using sleeping_on_pool by blast
        then have "active s' ?A v" using exited same by (auto simp: active_def sleeping_worker)
        then show ?thesis ..
      qed blast
    qed
  qed
  note pending = this
  have others: "\<forall>c. c \<noteq> 0 \<longrightarrow> q_clients s' c = Free" using W(2) other_clients [OF pol exec] by simp
  have pushing: "Client_thread 0 \<in> ?A" if "q_clients s' 0 = Pushing t required" "q_thread_count s' = required" for t required
    using client_pushing [OF e pol exec that(1)] that(2) W(3) by auto
  have joining: "Client_thread 0 \<in> ?A"
    if "q_clients s' 0 = Joining t \<or> q_clients s' 0 = Timed_joining t" "q_tasks s' t = Some k'" "k_is_finished k'" for t k'
    using client_joining [OF e pol exec that] W(4) [of t] that(1) by auto
  have closing: "places s' ! i = Exited \<or> Worker_thread i \<in> ?A" if close: "q_clients s' 0 = Closing i" for i
  proof -
    have p: "i < length (q_workers s')" "Created \<notin> set (places s')" "\<forall>pc \<in> set (places s'). \<not> is_busy pc"
      using inv(2) close by (simp_all add: pool_inv_def client_ok_def)
    have "places s' ! i \<in> set (places s')" using p(1) by simp
    with p(2,3) have place: "places s' ! i = Exited \<or> places s' ! i = Idle" by (cases "places s' ! i") auto
    from client_closing [OF e pol exec close] have same: "q_workers s' = q_workers s"
      and *: "notifies e s r s' = Some (Broadcast Pool_cv) \<or> q_clients s 0 = Closing i" by blast+
    have pl: "places s' = places s" by (rule places_cong [OF same])
    show ?thesis
    proof (cases "q_clients s 0 = Closing i")
      case True
      then show ?thesis using W(5) kept pl by auto
    next
      case False
      with * K have "K = sleepers s A Pool_cv" by (simp add: wakes_def)
      then show ?thesis using place p(1) same pl kept by (auto simp: sleeping_worker)
    qed
  qed
  show ?thesis by (rule wake_invI) (fact pending others pushing joining closing)+
qed

lemma wake_inv_spurious: "wake_inv s A \<Longrightarrow> wake_inv s (insert x A)"
  by (auto simp: wake_inv_def active_def split: client.splits)

interpretation signalled: invariant_system "signalled_init m" "signalled_step run"
  "\<lambda>(s, A). pool_inv run s \<and> wake_inv s A" for m run
proof
  show "case x of (s, A) \<Rightarrow> pool_inv run s \<and> wake_inv s A" if "signalled_init m x" for x :: "('a, 'b) signalled"
    using that thread_pool_new_inv [of m "fst x" run]
    by (auto simp: signalled_init_def wake_inv_def thread_pool_new_def split: if_splits)
next
  show "case y of (s, A) \<Rightarrow> pool_inv run s \<and> wake_inv s A"
    if inv: "case x of (s, A) \<Rightarrow> pool_inv run s \<and> wake_inv s A" and step: "signalled_step run x y" for x y
    using step unfolding signalled_step_def
  proof (elim disjE exE)
    fix e r assume "signal_step run e x r y"
    then show ?thesis
    proof cases
      case (signal_stepI s A s' K)
      with inv have "pool_inv run s" "wake_inv s A" "pool_inv run s'" using pool_exec_inv [of run s e] by auto
      with wake_inv_worker wake_inv_client signal_stepI show ?thesis by (cases "worker_event e") fastforce+
    qed
  next
    assume "spurious x y"
    then show ?thesis using inv by cases (simp add: wake_inv_spurious)
  qed
qed

subsection \<open>Progress\<close>

text \<open>An upper bound on what the workers still do before they need another notification.\<close>

definition awake_workers :: "('c, 'r) pool \<Rightarrow> waiter set \<Rightarrow> nat set" where
  "awake_workers s A = {w. w < length (q_workers s) \<and> Worker_thread w \<in> A}"

definition work_left :: "('c, 'r) pool \<Rightarrow> waiter set \<Rightarrow> nat" where
  "work_left s A = work s + card (awake_workers s A)"

text \<open>The client is not inside a call, or has been woken and finds what it waits for, or the worker it joins has exited.\<close>

definition client_released :: "('c, 'r) pool \<Rightarrow> waiter set \<Rightarrow> bool" where
  "client_released s A \<longleftrightarrow>
     (case q_clients s 0 of
        Free \<Rightarrow> True
      | Pushing t required \<Rightarrow> q_thread_count s = required \<and> Client_thread 0 \<in> A
      | Joining t \<Rightarrow> thread_task_is_finished t s = Some True \<and> Client_thread 0 \<in> A
      | Timed_joining t \<Rightarrow> thread_task_is_finished t s = Some True \<and> Client_thread 0 \<in> A
      | Closing i \<Rightarrow> worker_at s i = Some Exited)"

lemma worker_wakes_clients:
  assumes "worker_event e" "wakes s A (notifies e s r s') K"
  shows "Worker_thread v \<notin> K"
proof -
  have "notifies e s r s' = None \<or> (\<exists>cv. cv \<noteq> Pool_cv \<and> notifies e s r s' = Some (Signal cv))"
    using assms(1) by (cases e) (auto split: option.splits worker.splits)
  with assms(2) have "K = {} \<or> (\<exists>cv. cv \<noteq> Pool_cv \<and> K \<subseteq> sleepers s A cv)" by (auto simp: wakes_def)
  then show ?thesis using sleeping_worker by blast
qed

lemma worker_step_left:
  assumes e: "worker_event e" and step: "signal_step run e (s, A) r (s', A')"
  shows "work_left s' A' < work_left s A"
proof -
  from step obtain K where look: "may_look e A" and exec: "pool_exec run e s = Next s' r" and K: "wakes s A (notifies e s r s') K"
    and A': "A' = (A - set_option (looks e)) \<union> K" by (elim signal_stepE) blast
  obtain w pc where w: "w < length (q_workers s)" "e = next_event w (places s ! w)" "places s' = (places s)[w := pc]"
    by (rule worker_result [OF e exec])
  have len: "length (q_workers s') = length (q_workers s)" using w(3) by (metis length_list_update length_places)
  have awake: "awake_workers s' A' = awake_workers s A - {v. looks e = Some (Worker_thread v)}"
    using worker_wakes_clients [OF e K] by (auto simp: awake_workers_def A' len)
  have fin: "finite (awake_workers s A)" by (simp add: awake_workers_def)
  show ?thesis
  proof (cases "\<exists>v. e = Worker_wake v")
    case True
    then obtain v where v: "e = Worker_wake v" by blast
    with look have "Worker_thread v \<in> A" by simp
    moreover have "v = w" using v w(2) by (auto simp: next_event_def split: worker.splits)
    ultimately have "v \<in> awake_workers s A" using w(1) by (simp add: awake_workers_def)
    then have "card (awake_workers s' A') < card (awake_workers s A)"
      unfolding awake using fin v by (intro psubset_card_mono) auto
    moreover have "work s' \<le> work s" using worker_event_work [OF e exec] by auto
    ultimately show ?thesis by (simp add: work_left_def)
  next
    case False
    then have "work s' < work s" using worker_step_less [OF e _ exec] by blast
    moreover have "card (awake_workers s' A') \<le> card (awake_workers s A)"
      unfolding awake using fin by (intro card_mono) auto
    ultimately show ?thesis by (simp add: work_left_def)
  qed
qed

text \<open>An active worker can do its next step.\<close>

lemma active_steps:
  assumes "pool_inv run s" "active s A w"
  shows "\<exists>e r y. worker_event e \<and> signal_step run e (s, A) r y"
proof -
  let ?e = "next_event w (places s ! w)"
  obtain s' r where exec: "pool_exec run ?e s = Next s' r"
    using worker_enabled [OF assms(1), of w] assms(2) by (auto simp: active_def)
  have look: "may_look ?e A"
    using assms(2) by (cases "places s ! w") (auto simp: active_def next_event_def)
  obtain K where "wakes s A (notifies ?e s r s') K" using wakes_exists by blast
  from signal_stepI [OF next_event_worker(2) look exec this] next_event_worker(1) show ?thesis by blast
qed

lemma no_active_drained:
  assumes inv: "pool_inv run s" and wake: "wake_inv s A" and none: "\<And>w. \<not> active s A w"
  shows "q_pending_task_count s = 0 \<and> q_running_task_count s = 0 \<and> (\<forall>t k. q_tasks s t = Some k \<and> k_pool k \<longrightarrow> k_is_finished k) \<and>
    client_released s A"
proof -
  note W = wake_inv_signals [OF wake]
  have place: "places s ! w = Exited \<or> places s ! w = Idle \<and> Worker_thread w \<notin> A" if "w < length (q_workers s)" for w
    using none [of w] that by (auto simp: active_def)
  then have quiet: "pc = Exited \<or> pc = Idle" if "pc \<in> set (places s)" for pc
    using that unfolding in_set_conv_nth by auto
  have "\<not> 1 \<le> q_pending_task_count s" using W(1) none by blast
  moreover have "0 \<le> q_pending_task_count s" using inv by (auto simp: pool_inv_def)
  ultimately have pend: "q_pending_task_count s = 0" by simp
  have "\<not> 0 < count is_busy (places s)" unfolding count_pos using quiet by fastforce
  then have running: "q_running_task_count s = 0" using inv count_nonneg [of is_busy "places s"] by (simp add: pool_inv_def workers_ok_def)
  have finished: "\<forall>t k. q_tasks s t = Some k \<and> k_pool k \<longrightarrow> k_is_finished k"
    using unfinished_iff [OF inv] pend running by blast
  have "Created \<notin> set (places s)" using quiet by blast
  then have count: "q_thread_count s = int (length (q_workers s))" using inv thread_count_all [of s] by (simp add: pool_inv_def)
  have "client_released s A"
  proof (cases "q_clients s 0")
    case (Pushing t required)
    then have "q_thread_count s = required" using inv count by (simp add: pool_inv_def client_ok_def)
    with W(3) Pushing show ?thesis by (simp add: client_released_def)
  next
    case (Joining t)
    then obtain k where "q_tasks s t = Some k" "k_pool k" using pool_inv_resting(2) [OF inv] by blast
    with W(4) Joining finished show ?thesis by (auto simp: client_released_def thread_task_is_finished_def)
  next
    case (Timed_joining t)
    then obtain k where "q_tasks s t = Some k" "k_pool k" using pool_inv_resting(3) [OF inv] by blast
    with W(4) Timed_joining finished show ?thesis by (auto simp: client_released_def thread_task_is_finished_def)
  next
    case (Closing i)
    then have "i < length (q_workers s)" using inv by (simp add: pool_inv_def client_ok_def)
    with place [of i] W(5) Closing show ?thesis by (auto simp: client_released_def worker_at_places)
  qed (simp add: client_released_def)
  with pend running finished show ?thesis by blast
qed

definition drained :: "('c, 'r) pool \<Rightarrow> waiter set \<Rightarrow> bool" where
  "drained s A \<longleftrightarrow> q_pending_task_count s = 0 \<and> q_running_task_count s = 0 \<and>
     (\<forall>t k. q_tasks s t = Some k \<and> k_pool k \<longrightarrow> k_is_finished k) \<and> client_released s A"

definition worker_step :: "('c \<Rightarrow> 'r) \<Rightarrow> ('c, 'r) signalled \<Rightarrow> ('c, 'r) signalled \<Rightarrow> bool" where
  "worker_step run x y \<longleftrightarrow> (\<exists>e r. worker_event e \<and> signal_step run e x r y)"

interpretation drain_sys: ending_system "signalled_reachable run m" "worker_step run" "signalled_reachable run m"
  "\<lambda>(s, A). work_left s A" "\<lambda>(s, A). drained s A" for run m
proof
  show "signalled_reachable run m y" if "signalled_reachable run m x" "worker_step run x y" for x y
  proof (rule reachable_step [OF that(1)])
    show "signalled_step run x y" using that(2) unfolding signalled_step_def worker_step_def by blast
  qed
  show "(case y of (s, A) \<Rightarrow> work_left s A) < (case x of (s, A) \<Rightarrow> work_left s A)" if "worker_step run x y" for x y
    using that worker_step_left unfolding worker_step_def by (cases x; cases y) auto
  show "case x of (s, A) \<Rightarrow> drained s A" if reach: "signalled_reachable run m x" and stuck: "\<nexists>y. worker_step run x y" for x
  proof (cases x)
    case (Pair s A)
    have inv: "pool_inv run s" "wake_inv s A" using signalled.inv_reachable [OF reach] Pair by simp_all
    have "\<not> active s A w" for w
      using active_steps [OF inv(1)] stuck unfolding worker_step_def Pair by blast
    from no_active_drained [OF inv this] show ?thesis unfolding Pair drained_def prod.case .
  qed
qed

text \<open>C7: No thread of the pool is ever forgotten by a signal. With sleeping threads that wake up only when the code notifies them, in
  every reachable state each step that a worker does on its own lowers \<open>work_left\<close>, so that only finitely many follow without the
  client; and when no worker can do a step, the pool is drained: nothing is pending or running, every task in the pool is
  finished, and the client is not left asleep, whether it waits in a push for its worker to start, in a join for its task, or in the
  deletion of the pool for a worker to exit. So the workers alone bring every reachable state to such a one.\<close>

theorem pool_drains:
  assumes "signalled_reachable run m (s, A)"
  shows "(\<forall>e r s' A'. worker_event e \<and> signal_step run e (s, A) r (s', A') \<longrightarrow> work_left s' A' < work_left s A) \<and>
    ((\<nexists>e r y. worker_event e \<and> signal_step run e (s, A) r y) \<longrightarrow> drained s A) \<and>
    (\<exists>s' A'. (worker_step run)\<^sup>*\<^sup>* (s, A) (s', A') \<and> drained s' A')"
proof -
  note start = reachable_init [where init = "signalled_reachable run m" and step = "worker_step run" and s = "(s, A)", OF assms]
  have "drained s A" if "\<nexists>e r y. worker_event e \<and> signal_step run e (s, A) r y"
    using drain_sys.stuck_reachable_final [OF start] that unfolding worker_step_def by simp
  moreover have "\<exists>s' A'. (worker_step run)\<^sup>*\<^sup>* (s, A) (s', A') \<and> drained s' A'"
    using drain_sys.reaches_final [OF start] by auto
  ultimately show ?thesis using worker_step_left by blast
qed

theorem pool_drains_witness:
  "\<exists>s A. signalled_reachable Suc 2 (s, A) \<and> worker_at s 0 = Some (Running 0) \<and> \<not> drained s A \<and>
     (\<exists>s' A'. (worker_step Suc)\<^sup>*\<^sup>* (s, A) (s', A') \<and> drained s' A')"
proof -
  obtain s where s: "pool_reachable Suc 2 s" "worker_at s 0 = Some (Running 0)" using demo_running by blast
  have inv: "pool_inv Suc s" by (rule pool_reachable_inv [OF s(1)])
  have "0 < length (q_workers s)" "places s ! 0 = Running 0" using s(2) by (simp_all add: worker_at_places)
  then obtain k where "q_tasks s 0 = Some k" "k_pool k" "\<not> k_is_finished k" using held_task [OF inv, of 0 0] by auto
  then have "\<not> drained s A" for A by (auto simp: drained_def)
  moreover obtain A where A: "signalled_reachable Suc 2 (s, A)" using pool_signalled [OF s(1)] by blast
  ultimately show ?thesis using pool_drains [OF A] s(2) by blast
qed

end
