(* ===== verification/Chat_Server.thy ===== *)
theory Chat_Server
  imports Growable
begin

section \<open>The chat server\<close>

text \<open>
  \<^verbatim>\<open>hw5/chat.c\<close>, \<^verbatim>\<open>chat.h\<close> and \<^verbatim>\<open>hw5/chat_server.c\<close>. An allocated array is the list of its cells, \<^const>\<open>None\<close> for
  an indeterminate one; reading or writing outside, or using an indeterminate value, makes the whole call undefined (\<^const>\<open>None\<close>). What the
  sockets do (results of \<^verbatim>\<open>poll\<close>, \<^verbatim>\<open>accept\<close> and \<^verbatim>\<open>read\<close>) is given by the record \<open>net\<close>. The length in front of a message
  is read in the byte order of the machine, taken to be little endian; \<^verbatim>\<open>malloc\<close> does not fail.
\<close>

unbundle bit_operations_syntax

subsection \<open>chat.h and chat.c\<close>

datatype chat_errcode =
    CHAT_ERR_INVALID_ARGUMENT
  | CHAT_ERR_TIMEOUT
  | CHAT_ERR_PORT_BUSY
  | CHAT_ERR_NO_ADDR
  | CHAT_ERR_ALREADY_STARTED
  | CHAT_ERR_NOT_IMPLEMENTED
  | CHAT_ERR_NOT_STARTED
  | CHAT_ERR_SYS

text \<open>What a call returns: 0, an error code, or \<open>-1\<close>.\<close>

datatype chat_result = Chat_ok | Chat_error chat_errcode | Chat_minus_one

definition CHAT_EVENT_INPUT :: "32 word" where
  "CHAT_EVENT_INPUT = 1"

definition CHAT_EVENT_OUTPUT :: "32 word" where
  "CHAT_EVENT_OUTPUT = 2"

text \<open>\<^verbatim>\<open>POLLIN\<close> and \<^verbatim>\<open>POLLOUT\<close> of the system are parameters.\<close>

definition chat_events_to_poll_events :: "32 word \<Rightarrow> 32 word \<Rightarrow> 32 word \<Rightarrow> 32 word" where
  "chat_events_to_poll_events POLLIN POLLOUT events =
     (let res = 0;
          res = (if events AND CHAT_EVENT_INPUT \<noteq> 0 then res OR POLLIN else res)
      in if events AND CHAT_EVENT_OUTPUT \<noteq> 0 then res OR POLLOUT else res)"

text \<open>\<^verbatim>\<open>peer\<close> is the index of the peer in the array the pointer was taken from.\<close>

record message =
  m_data :: string
  m_peer :: nat
  m_length :: "32 word"

subsection \<open>State\<close>

record peer =
  e_socket :: int
  e_output :: "char option list"
  e_output_size :: "32 word"
  e_output_count :: "32 word"
  e_input :: "char option list"
  e_input_size :: "32 word"
  e_input_count :: "32 word"

definition zero_peer :: peer where
  "zero_peer = \<lparr>e_socket = 0, e_output = [], e_output_size = 0, e_output_count = 0, e_input = [], e_input_size = 0, e_input_count = 0\<rparr>"

definition zero_message :: message where
  "zero_message = \<lparr>m_data = [], m_peer = 0, m_length = 0\<rparr>"

record server =
  v_socket :: int
  v_peers :: "peer option list"
  v_peer_count :: "32 word"
  v_peer_size :: "32 word"
  v_messages :: "message option list"
  v_total_messages_count :: "32 word"
  v_total_messages :: "32 word"
  v_current_message_index :: "32 word"
  v_is_started :: bool

record net =
  n_socket :: int                        \<comment> \<open>result of \<^verbatim>\<open>socket\<close>, and whether \<^verbatim>\<open>bind\<close> and \<^verbatim>\<open>listen\<close> succeed\<close>
  n_bind_ok :: bool
  n_listen_ok :: bool
  n_poll :: int                          \<comment> \<open>result of \<^verbatim>\<open>poll\<close> and the entries with \<^verbatim>\<open>POLLIN\<close>\<close>
  n_pollin :: "nat \<Rightarrow> bool"
  n_accept :: int
  n_read :: "int \<Rightarrow> string option"     \<comment> \<open>what \<^verbatim>\<open>read\<close> gives for a descriptor, at most 1024 bytes\<close>

definition store_at :: "'a option list \<Rightarrow> nat \<Rightarrow> 'a \<Rightarrow> 'a option list option" where
  "store_at xs i x = (if i < length xs then Some (xs[i := Some x]) else None)"

definition load_at :: "'a option list \<Rightarrow> nat \<Rightarrow> 'a option" where
  "load_at xs i = (if i < length xs then xs ! i else None)"

subsection \<open>Creating, listening, popping\<close>

definition chat_server_new :: server where
  "chat_server_new = \<lparr>v_socket = - 1, v_peers = replicate 10 (Some zero_peer), v_peer_count = 0, v_peer_size = 10,
     v_messages = replicate 10 (Some zero_message), v_total_messages_count = 0, v_total_messages = 0,
     v_current_message_index = 0, v_is_started = False\<rparr>"

definition chat_server_listen :: "net \<Rightarrow> server \<Rightarrow> (chat_result \<times> server) option" where
  "chat_server_listen net v0 =
     (let v = v0\<lparr>v_socket := n_socket net\<rparr>
      in if v_socket v < 0 then Some (Chat_error CHAT_ERR_SYS, v)
         else if \<not> n_bind_ok net then Some (Chat_error CHAT_ERR_SYS, v)
         else if \<not> n_listen_ok net then Some (Chat_error CHAT_ERR_SYS, v)
         else do { peers \<leftarrow> store_at (v_peers v) (unat (v_peer_count v))
                     \<lparr>e_socket = v_socket v, e_output = [Some (CHR 0x00)], e_output_size = 1, e_output_count = 0,
                      e_input = [Some (CHR 0x00)], e_input_size = 1, e_input_count = 0\<rparr>;
                   Some (Chat_ok, v\<lparr>v_peers := peers, v_peer_count := v_peer_count v + 1, v_is_started := True\<rparr>) })"

definition chat_server_pop_next :: "server \<Rightarrow> (message option \<times> server) option" where
  "chat_server_pop_next v =
     (if v_current_message_index v \<ge> v_total_messages_count v then Some (None, v)
      else do { m \<leftarrow> load_at (v_messages v) (unat (v_current_message_index v));
                Some (Some m, v\<lparr>v_current_message_index := v_current_message_index v + 1\<rparr>) })"

definition chat_server_get_descriptor :: "server \<Rightarrow> int" where
  "chat_server_get_descriptor v = v_socket v"

definition chat_server_get_socket :: "server \<Rightarrow> int" where
  "chat_server_get_socket v = v_socket v"

definition chat_server_get_events :: "server \<Rightarrow> 32 word" where
  "chat_server_get_events v = v_peer_count v"

definition chat_server_feed :: "server \<Rightarrow> string \<Rightarrow> chat_result" where
  "chat_server_feed v msg = Chat_error CHAT_ERR_NOT_IMPLEMENTED"

subsection \<open>Receiving\<close>

text \<open>A \<^verbatim>\<open>uint32_t\<close> in memory.\<close>

definition le32 :: "string \<Rightarrow> 32 word" where
  "le32 bs = foldr (\<lambda>b w. of_char b + 256 * w) bs 0"

definition add_message :: "message \<Rightarrow> server \<Rightarrow> server option" where
  "add_message m v0 =
     (let v = (if v_total_messages v0 = v_total_messages_count v0
               then v0\<lparr>v_total_messages := v_total_messages v0 * 2,
                        v_messages := realloc (v_messages v0) (unat (v_total_messages v0 * 2))\<rparr>
               else v0)
      in do { ms \<leftarrow> store_at (v_messages v) (unat (v_total_messages_count v)) m;
              Some (v\<lparr>v_messages := ms, v_total_messages_count := v_total_messages_count v + 1\<rparr>) })"

text \<open>Determinate bytes of a buffer.\<close>

definition bytes_at :: "char option list \<Rightarrow> 32 word \<Rightarrow> 32 word \<Rightarrow> string option" where
  "bytes_at mem off n =
     (let cells = take (unat n) (drop (unat off) mem)
      in if unat off + unat n \<le> length mem \<and> None \<notin> set cells then Some (map the cells) else None)"

lemma parse_progress:
  assumes "parsed < input_count" "\<not> input_count - parsed < 4" "\<not> input_count - (parsed + 4) < (n :: 32 word)"
  shows "unat (input_count - (parsed + 4 + n)) + 4 + unat n = unat (input_count - parsed)"
proof -
  define d where "d = input_count - parsed"
  have e: "input_count - (parsed + 4) = d - 4" "input_count - (parsed + 4 + n) = d - 4 - n" by (simp_all add: d_def)
  have le: "4 \<le> d" "n \<le> d - 4" using assms(2,3) unfolding e(1) by (simp_all add: d_def not_less)
  have d4: "unat (d - 4) = unat d - 4" using le(1) by (simp add: unat_sub)
  have "unat (d - 4 - n) = unat (d - 4) - unat n" using le(2) by (rule unat_sub)
  moreover have "unat n \<le> unat (d - 4)" using le(2) by (simp add: word_le_nat_alt)
  moreover have "4 \<le> unat d" using le(1) by (simp add: word_le_nat_alt)
  ultimately show ?thesis unfolding e(2) d_def [symmetric] using d4 by simp
qed

text \<open>The loop over the messages in the input buffer of peer \<open>i\<close>.\<close>

function parse_messages :: "nat \<Rightarrow> char option list \<Rightarrow> 32 word \<Rightarrow> 32 word \<Rightarrow> server \<Rightarrow> (32 word \<times> server) option" where
  "parse_messages i input input_count parsed v =
     (if parsed < input_count then
        if input_count - parsed < 4 then Some (parsed, v)
        else do { header \<leftarrow> bytes_at input parsed 4;
                  if input_count - (parsed + 4) < le32 header then Some (parsed + 4, v)
                  else do { body \<leftarrow> bytes_at input (parsed + 4) (le32 header);
                            v' \<leftarrow> add_message \<lparr>m_data = body, m_peer = i, m_length = le32 header\<rparr> v;
                            parse_messages i input input_count (parsed + 4 + le32 header) v' } }
      else Some (parsed, v))"
  by pat_completeness auto

termination
proof (relation "measure (\<lambda>(i, input, input_count, parsed, v). unat (input_count - parsed))")
  show "((i, input, input_count, parsed + 4 + le32 header, v'), i, input, input_count, parsed, v)
      \<in> measure (\<lambda>(i, input, input_count, parsed, v). unat (input_count - parsed))"
    if "parsed < input_count" "\<not> input_count - parsed < 4" "\<not> input_count - (parsed + 4) < le32 header"
    for i input input_count parsed v header v'
    using parse_progress [OF that] by simp
qed simp

declare parse_messages.simps [simp del]

text \<open>The bytes read are appended to the input buffer, the messages in it are taken out.\<close>

definition append_input :: "string \<Rightarrow> peer \<Rightarrow> peer option" where
  "append_input buffer p =
     (let n = of_nat (length buffer);
          p1 = (if e_input_count p + n > e_input_size p
                then p\<lparr>e_input_size := e_input_count p + n, e_input := realloc (e_input p) (unat (e_input_count p + n))\<rparr>
                else p)
      in do { mem \<leftarrow> memcpy_into (e_input p1) (unat (e_input_count p1)) (map Some buffer);
              Some (p1\<lparr>e_input := mem, e_input_count := e_input_count p1 + n\<rparr>) })"

definition drop_parsed :: "32 word \<Rightarrow> peer \<Rightarrow> peer option" where
  "drop_parsed parsed p =
     (if parsed > 0
      then let n = e_input_count p - parsed
           in do { data \<leftarrow> memcpy_from (e_input p) (int (unat parsed)) (unat n);
                   mem \<leftarrow> memcpy_into (e_input p) 0 data;
                   Some (p\<lparr>e_input := mem, e_input_count := n\<rparr>) }
      else Some p)"

definition receive :: "nat \<Rightarrow> string \<Rightarrow> server \<Rightarrow> server option" where
  "receive i buffer v =
     do { p \<leftarrow> load_at (v_peers v) i;
          p1 \<leftarrow> append_input buffer p;
          (parsed, v1) \<leftarrow> parse_messages i (e_input p1) (e_input_count p1) 0 v;
          p2 \<leftarrow> drop_parsed parsed p1;
          peers \<leftarrow> store_at (v_peers v1) i p2;
          Some (v1\<lparr>v_peers := peers\<rparr>) }"

subsection \<open>chat_server_update\<close>

text \<open>The array of \<^verbatim>\<open>peer_count\<close> entries for \<^verbatim>\<open>poll\<close>: first the listening socket is put at index \<^verbatim>\<open>peer_count\<close>, then
  the peers' sockets at their indices.\<close>

fun fill_pollfds :: "server \<Rightarrow> nat \<Rightarrow> int option list \<Rightarrow> int option list option" where
  "fill_pollfds v 0 pfds = Some pfds"
| "fill_pollfds v (Suc i) pfds =
     do { pfds1 \<leftarrow> fill_pollfds v i pfds; p \<leftarrow> load_at (v_peers v) i; store_at pfds1 i (e_socket p) }"

definition make_pollfds :: "server \<Rightarrow> int option list option" where
  "make_pollfds v =
     (let n = unat (v_peer_count v)
      in do { pfds \<leftarrow> store_at (replicate n (Some 0)) n (v_socket v); fill_pollfds v n pfds })"

definition accept_peer :: "int \<Rightarrow> server \<Rightarrow> server option" where
  "accept_peer client_socket v0 =
     (if client_socket > 0
      then let v = (if v_peer_count v0 = v_peer_size v0
                    then v0\<lparr>v_peer_size := v_peer_size v0 * 2, v_peers := realloc (v_peers v0) (unat (v_peer_size v0 * 2))\<rparr>
                    else v0)
           in do { peers \<leftarrow> store_at (v_peers v) (unat (v_peer_count v)) (zero_peer\<lparr>e_socket := client_socket\<rparr>);
                   Some (v\<lparr>v_peers := peers, v_peer_count := v_peer_count v + 1\<rparr>) }
      else Some v0)"

text \<open>The loop over the peers, \<open>n\<close> of them left; \<open>pollfds\<close> is the number of entries of the array.\<close>

fun update_peers :: "net \<Rightarrow> nat \<Rightarrow> nat \<Rightarrow> nat \<Rightarrow> server \<Rightarrow> server option" where
  "update_peers net pollfds i 0 v = Some v"
| "update_peers net pollfds i (Suc n) v =
     (if \<not> i < pollfds then None
      else if n_pollin net i
      then do { p \<leftarrow> load_at (v_peers v) i;
                v' \<leftarrow> (case n_read net (e_socket p) of None \<Rightarrow> Some v | Some buffer \<Rightarrow> receive i buffer v);
                update_peers net pollfds (i + 1) n v' }
      else update_peers net pollfds (i + 1) n v)"

definition chat_server_update :: "net \<Rightarrow> server \<Rightarrow> (chat_result \<times> server) option" where
  "chat_server_update net v =
     (if \<not> v_is_started v then Some (Chat_error CHAT_ERR_NOT_STARTED, v)
      else do { pfds \<leftarrow> make_pollfds v;
                if n_poll net = 0 then Some (Chat_error CHAT_ERR_TIMEOUT, v)
                else do { v1 \<leftarrow> (if pfds = [] then None else if n_pollin net 0 then accept_peer (n_accept net) v else Some v);
                          v2 \<leftarrow> update_peers net (length pfds) 0 (unat (v_peer_count v1)) v1;
                          Some (Chat_ok, v2) } })"

end
