(* ===== verification/Chat_Server_Correct.thy ===== *)
theory Chat_Server_Correct
  imports Chat_Server
begin

section \<open>The chat server's protocol\<close>

text \<open>
  A message is sent as its length in four bytes and its text. What \<open>receive\<close> (the body of the loop of
  \<^verbatim>\<open>chat_server_update\<close> in \<^verbatim>\<open>hw5/chat_server.c\<close>) makes of a piece of such a stream, and why a server
  that has been started never gets that far.
\<close>

subsection \<open>Lengths as bytes\<close>

definition encode32 :: "nat \<Rightarrow> string" where
  "encode32 n = [char_of n, char_of (n div 256), char_of (n div 256 div 256), char_of (n div 256 div 256 div 256)]"

definition frame :: "string \<Rightarrow> string" where
  "frame m = encode32 (length m) @ m"

lemma length_encode32 [simp]: "length (encode32 n) = 4"
  by (simp add: encode32_def)

lemma word_of_char_of: "(of_char (char_of (n :: nat)) :: 32 word) = of_nat (n mod 256)"
  by (metis of_char_of of_nat_of_char)

lemma le32_encode32:
  assumes "n < 2 ^ 32"
  shows "le32 (encode32 n) = of_nat n"
proof -
  define a b c where "a = n div 256" "b = a div 256" "c = b div 256"
  have "c < 256" using assms by (simp add: a_b_c_def div_mult2_eq [symmetric] less_mult_imp_div_less)
  then have "n mod 256 + 256 * (a mod 256 + 256 * (b mod 256 + 256 * (c mod 256))) = n"
    by (simp add: a_b_c_def)
  moreover have "le32 (encode32 n) = of_nat (n mod 256 + 256 * (a mod 256 + 256 * (b mod 256 + 256 * (c mod 256))))"
    by (simp add: le32_def encode32_def a_b_c_def word_of_char_of)
  ultimately show ?thesis by simp
qed

subsection \<open>Buffers\<close>

text \<open>A buffer whose first bytes are \<open>text\<close>.\<close>

definition holds :: "char option list \<Rightarrow> 32 word \<Rightarrow> string \<Rightarrow> bool" where
  "holds mem n text \<longleftrightarrow> length text = unat n \<and> unat n \<le> length mem \<and> take (unat n) mem = map Some text"

lemma bytes_at_holds:
  assumes "holds mem cnt text" "unat off + unat n \<le> length text"
  shows "bytes_at mem off n = Some (take (unat n) (drop (unat off) text))"
proof -
  have le: "unat n + unat off \<le> unat cnt" using assms by (simp add: holds_def)
  have "take (unat n + unat off) mem = take (unat n + unat off) (take (unat cnt) mem)"
    using le by (simp add: min_absorb1)
  also have "\<dots> = take (unat n + unat off) (map Some text)" using assms(1) unfolding holds_def by metis
  finally have "take (unat n) (drop (unat off) mem) = map Some (take (unat n) (drop (unat off) text))"
    by (simp add: take_drop take_map drop_map)
  then show ?thesis using assms by (auto simp: bytes_at_def Let_def holds_def comp_def)
qed

subsection \<open>The messages in a buffer\<close>

text \<open>The server has room for \<open>k\<close> more messages without growing the array.\<close>

definition has_room :: "nat \<Rightarrow> server \<Rightarrow> bool" where
  "has_room k v \<longleftrightarrow> unat (v_total_messages_count v) + k \<le> unat (v_total_messages v) \<and>
     unat (v_total_messages v) \<le> length (v_messages v)"

definition server_messages :: "server \<Rightarrow> message option list" where
  "server_messages v = take (unat (v_total_messages_count v)) (v_messages v)"

text \<open>Two servers that differ only in their messages.\<close>

definition same_peers :: "server \<Rightarrow> server \<Rightarrow> bool" where
  "same_peers v v' \<longleftrightarrow> v_peers v' = v_peers v \<and> v_peer_count v' = v_peer_count v \<and> v_peer_size v' = v_peer_size v \<and>
     v_socket v' = v_socket v \<and> v_current_message_index v' = v_current_message_index v \<and> v_is_started v' = v_is_started v"

lemma unat_Suc_less: "unat (w :: 32 word) < unat (u :: 32 word) \<Longrightarrow> unat (w + 1) = unat w + 1"
proof -
  assume "unat w < unat u"
  moreover have "unat u < 2 ^ 32" by (rule order_less_le_trans [OF unsigned_less]) simp
  ultimately show ?thesis by (simp add: unat_plus_if_size word_size)
qed

lemma add_message_room:
  assumes "has_room (Suc k) v"
  shows "\<exists>v'. add_message m v = Some v' \<and> has_room k v' \<and> server_messages v' = server_messages v @ [Some m] \<and> same_peers v v'"
proof -
  let ?n = "unat (v_total_messages_count v)"
  have less: "?n < unat (v_total_messages v)" "?n < length (v_messages v)" using assms by (simp_all add: has_room_def)
  have suc: "unat (v_total_messages_count v + 1) = ?n + 1" by (rule unat_Suc_less [OF less(1)])
  have "v_total_messages v \<noteq> v_total_messages_count v" using less(1) by auto
  then have add: "add_message m v = Some (v\<lparr>v_messages := (v_messages v)[?n := Some m], v_total_messages_count := v_total_messages_count v + 1\<rparr>)"
    using less(2) by (simp add: add_message_def store_at_def)
  show ?thesis
    unfolding add using assms suc less(2)
    by (simp add: has_room_def server_messages_def same_peers_def take_Suc_conv_app_nth)
qed

definition received :: "nat \<Rightarrow> string \<Rightarrow> message" where
  "received i m = \<lparr>m_data = m, m_peer = i, m_length = of_nat (length m)\<rparr>"

text \<open>What is left behind whole messages: less than a length, or a length and less than so many bytes.\<close>

definition incomplete :: "string \<Rightarrow> bool" where
  "incomplete r \<longleftrightarrow> length r < 4 \<or> (\<exists>n part. r = encode32 n @ part \<and> length part < n \<and> n < 2 ^ 32)"

definition remaining :: "string \<Rightarrow> string" where
  "remaining r = (if length r < 4 then r else drop 4 r)"

lemma unat_sub_le: "(b :: 32 word) \<le> a \<Longrightarrow> unat (a - b) = unat a - unat b"
  by (rule unat_sub)

text \<open>Reading \<open>n\<close> bytes at \<open>off\<close>.\<close>

lemma read_step:
  assumes mem: "holds mem cnt text" and off: "unat off \<le> unat cnt" "drop (unat off) text = xs @ ys" and n: "unat n = length xs"
  shows "bytes_at mem off n = Some xs" "unat (off + n) = unat off + length xs" "unat (off + n) \<le> unat cnt"
    "drop (unat (off + n)) text = ys" "unat (cnt - (off + n)) = length ys"
proof -
  have len: "unat cnt - unat off = length xs + length ys"
    using arg_cong [OF off(2), of length] mem by (simp add: holds_def)
  then have sum: "unat off + length xs \<le> unat cnt" using off(1) by simp
  have "unat cnt < 2 ^ 32" by (rule order_less_le_trans [OF unsigned_less]) simp
  with sum show off': "unat (off + n) = unat off + length xs" using n by (simp add: unat_plus_if_size word_size)
  with sum show le: "unat (off + n) \<le> unat cnt" by simp
  show "bytes_at mem off n = Some xs"
    using bytes_at_holds [OF mem, of off n] sum n off(2) mem by (simp add: holds_def)
  show "drop (unat (off + n)) text = ys"
    using arg_cong [OF off(2), of "drop (length xs)"] off' by (simp add: add.commute)
  have "unat (cnt - (off + n)) = unat cnt - unat (off + n)" by (rule unat_sub) (use le in \<open>simp add: word_le_nat_alt\<close>)
  with off' len show "unat (cnt - (off + n)) = length ys" by simp
qed

lemma parse_header:
  assumes "holds mem cnt text" "unat parsed \<le> unat cnt" "drop (unat parsed) text = encode32 n @ ys" "n < 2 ^ 32"
  shows "parse_messages i mem cnt parsed v =
     (if length ys < n then Some (parsed + 4, v)
      else do { body \<leftarrow> bytes_at mem (parsed + 4) (of_nat n);
                v' \<leftarrow> add_message \<lparr>m_data = body, m_peer = i, m_length = of_nat n\<rparr> v;
                parse_messages i mem cnt (parsed + 4 + of_nat n) v' })"
proof -
  have four: "unat (4 :: 32 word) = length (encode32 n)" by simp
  note step = read_step [OF assms(1-3) four]
  have len: "unat cnt - unat parsed = 4 + length ys" using arg_cong [OF assms(3), of length] assms(1) by (simp add: holds_def)
  have "parsed \<le> cnt" using assms(2) by (simp add: word_le_nat_alt)
  then have d: "unat (cnt - parsed) = 4 + length ys" using len by (simp add: unat_sub)
  have "parsed < cnt" using len by (simp add: word_less_nat_alt)
  moreover have "\<not> cnt - parsed < 4" using d by (simp add: word_less_nat_alt)
  moreover have "cnt - (parsed + 4) < of_nat n \<longleftrightarrow> length ys < n"
    using step(5) assms(4) by (simp add: word_less_nat_alt unat_of_nat)
  ultimately show ?thesis
    using step(1) assms(4) by (simp add: parse_messages.simps [of i mem cnt parsed v] le32_encode32)
qed

lemma parse_messages_ok:
  assumes "holds mem cnt text" "unat parsed \<le> unat cnt" "drop (unat parsed) text = concat (map frame ms) @ r"
    "incomplete r" "has_room (length ms) v" "\<forall>m \<in> set ms. length m < 2 ^ 32"
  shows "\<exists>parsed' v'. parse_messages i mem cnt parsed v = Some (parsed', v') \<and> unat parsed' \<le> unat cnt \<and>
    drop (unat parsed') text = remaining r \<and> server_messages v' = server_messages v @ map (\<lambda>m. Some (received i m)) ms \<and> same_peers v v'"
  using assms
proof (induction ms arbitrary: parsed v)
  case Nil
  have r: "drop (unat parsed) text = r" using Nil(3) by simp
  show ?case
  proof (cases "length r < 4")
    case True
    have "parsed \<le> cnt" using Nil(2) by (simp add: word_le_nat_alt)
    then have "unat (cnt - parsed) = length r" using arg_cong [OF r, of length] Nil(1) by (simp add: holds_def unat_sub)
    then have "cnt - parsed < 4" using True by (simp add: word_less_nat_alt)
    then have "parse_messages i mem cnt parsed v = Some (parsed, v)" by (simp add: parse_messages.simps)
    then show ?thesis using Nil(2) r True by (simp add: remaining_def same_peers_def)
  next
    case False
    then obtain n part where p: "r = encode32 n @ part" "length part < n" "n < 2 ^ 32" using Nil(4) by (auto simp: incomplete_def)
    have h: "drop (unat parsed) text = encode32 n @ part" using r p(1) by simp
    have four: "unat (4 :: 32 word) = length (encode32 n)" by simp
    note step = read_step [OF Nil(1,2) h four]
    have "parse_messages i mem cnt parsed v = Some (parsed + 4, v)" using parse_header [OF Nil(1,2) h p(3)] p(2) by simp
    then show ?thesis using step(3,4) p(1) by (simp add: remaining_def same_peers_def)
  qed
next
  case (Cons m ms)
  let ?ys = "concat (map frame ms) @ r"
  have len: "length m < 2 ^ 32" using Cons.prems(6) by simp
  then have n: "unat (of_nat (length m) :: 32 word) = length m" by (simp add: unat_of_nat)
  have h: "drop (unat parsed) text = encode32 (length m) @ (m @ ?ys)" using Cons.prems(3) by (simp add: frame_def [of m])
  have four: "unat (4 :: 32 word) = length (encode32 (length m))" by simp
  note step = read_step [OF Cons.prems(1,2) h four]
  note body = read_step [OF Cons.prems(1) step(3,4) n]
  have "has_room (Suc (length ms)) v" using Cons.prems(5) by simp
  from add_message_room [OF this, of "received i m"] obtain v1 where v1: "add_message (received i m) v = Some v1"
    "has_room (length ms) v1" "server_messages v1 = server_messages v @ [Some (received i m)]" "same_peers v v1" by blast
  have "parse_messages i mem cnt parsed v = parse_messages i mem cnt (parsed + 4 + of_nat (length m)) v1"
    using parse_header [OF Cons.prems(1,2) h len, of i v] body(1) v1(1) by (simp add: received_def)
  moreover obtain parsed' v' where "parse_messages i mem cnt (parsed + 4 + of_nat (length m)) v1 = Some (parsed', v')"
    "unat parsed' \<le> unat cnt" "drop (unat parsed') text = remaining r"
    "server_messages v' = server_messages v1 @ map (\<lambda>m. Some (received i m)) ms" "same_peers v1 v'"
    using Cons.IH [OF Cons.prems(1) body(3,4) Cons.prems(4) v1(2)] Cons.prems(6) by auto
  ultimately show ?case using v1(3,4) by (auto simp: same_peers_def)
qed

subsection \<open>Receiving\<close>

definition peer_holds :: "peer \<Rightarrow> string \<Rightarrow> bool" where
  "peer_holds p u \<longleftrightarrow> holds (e_input p) (e_input_count p) u \<and> length (e_input p) = unat (e_input_size p)"

lemma append_input_ok:
  assumes p: "peer_holds p u" and len: "length (u @ buf) < 2 ^ 32"
  shows "\<exists>p'. append_input buf p = Some p' \<and> peer_holds p' (u @ buf)"
proof -
  define n where "n = (of_nat (length buf) :: 32 word)"
  have un: "unat n = length buf" using len by (simp add: n_def unat_of_nat)
  have cnt: "length u = unat (e_input_count p)" "unat (e_input_count p) \<le> length (e_input p)"
    "take (unat (e_input_count p)) (e_input p) = map Some u" "length (e_input p) = unat (e_input_size p)"
    using p by (simp_all add: peer_holds_def holds_def)
  have sum: "unat (e_input_count p + n) = length u + length buf"
    using len un cnt(1) by (simp add: unat_plus_if_size word_size)
  define p1 where "p1 = (if e_input_count p + n > e_input_size p
    then p\<lparr>e_input_size := e_input_count p + n, e_input := realloc (e_input p) (unat (e_input_count p + n))\<rparr> else p)"
  have p1: "e_input_count p1 = e_input_count p" "length u + length buf \<le> length (e_input p1)"
    "take (length u) (e_input p1) = map Some u" "length (e_input p1) = unat (e_input_size p1)"
    using cnt sum by (auto simp: p1_def realloc_def word_less_nat_alt not_less min_def)
  define p2 where "p2 = p1\<lparr>e_input := overwrite (e_input p1) (length u) (map Some buf), e_input_count := e_input_count p + n\<rparr>"
  have "append_input buf p = Some p2"
    using p1(1,2) cnt(1) by (simp add: append_input_def Let_def n_def [symmetric] p1_def [symmetric] p2_def)
  moreover have "peer_holds p2 (u @ buf)"
    using p1 sum by (simp add: peer_holds_def holds_def p2_def overwrite_def)
  ultimately show ?thesis by blast
qed

lemma drop_parsed_ok:
  assumes p: "peer_holds p text" and k: "unat k \<le> unat (e_input_count p)"
  shows "\<exists>p'. drop_parsed k p = Some p' \<and> peer_holds p' (drop (unat k) text)"
proof (cases "k > 0")
  case True
  define n where "n = e_input_count p - k"
  have cnt: "length text = unat (e_input_count p)" "unat (e_input_count p) \<le> length (e_input p)"
    "take (unat (e_input_count p)) (e_input p) = map Some text" "length (e_input p) = unat (e_input_size p)"
    using p by (simp_all add: peer_holds_def holds_def)
  have un: "unat n = unat (e_input_count p) - unat k" unfolding n_def by (rule unat_sub) (use k in \<open>simp add: word_le_nat_alt\<close>)
  define data where "data = take (unat n) (drop (unat k) (e_input p))"
  have "data = drop (unat k) (take (unat (e_input_count p)) (e_input p))" using un k by (simp add: data_def drop_take)
  then have data: "data = map Some (drop (unat k) text)" using cnt(3) by (simp add: drop_map)
  then have ld: "length data = unat n" using cnt(1) un by simp
  define p1 where "p1 = p\<lparr>e_input := overwrite (e_input p) 0 data, e_input_count := n\<rparr>"
  have "unat k + unat n \<le> length (e_input p)" using cnt(2) un k by simp
  then have src: "memcpy_from (e_input p) (int (unat k)) (unat n) = Some data" unfolding data_def by (rule memcpy_from_Some)
  have dst: "memcpy_into (e_input p) 0 data = Some (overwrite (e_input p) 0 data)" using cnt(2) un k ld by simp
  have "drop_parsed k p = Some p1"
    unfolding drop_parsed_def Let_def n_def [symmetric] src bind.bind_lunit dst using True by (simp add: p1_def)
  moreover have "peer_holds p1 (drop (unat k) text)"
    using cnt un ld data by (simp add: peer_holds_def holds_def p1_def overwrite_def)
  ultimately show ?thesis by blast
next
  case False
  then have "k = 0" by (metis word_gt_0)
  then show ?thesis using p by (simp add: drop_parsed_def)
qed

lemma frames_short: "m \<in> set ms \<Longrightarrow> length m \<le> length (concat (map frame ms))"
  by (induction ms) (auto simp: frame_def)

lemma receive_ok:
  assumes p: "i < length (v_peers v)" "v_peers v ! i = Some p" "peer_holds p u"
    and str: "u @ buf = concat (map frame ms) @ r" "incomplete r" "length (u @ buf) < 2 ^ 32"
    and room: "has_room (length ms) v"
  shows "\<exists>v' p'. receive i buf v = Some v' \<and> v_peers v' = (v_peers v)[i := Some p'] \<and> peer_holds p' (remaining r) \<and>
    server_messages v' = server_messages v @ map (\<lambda>m. Some (received i m)) ms"
proof -
  obtain p1 where p1: "append_input buf p = Some p1" "peer_holds p1 (u @ buf)" using append_input_ok [OF p(3) str(3)] by blast
  then have mem: "holds (e_input p1) (e_input_count p1) (u @ buf)" by (simp add: peer_holds_def)
  have short: "\<forall>m \<in> set ms. length m < 2 ^ 32"
  proof
    fix m assume "m \<in> set ms"
    then have "length m \<le> length (u @ buf)" using frames_short [of m ms] unfolding str(1) by simp
    with str(3) show "length m < 2 ^ 32" by simp
  qed
  obtain k v1 where k: "parse_messages i (e_input p1) (e_input_count p1) 0 v = Some (k, v1)" "unat k \<le> unat (e_input_count p1)"
    "drop (unat k) (u @ buf) = remaining r" "server_messages v1 = server_messages v @ map (\<lambda>m. Some (received i m)) ms" "same_peers v v1"
    using parse_messages_ok [OF mem, of 0 ms r v i] str room short by auto
  obtain p2 where p2: "drop_parsed k p1 = Some p2" "peer_holds p2 (remaining r)"
    using drop_parsed_ok [OF p1(2) k(2)] k(3) by auto
  have "receive i buf v = Some (v1\<lparr>v_peers := (v_peers v)[i := Some p2]\<rparr>)"
    using p(1,2) p1(1) k(1,5) p2(1) by (simp add: receive_def load_at_def store_at_def same_peers_def)
  with p2(2) k(4) show ?thesis by (auto simp: server_messages_def)
qed

text \<open>What the splitting of the stream would do in a server that has room for its messages. No server that was created and
  listens is one: the array of messages starts empty and its size is only doubled, see below. So this is about the loop
  alone. Of a rest that holds a length already, the length is dropped: the text that is still to come will be read as
  a length.\<close>

lemma receive_with_room:
  assumes "i < length (v_peers v)" "v_peers v ! i = Some p" "peer_holds p u"
    and "u @ buf = concat (map frame ms) @ r" "incomplete r" "length (u @ buf) < 2 ^ 32" "has_room (length ms) v"
  shows "\<exists>v' p'. receive i buf v = Some v' \<and> v_peers v' = (v_peers v)[i := Some p'] \<and>
    server_messages v' = server_messages v @ map (\<lambda>m. Some (received i m)) ms \<and>
    peer_holds p' (if length r < 4 then r else drop 4 r)"
  using receive_ok [OF assms] unfolding remaining_def by blast

subsection \<open>Properties\<close>

text \<open>C32: A server that was created and listens cannot be used: every call of \<^verbatim>\<open>chat_server_update\<close> writes the listening
  socket behind the array for \<^verbatim>\<open>poll\<close>; and even where that goes unnoticed, the first message of any peer is written
  outside of the array of messages, whose size starts as 0 and is doubled.\<close>

theorem server_started_undefined:
  assumes "n_socket net \<ge> 0" "n_bind_ok net" "n_listen_ok net"
  shows "\<exists>v. chat_server_listen net chat_server_new = Some (Chat_ok, v) \<and>
    chat_server_update net' v = None \<and> add_message m v = None"
proof -
  let ?p = "\<lparr>e_socket = n_socket net, e_output = [Some (CHR 0x00)], e_output_size = 1, e_output_count = 0,
                      e_input = [Some (CHR 0x00)], e_input_size = 1, e_input_count = 0\<rparr>"
  let ?v = "chat_server_new\<lparr>v_socket := n_socket net, v_peers := (replicate 10 (Some zero_peer))[0 := Some ?p], v_peer_count := 1,
    v_is_started := True\<rparr>"
  have "chat_server_listen net chat_server_new = Some (Chat_ok, ?v)"
    using assms by (simp add: chat_server_listen_def chat_server_new_def store_at_def Let_def)
  moreover have "chat_server_update net' ?v = None"
    by (simp add: chat_server_update_def make_pollfds_def store_at_def Let_def)
  moreover have "add_message m ?v = None"
    by (simp add: add_message_def chat_server_new_def store_at_def realloc_def Let_def)
  ultimately show ?thesis by blast
qed

subsection \<open>Witnesses\<close>

theorem server_started_undefined_witness:
  "\<exists>v. chat_server_listen \<lparr>n_socket = 3, n_bind_ok = True, n_listen_ok = True, n_poll = 0, n_pollin = \<lambda>_. False, n_accept = - 1,
       n_read = \<lambda>_. None\<rparr> chat_server_new = Some (Chat_ok, v) \<and>
     chat_server_update \<lparr>n_socket = 3, n_bind_ok = True, n_listen_ok = True, n_poll = 0, n_pollin = \<lambda>_. False, n_accept = - 1,
       n_read = \<lambda>_. None\<rparr> v = None"
proof -
  let ?net = "\<lparr>n_socket = 3, n_bind_ok = True, n_listen_ok = True, n_poll = 0, n_pollin = \<lambda>_. False, n_accept = - 1, n_read = \<lambda>_. None\<rparr>"
  have "0 \<le> n_socket ?net" "n_bind_ok ?net" "n_listen_ok ?net" by simp_all
  from server_started_undefined [OF this, of ?net] show ?thesis by blast
qed

end
