(* ===== verification/Chat_Client.thy ===== *)
theory Chat_Client
  imports Chat_Server
begin

section \<open>The chat client\<close>

text \<open>
  \<^verbatim>\<open>hw5/chat_client.c\<close>. As for the server, \<^const>\<open>None\<close> is an undefined call, and what the system calls give is a record.
  The static buffer of \<^verbatim>\<open>_process_buffer\<close> is the text in it; the function reaches an empty branch where a
  message would be stored, so its result here is the list of the messages with whether that branch is taken.
\<close>

subsection \<open>State\<close>

definition BUFFER_SIZE :: nat where
  "BUFFER_SIZE = 4096"

record client =
  l_socket :: int
  l_messages :: "message option list"
  l_total_messages_count :: "32 word"
  l_current_message_index :: "32 word"
  l_cur_event :: "32 word"
  l_name :: string
  l_is_started :: bool

record client_net =
  a_getaddrinfo_ok :: bool
  a_socket :: int
  a_getfl_ok :: bool
  a_setfl_ok :: bool
  a_connect_ok :: bool                   \<comment> \<open>connected, or in progress\<close>
  a_poll :: int
  a_pollin :: bool
  a_pollout :: bool
  a_read :: "string option"             \<comment> \<open>at most \<^verbatim>\<open>BUFFER_SIZE - 1\<close> bytes\<close>

subsection \<open>Addresses\<close>

text \<open>\<^const>\<open>None\<close> is \<^verbatim>\<open>exit(1)\<close>.\<close>

definition split_addr_port :: "string \<Rightarrow> nat \<Rightarrow> nat \<Rightarrow> (string \<times> string) option" where
  "split_addr_port addr_port addr_size port_size =
     (if CHR '':'' \<notin> set addr_port then None
      else let addr_length = length (takeWhile (\<lambda>c. c \<noteq> CHR '':'') addr_port);
               port_length = length addr_port - addr_length - 1
           in if addr_length \<ge> addr_size \<or> port_length \<ge> port_size then None
              else Some (take addr_length addr_port, take port_length (drop (addr_length + 1) addr_port)))"

subsection \<open>Messages in the input\<close>

text \<open>Trimming: \<open>start\<close> is the index after the leading spaces; the terminator behind the text stops the loop. \<open>trim_end\<close> gives
  \<^verbatim>\<open>end + 1\<close>, from \<^verbatim>\<open>end + 1 = n\<close>.\<close>

definition trim_start :: "string \<Rightarrow> nat" where
  "trim_start s = length (takeWhile isspace s)"

primrec trim_end :: "string \<Rightarrow> nat \<Rightarrow> nat \<Rightarrow> nat" where
  "trim_end s start 0 = 0"
| "trim_end s start (Suc n) = (if start < n \<and> isspace (s ! n) then trim_end s start n else Suc n)"

definition end_message :: "string \<Rightarrow> string \<times> bool" where
  "end_message s =
     (let start = trim_start s; n = trim_end s start (length s)
      in (take (n - start) (drop start s), int start \<noteq> int n - 1))"

fun process_buffer :: "string \<Rightarrow> string \<Rightarrow> string \<times> (string \<times> bool) list" where
  "process_buffer [] buffered = (buffered, [])"
| "process_buffer (c # cs) buffered =
     (if c = NL then apsnd ((#) (end_message buffered)) (process_buffer cs [])
      else if length buffered < BUFFER_SIZE - 1 then process_buffer cs (buffered @ [c])
      else process_buffer cs buffered)"

subsection \<open>The client's functions\<close>

definition chat_client_new :: "string \<Rightarrow> client" where
  "chat_client_new name = \<lparr>l_socket = - 1, l_messages = replicate 10 (Some zero_message), l_total_messages_count = 10,
     l_current_message_index = 0, l_cur_event = 0, l_name = name, l_is_started = False\<rparr>"

definition chat_client_connect :: "client_net \<Rightarrow> string \<Rightarrow> client \<Rightarrow> (chat_result \<times> client) option" where
  "chat_client_connect net addr c =
     do { (ip, port) \<leftarrow> split_addr_port addr 16 6;
          Some (if \<not> a_getaddrinfo_ok net then (Chat_error CHAT_ERR_NOT_IMPLEMENTED, c)
                else if a_socket net < 0 then (Chat_error CHAT_ERR_NOT_IMPLEMENTED, c)
                else if \<not> a_getfl_ok net then (Chat_error CHAT_ERR_NOT_IMPLEMENTED, c)
                else if \<not> a_setfl_ok net then (Chat_error CHAT_ERR_NOT_IMPLEMENTED, c)
                else if \<not> a_connect_ok net then (Chat_error CHAT_ERR_NOT_IMPLEMENTED, c)
                else (Chat_ok, c\<lparr>l_socket := a_socket net, l_is_started := True\<rparr>)) }"

definition chat_client_pop_next :: "client \<Rightarrow> (message option \<times> client) option" where
  "chat_client_pop_next c =
     (if l_total_messages_count c \<le> 0 \<or> l_current_message_index c \<ge> l_total_messages_count c then Some (None, c)
      else do { m \<leftarrow> load_at (l_messages c) (unat (l_current_message_index c));
                Some (Some m, c\<lparr>l_current_message_index := l_current_message_index c + 1\<rparr>) })"

text \<open>The buffer for writing is not initialised, so \<^verbatim>\<open>strlen\<close> of it is undefined.\<close>

definition chat_client_update :: "client_net \<Rightarrow> client \<Rightarrow> string \<Rightarrow> (chat_result \<times> string) option" where
  "chat_client_update net c buffered =
     (if \<not> l_is_started c then Some (Chat_error CHAT_ERR_NOT_STARTED, buffered)
      else if l_socket c < 0 then Some (Chat_error CHAT_ERR_SYS, buffered)
      else if a_poll net < 0 then Some (Chat_minus_one, buffered)
      else if a_poll net = 0 then Some (Chat_ok, buffered)
      else let buffered1 = (if a_pollin net
                            then (case a_read net of None \<Rightarrow> buffered | Some bytes \<Rightarrow> fst (process_buffer bytes buffered))
                            else buffered)
           in if a_pollout net then None else Some (Chat_ok, buffered1))"

definition chat_client_get_descriptor :: "client \<Rightarrow> int" where
  "chat_client_get_descriptor c = l_socket c"

definition chat_client_get_events :: "client \<Rightarrow> 32 word" where
  "chat_client_get_events c = l_cur_event c"

definition chat_client_feed :: "string \<Rightarrow> client \<Rightarrow> (chat_result \<times> client) option" where
  "chat_client_feed msg c =
     (if msg = [] then Some (Chat_minus_one, c)
      else if l_total_messages_count c \<le> l_current_message_index c then Some (Chat_minus_one, c)
      else do { ms \<leftarrow> store_at (l_messages c) (unat (l_total_messages_count c))
                  \<lparr>m_data = msg, m_peer = 0, m_length = of_nat (length msg)\<rparr>;
                Some (Chat_ok, c\<lparr>l_messages := ms, l_current_message_index := l_current_message_index c + 1\<rparr>) })"

subsection \<open>Trimming\<close>

definition strip_end :: "string \<Rightarrow> string" where
  "strip_end s = rev (dropWhile isspace (rev s))"

definition strip :: "string \<Rightarrow> string" where
  "strip s = strip_end (dropWhile isspace s)"

lemma strip_end_snoc [simp]: "strip_end (xs @ [x]) = (if isspace x then strip_end xs else xs @ [x])"
  by (simp add: strip_end_def)

lemma take_strip_end: "take (length (strip_end v)) v = strip_end v"
  by (induction v rule: rev_induct) (auto simp: strip_end_def intro: order_trans [OF length_dropWhile_le])

lemma trim_end_strip:
  assumes "start < length s" "\<not> isspace (s ! start)"
  shows "start + Suc k \<le> length s \<Longrightarrow> trim_end s start (start + Suc k) = start + length (strip_end (take (Suc k) (drop start s)))"
proof (induction k)
  case 0
  have "take 1 (drop start s) = [] @ [s ! start]" using assms(1) by (simp add: take_Suc hd_drop_conv_nth)
  then show ?case using assms(2) by (simp del: append_Nil)
next
  case (Suc k)
  have "take (Suc (Suc k)) (drop start s) = take (Suc k) (drop start s) @ [s ! (start + Suc k)]"
    using Suc.prems by (simp add: take_Suc_conv_app_nth [of "Suc k" "drop start s"])
  then show ?case using Suc by simp
qed

lemma end_message_strip: "end_message s = (strip s, length (strip s) \<noteq> 1)"
proof -
  define start where "start = trim_start s"
  have v: "dropWhile isspace s = drop start s" by (simp add: start_def trim_start_def dropWhile_eq_drop)
  have le: "start \<le> length s" by (simp add: start_def trim_start_def length_takeWhile_le)
  have n: "trim_end s start (length s) = start + length (strip s)"
  proof (cases "start < length s")
    case True
    then have "\<not> isspace (s ! start)" unfolding start_def trim_start_def by (rule nth_length_takeWhile)
    moreover obtain k where "length s = start + Suc k" using True less_iff_Suc_add by auto
    ultimately show ?thesis using trim_end_strip [OF True, of k] by (simp add: strip_def v)
  next
    case False
    then have "start = length s" using le by simp
    then show ?thesis by (cases "length s") (simp_all add: strip_def v strip_end_def)
  qed
  have "take (length (strip s)) (drop start s) = strip s" by (simp add: strip_def v take_strip_end)
  then show ?thesis by (auto simp: end_message_def Let_def start_def [symmetric] n)
qed

subsection \<open>Lines\<close>

lemma process_buffer_line:
  "NL \<notin> set l \<Longrightarrow> length b + length l < BUFFER_SIZE \<Longrightarrow> process_buffer (l @ cs) b = process_buffer cs (b @ l)"
  by (induction l arbitrary: b) auto

lemma process_buffer_append:
  "process_buffer (xs @ ys) b =
     (let (b1, ms1) = process_buffer xs b; (b2, ms2) = process_buffer ys b1 in (b2, ms1 @ ms2))"
  by (induction xs b rule: process_buffer.induct) (auto simp: Let_def split: prod.splits)

lemma process_buffer_lines:
  assumes "\<forall>l \<in> set ls. NL \<notin> set l \<and> length l < BUFFER_SIZE" "NL \<notin> set u" "length u < BUFFER_SIZE"
  shows "process_buffer (concat (map (\<lambda>l. l @ [NL]) ls) @ u) [] = (u, map (\<lambda>l. (strip l, length (strip l) \<noteq> 1)) ls)"
  using assms
proof (induction ls)
  case Nil
  then show ?case using process_buffer_line [of u "[]" "[]"] by simp
next
  case (Cons l ls)
  then show ?case using process_buffer_line [of l "[]" "NL # concat (map (\<lambda>l. l @ [NL]) ls) @ u"] by (simp add: end_message_strip)
qed

text \<open>The messages found in a sequence of reads.\<close>

primrec process_reads :: "string list \<Rightarrow> string \<Rightarrow> string \<times> (string \<times> bool) list" where
  "process_reads [] b = (b, [])"
| "process_reads (bytes # reads) b =
     (let (b1, ms1) = process_buffer bytes b; (b2, ms2) = process_reads reads b1 in (b2, ms1 @ ms2))"

lemma process_reads_concat: "process_reads reads b = process_buffer (concat reads) b"
  by (induction reads arbitrary: b) (simp_all add: process_buffer_append)

subsection \<open>Properties\<close>

text \<open>C34: What the client makes of its input, however it is cut into reads: for lines shorter than the buffer, each
  line, trimmed at both ends, is one message, and the beginning of a further line is kept; the branch for a
  message, meant for one that is not just spaces, is taken for every message but those of one character. (For an
  empty line the code forms the address in front of its buffer, \<^verbatim>\<open>message_buffer - 1\<close>, which C does not define but no
  usual machine notices; here it is the position before the first.)\<close>

theorem client_lines:
  assumes "concat reads = concat (map (\<lambda>l. l @ [NL]) ls) @ u"
    and "\<forall>l \<in> set ls. NL \<notin> set l \<and> length l < BUFFER_SIZE" "NL \<notin> set u" "length u < BUFFER_SIZE"
  shows "process_reads reads [] = (u, map (\<lambda>l. (strip l, length (strip l) \<noteq> 1)) ls)"
  unfolding process_reads_concat assms(1) using process_buffer_lines [OF assms(2-4)] .

theorem client_lines_witness:
  "process_reads [''h'', ''i '' @ [NL], ''x'' @ [NL, CHR ''y'']] [] = (''y'', [(''hi'', True), (''x'', False)])"
proof -
  have "process_reads [''h'', ''i '' @ [NL], ''x'' @ [NL, CHR ''y'']] []
      = (''y'', map (\<lambda>l. (strip l, length (strip l) \<noteq> 1)) [''hi '', ''x''])"
    by (rule client_lines) (simp_all add: BUFFER_SIZE_def)
  then show ?thesis by (simp add: strip_def strip_end_def isspace_def)
qed

text \<open>A connected client cannot be used: feeding it a message writes behind its array of messages, and an update
  in which the socket is ready for writing reads an uninitialised buffer.\<close>

lemma client_connected_undefined:
  assumes "chat_client_connect net addr (chat_client_new name) = Some (Chat_ok, c)" "0 \<le> a_socket net" "msg \<noteq> []"
    and "0 < a_poll net'" "a_pollout net'"
  shows "chat_client_feed msg c = None \<and> chat_client_update net' c buffered = None"
proof -
  have c: "c = (chat_client_new name)\<lparr>l_socket := a_socket net, l_is_started := True\<rparr>"
    using assms(1) by (auto simp: chat_client_connect_def bind_eq_Some_iff split: if_splits)
  show ?thesis
    using assms(2-5) unfolding c
    by (simp add: chat_client_feed_def chat_client_new_def store_at_def chat_client_update_def Let_def)
qed

definition demo_client_net :: client_net where
  "demo_client_net = \<lparr>a_getaddrinfo_ok = True, a_socket = 3, a_getfl_ok = True, a_setfl_ok = True, a_connect_ok = True,
     a_poll = 1, a_pollin = False, a_pollout = True, a_read = None\<rparr>"

lemma client_connected_undefined_example:
  "\<exists>c. chat_client_connect demo_client_net ''a:1'' (chat_client_new ''me'') = Some (Chat_ok, c) \<and> chat_client_feed ''hi'' c = None"
proof -
  have "chat_client_connect demo_client_net ''a:1'' (chat_client_new ''me'')
      = Some (Chat_ok, (chat_client_new ''me'')\<lparr>l_socket := 3, l_is_started := True\<rparr>)"
    by (simp add: chat_client_connect_def split_addr_port_def demo_client_net_def Let_def)
  from client_connected_undefined [OF this, of "''hi''" demo_client_net] this show ?thesis
    by (auto simp: demo_client_net_def)
qed

end
