(* ===== verification/Chat_Exe.thy ===== *)
theory Chat_Exe
  imports Chat_Client Decimal
begin

section \<open>The chat programs\<close>

text \<open>
  \<^verbatim>\<open>hw5/chat_client_exe.c\<close> and \<^verbatim>\<open>hw5/chat_server_exe.c\<close> with their loops around the client and the server, and what the
  functions that delete a client, a server and a message free. A turn of a loop gets the results of its system calls as a record.
\<close>

subsection \<open>Deleting\<close>

datatype freed = Freed_struct | Freed_name | Freed_messages | Freed_peers | Closed int

definition chat_client_delete :: "client option \<Rightarrow> freed list" where
  "chat_client_delete c =
     (case c of None \<Rightarrow> []
      | Some c \<Rightarrow> [Freed_name] @ (if l_socket c \<ge> 0 then [Closed (l_socket c)] else []) @ [Freed_struct])"

definition chat_server_delete :: "server \<Rightarrow> freed list" where
  "chat_server_delete v = (if v_socket v \<ge> 0 then [Closed (v_socket v)] else []) @ [Freed_messages, Freed_peers, Freed_struct]"

text \<open>\<^verbatim>\<open>chat_message_delete\<close> of element \<open>i\<close> of the client's array of messages: only the address of the first element can be given
  to \<^verbatim>\<open>free\<close>, and then the whole array is gone.\<close>

definition chat_message_delete :: "nat \<Rightarrow> client \<Rightarrow> client option" where
  "chat_message_delete i c = (if i = 0 \<and> l_messages c \<noteq> [] then Some (c\<lparr>l_messages := []\<rparr>) else None)"

subsection \<open>The port\<close>

text \<open>\<^verbatim>\<open>strtol\<close> in base 10: the number, brought into the range of \<^verbatim>\<open>long\<close>, whether it was out of range, and the rest.\<close>

definition strtol :: "string \<Rightarrow> int \<times> bool \<times> string" where
  "strtol s =
     (let (sg, t) = sign (dropWhile isspace s);
          ds = takeWhile isdigit t;
          x = sg * int (value_of ds)
      in if ds = [] then (0, False, s)
         else (max (- (2 ^ 63)) (min (2 ^ 63 - 1) x), x < - (2 ^ 63) \<or> x > 2 ^ 63 - 1, dropWhile isdigit t))"

definition port_from_str :: "string \<Rightarrow> 16 word option" where
  "port_from_str str =
     (let (res, out_of_range, end_of) = strtol str
      in if res = 0 \<and> out_of_range then None
         else if end_of \<noteq> [] then None
         else if res > 65535 \<or> res < 0 then None
         else Some (of_int res))"

lemma strtol_scan: "scan_number (- (2 ^ 63)) (2 ^ 63 - 1) s = Scanned x r \<Longrightarrow> strtol s = (x, False, r)"
  by (auto simp: scan_number_def strtol_def Let_def split: prod.splits if_splits)

text \<open>A port in decimal is accepted exactly if it fits 16 bits; but so is the empty string, as port 0.\<close>

lemma port_from_str_show:
  assumes "\<bar>x\<bar> < 2 ^ 63"
  shows "port_from_str (show_int x) = (if 0 \<le> x \<and> x < 2 ^ 16 then Some (of_int x) else None)"
proof -
  have "scan_number (- (2 ^ 63)) (2 ^ 63 - 1) (show_int x @ []) = Scanned x []" by (rule scan_show_int) (use assms in simp_all)
  then have "strtol (show_int x) = (x, False, [])" using strtol_scan by simp
  then show ?thesis by (simp add: port_from_str_def)
qed

lemma port_from_str_empty: "port_from_str [] = Some 0"
  by (simp add: port_from_str_def strtol_def)

subsection \<open>The client program\<close>

text \<open>What the system calls of one turn give: \<^verbatim>\<open>poll\<close>, whether there is input, what \<^verbatim>\<open>read\<close> returns (\<^const>\<open>None\<close> for \<open>-1\<close>), whether
  there are events for the client, and what the client's own calls find.\<close>

record turn =
  u_poll :: int
  u_input :: bool
  u_read :: "string option"
  u_client :: bool
  u_net :: client_net

text \<open>The messages that are printed; each is deleted after it has been popped. A message without text is printed as an empty one.\<close>

lemma pop_next_Some:
  assumes "chat_client_pop_next c = Some (Some m, c')"
  shows "l_current_message_index c < l_total_messages_count c"
    "c' = c\<lparr>l_current_message_index := l_current_message_index c + 1\<rparr>"
  using assms by (auto simp: chat_client_pop_next_def bind_eq_Some_iff split: if_splits)

lemma flush_progress:
  assumes "i < (n :: 32 word)"
  shows "unat (n - (i + 1)) < unat (n - i)"
proof -
  have "1 \<le> n - i" using assms by (metis less_irrefl linorder_not_less right_minus_eq word_less_1)
  then have "unat (n - i - 1) = unat (n - i) - 1" "0 < unat (n - i)"
    by (simp_all add: unat_sub) (metis linorder_not_less unat_gt_0 word_less_1)
  then show ?thesis by (simp add: diff_diff_eq [symmetric])
qed

lemma delete_same:
  assumes "chat_message_delete i c = Some c'"
  shows "c' = c\<lparr>l_messages := []\<rparr>"
  using assms by (simp add: chat_message_delete_def split: if_splits)

lemma flush_less:
  assumes "chat_client_pop_next c = Some (Some m, c')" "chat_message_delete i c' = Some c''"
  shows "unat (l_total_messages_count c'' - l_current_message_index c'') < unat (l_total_messages_count c - l_current_message_index c)"
  using flush_progress [OF pop_next_Some(1) [OF assms(1)]] by (simp add: delete_same [OF assms(2)] pop_next_Some(2) [OF assms(1)])

function flush_messages :: "client \<Rightarrow> (string list \<times> client) option" where
  "flush_messages c =
     (case chat_client_pop_next c of
        None \<Rightarrow> None
      | Some (None, c') \<Rightarrow> Some ([], c')
      | Some (Some m, c') \<Rightarrow>
          do { c'' \<leftarrow> chat_message_delete (unat (l_current_message_index c)) c';
               (out, d) \<leftarrow> flush_messages c'';
               Some (m_data m # out, d) })"
  by pat_completeness auto

termination
  by (relation "measure (\<lambda>c. unat (l_total_messages_count c - l_current_message_index c))") (auto intro: flush_less)

declare flush_messages.simps [simp del]

text \<open>One turn of the loop: the program goes on, or it leaves the loop, deletes the client and returns 0. \<open>buffered\<close> is the buffer of
  \<^verbatim>\<open>_process_buffer\<close>.\<close>

datatype turn_result = Go_on client string "string list" | Leave client

definition turn_input :: "turn \<Rightarrow> client \<Rightarrow> (client + client) option" where
  "turn_input u c =
     (if \<not> u_input u then Some (Inr c)
      else case u_read u of
             None \<Rightarrow> if l_total_messages_count c \<le> l_current_message_index c then Some (Inl c) else None
           | Some buf \<Rightarrow>
               if buf = [] then Some (Inl c)
               else do { (rc, c') \<leftarrow> chat_client_feed buf c; Some (if rc = Chat_ok then Inr c' else Inl c') })"

definition turn_client :: "turn \<Rightarrow> client \<Rightarrow> string \<Rightarrow> (client + string) option" where
  "turn_client u c buffered =
     (if \<not> u_client u then Some (Inr buffered)
      else do { (rc, buffered') \<leftarrow> chat_client_update (u_net u) c buffered;
                Some (if rc = Chat_ok \<or> rc = Chat_error CHAT_ERR_TIMEOUT then Inr buffered' else Inl c) })"

definition client_turn :: "turn \<Rightarrow> client \<Rightarrow> string \<Rightarrow> turn_result option" where
  "client_turn u c buffered =
     (if u_poll u < 0 then Some (Leave c)
      else do { r \<leftarrow> turn_input u c;
                case r of
                  Inl c' \<Rightarrow> Some (Leave c')
                | Inr c' \<Rightarrow>
                    do { q \<leftarrow> turn_client u c' buffered;
                         case q of
                           Inl c'' \<Rightarrow> Some (Leave c'')
                         | Inr buffered' \<Rightarrow> do { (out, d) \<leftarrow> flush_messages c'; Some (Go_on d buffered' out) } } })"

text \<open>The program: its exit code with what it has freed, or that it still runs after the given turns.\<close>

datatype outcome = Exit int "freed list" | Runs

fun client_loop :: "turn list \<Rightarrow> client \<Rightarrow> string \<Rightarrow> outcome option" where
  "client_loop [] c buffered = Some Runs"
| "client_loop (u # us) c buffered =
     do { r \<leftarrow> client_turn u c buffered;
          case r of Leave d \<Rightarrow> Some (Exit 0 (chat_client_delete (Some d))) | Go_on d buffered' _ \<Rightarrow> client_loop us d buffered' }"

definition client_main :: "string list \<Rightarrow> client_net \<Rightarrow> turn list \<Rightarrow> outcome option" where
  "client_main argv net us =
     (if length argv < 2 then Some (Exit (- 1) [])
      else let name = (if length argv \<ge> 3 then argv ! 2 else ''anon'')
           in do { (rc, cli) \<leftarrow> chat_client_connect net (argv ! 1) (chat_client_new name);
                   if rc \<noteq> Chat_ok then Some (Exit (- 1) (chat_client_delete (Some cli)))
                   else if chat_client_get_descriptor cli < 0 then None
                   else client_loop us cli [] })"

subsection \<open>The client program does not run\<close>

lemma flush_new:
  assumes "l_messages c = replicate 10 (Some zero_message)" "l_total_messages_count c = 10" "l_current_message_index c = 0"
  shows "flush_messages c = None"
proof -
  let ?c1 = "c\<lparr>l_current_message_index := 1, l_messages := []\<rparr>"
  have less: "\<not> (10 :: 32 word) \<le> 1" "\<not> (10 :: 32 word) \<le> 0" by (simp_all add: word_le_nat_alt)
  have "chat_client_pop_next c = Some (Some zero_message, c\<lparr>l_current_message_index := 1\<rparr>)"
    using assms by (simp add: chat_client_pop_next_def load_at_def less)
  moreover have "chat_message_delete 0 (c\<lparr>l_current_message_index := 1\<rparr>) = Some ?c1"
    using assms by (simp add: chat_message_delete_def)
  moreover have "chat_client_pop_next ?c1 = None"
    using assms by (simp add: chat_client_pop_next_def load_at_def less)
  then have "flush_messages ?c1 = None" by (subst flush_messages.simps) simp
  ultimately show ?thesis using assms(3) by (subst flush_messages.simps) simp
qed

text \<open>The feeding of a new client fails, so that a turn either leaves the loop or is undefined.\<close>

lemma turn_new:
  assumes "c = (chat_client_new name)\<lparr>l_socket := sock, l_is_started := True\<rparr>" "client_turn u c buffered = Some r"
  shows "\<exists>d. r = Leave d"
proof -
  have flush: "flush_messages c = None" using assms(1) by (intro flush_new) (simp_all add: chat_client_new_def)
  have feed: "chat_client_feed buf c = None" if "buf \<noteq> []" for buf
    using that assms(1) by (simp add: chat_client_feed_def chat_client_new_def store_at_def)
  have "c' = c" if "turn_input u c = Some (Inr c')" for c'
    using that feed by (auto simp: turn_input_def split: if_splits option.splits)
  then have inr: "turn_input u c = Some (Inr c') \<Longrightarrow> c' = c" for c' by blast
  show ?thesis
  proof (cases "u_poll u < 0")
    case True
    with assms(2) show ?thesis by (auto simp: client_turn_def)
  next
    case False
    with assms(2) obtain y where y: "turn_input u c = Some y" by (auto simp: client_turn_def bind_eq_Some_iff)
    show ?thesis
    proof (cases y)
      case (Inl d)
      with assms(2) False y have "r = Leave d" by (simp add: client_turn_def)
      then show ?thesis by blast
    next
      case (Inr c')
      then have "c' = c" using inr y by simp
      with assms(2) False y Inr obtain q where q: "turn_client u c buffered = Some q" by (auto simp: client_turn_def bind_eq_Some_iff)
      with assms(2) False y Inr \<open>c' = c\<close> flush show ?thesis by (cases q) (auto simp: client_turn_def)
    qed
  qed
qed

text \<open>The client program never gets through a turn of its loop. Once it is connected, every first turn that does not
  leave the loop at once (no event, the end of the input, a failed call) is undefined: the messages of a new client are counted as ten to be
  printed, and deleting the first of them frees the array they are in. With feeding undefined as well, the program can only end.\<close>

lemma client_main_ends:
  assumes "client_main argv net (u # us) = Some r"
  shows "\<exists>code closed. r = Exit code closed"
proof (cases "length argv < 2")
  case True
  with assms show ?thesis by (auto simp: client_main_def)
next
  case False
  define name where "name = (if length argv \<ge> 3 then argv ! 2 else ''anon'')"
  from False assms obtain rc cli where con: "chat_client_connect net (argv ! 1) (chat_client_new name) = Some (rc, cli)"
    and r: "(if rc \<noteq> Chat_ok then Some (Exit (- 1) (chat_client_delete (Some cli)))
      else if chat_client_get_descriptor cli < 0 then None else client_loop (u # us) cli []) = Some r"
    by (auto simp: client_main_def name_def [symmetric] bind_eq_Some_iff)
  show ?thesis
  proof (cases "rc = Chat_ok")
    case True
    then have cli: "cli = (chat_client_new name)\<lparr>l_socket := a_socket net, l_is_started := True\<rparr>"
      using con by (auto simp: chat_client_connect_def bind_eq_Some_iff split: if_splits)
    from r True obtain t where t: "client_turn u cli [] = Some t"
      and end_of: "(case t of Leave d \<Rightarrow> Some (Exit 0 (chat_client_delete (Some d))) | Go_on d buffered' _ \<Rightarrow> client_loop us d buffered') = Some r"
      by (auto simp: bind_eq_Some_iff split: if_splits)
    from turn_new [OF cli t] end_of show ?thesis by auto
  qed (use r in auto)
qed

definition demo_turn :: turn where
  "demo_turn = \<lparr>u_poll = 1, u_input = True, u_read = Some [], u_client = False, u_net = demo_client_net\<rparr>"

lemma client_main_ends_example:
  "\<exists>r code closed. client_main [''client'', ''a:1''] demo_client_net [demo_turn] = Some r \<and> r = Exit code closed"
proof -
  have "client_main [''client'', ''a:1''] demo_client_net [demo_turn] = Some (Exit 0 [Freed_name, Closed 3, Freed_struct])"
    by (simp add: client_main_def chat_client_connect_def split_addr_port_def demo_client_net_def Let_def chat_client_get_descriptor_def
        client_turn_def demo_turn_def turn_input_def chat_client_delete_def)
  with client_main_ends [OF this] show ?thesis by blast
qed

subsection \<open>The server program\<close>

text \<open>The server with whether its array of messages has been freed, which deleting the first message does. A freed array may not be
  used; a message that arrives then would be stored in it.\<close>

definition serve_update :: "net \<Rightarrow> server \<times> bool \<Rightarrow> (chat_result \<times> server \<times> bool) option" where
  "serve_update net vf =
     (let (v, gone) = vf
      in do { (rc, v') \<leftarrow> chat_server_update net v;
              if gone \<and> v_total_messages_count v' \<noteq> v_total_messages_count v then None else Some (rc, v', gone) })"

lemma server_pop_Some:
  assumes "chat_server_pop_next v = Some (Some m, v')"
  shows "v_current_message_index v < v_total_messages_count v"
    "v' = v\<lparr>v_current_message_index := v_current_message_index v + 1\<rparr>"
  using assms by (auto simp: chat_server_pop_next_def bind_eq_Some_iff split: if_splits)

lemma server_pop_less:
  assumes "chat_server_pop_next v = Some (Some m, v')" "v_current_message_index v = 0"
  shows "unat (v_total_messages_count v' - v_current_message_index v') < unat (v_total_messages_count v)"
  using flush_progress [OF server_pop_Some(1) [OF assms(1)]] assms(2) by (simp add: server_pop_Some(2) [OF assms(1)])

function serve_flush :: "server \<times> bool \<Rightarrow> (string list \<times> server \<times> bool) option" where
  "serve_flush (v, gone) =
     (case chat_server_pop_next v of
        None \<Rightarrow> None
      | Some (None, v') \<Rightarrow> Some ([], v', gone)
      | Some (Some m, v') \<Rightarrow>
          if gone \<or> v_current_message_index v \<noteq> 0 then None
          else do { (out, w) \<leftarrow> serve_flush (v', True); Some (m_data m # out, w) })"
  by pat_completeness auto

termination
  by (relation "measure (\<lambda>(v, _). unat (v_total_messages_count v - v_current_message_index v))")
     (auto intro: server_pop_less)

declare serve_flush.simps [simp del]

fun server_loop :: "net list \<Rightarrow> server \<times> bool \<Rightarrow> outcome option" where
  "server_loop [] vf = Some Runs"
| "server_loop (net # nets) vf =
     do { (rc, v, gone) \<leftarrow> serve_update net vf;
          if rc \<noteq> Chat_ok then if gone then None else Some (Exit 0 (chat_server_delete v))
          else do { (_, w) \<leftarrow> serve_flush (v, gone); server_loop nets w } }"

definition server_main :: "string list \<Rightarrow> net \<Rightarrow> net list \<Rightarrow> outcome option" where
  "server_main argv net nets =
     (if length argv < 2 then Some (Exit (- 1) [])
      else case port_from_str (argv ! 1) of
             None \<Rightarrow> Some (Exit (- 1) [])
           | Some _ \<Rightarrow>
               do { (rc, v) \<leftarrow> chat_server_listen net chat_server_new;
                    if rc \<noteq> Chat_ok then Some (Exit (- 1) (chat_server_delete v)) else server_loop nets (v, False) })"

lemma server_main_ends: "server_main argv net (n # ns) \<noteq> Some Runs"
proof
  assume run: "server_main argv net (n # ns) = Some Runs"
  then obtain v where listen: "chat_server_listen net chat_server_new = Some (Chat_ok, v)"
    and loop: "server_loop (n # ns) (v, False) = Some Runs"
    by (auto simp: server_main_def bind_eq_Some_iff split: if_splits option.splits)
  from listen have "v_is_started v" "v_peer_count v = 1"
    by (auto simp: chat_server_listen_def chat_server_new_def Let_def bind_eq_Some_iff split: if_splits)
  then have "chat_server_update n v = None" by (simp add: chat_server_update_def make_pollfds_def store_at_def Let_def)
  with loop show False by (simp add: serve_update_def)
qed

text \<open>Even with updates that work, a second message in one turn is undefined: the first one's deletion has freed both.\<close>

lemma serve_flush_two:
  assumes "v_current_message_index v = 0" "1 < v_total_messages_count v" "length (v_messages v) > 0" "v_messages v ! 0 \<noteq> None"
  shows "serve_flush (v, gone) = None"
proof -
  obtain m where m: "v_messages v ! 0 = Some m" using assms(4) by blast
  have less: "\<not> v_total_messages_count v \<le> 0" "\<not> v_total_messages_count v \<le> 1" using assms(2) by (auto simp: not_le order.strict_trans [of 0 1])
  let ?w = "v\<lparr>v_current_message_index := 1\<rparr>"
  have "chat_server_pop_next v = Some (Some m, ?w)"
    using assms m less by (simp add: chat_server_pop_next_def load_at_def)
  moreover have "serve_flush (?w, True) = None"
    by (subst serve_flush.simps) (auto simp: chat_server_pop_next_def less bind_eq_Some_iff split: option.splits)
  ultimately show ?thesis using assms(1) by (subst serve_flush.simps) simp
qed

text \<open>C35: Neither chat program ever gets through a turn of its loop, whatever the system calls give: composed of the functions of
  client and server, each of them ends in its first turn or does something undefined there. A connected client prints and deletes messages it
  never received, and with the first frees the array they are in; a listening server writes behind its array for \<^verbatim>\<open>poll\<close>.\<close>

theorem chat_programs_end:
  "client_main argv net (u # us) \<noteq> Some Runs \<and> server_main argv' net' (n # ns) \<noteq> Some Runs"
  using client_main_ends [of argv net u us Runs] server_main_ends by auto

end
