(* ===== verification/Heap_Help.thy ===== *)
theory Heap_Help
  imports Prelude "HOL-Library.Word"
begin

section \<open>The leak detector\<close>

text \<open>
  \<^verbatim>\<open>hw2/heap_help.c\<close> (the other exercises use an older copy without the content mode). The file replaces
  \<^verbatim>\<open>malloc\<close> and its relatives by functions that call the original ones and keep a list of the allocations that have not been freed.
  Memory is a set of addresses (0 is the null pointer); what an original function returned is an argument of the function that calls it, as are
  the back trace and, for the report, the answers of \<^verbatim>\<open>dladdr\<close>. A failed assertion aborts the program (\<^const>\<open>None\<close>).
  One thread runs, so that the spin locks are free whenever they are taken; \<^verbatim>\<open>mmap\<close> does not fail.
\<close>

subsection \<open>State\<close>

definition MAX_BACKTRACE_LEN :: nat where
  "MAX_BACKTRACE_LEN = 64"

definition ALLOCATION_BATCH_SIZE :: nat where
  "ALLOCATION_BATCH_SIZE = 1024"

datatype report_mode = REPORT_MODE_VERBOSE | REPORT_MODE_LEAKS | REPORT_MODE_QUIET

datatype content_mode = CONTENT_MODE_ORIGINAL | CONTENT_MODE_TRASH

record allocation =
  a_trace :: "nat list"
  a_mem :: nat
  a_size :: nat

text \<open>An allocation object is a number: object \<open>k\<close> of batch \<open>b\<close> is \<open>b * ALLOCATION_BATCH_SIZE + k\<close>. The lists of
  objects are given from their heads; \<open>h_filled\<close> are the ranges filled with \<^verbatim>\<open>#\<close>.\<close>

record tracker =
  h_init_lock :: bool
  h_is_init_done :: bool
  h_is_exit_done :: bool
  h_init_lock_count :: nat
  h_depth :: nat
  h_report_mode :: report_mode
  h_content_mode :: content_mode
  h_static_size :: nat
  h_static_used :: nat
  h_static_buf :: nat
  h_alloc_count :: int
  h_alloc_count_total :: nat
  h_allocs :: "(nat \<times> allocation) list"
  h_alloc_pool :: "nat list"
  h_batches :: nat
  h_batch_used :: nat
  h_filled :: "(nat \<times> nat) list"

definition tracker_start :: tracker where
  "tracker_start = \<lparr>h_init_lock = False, h_is_init_done = False, h_is_exit_done = False, h_init_lock_count = 0, h_depth = 0,
     h_report_mode = REPORT_MODE_LEAKS, h_content_mode = CONTENT_MODE_ORIGINAL, h_static_size = 0, h_static_used = 0,
     h_static_buf = 0, h_alloc_count = 0, h_alloc_count_total = 0, h_allocs = [], h_alloc_pool = [], h_batches = 0,
     h_batch_used = 0, h_filled = []\<rparr>"

definition heaph_assert :: "bool \<Rightarrow> tracker \<Rightarrow> tracker option" where
  "heaph_assert b s = (if b then Some s else None)"

subsection \<open>Tracking\<close>

definition alloc_is_static :: "tracker \<Rightarrow> nat \<Rightarrow> bool" where
  "alloc_is_static s ptr \<longleftrightarrow> ptr \<noteq> 0 \<and> h_static_buf s \<le> ptr \<and> ptr \<le> h_static_buf s + h_static_size s"

definition take_object :: "tracker \<Rightarrow> nat \<times> tracker" where
  "take_object s =
     (case h_alloc_pool s of
        a # pool \<Rightarrow> (a, s\<lparr>h_alloc_pool := pool\<rparr>)
      | [] \<Rightarrow>
          let s1 = (if h_batches s = 0 \<or> h_batch_used s = ALLOCATION_BATCH_SIZE
                    then s\<lparr>h_batches := h_batches s + 1, h_batch_used := 0\<rparr> else s)
          in ((h_batches s1 - 1) * ALLOCATION_BATCH_SIZE + h_batch_used s1, s1\<lparr>h_batch_used := h_batch_used s1 + 1\<rparr>))"

definition alloc_trace_new :: "nat list \<Rightarrow> nat \<Rightarrow> nat \<Rightarrow> tracker \<Rightarrow> tracker option" where
  "alloc_trace_new backtrace ptr sz s =
     (if alloc_is_static s ptr then Some s
      else if h_depth s > 1 then Some s
      else if \<not> h_depth s > 0 then None
      else if \<not> h_is_init_done s then None
      else if h_is_exit_done s then Some s
      else let (a, s1) = take_object s;
               trace = (if h_depth s = 1 then take MAX_BACKTRACE_LEN backtrace else [])
           in Some (s1\<lparr>h_allocs := (a, \<lparr>a_trace = trace, a_mem = ptr, a_size = sz\<rparr>) # h_allocs s1,
                       h_alloc_count := h_alloc_count s1 + 1, h_alloc_count_total := h_alloc_count_total s1 + 1\<rparr>))"

text \<open>Taking the first allocation at an address off the list.\<close>

fun unlink_alloc :: "nat \<Rightarrow> (nat \<times> allocation) list \<Rightarrow> (nat \<times> (nat \<times> allocation) list) option" where
  "unlink_alloc ptr [] = None"
| "unlink_alloc ptr ((a, x) # as) =
     (if a_mem x = ptr then Some (a, as) else map_option (apsnd ((#) (a, x))) (unlink_alloc ptr as))"

definition alloc_free :: "nat \<Rightarrow> tracker \<Rightarrow> tracker option" where
  "alloc_free ptr s =
     (if alloc_is_static s ptr then Some s
      else if h_depth s > 1 then Some s
      else if \<not> h_is_init_done s then None
      else if h_is_exit_done s then Some s
      else case unlink_alloc ptr (h_allocs s) of
             None \<Rightarrow> None
           | Some (a, as) \<Rightarrow>
               heaph_assert (h_alloc_count s - 1 \<ge> 0)
                 (s\<lparr>h_allocs := as, h_alloc_pool := a # h_alloc_pool s, h_alloc_count := h_alloc_count s - 1\<rparr>))"

subsection \<open>The static allocator\<close>

definition static_allocator_touch :: "nat \<Rightarrow> tracker \<Rightarrow> tracker" where
  "static_allocator_touch buf s = (if h_static_buf s \<noteq> 0 then s else s\<lparr>h_static_size := 16 * 1024, h_static_buf := buf\<rparr>)"

text \<open>\<^verbatim>\<open>memset(res, '#', size)\<close> in the content mode for trash.\<close>

definition fill_trash :: "nat \<Rightarrow> nat \<Rightarrow> tracker \<Rightarrow> tracker" where
  "fill_trash ptr sz s = (if h_content_mode s = CONTENT_MODE_TRASH then s\<lparr>h_filled := (ptr, sz) # h_filled s\<rparr> else s)"

definition static_malloc :: "nat \<Rightarrow> nat \<Rightarrow> tracker \<Rightarrow> (nat \<times> tracker) option" where
  "static_malloc buf sz s =
     (if h_is_init_done s \<or> \<not> h_init_lock s then None
      else let s1 = static_allocator_touch buf s
           in if \<not> h_static_size s1 \<ge> h_static_used s1 \<or> \<not> sz < h_static_size s1 - h_static_used s1 then None
              else let res = h_static_buf s1 + h_static_used s1; s2 = fill_trash res sz s1
                   in Some (res, s2\<lparr>h_static_used := h_static_used s2 + sz\<rparr>))"

definition static_free :: "nat \<Rightarrow> nat \<Rightarrow> tracker \<Rightarrow> tracker option" where
  "static_free buf ptr s =
     (if h_is_init_done s \<or> \<not> h_init_lock s then None
      else let s1 = static_allocator_touch buf s in heaph_assert (ptr \<noteq> 0 \<longrightarrow> alloc_is_static s1 ptr) s1)"

definition static_calloc :: "nat \<Rightarrow> nat \<Rightarrow> nat \<Rightarrow> tracker \<Rightarrow> (nat \<times> tracker) option" where
  "static_calloc buf num sz s = static_malloc buf (c_size (sz * num)) s"

subsection \<open>Initialisation\<close>

definition heaph_lock :: "tracker \<Rightarrow> tracker" where
  "heaph_lock s = (let s1 = (if h_init_lock_count s = 0 then s\<lparr>h_init_lock := True\<rparr> else s)
                   in s1\<lparr>h_init_lock_count := h_init_lock_count s1 + 1\<rparr>)"

definition heaph_unlock :: "tracker \<Rightarrow> tracker option" where
  "heaph_unlock s =
     (if \<not> h_init_lock_count s > 0 then None
      else let s1 = s\<lparr>h_init_lock_count := h_init_lock_count s - 1\<rparr>
           in if h_init_lock_count s1 = 0 then map_option (\<lambda>s. s\<lparr>h_init_lock := False\<rparr>) (heaph_assert (h_init_lock s1) s1)
              else Some s1)"

text \<open>The environment of the initialisation: where the static buffer is, the calls of \<^verbatim>\<open>malloc\<close> and \<^verbatim>\<open>calloc\<close> (number of
  elements and their size) and \<^verbatim>\<open>free\<close> that \<^verbatim>\<open>dlsym\<close> makes, which end in the static allocator; and the two environment variables.\<close>

datatype init_call = Init_malloc nat | Init_calloc nat nat | Init_free nat

record init_env =
  i_static_buf :: nat
  i_calls :: "init_call list"
  i_HHREPORT :: "string option"
  i_HHCONTENT :: "string option"

definition enter :: "tracker \<Rightarrow> tracker" where
  "enter s = s\<lparr>h_depth := h_depth s + 1\<rparr>"

definition leave :: "tracker \<Rightarrow> tracker" where
  "leave s = s\<lparr>h_depth := h_depth s - 1\<rparr>"

text \<open>The replaced functions while the initialisation runs.\<close>

fun run_init_call :: "nat \<Rightarrow> init_call \<Rightarrow> tracker \<Rightarrow> tracker option" where
  "run_init_call buf (Init_malloc sz) s =
     do { (res, s1) \<leftarrow> static_malloc buf sz (enter s);
          s2 \<leftarrow> alloc_trace_new [] res sz s1;
          Some (leave (fill_trash res sz s2)) }"
| "run_init_call buf (Init_calloc num sz) s =
     do { (res, s1) \<leftarrow> static_calloc buf num sz (enter s);
          s2 \<leftarrow> alloc_trace_new [] res (c_size (num * sz)) s1;
          Some (leave s2) }"
| "run_init_call buf (Init_free ptr) s =
     (if ptr = 0 \<or> alloc_is_static s ptr then Some s
      else do { s1 \<leftarrow> alloc_free ptr (enter s); s2 \<leftarrow> static_free buf ptr s1; Some (leave s2) })"

fun run_init_calls :: "nat \<Rightarrow> init_call list \<Rightarrow> tracker \<Rightarrow> tracker option" where
  "run_init_calls buf [] s = Some s"
| "run_init_calls buf (c # cs) s = do { s' \<leftarrow> run_init_call buf c s; run_init_calls buf cs s' }"

definition set_report_mode :: "string option \<Rightarrow> tracker \<Rightarrow> tracker" where
  "set_report_mode v s =
     (if v = Some ''v'' then s\<lparr>h_report_mode := REPORT_MODE_VERBOSE\<rparr>
      else if v = Some ''l'' then s\<lparr>h_report_mode := REPORT_MODE_LEAKS\<rparr>
      else if v = Some ''q'' then s\<lparr>h_report_mode := REPORT_MODE_QUIET\<rparr> else s)"

definition set_content_mode :: "string option \<Rightarrow> tracker \<Rightarrow> tracker" where
  "set_content_mode v s =
     (if v = Some ''o'' then s\<lparr>h_content_mode := CONTENT_MODE_ORIGINAL\<rparr>
      else if v = Some ''t'' then s\<lparr>h_content_mode := CONTENT_MODE_TRASH\<rparr> else s)"

definition heaph_init :: "init_env \<Rightarrow> tracker \<Rightarrow> tracker option" where
  "heaph_init env s =
     map_option (\<lambda>s. set_content_mode (i_HHCONTENT env) (set_report_mode (i_HHREPORT env) s)) (run_init_calls (i_static_buf env) (i_calls env) s)"

definition heaph_touch :: "init_env \<Rightarrow> tracker \<Rightarrow> tracker option" where
  "heaph_touch env s =
     (if h_is_init_done s then Some s
      else if h_init_lock_count s > 0 then Some s
      else do { s1 \<leftarrow> heaph_init env (heaph_lock s);
                s2 \<leftarrow> heaph_unlock (s1\<lparr>h_is_init_done := True\<rparr>);
                heaph_assert (\<not> h_is_init_done s1) s2 })"

subsection \<open>The replaced functions\<close>

text \<open>After the initialisation. \<open>res\<close> is what the original function returned.\<close>

definition heaph_malloc :: "init_env \<Rightarrow> nat list \<Rightarrow> nat \<Rightarrow> nat \<Rightarrow> tracker \<Rightarrow> tracker option" where
  "heaph_malloc env backtrace sz res s =
     do { s1 \<leftarrow> heaph_touch env s;
          s2 \<leftarrow> (if res \<noteq> 0 then map_option (fill_trash res sz) (alloc_trace_new backtrace res sz (enter s1)) else Some (enter s1));
          Some (leave s2) }"

definition heaph_calloc :: "init_env \<Rightarrow> nat list \<Rightarrow> nat \<Rightarrow> nat \<Rightarrow> nat \<Rightarrow> tracker \<Rightarrow> tracker option" where
  "heaph_calloc env backtrace num sz res s =
     do { s1 \<leftarrow> heaph_touch env s;
          s2 \<leftarrow> (if res \<noteq> 0 then alloc_trace_new backtrace res (c_size (num * sz)) (enter s1) else Some (enter s1));
          Some (leave s2) }"

text \<open>\<open>res\<close> may depend on the pointer passed on.\<close>

definition heaph_realloc :: "init_env \<Rightarrow> nat list \<Rightarrow> nat \<Rightarrow> nat \<Rightarrow> (nat \<Rightarrow> nat) \<Rightarrow> tracker \<Rightarrow> tracker option" where
  "heaph_realloc env backtrace ptr0 sz res_of s =
     do { s1 \<leftarrow> heaph_touch env s;
          let ptr = (if alloc_is_static s1 ptr0 then 0 else ptr0); res = res_of ptr; s2 = enter s1 in
          do { s3 \<leftarrow> (if ptr = 0 \<and> res \<noteq> 0 then alloc_trace_new backtrace res sz (fill_trash res sz s2)
                       else if ptr \<noteq> 0 \<and> res = 0 then alloc_free ptr s2
                       else if ptr \<noteq> 0 \<and> res \<noteq> ptr then do { s3 \<leftarrow> alloc_free ptr s2; alloc_trace_new backtrace res sz s3 }
                       else Some s2);
               Some (leave s3) } }"

definition heaph_free :: "init_env \<Rightarrow> nat \<Rightarrow> tracker \<Rightarrow> tracker option" where
  "heaph_free env ptr s =
     (if ptr = 0 then Some s
      else if alloc_is_static s ptr then Some s
      else do { s1 \<leftarrow> heaph_touch env s; s2 \<leftarrow> alloc_free ptr (enter s1); Some (leave s2) })"

text \<open>\<open>len\<close> is the length of the string returned.\<close>

definition heaph_strdup :: "init_env \<Rightarrow> nat list \<Rightarrow> nat \<Rightarrow> nat \<Rightarrow> nat \<Rightarrow> tracker \<Rightarrow> tracker option" where
  "heaph_strdup env backtrace ptr len res s =
     do { s1 \<leftarrow> heaph_touch env s;
          s2 \<leftarrow> heaph_assert (\<not> h_is_exit_done s1) s1;
          s3 \<leftarrow> heaph_assert (\<not> alloc_is_static s2 ptr) s2;
          s4 \<leftarrow> (if res \<noteq> 0 then alloc_trace_new backtrace res (len + 1) (enter s3) else Some (enter s3));
          Some (leave s4) }"

definition heaph_getline :: "init_env \<Rightarrow> nat list \<Rightarrow> nat \<Rightarrow> nat \<Rightarrow> nat \<Rightarrow> tracker \<Rightarrow> tracker option" where
  "heaph_getline env backtrace line_old len line s =
     do { s1 \<leftarrow> heaph_touch env s;
          s2 \<leftarrow> heaph_assert (\<not> alloc_is_static (enter s1) line_old) (enter s1);
          s3 \<leftarrow> (if line_old = 0 \<and> line \<noteq> 0 then alloc_trace_new backtrace line (len + 1) s2
                  else if line_old \<noteq> 0 \<and> line = 0 then None
                  else if line_old \<noteq> 0 \<and> line \<noteq> 0 \<and> line_old \<noteq> line
                  then do { s3 \<leftarrow> alloc_free line_old s2; alloc_trace_new backtrace line (len + 1) s3 }
                  else if line_old \<noteq> line then None
                  else Some s2);
          Some (leave s3) }"

text \<open>\<open>sz\<close> is the size of \<^verbatim>\<open>struct addrinfo\<close>, \<open>ok\<close> tells whether the call returned 0.\<close>

definition heaph_getaddrinfo :: "init_env \<Rightarrow> nat list \<Rightarrow> nat \<Rightarrow> bool \<Rightarrow> nat \<Rightarrow> tracker \<Rightarrow> tracker option" where
  "heaph_getaddrinfo env backtrace sz ok res s =
     do { s1 \<leftarrow> heaph_touch env s;
          s2 \<leftarrow> (if ok \<and> res \<noteq> 0 then alloc_trace_new backtrace res sz (enter s1) else Some (enter s1));
          Some (leave s2) }"

definition heaph_freeaddrinfo :: "init_env \<Rightarrow> nat \<Rightarrow> tracker \<Rightarrow> tracker option" where
  "heaph_freeaddrinfo env ai s =
     (if ai = 0 then Some s
      else do { s1 \<leftarrow> heaph_assert (\<not> alloc_is_static s ai) s;
                s2 \<leftarrow> heaph_touch env s1; s3 \<leftarrow> alloc_free ai (enter s2); Some (leave s3) })"

definition heaph_get_alloc_count :: "tracker \<Rightarrow> 64 word" where
  "heaph_get_alloc_count s = of_int (h_alloc_count s)"

subsection \<open>The report\<close>

text \<open>What \<^verbatim>\<open>dladdr\<close> knows of an address: the file and the name of the symbol.\<close>

record symbol =
  y_file :: "string option"
  y_name :: "string option"

definition trace_sym_is_func :: "symbol \<Rightarrow> string \<Rightarrow> bool" where
  "trace_sym_is_func symb func = (case y_name symb of None \<Rightarrow> False | Some name \<Rightarrow> name = func)"

definition trace_sym_file_starts_with :: "symbol \<Rightarrow> string \<Rightarrow> bool" where
  "trace_sym_file_starts_with symb file = (case y_file symb of None \<Rightarrow> False | Some f \<Rightarrow> take (length file) f = file)"

definition trace_sym_is_internal :: "symbol \<Rightarrow> bool" where
  "trace_sym_is_internal symb \<longleftrightarrow>
     trace_sym_is_func symb ''puts'' \<or> trace_sym_is_func symb ''pthread_create'' \<or> trace_sym_is_func symb ''_IO_printf'' \<or>
     trace_sym_is_func symb ''_IO_puts'' \<or> trace_sym_is_func symb ''_IO_vfscanf'' \<or> trace_sym_file_starts_with symb ''libpthread.so''"

primrec trace_is_internal :: "symbol list \<Rightarrow> bool" where
  "trace_is_internal [] = False"
| "trace_is_internal (symb # syms) = (if trace_sym_is_internal symb then True else trace_is_internal syms)"

text \<open>The number of failures and the symbols.\<close>

fun trace_resolve :: "(nat \<Rightarrow> symbol option) \<Rightarrow> nat list \<Rightarrow> nat \<times> symbol list" where
  "trace_resolve dladdr [] = (0, [])"
| "trace_resolve dladdr (addr # addrs) =
     (let (failures, syms) = trace_resolve dladdr addrs
      in case dladdr addr of
           None \<Rightarrow> (failures + 1, \<lparr>y_file = None, y_name = None\<rparr> # syms)
         | Some symb \<Rightarrow> (failures, symb # syms))"

datatype report_line =
    No_leaks
  | Leak nat nat "string option list"    \<comment> \<open>number, size, names in the trace\<close>
  | Dladdr_failures nat
  | Found int nat                        \<comment> \<open>leaks, bytes\<close>
  | Suppressed int
  | Only_first int
  | Total_allocations nat

record report =
  t_count :: int
  t_report_count :: nat
  t_leak_size :: nat
  t_fail_count :: nat
  t_lines :: "report_line list"

definition report_limit :: nat where
  "report_limit = 10"

text \<open>The loop over the list of allocations.\<close>

fun report_loop :: "(nat \<Rightarrow> symbol option) \<Rightarrow> allocation list \<Rightarrow> report \<Rightarrow> report option" where
  "report_loop dladdr [] t = Some t"
| "report_loop dladdr (a # as) t =
     (if \<not> t_count t > 0 then None
      else if a_trace a = [] then report_loop dladdr as (t\<lparr>t_count := t_count t - 1\<rparr>)
      else let (failures, syms) = trace_resolve dladdr (a_trace a);
               is_internal = trace_is_internal syms;
               t1 = t\<lparr>t_fail_count := t_fail_count t + failures\<rparr>;
               t2 = (if is_internal then t1\<lparr>t_count := t_count t1 - 1\<rparr>
                     else if t_report_count t1 < report_limit
                     then t1\<lparr>t_report_count := t_report_count t1 + 1,
                              t_lines := t_lines t1 @ [Leak (t_report_count t1 + 1) (a_size a) (map y_name syms)]\<rparr>
                     else t1);
               t3 = (if \<not> is_internal then t2\<lparr>t_leak_size := c_size (t_leak_size t2 + a_size a)\<rparr> else t2)
           in report_loop dladdr as t3)"

definition heaph_atexit :: "(nat \<Rightarrow> symbol option) \<Rightarrow> tracker \<Rightarrow> (report_line list \<times> tracker) option" where
  "heaph_atexit dladdr s0 =
     (if h_is_exit_done s0 then Some ([], s0)
      else let s = s0\<lparr>h_is_exit_done := True\<rparr>; total_line = Total_allocations (h_alloc_count_total s)
           in if h_report_mode s = REPORT_MODE_QUIET then Some ([], s)
              else if h_alloc_count s = 0
              then Some (if h_report_mode s = REPORT_MODE_VERBOSE then [No_leaks, total_line] else [], s)
              else do { t \<leftarrow> report_loop dladdr (map snd (h_allocs s))
                          \<lparr>t_count = h_alloc_count s, t_report_count = 0, t_leak_size = 0, t_fail_count = 0, t_lines = []\<rparr>;
                        let out = t_lines t @ (if t_fail_count t > 0 then [Dladdr_failures (t_fail_count t)] else []) in
                        if t_count t = 0 \<and> h_report_mode s \<noteq> REPORT_MODE_VERBOSE then Some (out, s)
                        else Some (out @ [Found (t_count t) (t_leak_size t)] @
                          (if h_alloc_count s - t_count t \<noteq> 0 then [Suppressed (h_alloc_count s - t_count t)] else []) @
                          (if int (t_report_count t) < t_count t then [Only_first (int (t_report_count t))] else []) @
                          [total_line], s) })"

end
