(* ===== verification/Heap_Help_Correct.thy ===== *)
theory Heap_Help_Correct
  imports Heap_Help
begin

section \<open>The leak detector is exact\<close>

text \<open>
  The list of allocations that \<^verbatim>\<open>hw2/heap_help.c\<close> keeps refines a map from the addresses in use to their sizes,
  as long as the original functions return fresh memory and no \<^verbatim>\<open>realloc\<close> of a block fails (one that does makes the list lose a
  block); and the report at exit says of that list what it should.
\<close>

subsection \<open>The specification\<close>

text \<open>The calls of a program, with what the original functions return.\<close>

datatype heap_call =
    Malloc nat nat                \<comment> \<open>size, result\<close>
  | Calloc nat nat nat            \<comment> \<open>number, size, result\<close>
  | Realloc nat nat nat           \<comment> \<open>pointer, size, result\<close>
  | Free nat
  | Strdup nat nat nat            \<comment> \<open>pointer, length, result\<close>
  | Getline nat nat nat           \<comment> \<open>old line, length, new line\<close>
  | Getaddrinfo nat bool nat      \<comment> \<open>size of the structure, success, result\<close>
  | Freeaddrinfo nat

fun heap_exec :: "init_env \<Rightarrow> nat list \<Rightarrow> heap_call \<Rightarrow> tracker \<Rightarrow> tracker option" where
  "heap_exec env bt (Malloc sz res) s = heaph_malloc env bt sz res s"
| "heap_exec env bt (Calloc num sz res) s = heaph_calloc env bt num sz res s"
| "heap_exec env bt (Realloc ptr sz res) s = heaph_realloc env bt ptr sz (\<lambda>_. res) s"
| "heap_exec env bt (Free ptr) s = heaph_free env ptr s"
| "heap_exec env bt (Strdup ptr len res) s = heaph_strdup env bt ptr len res s"
| "heap_exec env bt (Getline line_old len line) s = heaph_getline env bt line_old len line s"
| "heap_exec env bt (Getaddrinfo sz ok res) s = heaph_getaddrinfo env bt sz ok res s"
| "heap_exec env bt (Freeaddrinfo ai) s = heaph_freeaddrinfo env ai s"

type_synonym live = "nat \<rightharpoonup> nat"

definition live_new :: "nat \<Rightarrow> nat \<Rightarrow> live \<Rightarrow> live" where
  "live_new res sz m = (if res = 0 then m else m(res \<mapsto> sz))"

definition live_free :: "nat \<Rightarrow> live \<Rightarrow> live option" where
  "live_free ptr m = (if m ptr = None then None else Some (m(ptr := None)))"

text \<open>Replacing the block \<open>old\<close> by \<open>res\<close>; a block that stays where it is keeps its recorded size.\<close>

definition live_move :: "nat \<Rightarrow> nat \<Rightarrow> nat \<Rightarrow> live \<Rightarrow> live option" where
  "live_move ptr res sz m = (if res = ptr then Some m else map_option (live_new res sz) (live_free ptr m))"

text \<open>\<open>P\<close> are the addresses of the static buffer. A call that the specification refuses (\<^const>\<open>None\<close>) gives up a block that
  is not in use, passes a pointer of the static buffer where the detector does not allow one, or loses the line of \<^verbatim>\<open>getline\<close>.
  As documented, \<^verbatim>\<open>realloc\<close> that fails (null for a size that is not 0) leaves the block in use; for the size 0 a null result
  says that the block was freed.\<close>

fun live_exec :: "(nat \<Rightarrow> bool) \<Rightarrow> heap_call \<Rightarrow> live \<Rightarrow> live option" where
  "live_exec P (Malloc sz res) m = Some (live_new res sz m)"
| "live_exec P (Calloc num sz res) m = Some (live_new res (c_size (num * sz)) m)"
| "live_exec P (Realloc ptr sz res) m = (if ptr = 0 \<or> P ptr then Some (live_new res sz m) else if res = 0 \<and> sz > 0 then Some m else live_move ptr res sz m)"
| "live_exec P (Free ptr) m = (if ptr = 0 \<or> P ptr then Some m else live_free ptr m)"
| "live_exec P (Strdup ptr len res) m = (if P ptr then None else Some (live_new res (len + 1) m))"
| "live_exec P (Getline line_old len line) m =
     (if P line_old then None else if line_old = 0 then Some (live_new line (len + 1) m)
      else if line = 0 then None else live_move line_old line (len + 1) m)"
| "live_exec P (Getaddrinfo sz ok res) m = Some (if ok then live_new res sz m else m)"
| "live_exec P (Freeaddrinfo ai) m = (if ai = 0 then Some m else if P ai then None else live_free ai m)"

text \<open>What the original functions promise: a new block is not at an address in use (apart from the block that is given up
  by the same call), nor in the static buffer. A \<^verbatim>\<open>realloc\<close> of a block does not run out of memory: that case is
  \<open>failed_realloc_aborts\<close> below.\<close>

definition fresh_block :: "(nat \<Rightarrow> bool) \<Rightarrow> nat \<Rightarrow> live \<Rightarrow> bool" where
  "fresh_block P res m \<longleftrightarrow> res = 0 \<or> \<not> P res \<and> m res = None"

fun allocator_ok :: "(nat \<Rightarrow> bool) \<Rightarrow> heap_call \<Rightarrow> live \<Rightarrow> bool" where
  "allocator_ok P (Malloc sz res) m = fresh_block P res m"
| "allocator_ok P (Calloc num sz res) m = fresh_block P res m"
| "allocator_ok P (Realloc ptr sz res) m = (if ptr = res \<and> \<not> P ptr then True
     else fresh_block P res m \<and> (ptr \<noteq> 0 \<and> \<not> P ptr \<and> res = 0 \<longrightarrow> sz = 0))"
| "allocator_ok P (Free ptr) m = True"
| "allocator_ok P (Strdup ptr len res) m = fresh_block P res m"
| "allocator_ok P (Getline line_old len line) m = (line = line_old \<or> fresh_block P line m)"
| "allocator_ok P (Getaddrinfo sz ok res) m = (ok \<longrightarrow> fresh_block P res m)"
| "allocator_ok P (Freeaddrinfo ai) m = True"

subsection \<open>The invariant\<close>

definition live_of :: "tracker \<Rightarrow> live" where
  "live_of s = map_of (map (\<lambda>(_, x). (a_mem x, a_size x)) (h_allocs s))"

text \<open>Every object is on the list of allocations or in the pool, once.\<close>

definition objects_ok :: "nat list \<Rightarrow> nat list \<Rightarrow> nat \<Rightarrow> nat \<Rightarrow> bool" where
  "objects_ok used pool batches batch_used \<longleftrightarrow>
     distinct (used @ pool) \<and> set used \<union> set pool = {..<(batches - 1) * ALLOCATION_BATCH_SIZE + batch_used} \<and>
     batch_used \<le> ALLOCATION_BATCH_SIZE \<and> (batches = 0 \<longrightarrow> batch_used = 0)"

text \<open>No address is listed twice.\<close>

definition tracker_inv :: "tracker \<Rightarrow> bool" where
  "tracker_inv s \<longleftrightarrow> h_is_init_done s \<and> \<not> h_is_exit_done s \<and> h_depth s = 0 \<and>
     h_alloc_count s = int (length (h_allocs s)) \<and>
     distinct (map (\<lambda>(_, x). a_mem x) (h_allocs s)) \<and>
     objects_ok (map fst (h_allocs s)) (h_alloc_pool s) (h_batches s) (h_batch_used s)"

lemma dom_live_of: "dom (live_of s) = set (map (\<lambda>(_, x). a_mem x) (h_allocs s))"
  by (force simp: live_of_def dom_map_of_conv_image_fst)

lemma live_of_None: "live_of s ptr = None \<longleftrightarrow> ptr \<notin> set (map (\<lambda>(_, x). a_mem x) (h_allocs s))"
  unfolding dom_live_of [symmetric] by blast

lemma live_of_count: "tracker_inv s \<Longrightarrow> h_alloc_count s = int (card (dom (live_of s)))"
  by (simp add: tracker_inv_def dom_live_of distinct_card del: set_map)

subsection \<open>Objects\<close>

lemma objects_reuse: "objects_ok used (a # pool) b u \<Longrightarrow> objects_ok (a # used) pool b u"
  by (auto simp: objects_ok_def)

lemma objects_new:
  assumes "objects_ok used [] b u" "b \<noteq> 0" "u \<noteq> ALLOCATION_BATCH_SIZE"
  shows "objects_ok (((b - 1) * ALLOCATION_BATCH_SIZE + u) # used) [] b (Suc u)"
proof -
  have "distinct used" "set used = {..<(b - 1) * ALLOCATION_BATCH_SIZE + u}" "u \<le> ALLOCATION_BATCH_SIZE"
    using assms(1) by (simp_all add: objects_ok_def)
  with assms(2,3) show ?thesis by (simp add: objects_ok_def lessThan_Suc)
qed

lemma objects_new_batch:
  assumes "objects_ok used [] b u" "b = 0 \<or> u = ALLOCATION_BATCH_SIZE"
  shows "objects_ok used [] (Suc b) 0"
  using assms by (cases b) (auto simp: objects_ok_def)

lemma objects_put_back:
  assumes "objects_ok (xs @ a # ys) pool b u"
  shows "objects_ok (xs @ ys) (a # pool) b u"
  using assms by (auto simp: objects_ok_def)

lemma take_object_ok:
  assumes "take_object s = (a, s1)" "objects_ok used (h_alloc_pool s) (h_batches s) (h_batch_used s)"
  shows "\<exists>pool b u. s1 = s\<lparr>h_alloc_pool := pool, h_batches := b, h_batch_used := u\<rparr> \<and> objects_ok (a # used) pool b u"
proof (cases "h_alloc_pool s")
  case (Cons p pool)
  then have s1: "a = p" "s1 = s\<lparr>h_alloc_pool := pool\<rparr>" using assms(1) by (simp_all add: take_object_def)
  with objects_reuse [OF assms(2) [unfolded Cons]] show ?thesis
    by (intro exI [of _ pool] exI [of _ "h_batches s"] exI [of _ "h_batch_used s"]) simp
next
  case Nil
  have ok: "objects_ok used [] (h_batches s) (h_batch_used s)" using assms(2) Nil by simp
  show ?thesis
  proof (cases "h_batches s = 0 \<or> h_batch_used s = ALLOCATION_BATCH_SIZE")
    case True
    then have s1: "a = h_batches s * ALLOCATION_BATCH_SIZE" "s1 = s\<lparr>h_batches := Suc (h_batches s), h_batch_used := 1\<rparr>"
      using assms(1) Nil by (simp_all add: take_object_def Let_def)
    have "objects_ok (a # used) [] (Suc (h_batches s)) 1"
      using objects_new [OF objects_new_batch [OF ok True]] s1(1) by (simp add: ALLOCATION_BATCH_SIZE_def)
    with s1 Nil show ?thesis
      by (intro exI [of _ "[]"] exI [of _ "Suc (h_batches s)"] exI [of _ 1]) simp
  next
    case False
    then have s1: "a = (h_batches s - 1) * ALLOCATION_BATCH_SIZE + h_batch_used s" "s1 = s\<lparr>h_batch_used := Suc (h_batch_used s)\<rparr>"
      using assms(1) Nil by (simp_all add: take_object_def Let_def)
    with objects_new [OF ok] False Nil show ?thesis
      by (intro exI [of _ "[]"] exI [of _ "h_batches s"] exI [of _ "Suc (h_batch_used s)"]) simp
  qed
qed

lemma unlink_alloc_None: "unlink_alloc ptr as = None \<longleftrightarrow> ptr \<notin> set (map (\<lambda>(_, x). a_mem x) as)"
  by (induction ptr as rule: unlink_alloc.induct) auto

lemma unlink_alloc_Some:
  "unlink_alloc ptr as = Some (a, as') \<Longrightarrow> \<exists>xs x ys. as = xs @ (a, x) # ys \<and> a_mem x = ptr \<and> as' = xs @ ys"
proof (induction ptr as arbitrary: as' rule: unlink_alloc.induct)
  case (2 ptr b y as)
  show ?case
  proof (cases "a_mem y = ptr")
    case True
    with "2.prems" have "as' = as" "a = b" by simp_all
    with True show ?thesis by (intro exI [of _ "[]"] exI [of _ y] exI [of _ as]) simp
  next
    case False
    with "2.prems" obtain zs where zs: "unlink_alloc ptr as = Some (a, zs)" "as' = (b, y) # zs" by auto
    from "2.IH" [OF False zs(1)] obtain xs x ys where "as = xs @ (a, x) # ys" "a_mem x = ptr" "zs = xs @ ys" by blast
    with zs(2) show ?thesis by (intro exI [of _ "(b, y) # xs"] exI [of _ x] exI [of _ ys]) simp
  qed
qed simp

lemma map_of_remove:
  assumes "k \<notin> fst ` set xs" "k \<notin> fst ` set ys"
  shows "map_of (xs @ ys) = (map_of (xs @ (k, v) # ys))(k := None)"
proof -
  have "map_of xs k = None" "map_of ys k = None" using assms by (simp_all add: map_of_eq_None_iff)
  then show ?thesis by (auto simp: fun_eq_iff map_add_def split: option.splits)
qed

subsection \<open>States that agree with the specification\<close>

text \<open>The tracker agrees with the map \<open>l\<close>, inside \<open>d\<close> of its own functions.\<close>

definition state_ok :: "nat \<Rightarrow> (nat \<Rightarrow> bool) \<Rightarrow> live \<Rightarrow> tracker \<Rightarrow> bool" where
  "state_ok d P l s \<longleftrightarrow> h_depth s = d \<and> tracker_inv (s\<lparr>h_depth := 0\<rparr>) \<and> live_of s = l \<and> alloc_is_static s = P"

text \<open>A result of the code agrees with one of the specification: both fail, or they give states that agree.\<close>

definition agrees :: "nat \<Rightarrow> (nat \<Rightarrow> bool) \<Rightarrow> tracker option \<Rightarrow> live option \<Rightarrow> bool" where
  "agrees d P r q \<longleftrightarrow> (case r of None \<Rightarrow> q = None | Some s \<Rightarrow> (\<exists>l. q = Some l \<and> state_ok d P l s))"

lemma agrees_None [simp]: "agrees d P None q \<longleftrightarrow> q = None"
  by (simp add: agrees_def)

lemma agrees_Some [simp]: "agrees d P (Some s) (Some l) \<longleftrightarrow> state_ok d P l s"
  by (simp add: agrees_def)

lemma agrees_bind:
  assumes "agrees d P r q" "\<And>s l. state_ok d P l s \<Longrightarrow> agrees d' P (g s) (h l)"
  shows "agrees d' P (Option.bind r g) (Option.bind q h)"
proof (cases r)
  case None
  with assms(1) show ?thesis by simp
next
  case (Some s)
  with assms(1) obtain l where "q = Some l" "state_ok d P l s" by (auto simp: agrees_def)
  with assms(2) Some show ?thesis by simp
qed

lemma agrees_leave: "agrees 1 P r q \<Longrightarrow> agrees 0 P (Option.bind r (\<lambda>s. Some (leave s))) q"
  by (cases r) (auto simp: agrees_def state_ok_def leave_def live_of_def tracker_inv_def alloc_is_static_def fun_eq_iff)

lemma state_ok_enter: "state_ok 0 P l s \<Longrightarrow> state_ok 1 P l (enter s)"
  by (auto simp: state_ok_def enter_def live_of_def tracker_inv_def alloc_is_static_def fun_eq_iff)

lemma state_ok_fill [simp]: "state_ok d P l (fill_trash ptr sz s) \<longleftrightarrow> state_ok d P l s"
  by (auto simp: state_ok_def fill_trash_def live_of_def tracker_inv_def alloc_is_static_def fun_eq_iff)

lemma agrees_fill: "agrees d P r q \<Longrightarrow> agrees d P (map_option (fill_trash ptr sz) r) q"
  by (cases r) (auto simp: agrees_def)

lemma state_ok_touch: "state_ok d P l s \<Longrightarrow> heaph_touch env s = Some s"
  by (simp add: state_ok_def tracker_inv_def heaph_touch_def)

lemma state_ok_static: "state_ok d P l s \<Longrightarrow> alloc_is_static s = P"
  by (simp add: state_ok_def)

lemma trace_new_agrees:
  assumes s: "state_ok 1 P l s" and fresh: "res \<noteq> 0" "\<not> P res" "l res = None"
  shows "agrees 1 P (alloc_trace_new bt res sz s) (Some (live_new res sz l))"
proof -
  have inv: "h_depth s = 1" "tracker_inv (s\<lparr>h_depth := 0\<rparr>)" "live_of s = l" "alloc_is_static s = P" using s by (simp_all add: state_ok_def)
  have objs: "objects_ok (map fst (h_allocs s)) (h_alloc_pool s) (h_batches s) (h_batch_used s)"
    using inv(2) by (simp add: tracker_inv_def)
  obtain a s1 where take: "take_object s = (a, s1)" by (cases "take_object s")
  from take_object_ok [OF take objs] obtain pool b u
    where s1: "s1 = s\<lparr>h_alloc_pool := pool, h_batches := b, h_batch_used := u\<rparr>"
      and ok: "objects_ok (a # map fst (h_allocs s)) pool b u" by blast
  let ?x = "\<lparr>a_trace = take MAX_BACKTRACE_LEN bt, a_mem = res, a_size = sz\<rparr>"
  let ?s = "s1\<lparr>h_allocs := (a, ?x) # h_allocs s1, h_alloc_count := h_alloc_count s1 + 1, h_alloc_count_total := h_alloc_count_total s1 + 1\<rparr>"
  have new: "res \<notin> set (map (\<lambda>(_, x). a_mem x) (h_allocs s))"
    using fresh(3) inv(3) live_of_None by blast
  have "alloc_trace_new bt res sz s = Some ?s"
    using inv fresh take by (simp add: alloc_trace_new_def tracker_inv_def)
  moreover have "tracker_inv (?s\<lparr>h_depth := 0\<rparr>)"
    using inv(2) ok new by (simp add: tracker_inv_def s1 del: set_map)
  moreover have "live_of ?s = live_new res sz l"
    using fresh(1) inv(3) by (simp add: live_of_def live_new_def s1)
  moreover have "alloc_is_static ?s = P"
    using inv(4) by (simp add: alloc_is_static_def fun_eq_iff s1)
  ultimately show ?thesis using inv(1) by (simp add: state_ok_def s1)
qed

lemma free_agrees:
  assumes s: "state_ok 1 P l s" and ptr: "\<not> P ptr"
  shows "agrees 1 P (alloc_free ptr s) (live_free ptr l)"
proof -
  have inv: "h_depth s = 1" "tracker_inv (s\<lparr>h_depth := 0\<rparr>)" "live_of s = l" "alloc_is_static s = P" using s by (simp_all add: state_ok_def)
  show ?thesis
  proof (cases "unlink_alloc ptr (h_allocs s)")
    case None
    then have "l ptr = None" using inv(3) live_of_None unlink_alloc_None by metis
    with None inv ptr show ?thesis by (simp add: alloc_free_def live_free_def tracker_inv_def)
  next
    case (Some p)
    obtain a as where p: "p = (a, as)" by (cases p)
    from unlink_alloc_Some [OF Some [unfolded p]] obtain xs x ys
      where split: "h_allocs s = xs @ (a, x) # ys" "a_mem x = ptr" "as = xs @ ys" by blast
    let ?s = "s\<lparr>h_allocs := as, h_alloc_pool := a # h_alloc_pool s, h_alloc_count := h_alloc_count s - 1\<rparr>"
    have dist: "distinct (map (\<lambda>(_, x). a_mem x) (xs @ (a, x) # ys))" using inv(2) split(1) by (simp add: tracker_inv_def)
    have objs: "objects_ok (map fst xs @ a # map fst ys) (h_alloc_pool s) (h_batches s) (h_batch_used s)"
      using inv(2) split(1) by (simp add: tracker_inv_def)
    have live: "l ptr \<noteq> None"
      using inv(3) live_of_None [of s ptr] split(1,2) by auto
    have "alloc_free ptr s = Some ?s"
      using inv ptr Some p split by (simp add: alloc_free_def tracker_inv_def heaph_assert_def)
    moreover have "tracker_inv (?s\<lparr>h_depth := 0\<rparr>)"
      using inv(2) dist objects_put_back [OF objs] split by (simp add: tracker_inv_def)
    moreover have "live_of ?s = l(ptr := None)"
    proof -
      let ?f = "map (\<lambda>(_, x). (a_mem x, a_size x)) :: (nat \<times> allocation) list \<Rightarrow> (nat \<times> nat) list"
      have "ptr \<notin> fst ` set (?f xs)" "ptr \<notin> fst ` set (?f ys)" using dist split(2) by force+
      from map_of_remove [OF this, of "a_size x"] show ?thesis
        using inv(3) split by (simp add: live_of_def)
    qed
    moreover have "alloc_is_static ?s = P"
      using inv(4) by (simp add: alloc_is_static_def fun_eq_iff)
    moreover have "live_free ptr l = Some (l(ptr := None))" using live by (simp add: live_free_def)
    ultimately show ?thesis using inv(1) by (simp add: state_ok_def)
  qed
qed

subsection \<open>Calls\<close>

lemma track_agrees:
  assumes "state_ok 1 P l s" "fresh_block P res l"
  shows "agrees 1 P (if res \<noteq> 0 then alloc_trace_new bt res sz s else Some s) (Some (live_new res sz l))"
  using assms trace_new_agrees [OF assms(1), of res bt sz]
  by (cases "res = 0") (simp_all add: fresh_block_def live_new_def [of 0])

lemma move_agrees:
  assumes "state_ok 1 P l s" "\<not> P ptr" "res \<noteq> 0" "fresh_block P res l"
  shows "agrees 1 P (do { s \<leftarrow> alloc_free ptr s; alloc_trace_new bt res sz s }) (map_option (live_new res sz) (live_free ptr l))"
proof (cases "live_free ptr l")
  case None
  with free_agrees [OF assms(1,2)] show ?thesis by (cases "alloc_free ptr s") (simp_all add: agrees_def)
next
  case (Some l')
  with free_agrees [OF assms(1,2)] obtain s' where s': "alloc_free ptr s = Some s'" "state_ok 1 P l' s'"
    by (cases "alloc_free ptr s") (auto simp: agrees_def)
  have "l' res = None" using Some assms(3,4) by (auto simp: live_free_def fresh_block_def split: if_splits)
  with trace_new_agrees [OF s'(2) assms(3)] s'(1) Some assms(3,4) show ?thesis by (simp add: fresh_block_def)
qed

lemma live_new_0 [simp]: "live_new 0 sz = id"
  by (simp add: live_new_def fun_eq_iff)

lemma realloc_agrees:
  assumes s: "state_ok 0 P l s" and ok: "allocator_ok P (Realloc ptr sz res) l"
  shows "agrees 0 P (heaph_realloc env bt ptr sz (\<lambda>_. res) s) (live_exec P (Realloc ptr sz res) l)"
proof -
  note s1 = state_ok_enter [OF s] and simps = heaph_realloc_def state_ok_touch [OF s] state_ok_static [OF s] Let_def
  consider (new) "ptr = 0 \<or> P ptr" | (gone) "ptr \<noteq> 0" "\<not> P ptr" "res = 0" | (stays) "ptr \<noteq> 0" "\<not> P ptr" "res = ptr"
    | (moves) "ptr \<noteq> 0" "\<not> P ptr" "res \<noteq> 0" "res \<noteq> ptr" by blast
  then show ?thesis
  proof cases
    case new
    have fresh: "fresh_block P res l" using new ok state_ok_static [OF s] by (auto simp: fresh_block_def split: if_splits)
    have "state_ok 1 P l (fill_trash res sz (enter s))" using s1 by simp
    from agrees_leave [OF track_agrees [OF this fresh, of bt sz]] agrees_leave [of P "Some (enter s)" "Some l"] s1 new
    show ?thesis by (cases "res = 0") (auto simp: simps)
  next
    case gone
    then have "sz = 0" using ok by simp
    with agrees_leave [OF free_agrees [OF s1 gone(2)]] gone show ?thesis
      by (simp add: simps live_move_def option.map_id)
  next
    case stays
    from agrees_leave [of P "Some (enter s)" "Some l"] s1 stays show ?thesis by (simp add: simps live_move_def)
  next
    case moves
    have "fresh_block P res l" using moves ok by simp
    from agrees_leave [OF move_agrees [OF s1 moves(2,3) this, of bt sz]] moves show ?thesis
      by (simp add: simps live_move_def)
  qed
qed

lemma getline_agrees:
  assumes s: "state_ok 0 P l s" and ok: "allocator_ok P (Getline line_old len line) l"
  shows "agrees 0 P (heaph_getline env bt line_old len line s) (live_exec P (Getline line_old len line) l)"
proof -
  note s1 = state_ok_enter [OF s]
  note simps = heaph_getline_def state_ok_touch [OF s] state_ok_static [OF s1] heaph_assert_def
  consider (static) "P line_old" | (new) "\<not> P line_old" "line_old = 0" | (gone) "\<not> P line_old" "line_old \<noteq> 0" "line = 0"
    | (stays) "\<not> P line_old" "line_old \<noteq> 0" "line = line_old" | (moves) "\<not> P line_old" "line_old \<noteq> 0" "line \<noteq> 0" "line \<noteq> line_old"
    by blast
  then show ?thesis
  proof cases
    case static
    then show ?thesis by (simp add: simps)
  next
    case new
    have "fresh_block P line l" using new ok by (auto simp: fresh_block_def)
    from agrees_leave [OF track_agrees [OF s1 this, of bt "Suc len"]] new show ?thesis
      by (cases "line = 0") (simp_all add: simps)
  next
    case gone
    then show ?thesis by (simp add: simps)
  next
    case stays
    from agrees_leave [of P "Some (enter s)" "Some l"] s1 stays show ?thesis by (simp add: simps live_move_def)
  next
    case moves
    have "fresh_block P line l" using moves ok by simp
    from agrees_leave [OF move_agrees [OF s1 moves(1,3) this, of bt "Suc len"]] moves show ?thesis
      by (simp add: simps live_move_def)
  qed
qed

lemma heap_exec_agrees:
  assumes s: "state_ok 0 P l s" and ok: "allocator_ok P c l"
  shows "agrees 0 P (heap_exec env bt c s) (live_exec P c l)"
proof (cases c)
  case (Malloc sz res)
  with agrees_leave [OF agrees_fill [OF track_agrees [OF state_ok_enter [OF s], of res bt sz], of res sz]]
    agrees_leave [of P "Some (enter s)" "Some l"] state_ok_enter [OF s] ok
  show ?thesis by (cases "res = 0") (simp_all add: heaph_malloc_def state_ok_touch [OF s])
next
  case (Calloc num sz res)
  with agrees_leave [OF track_agrees [OF state_ok_enter [OF s], of res bt]] ok
  show ?thesis by (simp add: heaph_calloc_def state_ok_touch [OF s])
next
  case (Realloc ptr sz res)
  with realloc_agrees [OF s] ok show ?thesis by simp
next
  case (Free ptr)
  with agrees_leave [OF free_agrees [OF state_ok_enter [OF s], of ptr]] s
  show ?thesis by (auto simp: heaph_free_def state_ok_touch [OF s] state_ok_static [OF s])
next
  case (Strdup ptr len res)
  have "\<not> h_is_exit_done s" using s by (simp add: state_ok_def tracker_inv_def)
  with Strdup agrees_leave [OF track_agrees [OF state_ok_enter [OF s], of res bt "Suc len"]] ok
  show ?thesis by (cases "res = 0") (simp_all add: heaph_strdup_def state_ok_touch [OF s] state_ok_static [OF s] heaph_assert_def)
next
  case (Getline line_old len line)
  with getline_agrees [OF s] ok show ?thesis by simp
next
  case (Getaddrinfo sz succeeded res)
  with agrees_leave [OF track_agrees [OF state_ok_enter [OF s], of res bt sz]]
    agrees_leave [of P "Some (enter s)" "Some l"] state_ok_enter [OF s] ok
  show ?thesis by (cases "succeeded") (simp_all add: heaph_getaddrinfo_def state_ok_touch [OF s])
next
  case (Freeaddrinfo ai)
  with agrees_leave [OF free_agrees [OF state_ok_enter [OF s], of ai]] s
  show ?thesis by (simp add: heaph_freeaddrinfo_def state_ok_touch [OF s] state_ok_static [OF s] heaph_assert_def)
qed

subsection \<open>The initialisation\<close>

text \<open>The calls that \<^verbatim>\<open>dlsym\<close> makes are served by the static allocator and leave no trace.\<close>

definition only_static :: "tracker \<Rightarrow> tracker \<Rightarrow> bool" where
  "only_static s s' \<longleftrightarrow> (\<exists>sz used buf filled.
     s' = s\<lparr>h_static_size := sz, h_static_used := used, h_static_buf := buf, h_filled := filled\<rparr>)"

lemma only_static_refl: "only_static s s"
  unfolding only_static_def by (metis tracker.surjective tracker.update_convs(8,9,10,17))

lemma only_static_trans: "only_static s s1 \<Longrightarrow> only_static s1 s2 \<Longrightarrow> only_static s s2"
  unfolding only_static_def by fastforce

lemma fill_only_static: "only_static s (fill_trash ptr sz s)"
  unfolding fill_trash_def only_static_def
  by (cases s) (auto intro!: exI [of _ "h_static_size s"] exI [of _ "h_static_used s"] exI [of _ "h_static_buf s"])

lemma touch_only_static: "only_static s (static_allocator_touch buf s)"
  unfolding static_allocator_touch_def only_static_def by (cases s) auto

lemma malloc_only_static:
  assumes "static_malloc buf sz s = Some (res, s')"
  shows "only_static s s'"
proof -
  let ?t = "fill_trash (h_static_buf (static_allocator_touch buf s) + h_static_used (static_allocator_touch buf s)) sz (static_allocator_touch buf s)"
  have "s' = ?t\<lparr>h_static_used := h_static_used ?t + sz\<rparr>"
    using assms by (auto simp: static_malloc_def Let_def split: if_splits)
  moreover have "only_static ?t (?t\<lparr>h_static_used := h_static_used ?t + sz\<rparr>)"
    unfolding only_static_def by (cases ?t) auto
  ultimately show ?thesis using only_static_trans touch_only_static fill_only_static by metis
qed

lemma only_static_trace:
  "\<not> h_is_init_done s \<Longrightarrow> h_depth s \<le> 1 \<Longrightarrow> alloc_trace_new bt ptr sz s = Some s' \<Longrightarrow> s' = s"
  by (auto simp: alloc_trace_new_def split: if_splits)

lemma only_static_free: "\<not> h_is_init_done s \<Longrightarrow> h_depth s \<le> 1 \<Longrightarrow> alloc_free ptr s = Some s' \<Longrightarrow> s' = s"
  by (auto simp: alloc_free_def split: if_splits)

lemma only_static_enter:
  assumes "only_static (enter s) s'"
  shows "only_static s (leave s')"
  using assms unfolding only_static_def enter_def leave_def by (cases s) auto

lemma only_static_same:
  assumes "only_static s s'"
  shows "h_is_init_done s' = h_is_init_done s" "h_depth s' = h_depth s"
  using assms by (auto simp: only_static_def)

lemma init_call_only_static:
  assumes "run_init_call buf c s = Some s'" "\<not> h_is_init_done s" "h_depth s = 0"
  shows "only_static s s'"
proof (cases c)
  case (Init_malloc sz)
  with assms(1) obtain res s1 s2 where m: "static_malloc buf sz (enter s) = Some (res, s1)"
    and t: "alloc_trace_new [] res sz s1 = Some s2" and s': "s' = leave (fill_trash res sz s2)"
    by (auto simp: bind_eq_Some_conv)
  have "\<not> h_is_init_done s1" "h_depth s1 \<le> 1"
    using only_static_same [OF malloc_only_static [OF m]] assms(2,3) by (simp_all add: enter_def)
  from only_static_trace [OF this t] show ?thesis
    using only_static_enter [OF only_static_trans [OF malloc_only_static [OF m] fill_only_static]] s' by simp
next
  case (Init_calloc num sz)
  with assms(1) obtain res s1 s2 where m: "static_malloc buf (c_size (sz * num)) (enter s) = Some (res, s1)"
    and t: "alloc_trace_new [] res (c_size (num * sz)) s1 = Some s2" and s': "s' = leave s2"
    by (auto simp: bind_eq_Some_conv static_calloc_def)
  have "\<not> h_is_init_done s1" "h_depth s1 \<le> 1"
    using only_static_same [OF malloc_only_static [OF m]] assms(2,3) by (simp_all add: enter_def)
  from only_static_trace [OF this t] show ?thesis
    using only_static_enter [OF malloc_only_static [OF m]] s' by simp
next
  case (Init_free ptr)
  show ?thesis
  proof (cases "ptr = 0 \<or> alloc_is_static s ptr")
    case True
    with Init_free assms(1) have "s' = s" by auto
    then show ?thesis by (simp add: only_static_refl)
  next
    case False
    with Init_free assms(1) obtain s1 s2 where a: "alloc_free ptr (enter s) = Some s1"
      and f: "static_free buf ptr s1 = Some s2" and s': "s' = leave s2"
      by (auto simp: bind_eq_Some_conv)
    have "s1 = enter s" using only_static_free [OF _ _ a] assms(2,3) by (simp add: enter_def)
    with f have "s2 = static_allocator_touch buf (enter s)"
      by (auto simp: static_free_def heaph_assert_def Let_def split: if_splits)
    with only_static_enter [OF touch_only_static] s' show ?thesis by simp
  qed
qed

lemma init_calls_only_static:
  "run_init_calls buf cs s = Some s' \<Longrightarrow> \<not> h_is_init_done s \<Longrightarrow> h_depth s = 0 \<Longrightarrow> only_static s s'"
proof (induction cs arbitrary: s)
  case Nil
  then show ?case by (simp add: only_static_refl)
next
  case (Cons c cs)
  from Cons.prems(1) obtain s1 where s1: "run_init_call buf c s = Some s1" "run_init_calls buf cs s1 = Some s'"
    by (auto simp: bind_eq_Some_conv)
  note one = init_call_only_static [OF s1(1) Cons.prems(2,3)]
  from only_static_trans [OF one Cons.IH [OF s1(2)]] only_static_same [OF one] Cons.prems show ?case by simp
qed

text \<open>The part of the state that the lists of allocations and the depth make up.\<close>

definition lists_of :: "tracker \<Rightarrow> bool \<times> nat \<times> (nat \<times> allocation) list \<times> nat list \<times> int \<times> nat \<times> nat" where
  "lists_of s = (h_is_exit_done s, h_depth s, h_allocs s, h_alloc_pool s, h_alloc_count s, h_batches s, h_batch_used s)"

lemma lists_of_modes: "lists_of (set_content_mode v (set_report_mode w s)) = lists_of s"
  by (simp add: lists_of_def set_content_mode_def set_report_mode_def)

lemma lists_of_unlock: "heaph_unlock s = Some s' \<Longrightarrow> lists_of s' = lists_of s \<and> h_is_init_done s' = h_is_init_done s"
  by (auto simp: heaph_unlock_def heaph_assert_def Let_def lists_of_def split: if_splits)

lemma lists_of_init_done: "lists_of (s\<lparr>h_is_init_done := b\<rparr>) = lists_of s"
  by (simp add: lists_of_def)

lemma start_state_ok:
  assumes "heaph_touch env tracker_start = Some s"
  shows "state_ok 0 (alloc_is_static s) Map.empty s"
proof -
  let ?l = "heaph_lock tracker_start"
  let ?modes = "\<lambda>s1. set_content_mode (i_HHCONTENT env) (set_report_mode (i_HHREPORT env) s1)"
  have "\<not> h_is_init_done tracker_start" "h_init_lock_count tracker_start = 0" by (simp_all add: tracker_start_def)
  with assms obtain s1 where s1: "run_init_calls (i_static_buf env) (i_calls env) ?l = Some s1"
    and s: "heaph_unlock ((?modes s1)\<lparr>h_is_init_done := True\<rparr>) = Some s"
    by (auto simp: heaph_touch_def heaph_init_def bind_eq_Some_conv heaph_assert_def split: if_splits)
  have "only_static ?l s1"
    by (rule init_calls_only_static [OF s1]) (simp_all add: heaph_lock_def tracker_start_def)
  then have "lists_of s1 = lists_of tracker_start"
    by (auto simp: only_static_def heaph_lock_def Let_def lists_of_def tracker_start_def)
  with lists_of_unlock [OF s] have "lists_of s = (False, 0, [], [], 0, 0, 0)" "h_is_init_done s"
    by (simp_all only: lists_of_init_done lists_of_modes) (simp_all add: lists_of_def tracker_start_def)
  then show ?thesis by (simp add: lists_of_def state_ok_def tracker_inv_def live_of_def objects_ok_def)
qed

subsection \<open>Sequences of calls\<close>

fun heap_execs :: "init_env \<Rightarrow> (nat list \<times> heap_call) list \<Rightarrow> tracker \<Rightarrow> tracker option" where
  "heap_execs env [] s = Some s"
| "heap_execs env ((bt, c) # cs) s = do { s' \<leftarrow> heap_exec env bt c s; heap_execs env cs s' }"

fun live_execs :: "(nat \<Rightarrow> bool) \<Rightarrow> (nat list \<times> heap_call) list \<Rightarrow> live \<Rightarrow> live option" where
  "live_execs P [] m = Some m"
| "live_execs P ((_, c) # cs) m = do { m' \<leftarrow> live_exec P c m; live_execs P cs m' }"

fun allocators_ok :: "(nat \<Rightarrow> bool) \<Rightarrow> (nat list \<times> heap_call) list \<Rightarrow> live \<Rightarrow> bool" where
  "allocators_ok P [] m = True"
| "allocators_ok P ((_, c) # cs) m \<longleftrightarrow>
     allocator_ok P c m \<and> (case live_exec P c m of None \<Rightarrow> True | Some m' \<Rightarrow> allocators_ok P cs m')"

lemma heap_execs_agree:
  "state_ok 0 P l s \<Longrightarrow> allocators_ok P cs l \<Longrightarrow> agrees 0 P (heap_execs env cs s) (live_execs P cs l)"
proof (induction cs arbitrary: s l)
  case (Cons bc cs)
  obtain bt c where bc: "bc = (bt, c)" by (cases bc)
  have ok: "allocator_ok P c l" and tail: "\<And>m. live_exec P c l = Some m \<Longrightarrow> allocators_ok P cs m"
    using Cons.prems(2) bc by simp_all
  note one = heap_exec_agrees [OF Cons.prems(1) ok, of env bt]
  show ?case
  proof (cases "heap_exec env bt c s")
    case None
    with one bc show ?thesis by simp
  next
    case (Some s')
    with one obtain m where m: "live_exec P c l = Some m" "state_ok 0 P m s'" by (auto simp: agrees_def)
    from Cons.IH [OF m(2) tail [OF m(1)]] m(1) Some bc show ?thesis by simp
  qed
qed simp

text \<open>C4: after the initialisation, any calls of the replaced functions abort exactly when the specification \<open>live_exec\<close> refuses
  one: a block that is not in use is freed, moved or freed by \<^verbatim>\<open>realloc\<close>, or moved by \<^verbatim>\<open>getline\<close>; \<^verbatim>\<open>strdup\<close>, \<^verbatim>\<open>getline\<close> or
  \<^verbatim>\<open>freeaddrinfo\<close> is given a pointer into the static buffer; \<^verbatim>\<open>getline\<close> returns a null line for one that was not null. Otherwise the
  list of allocations is the map of the blocks in use with their recorded sizes, and the count is their number. The original functions
  return blocks not in use, and no \<^verbatim>\<open>realloc\<close> of a block runs out of memory.\<close>

theorem tracker_refines:
  assumes "heaph_touch env tracker_start = Some s0" "allocators_ok (alloc_is_static s0) cs Map.empty"
  shows "case heap_execs env cs s0 of
           None \<Rightarrow> live_execs (alloc_is_static s0) cs Map.empty = None
         | Some s \<Rightarrow> live_execs (alloc_is_static s0) cs Map.empty = Some (live_of s) \<and> h_depth s = 0 \<and>
             heaph_get_alloc_count s = of_nat (card (dom (live_of s)))"
proof -
  have "agrees 0 (alloc_is_static s0) (heap_execs env cs s0) (live_execs (alloc_is_static s0) cs Map.empty)"
    by (rule heap_execs_agree [OF start_state_ok [OF assms(1)] assms(2)])
  moreover have "h_depth s = 0 \<and> live_of s = l \<and> h_alloc_count s = int (card (dom (live_of s)))"
    if "state_ok 0 P l s" for P l s
  proof -
    have "s\<lparr>h_depth := 0\<rparr> = s" using that by (cases s) (simp add: state_ok_def)
    with that live_of_count [of s] show ?thesis by (simp add: state_ok_def)
  qed
  ultimately show ?thesis by (auto simp: agrees_def heaph_get_alloc_count_def split: option.splits)
qed

definition env1 :: init_env where
  "env1 = \<lparr>i_static_buf = 1, i_calls = [Init_calloc 1 32], i_HHREPORT = None, i_HHCONTENT = Some ''t''\<rparr>"

definition calls1 :: "(nat list \<times> heap_call) list" where
  "calls1 = [([7, 8], Malloc 10 20000), ([9], Calloc 2 8 30000), ([9], Realloc 20000 50 40000), ([], Free 30000), ([9], Strdup 50000 3 20000)]"

definition tracker1 :: tracker where
  "tracker1 = tracker_start\<lparr>h_is_init_done := True, h_content_mode := CONTENT_MODE_TRASH, h_static_size := 16 * 1024,
     h_static_used := 32, h_static_buf := 1\<rparr>"

lemma tracker1_start: "heaph_touch env1 tracker_start = Some tracker1"
  by (simp add: heaph_touch_def heaph_init_def env1_def tracker_start_def tracker1_def heaph_lock_def static_calloc_def
      static_malloc_def static_allocator_touch_def fill_trash_def alloc_trace_new_def alloc_is_static_def set_report_mode_def
      set_content_mode_def heaph_unlock_def heaph_assert_def enter_def leave_def c_size_def)

lemma calls1_ok: "allocators_ok (alloc_is_static tracker1) calls1 Map.empty"
  "live_execs (alloc_is_static tracker1) calls1 Map.empty = Some [40000 \<mapsto> 50, 20000 \<mapsto> 4]"
  by (simp_all add: calls1_def tracker1_def alloc_is_static_def fresh_block_def live_new_def live_move_def live_free_def
      tracker_start_def fun_eq_iff)

lemma tracker_refines_witness: "map_option heaph_get_alloc_count (heap_execs env1 calls1 tracker1) = Some 2"
  using tracker_refines [OF tracker1_start calls1_ok(1)] calls1_ok(2)
  by (cases "heap_execs env1 calls1 tracker1") (auto dest!: sym [of _ "live_of _"])

subsection \<open>A realloc that fails\<close>

lemma failed_realloc:
  assumes s: "state_ok 0 P l s" and ptr: "ptr \<noteq> 0" "\<not> P ptr" "l ptr \<noteq> None"
  shows "heap_execs env [(bt, Realloc ptr sz 0), (bt', Free ptr)] s = None"
proof -
  have "heap_exec env bt (Realloc ptr sz 0) s = Option.bind (alloc_free ptr (enter s)) (\<lambda>s. Some (leave s))"
    using ptr by (simp add: heaph_realloc_def state_ok_touch [OF s] state_ok_static [OF s] Let_def)
  with agrees_leave [OF free_agrees [OF state_ok_enter [OF s] ptr(2)]] ptr(3)
  have "agrees 0 P (heap_exec env bt (Realloc ptr sz 0) s) (Some (l(ptr := None)))"
    by (simp add: live_free_def)
  then obtain s' where s': "heap_exec env bt (Realloc ptr sz 0) s = Some s'" "state_ok 0 P (l(ptr := None)) s'"
    by (auto simp: agrees_def split: option.splits)
  have "agrees 0 P (heap_exec env bt' (Free ptr) s') (live_exec P (Free ptr) (l(ptr := None)))"
    by (rule heap_exec_agrees [OF s'(2)]) simp
  with ptr s'(1) show ?thesis
    by (simp add: live_free_def agrees_def del: heap_exec.simps split: option.splits)
qed

lemma heap_execs_append: "heap_execs env (cs @ ds) s = Option.bind (heap_execs env cs s) (heap_execs env ds)"
proof (induction cs arbitrary: s)
  case (Cons c cs)
  then show ?case by (cases c; cases "heap_exec env (fst c) (snd c) s") simp_all
qed simp

lemma live_execs_append: "live_execs P (cs @ ds) m = Option.bind (live_execs P cs m) (live_execs P ds)"
proof (induction cs arbitrary: m)
  case (Cons c cs)
  then show ?case by (cases c; cases "live_exec P (snd c) m") simp_all
qed simp

text \<open>C31: the detector takes a block off its list when \<^verbatim>\<open>realloc\<close> of it fails, although the block is still in use: after any calls,
  a failing \<^verbatim>\<open>realloc\<close> of a block in use and then the \<^verbatim>\<open>free\<close> that a correct program owes abort the program, while the
  specification accepts both and has the block in use until it is freed.\<close>

theorem failed_realloc_aborts:
  assumes "heaph_touch env tracker_start = Some s0" "allocators_ok (alloc_is_static s0) cs Map.empty"
    and "live_execs (alloc_is_static s0) cs Map.empty = Some m" "m ptr \<noteq> None"
    and "ptr \<noteq> 0" "\<not> alloc_is_static s0 ptr" "0 < sz"
  shows "heap_execs env (cs @ [(bt, Realloc ptr sz 0), (bt', Free ptr)]) s0 = None \<and>
    live_execs (alloc_is_static s0) (cs @ [(bt, Realloc ptr sz 0), (bt', Free ptr)]) Map.empty = Some (m(ptr := None))"
proof -
  have "agrees 0 (alloc_is_static s0) (heap_execs env cs s0) (Some m)"
    using heap_execs_agree [OF start_state_ok [OF assms(1)] assms(2), of env] assms(3) by simp
  then obtain s where s: "heap_execs env cs s0 = Some s" "state_ok 0 (alloc_is_static s0) m s"
    by (auto simp: agrees_def split: option.splits)
  have "heap_execs env (cs @ [(bt, Realloc ptr sz 0), (bt', Free ptr)]) s0 = None"
    unfolding heap_execs_append s(1) using failed_realloc [OF s(2) assms(5,6,4)] by simp
  moreover have "live_execs (alloc_is_static s0) (cs @ [(bt, Realloc ptr sz 0), (bt', Free ptr)]) Map.empty = Some (m(ptr := None))"
    unfolding live_execs_append assms(3) using assms(4-7) by (simp add: live_free_def)
  ultimately show ?thesis by blast
qed

lemma failed_realloc_aborts_witness:
  "heap_execs env1 (calls1 @ [([], Realloc 40000 60 0), ([], Free 40000)]) tracker1 = None \<and>
   live_execs (alloc_is_static tracker1) (calls1 @ [([], Realloc 40000 60 0), ([], Free 40000)]) Map.empty = Some [20000 \<mapsto> 4]"
  using failed_realloc_aborts [OF tracker1_start calls1_ok, of 40000 60 "[]" "[]"]
  by (simp add: alloc_is_static_def tracker1_def tracker_start_def fun_upd_twist)

subsection \<open>The report\<close>

text \<open>What a trace resolves to, without the recursion.\<close>

definition symbol_at :: "(nat \<Rightarrow> symbol option) \<Rightarrow> nat \<Rightarrow> symbol" where
  "symbol_at dladdr addr = (case dladdr addr of None \<Rightarrow> \<lparr>y_file = None, y_name = None\<rparr> | Some y \<Rightarrow> y)"

definition is_leak :: "(nat \<Rightarrow> symbol option) \<Rightarrow> allocation \<Rightarrow> bool" where
  "is_leak dladdr a \<longleftrightarrow> a_trace a \<noteq> [] \<and> (\<forall>addr \<in> set (a_trace a). \<not> trace_sym_is_internal (symbol_at dladdr addr))"

definition leaks :: "(nat \<Rightarrow> symbol option) \<Rightarrow> allocation list \<Rightarrow> allocation list" where
  "leaks dladdr = filter (is_leak dladdr)"

definition failures :: "(nat \<Rightarrow> symbol option) \<Rightarrow> allocation list \<Rightarrow> nat" where
  "failures dladdr as = length (filter (\<lambda>addr. dladdr addr = None) (concat (map a_trace as)))"

text \<open>The lines of the first leaks, numbered from \<open>r + 1\<close> on.\<close>

definition leak_lines :: "(nat \<Rightarrow> symbol option) \<Rightarrow> nat \<Rightarrow> allocation list \<Rightarrow> report_line list" where
  "leak_lines dladdr r as =
     map (\<lambda>(i, a). Leak (Suc i) (a_size a) (map (\<lambda>addr. y_name (symbol_at dladdr addr)) (a_trace a))) (enumerate r (take (report_limit - r) as))"

lemma trace_resolve_eq:
  "trace_resolve dladdr addrs = (length (filter (\<lambda>addr. dladdr addr = None) addrs), map (symbol_at dladdr) addrs)"
  by (induction addrs) (auto simp: symbol_at_def split: option.splits)

lemma trace_is_internal_eq: "trace_is_internal ys \<longleftrightarrow> (\<exists>y \<in> set ys. trace_sym_is_internal y)"
  by (induction ys) auto

lemma leak_lines_Nil [simp]: "leak_lines dladdr r [] = []"
  by (simp add: leak_lines_def)

lemma leak_lines_Cons:
  "leak_lines dladdr r (a # as) =
     (if r < report_limit then Leak (Suc r) (a_size a) (map (\<lambda>addr. y_name (symbol_at dladdr addr)) (a_trace a)) # leak_lines dladdr (Suc r) as
      else [])"
proof (cases "r < report_limit")
  case True
  then have "report_limit - r = Suc (report_limit - Suc r)" by simp
  with True show ?thesis by (simp add: leak_lines_def del: diff_Suc_Suc)
qed (simp add: leak_lines_def)

lemma leak_lines_full [simp]: "leak_lines dladdr report_limit as = []"
  by (simp add: leak_lines_def)

lemma report_loop_leak:
  assumes "is_leak dladdr a" "0 < t_count t"
  shows "report_loop dladdr (a # as) t = report_loop dladdr as
    (if t_report_count t < report_limit
     then t\<lparr>t_fail_count := t_fail_count t + failures dladdr [a], t_report_count := Suc (t_report_count t),
            t_lines := t_lines t @ [Leak (Suc (t_report_count t)) (a_size a) (map (\<lambda>addr. y_name (symbol_at dladdr addr)) (a_trace a))],
            t_leak_size := c_size (t_leak_size t + a_size a)\<rparr>
     else t\<lparr>t_fail_count := t_fail_count t + failures dladdr [a], t_leak_size := c_size (t_leak_size t + a_size a)\<rparr>)"
  using assms by (simp add: is_leak_def trace_resolve_eq trace_is_internal_eq failures_def comp_def)

lemma report_loop_internal:
  assumes "\<not> is_leak dladdr a" "0 < t_count t"
  shows "report_loop dladdr (a # as) t =
    report_loop dladdr as (t\<lparr>t_count := t_count t - 1, t_fail_count := t_fail_count t + failures dladdr [a]\<rparr>)"
proof (cases "a_trace a = []")
  case True
  have "t\<lparr>t_count := c, t_fail_count := t_fail_count t\<rparr> = t\<lparr>t_count := c\<rparr>" for c by (cases t) simp
  with True assms show ?thesis by (simp add: failures_def)
next
  case False
  have "trace_is_internal (map (symbol_at dladdr) (a_trace a))"
    using False assms(1) by (auto simp: is_leak_def trace_is_internal_eq)
  with False assms(2) show ?thesis
    by (simp add: trace_resolve_eq failures_def) (cases t, simp)
qed

lemma report_loop_eq:
  assumes "int (length as) \<le> t_count t" "t_report_count t \<le> report_limit" "t_leak_size t < 2 ^ 64"
  shows "report_loop dladdr as t = Some
    \<lparr>t_count = t_count t - int (length as) + int (length (leaks dladdr as)),
     t_report_count = min report_limit (t_report_count t + length (leaks dladdr as)),
     t_leak_size = c_size (t_leak_size t + sum_list (map a_size (leaks dladdr as))),
     t_fail_count = t_fail_count t + failures dladdr as,
     t_lines = t_lines t @ leak_lines dladdr (t_report_count t) (leaks dladdr as)\<rparr>"
  using assms
proof (induction as arbitrary: t)
  case Nil
  then show ?case by (cases t) (simp add: leaks_def failures_def)
next
  case (Cons a as)
  have pos: "0 < t_count t" using Cons.prems(1) by simp
  have fails: "failures dladdr (a # as) = failures dladdr [a] + failures dladdr as" by (simp add: failures_def)
  have mod: "c_size (c_size x + y) = c_size (x + y)" "c_size x < 18446744073709551616" for x y
    by (simp_all add: c_size_def mod_simps)
  show ?case
  proof (cases "is_leak dladdr a")
    case True
    then have l: "leaks dladdr (a # as) = a # leaks dladdr as" by (simp add: leaks_def)
    show ?thesis
      unfolding report_loop_leak [OF True pos] l fails using Cons.prems
      by (cases "t_report_count t < report_limit")
         (simp_all add: Cons.IH mod leak_lines_Cons add.assoc del: One_nat_def)
  next
    case False
    then have l: "leaks dladdr (a # as) = leaks dladdr as" by (simp add: leaks_def)
    show ?thesis
      unfolding report_loop_internal [OF False pos] l fails using Cons.prems by (simp add: Cons.IH)
  qed
qed

text \<open>What the report says, directly from the list of allocations.\<close>

definition report_spec :: "(nat \<Rightarrow> symbol option) \<Rightarrow> report_mode \<Rightarrow> nat \<Rightarrow> allocation list \<Rightarrow> report_line list" where
  "report_spec dladdr mode num as =
     (if mode = REPORT_MODE_QUIET then []
      else if as = [] then if mode = REPORT_MODE_VERBOSE then [No_leaks, Total_allocations num] else []
      else leak_lines dladdr 0 (leaks dladdr as) @
           (if failures dladdr as > 0 then [Dladdr_failures (failures dladdr as)] else []) @
           (if leaks dladdr as = [] \<and> mode \<noteq> REPORT_MODE_VERBOSE then []
            else [Found (int (length (leaks dladdr as))) (c_size (sum_list (map a_size (leaks dladdr as))))] @
                 (if leaks dladdr as \<noteq> as then [Suppressed (int (length as) - int (length (leaks dladdr as)))] else []) @
                 (if length (leaks dladdr as) > report_limit then [Only_first (int report_limit)] else []) @
                 [Total_allocations num]))"

text \<open>C15: at exit the tracker does not abort and prints what the list of allocations implies: the first ten leaks with their
  sizes and traces, and the number and size of all; allocations without a trace or made by the library itself are not counted.\<close>

theorem atexit_reports:
  assumes "tracker_inv s"
  shows "heaph_atexit dladdr s =
    Some (report_spec dladdr (h_report_mode s) (h_alloc_count_total s) (map snd (h_allocs s)), s\<lparr>h_is_exit_done := True\<rparr>)"
proof -
  let ?as = "map snd (h_allocs s)"
  have inv: "\<not> h_is_exit_done s" "h_alloc_count s = int (length (h_allocs s))" using assms by (simp_all add: tracker_inv_def)
  have le: "length (leaks dladdr ?as) \<le> length (h_allocs s)" using length_filter_le [of _ ?as] by (simp add: leaks_def)
  have all: "leaks dladdr ?as = ?as \<longleftrightarrow> length (leaks dladdr ?as) = length (h_allocs s)"
    unfolding leaks_def by (metis filter_True length_filter_less length_map less_irrefl)
  have loop: "report_loop dladdr ?as \<lparr>t_count = int (length (h_allocs s)), t_report_count = 0, t_leak_size = 0, t_fail_count = 0, t_lines = []\<rparr>
    = Some \<lparr>t_count = int (length (leaks dladdr ?as)), t_report_count = min report_limit (length (leaks dladdr ?as)),
            t_leak_size = c_size (sum_list (map a_size (leaks dladdr ?as))), t_fail_count = failures dladdr ?as,
            t_lines = leak_lines dladdr 0 (leaks dladdr ?as)\<rparr>"
    by (subst report_loop_eq) simp_all
  show ?thesis
    using inv le all by (auto simp: heaph_atexit_def Let_def loop report_spec_def min_def)
qed

definition tracker2 :: tracker where
  "tracker2 = tracker1\<lparr>h_allocs := [(1, \<lparr>a_trace = [7], a_mem = 20000, a_size = 10\<rparr>), (0, \<lparr>a_trace = [8, 7], a_mem = 30000, a_size = 5\<rparr>)],
     h_alloc_pool := [2], h_batches := 1, h_batch_used := 3, h_alloc_count := 2, h_alloc_count_total := 4\<rparr>"

definition dladdr1 :: "nat \<Rightarrow> symbol option" where
  "dladdr1 addr = (if addr = 7 then Some \<lparr>y_file = Some ''a.out'', y_name = Some ''main''\<rparr>
     else Some \<lparr>y_file = Some ''libc.so'', y_name = Some ''puts''\<rparr>)"

lemma tracker2_inv: "tracker_inv tracker2"
  by (auto simp: tracker_inv_def objects_ok_def tracker2_def tracker1_def tracker_start_def ALLOCATION_BATCH_SIZE_def)

lemma tracker2_report: "report_spec dladdr1 (h_report_mode tracker2) 4 (map snd (h_allocs tracker2)) =
    [Leak 1 10 [Some ''main''], Found 1 10, Suppressed 1, Total_allocations 4]"
  by (simp add: report_spec_def tracker2_def tracker1_def tracker_start_def leaks_def is_leak_def symbol_at_def dladdr1_def
      trace_sym_is_internal_def trace_sym_is_func_def trace_sym_file_starts_with_def leak_lines_def report_limit_def failures_def)

lemma atexit_reports_witness:
  "map_option fst (heaph_atexit dladdr1 tracker2) = Some [Leak 1 10 [Some ''main''], Found 1 10, Suppressed 1, Total_allocations 4]"
proof -
  have "h_alloc_count_total tracker2 = 4" by (simp add: tracker2_def)
  with atexit_reports [OF tracker2_inv, of dladdr1] tracker2_report show ?thesis by simp
qed

end
