(* ===== verification/Heap_Help_Old.thy ===== *)
theory Heap_Help_Old
  imports Heap_Help_Correct
begin

section \<open>The older leak detector\<close>

text \<open>
  \<^verbatim>\<open>utils/heap_help/heap_help.c\<close> of \<^verbatim>\<open>hw1\<close>, \<^verbatim>\<open>hw3\<close> and \<^verbatim>\<open>hw4\<close> (three equal files) is an earlier version of \<^verbatim>\<open>hw2/heap_help.c\<close>. What is the
  same in both (the tracking of allocations, the lock, the symbols) is used from theory \<open>Heap_Help\<close>; what differs, and what calls
  it, is translated here. The two are the same program as long as the later version is not told to fill memory with trash, but for
  how they report failures of \<^verbatim>\<open>dladdr\<close>.
\<close>

subsection \<open>Initialisation\<close>

definition static_malloc_v1 :: "nat \<Rightarrow> nat \<Rightarrow> tracker \<Rightarrow> (nat \<times> tracker) option" where
  "static_malloc_v1 buf sz s =
     (if h_is_init_done s \<or> \<not> h_init_lock s then None
      else let s1 = static_allocator_touch buf s
           in if \<not> h_static_size s1 \<ge> h_static_used s1 \<or> \<not> sz < h_static_size s1 - h_static_used s1 then None
              else Some (h_static_buf s1 + h_static_used s1, s1\<lparr>h_static_used := h_static_used s1 + sz\<rparr>))"

definition static_calloc_v1 :: "nat \<Rightarrow> nat \<Rightarrow> nat \<Rightarrow> tracker \<Rightarrow> (nat \<times> tracker) option" where
  "static_calloc_v1 buf num sz s = static_malloc_v1 buf (c_size (sz * num)) s"

fun run_init_call_v1 :: "nat \<Rightarrow> init_call \<Rightarrow> tracker \<Rightarrow> tracker option" where
  "run_init_call_v1 buf (Init_malloc sz) s =
     do { (res, s1) \<leftarrow> static_malloc_v1 buf sz (enter s); s2 \<leftarrow> alloc_trace_new [] res sz s1; Some (leave s2) }"
| "run_init_call_v1 buf (Init_calloc num sz) s =
     do { (res, s1) \<leftarrow> static_calloc_v1 buf num sz (enter s); s2 \<leftarrow> alloc_trace_new [] res (c_size (num * sz)) s1; Some (leave s2) }"
| "run_init_call_v1 buf (Init_free ptr) s =
     (if ptr = 0 \<or> alloc_is_static s ptr then Some s
      else do { s1 \<leftarrow> alloc_free ptr (enter s); s2 \<leftarrow> static_free buf ptr s1; Some (leave s2) })"

fun run_init_calls_v1 :: "nat \<Rightarrow> init_call list \<Rightarrow> tracker \<Rightarrow> tracker option" where
  "run_init_calls_v1 buf [] s = Some s"
| "run_init_calls_v1 buf (c # cs) s = do { s' \<leftarrow> run_init_call_v1 buf c s; run_init_calls_v1 buf cs s' }"

definition heaph_init_v1 :: "init_env \<Rightarrow> tracker \<Rightarrow> tracker option" where
  "heaph_init_v1 env s = map_option (set_report_mode (i_HHREPORT env)) (run_init_calls_v1 (i_static_buf env) (i_calls env) s)"

definition heaph_touch_v1 :: "init_env \<Rightarrow> tracker \<Rightarrow> tracker option" where
  "heaph_touch_v1 env s =
     (if h_is_init_done s then Some s
      else if h_init_lock_count s > 0 then Some s
      else do { s1 \<leftarrow> heaph_init_v1 env (heaph_lock s);
                s2 \<leftarrow> heaph_unlock (s1\<lparr>h_is_init_done := True\<rparr>);
                heaph_assert (\<not> h_is_init_done s1) s2 })"

subsection \<open>The replaced functions\<close>

definition heaph_malloc_v1 :: "init_env \<Rightarrow> nat list \<Rightarrow> nat \<Rightarrow> nat \<Rightarrow> tracker \<Rightarrow> tracker option" where
  "heaph_malloc_v1 env backtrace sz res s =
     do { s1 \<leftarrow> heaph_touch_v1 env s;
          s2 \<leftarrow> (if res \<noteq> 0 then alloc_trace_new backtrace res sz (enter s1) else Some (enter s1));
          Some (leave s2) }"

definition heaph_calloc_v1 :: "init_env \<Rightarrow> nat list \<Rightarrow> nat \<Rightarrow> nat \<Rightarrow> nat \<Rightarrow> tracker \<Rightarrow> tracker option" where
  "heaph_calloc_v1 env backtrace num sz res s =
     do { s1 \<leftarrow> heaph_touch_v1 env s;
          s2 \<leftarrow> (if res \<noteq> 0 then alloc_trace_new backtrace res (c_size (num * sz)) (enter s1) else Some (enter s1));
          Some (leave s2) }"

definition heaph_realloc_v1 :: "init_env \<Rightarrow> nat list \<Rightarrow> nat \<Rightarrow> nat \<Rightarrow> (nat \<Rightarrow> nat) \<Rightarrow> tracker \<Rightarrow> tracker option" where
  "heaph_realloc_v1 env backtrace ptr0 sz res_of s =
     do { s1 \<leftarrow> heaph_touch_v1 env s;
          let ptr = (if alloc_is_static s1 ptr0 then 0 else ptr0); res = res_of ptr; s2 = enter s1 in
          do { s3 \<leftarrow> (if ptr = 0 \<and> res \<noteq> 0 then alloc_trace_new backtrace res sz s2
                       else if ptr \<noteq> 0 \<and> res = 0 then alloc_free ptr s2
                       else if ptr \<noteq> 0 \<and> res \<noteq> ptr then do { s3 \<leftarrow> alloc_free ptr s2; alloc_trace_new backtrace res sz s3 }
                       else Some s2);
               Some (leave s3) } }"

definition heaph_free_v1 :: "init_env \<Rightarrow> nat \<Rightarrow> tracker \<Rightarrow> tracker option" where
  "heaph_free_v1 env ptr s =
     (if ptr = 0 then Some s
      else if alloc_is_static s ptr then Some s
      else do { s1 \<leftarrow> heaph_touch_v1 env s; s2 \<leftarrow> alloc_free ptr (enter s1); Some (leave s2) })"

definition heaph_strdup_v1 :: "init_env \<Rightarrow> nat list \<Rightarrow> nat \<Rightarrow> nat \<Rightarrow> nat \<Rightarrow> tracker \<Rightarrow> tracker option" where
  "heaph_strdup_v1 env backtrace ptr len res s =
     do { s1 \<leftarrow> heaph_touch_v1 env s;
          s2 \<leftarrow> heaph_assert (\<not> h_is_exit_done s1) s1;
          s3 \<leftarrow> heaph_assert (\<not> alloc_is_static s2 ptr) s2;
          s4 \<leftarrow> (if res \<noteq> 0 then alloc_trace_new backtrace res (len + 1) (enter s3) else Some (enter s3));
          Some (leave s4) }"

definition heaph_getline_v1 :: "init_env \<Rightarrow> nat list \<Rightarrow> nat \<Rightarrow> nat \<Rightarrow> nat \<Rightarrow> tracker \<Rightarrow> tracker option" where
  "heaph_getline_v1 env backtrace line_old len line s =
     do { s1 \<leftarrow> heaph_touch_v1 env s;
          s2 \<leftarrow> heaph_assert (\<not> alloc_is_static (enter s1) line_old) (enter s1);
          s3 \<leftarrow> (if line_old = 0 \<and> line \<noteq> 0 then alloc_trace_new backtrace line (len + 1) s2
                  else if line_old \<noteq> 0 \<and> line = 0 then None
                  else if line_old \<noteq> 0 \<and> line \<noteq> 0 \<and> line_old \<noteq> line
                  then do { s3 \<leftarrow> alloc_free line_old s2; alloc_trace_new backtrace line (len + 1) s3 }
                  else if line_old \<noteq> line then None
                  else Some s2);
          Some (leave s3) }"

definition heaph_getaddrinfo_v1 :: "init_env \<Rightarrow> nat list \<Rightarrow> nat \<Rightarrow> bool \<Rightarrow> nat \<Rightarrow> tracker \<Rightarrow> tracker option" where
  "heaph_getaddrinfo_v1 env backtrace sz ok res s =
     do { s1 \<leftarrow> heaph_touch_v1 env s;
          s2 \<leftarrow> (if ok \<and> res \<noteq> 0 then alloc_trace_new backtrace res sz (enter s1) else Some (enter s1));
          Some (leave s2) }"

definition heaph_freeaddrinfo_v1 :: "init_env \<Rightarrow> nat \<Rightarrow> tracker \<Rightarrow> tracker option" where
  "heaph_freeaddrinfo_v1 env ai s =
     (if ai = 0 then Some s
      else do { s1 \<leftarrow> heaph_assert (\<not> alloc_is_static s ai) s;
                s2 \<leftarrow> heaph_touch_v1 env s1; s3 \<leftarrow> alloc_free ai (enter s2); Some (leave s3) })"

subsection \<open>The report\<close>

text \<open>Every failure of \<^verbatim>\<open>dladdr\<close> is a line of its own.\<close>

datatype line_v1 = Line report_line | Dladdr_failure

fun trace_resolve_v1 :: "(nat \<Rightarrow> symbol option) \<Rightarrow> nat list \<Rightarrow> line_v1 list \<times> symbol list" where
  "trace_resolve_v1 dladdr [] = ([], [])"
| "trace_resolve_v1 dladdr (addr # addrs) =
     (let (out, syms) = trace_resolve_v1 dladdr addrs
      in case dladdr addr of
           None \<Rightarrow> (Dladdr_failure # out, \<lparr>y_file = None, y_name = None\<rparr> # syms)
         | Some symb \<Rightarrow> (out, symb # syms))"

record report_v1 =
  o_count :: int
  o_report_count :: nat
  o_leak_size :: nat
  o_lines :: "line_v1 list"

fun report_loop_v1 :: "(nat \<Rightarrow> symbol option) \<Rightarrow> allocation list \<Rightarrow> report_v1 \<Rightarrow> report_v1 option" where
  "report_loop_v1 dladdr [] t = Some t"
| "report_loop_v1 dladdr (a # as) t =
     (if \<not> o_count t > 0 then None
      else if a_trace a = [] then report_loop_v1 dladdr as (t\<lparr>o_count := o_count t - 1\<rparr>)
      else let (out, syms) = trace_resolve_v1 dladdr (a_trace a);
               is_internal = trace_is_internal syms;
               t1 = t\<lparr>o_lines := o_lines t @ out\<rparr>;
               t2 = (if is_internal then t1\<lparr>o_count := o_count t1 - 1\<rparr>
                     else if o_report_count t1 < report_limit
                     then t1\<lparr>o_report_count := o_report_count t1 + 1,
                              o_lines := o_lines t1 @ [Line (Leak (o_report_count t1 + 1) (a_size a) (map y_name syms))]\<rparr>
                     else t1);
               t3 = (if \<not> is_internal then t2\<lparr>o_leak_size := c_size (o_leak_size t2 + a_size a)\<rparr> else t2)
           in report_loop_v1 dladdr as t3)"

definition heaph_atexit_v1 :: "(nat \<Rightarrow> symbol option) \<Rightarrow> tracker \<Rightarrow> (line_v1 list \<times> tracker) option" where
  "heaph_atexit_v1 dladdr s0 =
     (if h_is_exit_done s0 then Some ([], s0)
      else let s = s0\<lparr>h_is_exit_done := True\<rparr>; total_line = Total_allocations (h_alloc_count_total s)
           in if h_report_mode s = REPORT_MODE_QUIET then Some ([], s)
              else if h_alloc_count s = 0
              then Some (if h_report_mode s = REPORT_MODE_VERBOSE then [Line No_leaks, Line total_line] else [], s)
              else do { t \<leftarrow> report_loop_v1 dladdr (map snd (h_allocs s))
                          \<lparr>o_count = h_alloc_count s, o_report_count = 0, o_leak_size = 0, o_lines = []\<rparr>;
                        if o_count t = 0 \<and> h_report_mode s \<noteq> REPORT_MODE_VERBOSE then Some (o_lines t, s)
                        else Some (o_lines t @ map Line ([Found (o_count t) (o_leak_size t)] @
                          (if h_alloc_count s - o_count t \<noteq> 0 then [Suppressed (h_alloc_count s - o_count t)] else []) @
                          (if int (o_report_count t) < o_count t then [Only_first (int (o_report_count t))] else []) @
                          [total_line]), s) })"

subsection \<open>The content mode\<close>

text \<open>As long as memory is not to be filled, filling does nothing, and no function changes that.\<close>

definition original :: "tracker \<Rightarrow> bool" where
  "original s \<longleftrightarrow> h_content_mode s = CONTENT_MODE_ORIGINAL"

definition stays_original :: "tracker option \<Rightarrow> bool" where
  "stays_original r \<longleftrightarrow> (\<forall>s. r = Some s \<longrightarrow> original s)"

lemma fill_original: "original s \<Longrightarrow> fill_trash ptr sz s = s"
  by (simp add: original_def fill_trash_def)

lemma map_fill_original: "stays_original r \<Longrightarrow> map_option (fill_trash ptr sz) r = r"
  by (cases r) (simp_all add: stays_original_def fill_original)

lemma stays_simps [simp]: "stays_original None" "stays_original (Some s) \<longleftrightarrow> original s"
  by (simp_all add: stays_original_def)

lemma original_simps [simp]:
  "original (enter s) \<longleftrightarrow> original s" "original (leave s) \<longleftrightarrow> original s" "original (static_allocator_touch buf s) \<longleftrightarrow> original s"
  "original (heaph_lock s) \<longleftrightarrow> original s" "original (set_report_mode v s) \<longleftrightarrow> original s"
  "original (s\<lparr>h_is_init_done := b\<rparr>) \<longleftrightarrow> original s" "original (s\<lparr>h_static_used := u\<rparr>) \<longleftrightarrow> original s"
  by (simp_all add: original_def enter_def leave_def static_allocator_touch_def heaph_lock_def set_report_mode_def Let_def)

lemma stays_bind [intro]:
  "stays_original r \<Longrightarrow> (\<And>s. original s \<Longrightarrow> stays_original (g s)) \<Longrightarrow> stays_original (Option.bind r g)"
  by (cases r) simp_all

lemma bind_original:
  assumes "r' = r" "stays_original r" "\<And>s. original s \<Longrightarrow> g' s = g s"
  shows "Option.bind r' g' = Option.bind r g"
  using assms by (cases r) simp_all

lemma stays_trace [preserve]: "original s \<Longrightarrow> stays_original (alloc_trace_new bt ptr sz s)"
  by (auto simp: alloc_trace_new_def take_object_def Let_def original_def split: list.splits prod.splits if_splits)

lemma stays_free [preserve]: "original s \<Longrightarrow> stays_original (alloc_free ptr s)"
  by (auto simp: alloc_free_def heaph_assert_def original_def split: option.splits)

lemma stays_assert [preserve]: "original s \<Longrightarrow> stays_original (heaph_assert b s)"
  by (simp add: heaph_assert_def)

lemma stays_static_free [preserve]: "original s \<Longrightarrow> stays_original (static_free buf ptr s)"
  by (simp add: static_free_def Let_def preserve)

lemma stays_unlock [preserve]: "original s \<Longrightarrow> stays_original (heaph_unlock s)"
  by (auto simp: heaph_unlock_def heaph_assert_def Let_def original_def)

lemma static_malloc_eq: "original s \<Longrightarrow> static_malloc_v1 buf sz s = static_malloc buf sz s"
  by (simp add: static_malloc_def static_malloc_v1_def Let_def fill_original)

lemma static_malloc_original: "static_malloc buf sz s = Some (res, s') \<Longrightarrow> original s \<Longrightarrow> original s'"
  by (auto simp: static_malloc_def Let_def fill_original split: if_splits)

lemma init_call_eq:
  assumes "original s"
  shows "run_init_call_v1 buf c s = run_init_call buf c s \<and> stays_original (run_init_call buf c s)"
proof (cases c)
  case (Init_malloc sz)
  show ?thesis
  proof (cases "static_malloc buf sz (enter s)")
    case None
    with assms Init_malloc show ?thesis by (simp add: static_malloc_eq)
  next
    case (Some p)
    then obtain res s1 where p: "static_malloc buf sz (enter s) = Some (res, s1)" by (cases p) auto
    with assms static_malloc_original [OF p] have o: "stays_original (alloc_trace_new [] res sz s1)" by (simp add: preserve)
    then show ?thesis using assms Init_malloc p
      by (cases "alloc_trace_new [] res sz s1") (simp_all add: static_malloc_eq fill_original)
  qed
next
  case (Init_calloc num sz)
  show ?thesis
  proof (cases "static_malloc buf (c_size (sz * num)) (enter s)")
    case None
    with assms Init_calloc show ?thesis by (simp add: static_calloc_def static_calloc_v1_def static_malloc_eq)
  next
    case (Some p)
    then obtain res s1 where p: "static_malloc buf (c_size (sz * num)) (enter s) = Some (res, s1)" by (cases p) auto
    with assms static_malloc_original [OF p] have o: "stays_original (alloc_trace_new [] res (c_size (num * sz)) s1)" by (simp add: preserve)
    then show ?thesis using assms Init_calloc p
      by (cases "alloc_trace_new [] res (c_size (num * sz)) s1")
         (simp_all add: static_calloc_def static_calloc_v1_def static_malloc_eq)
  qed
next
  case (Init_free ptr)
  with assms show ?thesis by (auto intro!: stays_bind simp: preserve)
qed

lemma init_calls_eq:
  "original s \<Longrightarrow> run_init_calls_v1 buf cs s = run_init_calls buf cs s \<and> stays_original (run_init_calls buf cs s)"
proof (induction cs arbitrary: s)
  case (Cons c cs)
  have one: "run_init_call_v1 buf c s = run_init_call buf c s" "stays_original (run_init_call buf c s)"
    using init_call_eq [OF Cons.prems] by simp_all
  show ?case
  proof
    show "run_init_calls_v1 buf (c # cs) s = run_init_calls buf (c # cs) s"
      unfolding run_init_calls_v1.simps run_init_calls.simps by (rule bind_original [OF one]) (use Cons.IH in blast)
    show "stays_original (run_init_calls buf (c # cs) s)"
      unfolding run_init_calls.simps by (rule stays_bind [OF one(2)]) (use Cons.IH in blast)
  qed
qed simp

text \<open>The environment without \<^verbatim>\<open>HHCONTENT\<close>.\<close>

abbreviation no_content :: "init_env \<Rightarrow> init_env" where
  "no_content env \<equiv> env\<lparr>i_HHCONTENT := None\<rparr>"

lemma init_eq:
  assumes "original s"
  shows "heaph_init_v1 env s = heaph_init (no_content env) s" "stays_original (heaph_init (no_content env) s)"
proof -
  have id: "set_content_mode None = (\<lambda>s. s)" by (simp add: set_content_mode_def fun_eq_iff)
  show "heaph_init_v1 env s = heaph_init (no_content env) s" "stays_original (heaph_init (no_content env) s)"
    using init_calls_eq [OF assms, of "i_static_buf env" "i_calls env"]
    by (simp_all add: heaph_init_def heaph_init_v1_def id) (cases "run_init_calls (i_static_buf env) (i_calls env) s"; simp)
qed

lemma touch_eq:
  assumes "original s"
  shows "heaph_touch_v1 env s = heaph_touch (no_content env) s"
proof -
  have "original (heaph_lock s)" using assms by simp
  note init = init_eq [OF this, of env]
  show ?thesis unfolding heaph_touch_def heaph_touch_v1_def by (simp only: init(1))
qed

lemma stays_touch [preserve]:
  assumes "original s"
  shows "stays_original (heaph_touch (no_content env) s)"
proof -
  have "original (heaph_lock s)" using assms by simp
  from init_eq(2) [OF this] assms show ?thesis unfolding heaph_touch_def by (auto intro!: stays_bind preserve)
qed

subsection \<open>The same calls\<close>

fun heap_exec_v1 :: "init_env \<Rightarrow> nat list \<Rightarrow> heap_call \<Rightarrow> tracker \<Rightarrow> tracker option" where
  "heap_exec_v1 env bt (Malloc sz res) s = heaph_malloc_v1 env bt sz res s"
| "heap_exec_v1 env bt (Calloc num sz res) s = heaph_calloc_v1 env bt num sz res s"
| "heap_exec_v1 env bt (Realloc ptr sz res) s = heaph_realloc_v1 env bt ptr sz (\<lambda>_. res) s"
| "heap_exec_v1 env bt (Free ptr) s = heaph_free_v1 env ptr s"
| "heap_exec_v1 env bt (Strdup ptr len res) s = heaph_strdup_v1 env bt ptr len res s"
| "heap_exec_v1 env bt (Getline line_old len line) s = heaph_getline_v1 env bt line_old len line s"
| "heap_exec_v1 env bt (Getaddrinfo sz ok res) s = heaph_getaddrinfo_v1 env bt sz ok res s"
| "heap_exec_v1 env bt (Freeaddrinfo ai) s = heaph_freeaddrinfo_v1 env ai s"

lemmas heap_exec_defs = heaph_malloc_def heaph_calloc_def heaph_realloc_def heaph_free_def heaph_strdup_def heaph_getline_def
  heaph_getaddrinfo_def heaph_freeaddrinfo_def Let_def

lemmas heap_exec_v1_defs = heaph_malloc_v1_def heaph_calloc_v1_def heaph_realloc_v1_def heaph_free_v1_def heaph_strdup_v1_def
  heaph_getline_v1_def heaph_getaddrinfo_v1_def heaph_freeaddrinfo_v1_def

lemma stays_if: "(b \<Longrightarrow> stays_original r) \<Longrightarrow> (\<not> b \<Longrightarrow> stays_original q) \<Longrightarrow> stays_original (if b then r else q)"
  by simp

lemma stays_fill: "stays_original r \<Longrightarrow> stays_original (map_option (fill_trash ptr sz) r)"
  by (simp add: map_fill_original)

lemma heap_exec_stays:
  assumes "original s"
  shows "stays_original (heap_exec (no_content env) bt c s)"
proof -
  have fill: "original (fill_trash ptr sz s) \<longleftrightarrow> original s" for ptr sz s by (simp add: original_def fill_trash_def)
  show ?thesis using assms
    by (cases c) (auto simp: heap_exec_defs fill intro!: stays_bind stays_if stays_fill preserve)
qed

lemma heap_exec_eq:
  assumes "original s"
  shows "heap_exec_v1 env bt c s = heap_exec (no_content env) bt c s"
proof (cases c)
  case (Malloc sz res)
  have "map_option (fill_trash res sz) (alloc_trace_new bt res sz (enter s1)) = alloc_trace_new bt res sz (enter s1)" if "original s1" for s1
    using that by (intro map_fill_original preserve) simp
  then show ?thesis unfolding Malloc heap_exec_v1.simps heap_exec.simps heaph_malloc_v1_def heaph_malloc_def
    by (intro bind_original [OF touch_eq [OF assms] stays_touch [OF assms]]) simp
next
  case (Realloc ptr sz res)
  show ?thesis unfolding Realloc heap_exec_v1.simps heap_exec.simps heaph_realloc_v1_def heaph_realloc_def
    by (intro bind_original [OF touch_eq [OF assms] stays_touch [OF assms]]) (simp add: fill_original Let_def)
qed (simp_all add: heap_exec_v1_defs heap_exec_defs touch_eq [OF assms] heaph_assert_def)

fun heap_execs_v1 :: "init_env \<Rightarrow> (nat list \<times> heap_call) list \<Rightarrow> tracker \<Rightarrow> tracker option" where
  "heap_execs_v1 env [] s = Some s"
| "heap_execs_v1 env ((bt, c) # cs) s = do { s' \<leftarrow> heap_exec_v1 env bt c s; heap_execs_v1 env cs s' }"

lemma heap_execs_eq: "original s \<Longrightarrow> heap_execs_v1 env cs s = heap_execs (no_content env) cs s"
proof (induction cs arbitrary: s)
  case (Cons bc cs)
  obtain bt c where bc: "bc = (bt, c)" by (cases bc)
  show ?case unfolding bc heap_execs_v1.simps heap_execs.simps
    by (rule bind_original [OF heap_exec_eq heap_exec_stays Cons.IH]) (use Cons.prems in simp_all)
qed simp

subsection \<open>The same report\<close>

text \<open>What an older report says beside failures, and how many failures it has.\<close>

fun plain :: "line_v1 list \<Rightarrow> report_line list" where
  "plain [] = []"
| "plain (Line l # ls) = l # plain ls"
| "plain (Dladdr_failure # ls) = plain ls"

definition failures_v1 :: "line_v1 list \<Rightarrow> nat" where
  "failures_v1 = length \<circ> filter (\<lambda>l. l = Dladdr_failure)"

definition report_of :: "report_v1 \<Rightarrow> report" where
  "report_of t = \<lparr>t_count = o_count t, t_report_count = o_report_count t, t_leak_size = o_leak_size t,
     t_fail_count = failures_v1 (o_lines t), t_lines = plain (o_lines t)\<rparr>"

lemma plain_append [simp]: "plain (ls @ ms) = plain ls @ plain ms"
  by (induction ls rule: plain.induct) simp_all

lemma plain_Line [simp]: "plain (map Line ls) = ls"
  by (induction ls) simp_all

lemma failures_v1_simps [simp]:
  "failures_v1 [] = 0" "failures_v1 (ls @ ms) = failures_v1 ls + failures_v1 ms" "failures_v1 (Line l # ls) = failures_v1 ls"
  "failures_v1 (Dladdr_failure # ls) = Suc (failures_v1 ls)" "failures_v1 (map Line ns) = 0"
  by (simp_all add: failures_v1_def)

lemma trace_resolve_eq_v1:
  "trace_resolve dladdr addrs = (failures_v1 (fst (trace_resolve_v1 dladdr addrs)), snd (trace_resolve_v1 dladdr addrs)) \<and>
   plain (fst (trace_resolve_v1 dladdr addrs)) = []"
  by (induction addrs) (auto split: option.splits prod.splits)

lemma report_loop_eq_v1: "report_loop dladdr as (report_of t) = map_option report_of (report_loop_v1 dladdr as t)"
proof (induction as arbitrary: t)
  case (Cons a as)
  obtain out syms where r: "trace_resolve_v1 dladdr (a_trace a) = (out, syms)" by (cases "trace_resolve_v1 dladdr (a_trace a)")
  have r': "trace_resolve dladdr (a_trace a) = (failures_v1 out, syms)" "plain out = []"
    using trace_resolve_eq_v1 [of dladdr "a_trace a"] r by simp_all
  show ?case
    by (simp add: r r' Cons.IH [symmetric] Let_def) (simp add: report_of_def r')
qed simp

text \<open>The lines of the later report without the sum of the failures.\<close>

definition without_failures :: "report_line list \<Rightarrow> report_line list" where
  "without_failures = filter (\<lambda>l. \<not> (\<exists>n. l = Dladdr_failures n))"

fun failures_of :: "report_line list \<Rightarrow> nat" where
  "failures_of [] = 0"
| "failures_of (Dladdr_failures n # ls) = n + failures_of ls"
| "failures_of (_ # ls) = failures_of ls"

lemma without_failures_simps [simp]:
  "without_failures [] = []" "without_failures (ls @ ms) = without_failures ls @ without_failures ms"
  "without_failures (Dladdr_failures n # ls) = without_failures ls" "without_failures (Leak i j k # ls) = Leak i j k # without_failures ls"
  "without_failures (No_leaks # ls) = No_leaks # without_failures ls" "without_failures (Found c d # ls) = Found c d # without_failures ls"
  "without_failures (Suppressed c # ls) = Suppressed c # without_failures ls"
  "without_failures (Only_first c # ls) = Only_first c # without_failures ls"
  "without_failures (Total_allocations m # ls) = Total_allocations m # without_failures ls"
  by (simp_all add: without_failures_def)

lemma failures_of_append [simp]: "failures_of (ls @ ms) = failures_of ls + failures_of ms"
  by (induction ls rule: failures_of.induct) simp_all

lemma report_loop_leaks:
  "report_loop dladdr as t = Some t' \<Longrightarrow> without_failures (t_lines t) = t_lines t \<Longrightarrow> failures_of (t_lines t) = 0 \<Longrightarrow>
   without_failures (t_lines t') = t_lines t' \<and> failures_of (t_lines t') = 0"
proof (induction as arbitrary: t)
  case (Cons a as)
  obtain n syms where r: "trace_resolve dladdr (a_trace a) = (n, syms)" by (cases "trace_resolve dladdr (a_trace a)")
  from Cons.prems(1) obtain u where u: "report_loop dladdr as u = Some t'"
    "without_failures (t_lines u) = t_lines u" "failures_of (t_lines u) = 0"
    using Cons.prems(2,3) r that by (simp add: Let_def split: if_splits)
  from Cons.IH [OF this] show ?case .
qed simp

text \<open>Two reports at exit that say the same.\<close>

fun same_report :: "(line_v1 list \<times> tracker) option \<Rightarrow> (report_line list \<times> tracker) option \<Rightarrow> bool" where
  "same_report None None = True"
| "same_report (Some (old, s)) (Some (new, s')) \<longleftrightarrow> plain old = without_failures new \<and> failures_v1 old = failures_of new \<and> s = s'"
| "same_report _ _ = False"

lemma atexit_same: "same_report (heaph_atexit_v1 dladdr s) (heaph_atexit dladdr s)"
proof -
  let ?new = "\<lparr>t_count = h_alloc_count s, t_report_count = 0, t_leak_size = 0, t_fail_count = 0, t_lines = []\<rparr>"
  let ?old = "\<lparr>o_count = h_alloc_count s, o_report_count = 0, o_leak_size = 0, o_lines = []\<rparr>"
  have "report_of ?old = ?new" by (simp add: report_of_def)
  then have loop: "report_loop dladdr (map snd (h_allocs s)) ?new = map_option report_of (report_loop_v1 dladdr (map snd (h_allocs s)) ?old)"
    using report_loop_eq_v1 [of dladdr "map snd (h_allocs s)" ?old] by simp
  show ?thesis
  proof (cases "report_loop_v1 dladdr (map snd (h_allocs s)) ?old")
    case None
    with loop show ?thesis by (simp add: heaph_atexit_def heaph_atexit_v1_def Let_def)
  next
    case (Some t)
    have "without_failures (plain (o_lines t)) = plain (o_lines t)" "failures_of (plain (o_lines t)) = 0"
      using report_loop_leaks [of dladdr _ ?new "report_of t"] loop Some by (simp_all add: report_of_def)
    with loop Some show ?thesis by (simp add: heaph_atexit_def heaph_atexit_v1_def Let_def report_of_def)
  qed
qed

text \<open>C16: The older version of the leak detector is the later one with \<^verbatim>\<open>HHCONTENT\<close> not set: any calls, the initialisation
  included, lead to the same tracker or abort in both; and in any state both print the same report at exit, but that the older one prints
  a line for each failure of \<^verbatim>\<open>dladdr\<close> where the later one prints their number.\<close>

theorem old_detector_equivalent:
  "heap_execs_v1 env cs tracker_start = heap_execs (env\<lparr>i_HHCONTENT := None\<rparr>) cs tracker_start \<and>
   same_report (heaph_atexit_v1 dladdr s) (heaph_atexit dladdr s)"
proof -
  have "original tracker_start" by (simp add: original_def tracker_start_def)
  from heap_execs_eq [OF this] atexit_same show ?thesis by blast
qed

end
