(* ===== verification/Bench_Locks.thy ===== *)
theory Bench_Locks
  imports Prelude
begin

section \<open>The mutex benchmark\<close>

text \<open>
  \<^verbatim>\<open>bonus/3/main3.c\<close>: threads take turns at incrementing a counter under a mutex until it is \<^verbatim>\<open>NUM_LOCKS\<close>, while the main thread
  creates and then joins them. A state holds where every thread is; a step is one action of one thread. The steps are those of
  one measurement (the body of the loop over the runs, up to the clock); the counter does not get near the limit of \<^verbatim>\<open>int\<close>.
\<close>

subsection \<open>Threads\<close>

definition NUM_LOCKS :: nat where
  "NUM_LOCKS = 10000000"

datatype lock_pc = L_Lock | L_Check | L_Break | L_Increment | L_Unlock | L_End

datatype main_pc = M_Create nat | M_Join nat | M_End

record locks =
  l_threads :: "lock_pc list"
  l_mutex :: "nat option"
  l_counter :: nat
  l_main :: main_pc

definition locks_start :: locks where
  "locks_start = \<lparr>l_threads = [], l_mutex = None, l_counter = 0, l_main = M_Create 0\<rparr>"

definition l_go :: "nat \<Rightarrow> lock_pc \<Rightarrow> locks \<Rightarrow> locks" where
  "l_go i p s = s\<lparr>l_threads := (l_threads s)[i := p]\<rparr>"

text \<open>One action of thread \<open>i\<close>; \<^const>\<open>None\<close> when it has to wait or has ended.\<close>

definition thread_function :: "nat \<Rightarrow> locks \<Rightarrow> locks option" where
  "thread_function i s =
     (case l_threads s ! i of
        L_Lock \<Rightarrow> if l_mutex s = None then Some ((l_go i L_Check s)\<lparr>l_mutex := Some i\<rparr>) else None
      | L_Check \<Rightarrow> Some (l_go i (if l_counter s \<ge> NUM_LOCKS then L_Break else L_Increment) s)
      | L_Break \<Rightarrow> Some ((l_go i L_End s)\<lparr>l_mutex := None\<rparr>)
      | L_Increment \<Rightarrow> Some ((l_go i L_Unlock s)\<lparr>l_counter := l_counter s + 1\<rparr>)
      | L_Unlock \<Rightarrow> Some ((l_go i L_Lock s)\<lparr>l_mutex := None\<rparr>)
      | L_End \<Rightarrow> None)"

text \<open>One action of the main thread: \<^verbatim>\<open>pthread_create\<close> in a loop, then \<^verbatim>\<open>pthread_join\<close>.\<close>

definition locks_main :: "nat \<Rightarrow> locks \<Rightarrow> locks option" where
  "locks_main num_threads s =
     (case l_main s of
        M_Create i \<Rightarrow> Some (if i < num_threads then s\<lparr>l_threads := l_threads s @ [L_Lock], l_main := M_Create (i + 1)\<rparr>
                          else s\<lparr>l_main := M_Join 0\<rparr>)
      | M_Join i \<Rightarrow> if i < num_threads then if l_threads s ! i = L_End then Some (s\<lparr>l_main := M_Join (i + 1)\<rparr>) else None
                    else Some (s\<lparr>l_main := M_End\<rparr>)
      | M_End \<Rightarrow> None)"

inductive locks_step :: "nat \<Rightarrow> locks \<Rightarrow> locks \<Rightarrow> bool" for num_threads where
  step_main: "locks_main num_threads s = Some s' \<Longrightarrow> locks_step num_threads s s'"
| step_thread: "i < length (l_threads s) \<Longrightarrow> thread_function i s = Some s' \<Longrightarrow> locks_step num_threads s s'"

inductive_cases locks_stepE: "locks_step n s s'"

subsection \<open>Invariant\<close>

text \<open>Exactly the owner of the mutex is in the critical section, and where it is agrees with the counter.\<close>

fun owner_ok :: "nat \<Rightarrow> lock_pc \<Rightarrow> bool" where
  "owner_ok c L_Check = True"
| "owner_ok c L_Increment = (c < NUM_LOCKS)"
| "owner_ok c L_Unlock = True"
| "owner_ok c L_Break = (c = NUM_LOCKS)"
| "owner_ok c _ = False"

fun outside_ok :: "nat \<Rightarrow> lock_pc \<Rightarrow> bool" where
  "outside_ok c L_Lock = True"
| "outside_ok c L_End = (c = NUM_LOCKS)"
| "outside_ok c _ = False"

definition threads_ok :: "locks \<Rightarrow> bool" where
  "threads_ok s \<longleftrightarrow> l_counter s \<le> NUM_LOCKS \<and>
     (\<forall>i < length (l_threads s). if l_mutex s = Some i then owner_ok (l_counter s) (l_threads s ! i)
        else outside_ok (l_counter s) (l_threads s ! i)) \<and>
     (\<forall>i. l_mutex s = Some i \<longrightarrow> i < length (l_threads s))"

definition main_ok :: "nat \<Rightarrow> locks \<Rightarrow> bool" where
  "main_ok n s \<longleftrightarrow>
     (case l_main s of
        M_Create i \<Rightarrow> length (l_threads s) = i \<and> i \<le> n
      | M_Join i \<Rightarrow> length (l_threads s) = n \<and> i \<le> n \<and> (\<forall>j < i. l_threads s ! j = L_End)
      | M_End \<Rightarrow> length (l_threads s) = n \<and> (\<forall>j < n. l_threads s ! j = L_End))"

definition locks_inv :: "nat \<Rightarrow> locks \<Rightarrow> bool" where
  "locks_inv n s \<longleftrightarrow> threads_ok s \<and> main_ok n s"

lemma outside_ok_more: "outside_ok c p \<Longrightarrow> c < NUM_LOCKS \<Longrightarrow> outside_ok c' p"
  by (cases p) auto

lemma threads_ok_thread:
  assumes s: "threads_ok s" and i: "i < length (l_threads s)" and step: "thread_function i s = Some s'"
  shows "threads_ok s'"
proof -
  have mine: "if l_mutex s = Some i then owner_ok (l_counter s) (l_threads s ! i) else outside_ok (l_counter s) (l_threads s ! i)"
    using s i unfolding threads_ok_def by blast
  then have free: "l_mutex s = (if l_threads s ! i = L_Lock then None else Some i)"
    using step by (cases "l_threads s ! i") (auto simp: thread_function_def split: if_splits)
  have others: "outside_ok (l_counter s) (l_threads s ! j)" if "j < length (l_threads s)" "j \<noteq> i" for j
    using s free that unfolding threads_ok_def by (auto split: if_splits)
  have counter: "l_counter s \<le> NUM_LOCKS" using s by (simp add: threads_ok_def)
  have "\<exists>p. l_threads s' = (l_threads s)[i := p] \<and> l_counter s' \<le> NUM_LOCKS \<and>
      (l_mutex s' = Some i \<and> owner_ok (l_counter s') p \<or> l_mutex s' = None \<and> outside_ok (l_counter s') p) \<and>
      (l_counter s' = l_counter s \<or> l_counter s < NUM_LOCKS)"
    using mine free step counter by (cases "l_threads s ! i") (auto simp: thread_function_def l_go_def split: if_splits)
  then obtain p where s': "l_threads s' = (l_threads s)[i := p]"
    and ok: "l_counter s' \<le> NUM_LOCKS" "l_mutex s' = Some i \<and> owner_ok (l_counter s') p \<or> l_mutex s' = None \<and> outside_ok (l_counter s') p"
      "l_counter s' = l_counter s \<or> l_counter s < NUM_LOCKS"
    by blast
  have "outside_ok (l_counter s') (l_threads s ! j)" if "j < length (l_threads s)" "j \<noteq> i" for j
    using others [OF that] ok(3) outside_ok_more by metis
  with ok(1,2) i s' show ?thesis by (auto simp: threads_ok_def nth_list_update)
qed

lemma main_ok_thread:
  assumes "main_ok n s" "i < length (l_threads s)" "thread_function i s = Some s'"
  shows "main_ok n s'"
proof -
  have same: "l_main s' = l_main s" "length (l_threads s') = length (l_threads s)" and "l_threads s ! i \<noteq> L_End"
    using assms(3) by (auto simp: thread_function_def l_go_def split: lock_pc.splits if_splits)
  moreover have "l_threads s' ! j = l_threads s ! j" if "j \<noteq> i" for j
    using assms(3) that by (auto simp: thread_function_def l_go_def split: lock_pc.splits if_splits)
  ultimately show ?thesis using assms(1) unfolding main_ok_def by (auto split: main_pc.splits) (metis+)
qed

lemma threads_ok_main:
  assumes "threads_ok s" "locks_main n s = Some s'"
  shows "threads_ok s'"
proof (cases "l_threads s' = l_threads s")
  case True
  with assms show ?thesis by (auto simp: locks_main_def threads_ok_def split: main_pc.splits if_splits)
next
  case False
  with assms(2) have "l_threads s' = l_threads s @ [L_Lock]" "l_counter s' = l_counter s" "l_mutex s' = l_mutex s"
    by (auto simp: locks_main_def split: main_pc.splits if_splits)
  with assms(1) show ?thesis by (auto simp: threads_ok_def nth_append less_Suc_eq)
qed

lemma main_ok_main:
  assumes "main_ok n s" "locks_main n s = Some s'"
  shows "main_ok n s'"
  using assms by (auto simp: locks_main_def main_ok_def less_Suc_eq split: main_pc.splits if_splits)

subsection \<open>Every run ends with the full count\<close>

primrec pc_weight :: "lock_pc \<Rightarrow> nat" where
  "pc_weight L_Lock = 4"
| "pc_weight L_Check = 3"
| "pc_weight L_Increment = 2"
| "pc_weight L_Break = 1"
| "pc_weight L_Unlock = 5"
| "pc_weight L_End = 0"

text \<open>What is left to do: increments, the steps of the threads and those of the main thread.\<close>

definition locks_left :: "nat \<Rightarrow> locks \<Rightarrow> nat" where
  "locks_left n s = 4 * (NUM_LOCKS - l_counter s) + sum_list (map pc_weight (l_threads s)) +
     (case l_main s of M_Create i \<Rightarrow> 5 * (n - i) + n + 2 | M_Join i \<Rightarrow> (n - i) + 1 | M_End \<Rightarrow> 0)"

lemma locks_left_thread:
  assumes "threads_ok s" "i < length (l_threads s)" "thread_function i s = Some s'"
  shows "locks_left n s' < locks_left n s"
proof -
  have mine: "if l_mutex s = Some i then owner_ok (l_counter s) (l_threads s ! i) else outside_ok (l_counter s) (l_threads s ! i)"
    using assms(1,2) unfolding threads_ok_def by blast
  have main: "l_main s' = l_main s" using assms(3) by (auto simp: thread_function_def l_go_def split: lock_pc.splits if_splits)
  have "\<exists>p. l_threads s' = (l_threads s)[i := p] \<and>
      4 * (NUM_LOCKS - l_counter s') + pc_weight p < 4 * (NUM_LOCKS - l_counter s) + pc_weight (l_threads s ! i)"
    using mine assms(3) by (cases "l_threads s ! i") (auto simp: thread_function_def l_go_def split: if_splits)
  then obtain p where "l_threads s' = (l_threads s)[i := p]"
    "4 * (NUM_LOCKS - l_counter s') + pc_weight p < 4 * (NUM_LOCKS - l_counter s) + pc_weight (l_threads s ! i)" by blast
  with sum_weight_update [OF assms(2), of pc_weight p] main show ?thesis by (simp add: locks_left_def)
qed

lemma locks_left_main:
  assumes "main_ok n s" "locks_main n s = Some s'"
  shows "locks_left n s' < locks_left n s"
proof (cases "l_main s")
  case (M_Create i)
  with assms show ?thesis by (cases "i < n") (auto simp: locks_main_def locks_left_def main_ok_def)
next
  case (M_Join i)
  with assms show ?thesis by (cases "i < n") (auto simp: locks_main_def locks_left_def split: if_splits)
next
  case M_End
  with assms show ?thesis by (simp add: locks_main_def)
qed

lemma locks_thread_enabled:
  assumes "threads_ok s" "i < length (l_threads s)" "l_threads s ! i \<noteq> L_End"
  shows "\<exists>j s'. j < length (l_threads s) \<and> thread_function j s = Some s'"
proof (cases "l_mutex s")
  case None
  then have "outside_ok (l_counter s) (l_threads s ! i)" using assms(1,2) unfolding threads_ok_def by simp
  then have "l_threads s ! i = L_Lock" using assms(3) by (cases "l_threads s ! i") auto
  with None assms(2) show ?thesis by (intro exI [of _ i]) (simp add: thread_function_def)
next
  case (Some j)
  then have "j < length (l_threads s)" "owner_ok (l_counter s) (l_threads s ! j)"
    using assms(1) unfolding threads_ok_def by simp_all
  then show ?thesis by (intro exI [of _ j]) (cases "l_threads s ! j"; simp add: thread_function_def)
qed

lemma locks_stuck:
  assumes "locks_inv n s" "\<nexists>s'. locks_step n s s'"
  shows "l_main s = M_End"
proof (rule ccontr)
  assume "l_main s \<noteq> M_End"
  moreover have none: "locks_main n s = None" using assms(2) step_main by (cases "locks_main n s") blast+
  ultimately obtain i where "i < n" "l_threads s ! i \<noteq> L_End" "l_main s = M_Join i"
    by (cases "l_main s") (auto simp: locks_main_def split: if_splits)
  moreover from this have "i < length (l_threads s)" using assms(1) by (simp add: locks_inv_def main_ok_def)
  ultimately obtain j s' where "j < length (l_threads s)" "thread_function j s = Some s'"
    using locks_thread_enabled assms(1) unfolding locks_inv_def by blast
  then show False using assms(2) step_thread by blast
qed

lemma locks_end:
  assumes "locks_inv n s" "l_main s = M_End" "0 < n"
  shows "l_counter s = NUM_LOCKS"
proof -
  have "0 < length (l_threads s)" "l_threads s ! 0 = L_End" using assms by (simp_all add: locks_inv_def main_ok_def)
  with assms(1) show ?thesis unfolding locks_inv_def threads_ok_def by (auto split: if_splits dest!: spec [of _ 0])
qed

interpretation locks_sys: ending_system "\<lambda>s. s = locks_start" "locks_step n" "locks_inv n" "locks_left n" "\<lambda>s. l_main s = M_End" for n
proof
  show "locks_inv n s" if "s = locks_start" for s
    using that by (simp add: locks_inv_def locks_start_def threads_ok_def main_ok_def)
  show "locks_inv n s'" if "locks_inv n s" "locks_step n s s'" for s s'
    using that(2,1) by (cases rule: locks_step.cases)
      (auto simp: locks_inv_def intro: threads_ok_thread main_ok_thread threads_ok_main main_ok_main)
  show "locks_left n s' < locks_left n s" if "locks_inv n s" "locks_step n s s'" for s s'
    using that(2,1) by (cases rule: locks_step.cases) (auto simp: locks_inv_def intro: locks_left_thread locks_left_main)
  show "l_main s = M_End" if "locks_inv n s" "\<nexists>s'. locks_step n s s'" for s
    using that by (rule locks_stuck)
qed

text \<open>C8: However the threads of the mutex benchmark are scheduled, no run goes on for ever; a run that cannot go on has reached
  the end of the main thread, never a deadlock, so that every run reaches it; and then the counter is exactly \<^verbatim>\<open>NUM_LOCKS\<close>,
  which it never exceeds.\<close>

theorem locks_run_ends:
  assumes "reachable (\<lambda>s. s = locks_start) (locks_step n) s" "0 < n"
  shows "wf {(s', s). reachable (\<lambda>s. s = locks_start) (locks_step n) s \<and> locks_step n s s'} \<and> l_counter s \<le> NUM_LOCKS \<and>
    ((\<nexists>s'. locks_step n s s') \<longrightarrow> l_main s = M_End) \<and> (l_main s = M_End \<longrightarrow> l_counter s = NUM_LOCKS) \<and>
    (\<exists>t. (locks_step n)\<^sup>*\<^sup>* s t \<and> l_main t = M_End)"
proof -
  have inv: "locks_inv n s" by (rule locks_sys.inv_reachable [OF assms(1)])
  then have "l_counter s \<le> NUM_LOCKS" by (simp add: locks_inv_def threads_ok_def)
  then show ?thesis
    using locks_sys.runs_finite [of n] locks_stuck [OF inv] locks_end [OF inv _ assms(2)] locks_sys.reaches_final [OF assms(1)] by blast
qed

lemma locks_run_ends_witness: "\<exists>t. (locks_step 2)\<^sup>*\<^sup>* locks_start t \<and> l_main t = M_End"
proof -
  have "reachable (\<lambda>s. s = locks_start) (locks_step 2) locks_start" by (rule reachable_init) simp
  from locks_run_ends [OF this] show ?thesis by simp
qed

end
