(* ===== verification/Bench_Signals.thy ===== *)
theory Bench_Signals
  imports Prelude
begin

section \<open>The condition variable benchmark\<close>

text \<open>
  \<^verbatim>\<open>bonus/6/main6.c\<close>: threads wait on a condition variable until \<^verbatim>\<open>NUM_SIGNALS\<close> signals or broadcasts have been sent, which the
  main thread does after it has created them and before it joins them. A state holds where every thread is; a step is one action of
  one thread. As POSIX has it, a signal wakes at least one of the waiting threads, which ones being left open, and a waiting thread
  may also wake up on its own (\<open>spurious_wakeup\<close>, a step that is no action of the program).
\<close>

subsection \<open>Threads\<close>

definition NUM_SIGNALS :: nat where
  "NUM_SIGNALS = 1000000"

datatype wait_pc = W_Lock | W_Check | W_Wait | W_Wakeup | W_Unlock | W_End

datatype signal_pc = S_Create nat | S_Loop nat | S_Count nat | S_Notify nat | S_Unlock nat | S_Join nat | S_End

datatype owner = Main_owner | Wait_owner nat

record signals =
  g_threads :: "wait_pc list"
  g_mutex :: "owner option"
  g_signal_count :: nat
  g_main :: signal_pc

definition signals_start :: signals where
  "signals_start = \<lparr>g_threads = [], g_mutex = None, g_signal_count = 0, g_main = S_Create 0\<rparr>"

text \<open>One action of waiting thread \<open>i\<close>. \<^verbatim>\<open>pthread_cond_wait\<close> releases the mutex, waits and takes the mutex again.\<close>

definition wait_thread :: "nat \<Rightarrow> signals \<Rightarrow> signals option" where
  "wait_thread i s =
     (let go = (\<lambda>p m. s\<lparr>g_threads := (g_threads s)[i := p], g_mutex := m\<rparr>)
      in case g_threads s ! i of
           W_Lock \<Rightarrow> if g_mutex s = None then Some (go W_Check (Some (Wait_owner i))) else None
         | W_Check \<Rightarrow> Some (if g_signal_count s < NUM_SIGNALS then go W_Wait None else go W_Unlock (g_mutex s))
         | W_Wait \<Rightarrow> None
         | W_Wakeup \<Rightarrow> if g_mutex s = None then Some (go W_Check (Some (Wait_owner i))) else None
         | W_Unlock \<Rightarrow> Some (go W_End None)
         | W_End \<Rightarrow> None)"

definition cond_broadcast :: "wait_pc list \<Rightarrow> wait_pc list" where
  "cond_broadcast = map (\<lambda>p. if p = W_Wait then W_Wakeup else p)"

text \<open>\<open>ks\<close> are the waiting threads that are woken: one or more, if any waits.\<close>

definition wake_threads :: "nat list \<Rightarrow> wait_pc list \<Rightarrow> wait_pc list" where
  "wake_threads ks ps = map (\<lambda>i. if i \<in> set ks then W_Wakeup else ps ! i) [0..<length ps]"

definition cond_signal :: "nat list \<Rightarrow> wait_pc list \<Rightarrow> wait_pc list option" where
  "cond_signal ks ps =
     (if W_Wait \<notin> set ps then Some ps
      else if ks \<noteq> [] \<and> list_all (\<lambda>k. k < length ps \<and> ps ! k = W_Wait) ks then Some (wake_threads ks ps) else None)"

text \<open>One action of the main thread: \<^verbatim>\<open>run_test\<close> with \<^verbatim>\<open>signal_or_broadcast\<close>.\<close>

definition run_test :: "nat \<Rightarrow> bool \<Rightarrow> nat list \<Rightarrow> signals \<Rightarrow> signals option" where
  "run_test wait_threads is_broadcast ks s =
     (case g_main s of
        S_Create i \<Rightarrow> Some (if i < wait_threads then s\<lparr>g_threads := g_threads s @ [W_Lock], g_main := S_Create (i + 1)\<rparr>
                          else s\<lparr>g_main := S_Loop 0\<rparr>)
      | S_Loop i \<Rightarrow> if i < NUM_SIGNALS
                    then if g_mutex s = None then Some (s\<lparr>g_mutex := Some Main_owner, g_main := S_Count i\<rparr>) else None
                    else Some (s\<lparr>g_main := S_Join 0\<rparr>)
      | S_Count i \<Rightarrow> Some (s\<lparr>g_signal_count := g_signal_count s + 1, g_main := S_Notify i\<rparr>)
      | S_Notify i \<Rightarrow> map_option (\<lambda>ps. s\<lparr>g_threads := ps, g_main := S_Unlock i\<rparr>)
                      (if is_broadcast then Some (cond_broadcast (g_threads s)) else cond_signal ks (g_threads s))
      | S_Unlock i \<Rightarrow> Some (s\<lparr>g_mutex := None, g_main := S_Loop (i + 1)\<rparr>)
      | S_Join i \<Rightarrow> if i < wait_threads then if g_threads s ! i = W_End then Some (s\<lparr>g_main := S_Join (i + 1)\<rparr>) else None
                    else Some (s\<lparr>g_main := S_End\<rparr>)
      | S_End \<Rightarrow> None)"

inductive signals_step :: "nat \<Rightarrow> bool \<Rightarrow> signals \<Rightarrow> signals \<Rightarrow> bool" for n b where
  step_main: "run_test n b k s = Some s' \<Longrightarrow> signals_step n b s s'"
| step_wait: "i < length (g_threads s) \<Longrightarrow> wait_thread i s = Some s' \<Longrightarrow> signals_step n b s s'"

definition spurious_wakeup :: "signals \<Rightarrow> signals \<Rightarrow> bool" where
  "spurious_wakeup s s' \<longleftrightarrow>
     (\<exists>i < length (g_threads s). g_threads s ! i = W_Wait \<and> s' = s\<lparr>g_threads := (g_threads s)[i := W_Wakeup]\<rparr>)"

abbreviation signals_reachable :: "nat \<Rightarrow> bool \<Rightarrow> signals \<Rightarrow> bool" where
  "signals_reachable n b \<equiv> reachable (\<lambda>s. s = signals_start) (\<lambda>s s'. signals_step n b s s' \<or> spurious_wakeup s s')"

text \<open>A run that hangs: no thread can do anything before it is woken, but the main thread is not at its end and nobody is
  left to wake a thread.\<close>

definition may_hang :: "nat \<Rightarrow> bool \<Rightarrow> bool" where
  "may_hang n b \<longleftrightarrow> (\<exists>s. signals_reachable n b s \<and> (\<nexists>s'. signals_step n b s s') \<and> g_main s \<noteq> S_End)"

subsection \<open>Signals\<close>

text \<open>Two threads wait while the signals are sent; each signal wakes the first one, which waits again.\<close>

definition both_wait :: "nat \<Rightarrow> signals" where
  "both_wait k = \<lparr>g_threads = [W_Wait, W_Wait], g_mutex = None, g_signal_count = k, g_main = S_Loop k\<rparr>"

lemma stepped:
  "signals_reachable n b s \<Longrightarrow> run_test n b k s = Some s' \<Longrightarrow> signals_reachable n b s'"
  "signals_reachable n b s \<Longrightarrow> wait_thread i s = Some s' \<Longrightarrow> i < length (g_threads s) \<Longrightarrow> signals_reachable n b s'"
  by (blast intro: reachable_step step_main step_wait)+

lemma both_wait_start: "signals_reachable 2 False (both_wait 0)"
proof -
  let ?s = "\<lambda>ps m p. \<lparr>g_threads = ps, g_mutex = m, g_signal_count = 0, g_main = p\<rparr>"
  have pos: "0 < NUM_SIGNALS" by (simp add: NUM_SIGNALS_def)
  have "signals_reachable 2 False (?s [] None (S_Create 0))" by (rule reachable_init) (simp add: signals_start_def)
  then have "signals_reachable 2 False (?s [W_Lock] None (S_Create 1))" by (rule stepped(1) [where k = "[0]"]) (simp add: run_test_def)
  then have "signals_reachable 2 False (?s [W_Lock, W_Lock] None (S_Create 2))" by (rule stepped(1) [where k = "[0]"]) (simp add: run_test_def)
  then have "signals_reachable 2 False (?s [W_Lock, W_Lock] None (S_Loop 0))" by (rule stepped(1) [where k = "[0]"]) (simp add: run_test_def)
  then have "signals_reachable 2 False (?s [W_Check, W_Lock] (Some (Wait_owner 0)) (S_Loop 0))"
    by (rule stepped(2) [where i = 0]) (simp_all add: wait_thread_def)
  then have "signals_reachable 2 False (?s [W_Wait, W_Lock] None (S_Loop 0))"
    by (rule stepped(2) [where i = 0]) (simp_all add: wait_thread_def pos)
  then have "signals_reachable 2 False (?s [W_Wait, W_Check] (Some (Wait_owner 1)) (S_Loop 0))"
    by (rule stepped(2) [where i = 1]) (simp_all add: wait_thread_def)
  then have "signals_reachable 2 False (?s [W_Wait, W_Wait] None (S_Loop 0))"
    by (rule stepped(2) [where i = 1]) (simp_all add: wait_thread_def pos)
  then show ?thesis by (simp add: both_wait_def)
qed

text \<open>One round of the loop up to where the first thread has the mutex again.\<close>

lemma wake_first: "wake_threads [0] [W_Wait, W_Wait] = [W_Wakeup, W_Wait]"
  by code_simp

lemma signal_round:
  assumes "signals_reachable 2 False (both_wait k)" "k < NUM_SIGNALS"
  shows "signals_reachable 2 False
    \<lparr>g_threads = [W_Check, W_Wait], g_mutex = Some (Wait_owner 0), g_signal_count = Suc k, g_main = S_Loop (Suc k)\<rparr>"
proof -
  let ?s = "\<lambda>ps m c p. \<lparr>g_threads = ps, g_mutex = m, g_signal_count = c, g_main = p\<rparr>"
  from assms(1) have "signals_reachable 2 False (?s [W_Wait, W_Wait] (Some Main_owner) k (S_Count k))"
    by (rule stepped(1) [where k = "[0]"]) (simp add: run_test_def both_wait_def assms(2))
  then have "signals_reachable 2 False (?s [W_Wait, W_Wait] (Some Main_owner) (Suc k) (S_Notify k))"
    by (rule stepped(1) [where k = "[0]"]) (simp add: run_test_def)
  then have "signals_reachable 2 False (?s [W_Wakeup, W_Wait] (Some Main_owner) (Suc k) (S_Unlock k))"
    by (rule stepped(1) [where k = "[0]"]) (simp add: run_test_def cond_signal_def wake_first)
  then have "signals_reachable 2 False (?s [W_Wakeup, W_Wait] None (Suc k) (S_Loop (Suc k)))"
    by (rule stepped(1) [where k = "[0]"]) (simp add: run_test_def)
  then show ?thesis by (rule stepped(2) [where i = 0]) (simp_all add: wait_thread_def)
qed

lemma both_wait_reachable: "k < NUM_SIGNALS \<Longrightarrow> signals_reachable 2 False (both_wait k)"
proof (induction k)
  case 0
  show ?case by (rule both_wait_start)
next
  case (Suc k)
  then have "signals_reachable 2 False (both_wait k)" "k < NUM_SIGNALS" by simp_all
  from signal_round [OF this] show ?case
    by (rule stepped(2) [where i = 0]) (use Suc.prems in \<open>simp_all add: wait_thread_def both_wait_def\<close>)
qed

text \<open>After the last signal the second thread waits for ever.\<close>

lemma signal_hangs: "may_hang 2 False"
proof -
  let ?s = "\<lambda>ps m p. \<lparr>g_threads = ps, g_mutex = m, g_signal_count = NUM_SIGNALS, g_main = p\<rparr>"
  obtain k where k: "NUM_SIGNALS = Suc k" by (cases NUM_SIGNALS) (simp_all add: NUM_SIGNALS_def)
  have "signals_reachable 2 False (?s [W_Check, W_Wait] (Some (Wait_owner 0)) (S_Loop NUM_SIGNALS))"
    using signal_round [OF both_wait_reachable, of k] k by simp
  then have "signals_reachable 2 False (?s [W_Unlock, W_Wait] (Some (Wait_owner 0)) (S_Loop NUM_SIGNALS))"
    by (rule stepped(2) [where i = 0]) (simp_all add: wait_thread_def)
  then have "signals_reachable 2 False (?s [W_End, W_Wait] None (S_Loop NUM_SIGNALS))"
    by (rule stepped(2) [where i = 0]) (simp_all add: wait_thread_def)
  then have "signals_reachable 2 False (?s [W_End, W_Wait] None (S_Join 0))"
    by (rule stepped(1) [where k = "[0]"]) (simp add: run_test_def)
  then have "signals_reachable 2 False (?s [W_End, W_Wait] None (S_Join 1))"
    by (rule stepped(1) [where k = "[0]"]) (simp add: run_test_def)
  moreover have "\<not> signals_step 2 False (?s [W_End, W_Wait] None (S_Join 1)) s'" for s'
    by (auto simp: run_test_def wait_thread_def less_Suc_eq elim!: signals_step.cases)
  ultimately show ?thesis unfolding may_hang_def by (intro exI [of _ "?s [W_End, W_Wait] None (S_Join 1)"]) simp
qed

subsection \<open>Invariant\<close>

text \<open>A thread is where its holding of the mutex says; the mutex is the main thread's while it notifies.\<close>

definition owners_ok :: "signals \<Rightarrow> bool" where
  "owners_ok s \<longleftrightarrow>
     (\<forall>i < length (g_threads s). g_mutex s = Some (Wait_owner i) \<longleftrightarrow> g_threads s ! i \<in> {W_Check, W_Unlock}) \<and>
     (\<forall>i. g_mutex s = Some (Wait_owner i) \<longrightarrow> i < length (g_threads s)) \<and>
     (g_mutex s = Some Main_owner \<longleftrightarrow> (\<exists>i. g_main s \<in> {S_Count i, S_Notify i, S_Unlock i}))"

definition round_ok :: "nat \<Rightarrow> signals \<Rightarrow> bool" where
  "round_ok n s \<longleftrightarrow>
     (case g_main s of
        S_Create i \<Rightarrow> length (g_threads s) = i \<and> i \<le> n \<and> g_signal_count s = 0
      | S_Loop i \<Rightarrow> length (g_threads s) = n \<and> g_signal_count s = i \<and> i \<le> NUM_SIGNALS
      | S_Count i \<Rightarrow> length (g_threads s) = n \<and> g_signal_count s = i \<and> i < NUM_SIGNALS
      | S_Notify i \<Rightarrow> length (g_threads s) = n \<and> g_signal_count s = i + 1 \<and> i < NUM_SIGNALS
      | S_Unlock i \<Rightarrow> length (g_threads s) = n \<and> g_signal_count s = i + 1 \<and> i < NUM_SIGNALS
      | _ \<Rightarrow> length (g_threads s) = n \<and> g_signal_count s = NUM_SIGNALS)"

text \<open>With broadcasts, a thread that waits has still to be notified.\<close>

definition waits_ok :: "signals \<Rightarrow> bool" where
  "waits_ok s \<longleftrightarrow> (W_Wait \<in> set (g_threads s) \<longrightarrow> g_signal_count s < NUM_SIGNALS \<or> (\<exists>i. g_main s = S_Notify i))"

definition signals_inv :: "nat \<Rightarrow> bool \<Rightarrow> signals \<Rightarrow> bool" where
  "signals_inv n b s \<longleftrightarrow> owners_ok s \<and> round_ok n s \<and> (b \<longrightarrow> waits_ok s)"

text \<open>What a step of a waiting thread changes.\<close>

lemma wait_thread_cases:
  assumes "wait_thread i s = Some s'"
  obtains p m where "s' = s\<lparr>g_threads := (g_threads s)[i := p], g_mutex := m\<rparr>"
    "g_threads s ! i \<in> {W_Lock, W_Wakeup} \<and> g_mutex s = None \<and> p = W_Check \<and> m = Some (Wait_owner i) \<or>
     g_threads s ! i = W_Check \<and> g_signal_count s < NUM_SIGNALS \<and> p = W_Wait \<and> m = None \<or>
     g_threads s ! i = W_Check \<and> \<not> g_signal_count s < NUM_SIGNALS \<and> p = W_Unlock \<and> m = g_mutex s \<or>
     g_threads s ! i = W_Unlock \<and> p = W_End \<and> m = None"
  using assms that by (cases "g_threads s ! i") (auto simp: wait_thread_def Let_def split: if_splits)

lemma owners_ok_wait:
  assumes "owners_ok s" "i < length (g_threads s)" "wait_thread i s = Some s'"
  shows "owners_ok s'"
proof -
  have mine: "g_mutex s = Some (Wait_owner i) \<longleftrightarrow> g_threads s ! i \<in> {W_Check, W_Unlock}"
    using assms(1,2) unfolding owners_ok_def by blast
  from assms(3) show ?thesis
  proof (cases rule: wait_thread_cases)
    case (1 p m)
    have mutex: "g_mutex s = None \<or> g_mutex s = Some (Wait_owner i)" and m: "m = (if p \<in> {W_Check, W_Unlock} then Some (Wait_owner i) else None)"
      using 1(2) mine by auto
    have "g_threads s ! j \<notin> {W_Check, W_Unlock}" if "j < length (g_threads s)" "j \<noteq> i" for j
    proof -
      have "g_mutex s \<noteq> Some (Wait_owner j)" using mutex that(2) by auto
      then show ?thesis using assms(1) that(1) unfolding owners_ok_def by blast
    qed
    then have "m = Some (Wait_owner j) \<longleftrightarrow> (g_threads s)[i := p] ! j \<in> {W_Check, W_Unlock}" if "j < length (g_threads s)" for j
      using that assms(2) m by (cases "j = i") (simp_all add: nth_list_update)
    moreover have "j < length (g_threads s)" if "m = Some (Wait_owner j)" for j
      using that m assms(2) by (simp split: if_splits)
    moreover have "g_main s \<notin> {S_Count j, S_Notify j, S_Unlock j}" for j
    proof -
      have "g_mutex s \<noteq> Some Main_owner" using mutex by auto
      then show ?thesis using assms(1) unfolding owners_ok_def by blast
    qed
    moreover have "m \<noteq> Some Main_owner" using m by simp
    ultimately show ?thesis unfolding 1(1) owners_ok_def by simp
  qed
qed

lemma round_ok_wait: "round_ok n s \<Longrightarrow> wait_thread i s = Some s' \<Longrightarrow> round_ok n s'"
  by (erule wait_thread_cases) (auto simp: round_ok_def split: signal_pc.splits)

lemma set_updateD: "x \<in> set (xs[i := y]) \<Longrightarrow> x = y \<or> x \<in> set xs"
  using set_update_subset_insert by fastforce

lemma waits_ok_wait:
  assumes "waits_ok s" "wait_thread i s = Some s'"
  shows "waits_ok s'"
  using assms(2)
proof (cases rule: wait_thread_cases)
  case (1 p m)
  have "g_signal_count s < NUM_SIGNALS \<or> (\<exists>i. g_main s = S_Notify i)" if "W_Wait \<in> set ((g_threads s)[i := p])"
    using set_updateD [OF that] 1(2) assms(1) unfolding waits_ok_def by auto
  with 1(1) show ?thesis by (simp add: waits_ok_def)
qed

text \<open>What notifying changes.\<close>

lemma notify_threads:
  assumes "(if b then Some (cond_broadcast ps) else cond_signal k ps) = Some ps'"
  shows "length ps' = length ps" "i < length ps \<Longrightarrow> ps' ! i = ps ! i \<or> ps ! i = W_Wait \<and> ps' ! i = W_Wakeup"
    "b \<Longrightarrow> W_Wait \<notin> set ps'"
  using assms by (auto simp: cond_broadcast_def cond_signal_def wake_threads_def list_all_iff split: if_splits)

lemma run_test_Notify:
  assumes "run_test n b k s = Some s'" "g_main s = S_Notify i"
  obtains ps where "(if b then Some (cond_broadcast (g_threads s)) else cond_signal k (g_threads s)) = Some ps"
    "s' = s\<lparr>g_threads := ps, g_main := S_Unlock i\<rparr>"
  using assms by (auto simp: run_test_def)

lemma owners_ok_main:
  assumes "owners_ok s" "run_test n b k s = Some s'"
  shows "owners_ok s'"
proof (cases "g_main s")
  case (S_Notify i)
  with assms(2) obtain ps where ps: "(if b then Some (cond_broadcast (g_threads s)) else cond_signal k (g_threads s)) = Some ps"
    "s' = s\<lparr>g_threads := ps, g_main := S_Unlock i\<rparr>" by (rule run_test_Notify)
  have "ps ! j \<in> {W_Check, W_Unlock} \<longleftrightarrow> g_threads s ! j \<in> {W_Check, W_Unlock}" if "j < length (g_threads s)" for j
    using notify_threads(2) [OF ps(1) that] by auto
  with assms(1) ps(2) S_Notify notify_threads(1) [OF ps(1)] show ?thesis by (auto simp: owners_ok_def)
next
  case (S_Create i)
  with assms show ?thesis by (cases "i < n") (auto simp: run_test_def owners_ok_def nth_append less_Suc_eq)
qed (use assms in \<open>auto simp: run_test_def owners_ok_def split: if_splits\<close>)

lemma round_ok_main:
  assumes "round_ok n s" "run_test n b k s = Some s'"
  shows "round_ok n s'"
proof (cases "g_main s")
  case (S_Notify i)
  with assms(2) obtain ps where ps: "(if b then Some (cond_broadcast (g_threads s)) else cond_signal k (g_threads s)) = Some ps"
    "s' = s\<lparr>g_threads := ps, g_main := S_Unlock i\<rparr>" by (rule run_test_Notify)
  with notify_threads(1) [OF ps(1)] assms(1) S_Notify show ?thesis by (simp add: round_ok_def)
qed (use assms in \<open>auto simp: run_test_def round_ok_def split: if_splits\<close>)

lemma waits_ok_main:
  assumes "waits_ok s" "round_ok n s" "run_test n True k s = Some s'"
  shows "waits_ok s'"
proof (cases "g_main s")
  case (S_Notify i)
  with assms(3) obtain ps where ps: "(if True then Some (cond_broadcast (g_threads s)) else cond_signal k (g_threads s)) = Some ps"
    "s' = s\<lparr>g_threads := ps, g_main := S_Unlock i\<rparr>" by (rule run_test_Notify)
  with notify_threads(3) [OF ps(1)] show ?thesis by (simp add: waits_ok_def)
qed (use assms in \<open>auto simp: run_test_def waits_ok_def round_ok_def split: if_splits\<close>)

lemma spurious_inv:
  assumes "signals_inv n b s" "spurious_wakeup s s'"
  shows "signals_inv n b s'"
proof -
  obtain i where i: "i < length (g_threads s)" "g_threads s ! i = W_Wait" "s' = s\<lparr>g_threads := (g_threads s)[i := W_Wakeup]\<rparr>"
    using assms(2) by (auto simp: spurious_wakeup_def)
  have inv: "owners_ok s" "round_ok n s" "b \<Longrightarrow> waits_ok s" using assms(1) by (simp_all add: signals_inv_def)
  have "(g_threads s)[i := W_Wakeup] ! j \<in> {W_Check, W_Unlock} \<longleftrightarrow> g_threads s ! j \<in> {W_Check, W_Unlock}" for j
    using i(1,2) by (cases "j = i") simp_all
  with inv(1) have "owners_ok s'" by (simp add: owners_ok_def i(3))
  moreover have "round_ok n s'" using inv(2) by (simp add: round_ok_def i(3) split: signal_pc.splits)
  moreover have "W_Wait \<in> set (g_threads s)" using i(1,2) by (metis nth_mem)
  then have "waits_ok s'" if "b" using inv(3) [OF that] by (simp add: waits_ok_def i(3))
  ultimately show ?thesis by (simp add: signals_inv_def)
qed

interpretation signals_inv: invariant_system "\<lambda>s. s = signals_start" "\<lambda>s s'. signals_step n b s s' \<or> spurious_wakeup s s'"
  "signals_inv n b" for n b
proof
  show "signals_inv n b s" if "s = signals_start" for s
    using that by (simp add: signals_inv_def signals_start_def owners_ok_def round_ok_def waits_ok_def)
  show "signals_inv n b s'" if inv: "signals_inv n b s" and step: "signals_step n b s s' \<or> spurious_wakeup s s'" for s s'
    using step
  proof
    assume "signals_step n b s s'"
    then show ?thesis
    proof cases
      case (step_main k)
      with inv show ?thesis by (auto simp: signals_inv_def intro: owners_ok_main round_ok_main waits_ok_main)
    next
      case (step_wait i)
      with inv show ?thesis by (auto simp: signals_inv_def intro: owners_ok_wait round_ok_wait waits_ok_wait)
    qed
  qed (rule spurious_inv [OF inv])
qed

subsection \<open>Broadcasts do not hang\<close>

lemma wait_enabled:
  assumes "owners_ok s" "i < length (g_threads s)" "g_threads s ! i \<notin> {W_Wait, W_End}" "g_mutex s \<noteq> Some Main_owner"
  shows "\<exists>j s'. j < length (g_threads s) \<and> wait_thread j s = Some s'"
proof (cases "g_mutex s")
  case None
  then have "g_threads s ! i \<notin> {W_Check, W_Unlock}" using assms(1,2) unfolding owners_ok_def by auto
  with None assms(2,3) show ?thesis by (intro exI [of _ i]) (cases "g_threads s ! i"; simp add: wait_thread_def Let_def)
next
  case (Some p)
  with assms(4) obtain j where j: "g_mutex s = Some (Wait_owner j)" by (cases p) auto
  then have "j < length (g_threads s)" "g_threads s ! j \<in> {W_Check, W_Unlock}" using assms(1) unfolding owners_ok_def by blast+
  then show ?thesis by (intro exI [of _ j]) (auto simp: wait_thread_def Let_def)
qed

lemma broadcast_stuck:
  assumes inv: "signals_inv n True s" and stuck: "\<nexists>s'. signals_step n True s s'"
  shows "g_main s = S_End"
proof (rule ccontr)
  assume not_end: "g_main s \<noteq> S_End"
  have none: "run_test n True k s = None" for k using stuck step_main by (cases "run_test n True k s") blast+
  have no_wait: "\<not> (j < length (g_threads s) \<and> wait_thread j s = Some s')" for j s' using stuck step_wait by blast
  have inv': "owners_ok s" "round_ok n s" "waits_ok s" using inv by (simp_all add: signals_inv_def)
  from none [of "[]"] not_end consider (loop) i where "g_main s = S_Loop i" "g_mutex s \<noteq> None"
    | (join) i where "g_main s = S_Join i" "i < n" "g_threads s ! i \<noteq> W_End"
    by (cases "g_main s") (auto simp: run_test_def split: if_splits)
  then show False
  proof cases
    case (loop i)
    then obtain j where j: "g_mutex s = Some (Wait_owner j)"
      using inv'(1) unfolding owners_ok_def by (metis not_None_eq owner.exhaust signal_pc.distinct insert_iff singletonD)
    then have "j < length (g_threads s)" "g_threads s ! j \<in> {W_Check, W_Unlock}" using inv'(1) unfolding owners_ok_def by blast+
    then have "j < length (g_threads s) \<and> wait_thread j s \<noteq> None" by (auto simp: wait_thread_def Let_def)
    with no_wait show False by blast
  next
    case (join i)
    have len: "i < length (g_threads s)" "g_signal_count s = NUM_SIGNALS" using join inv'(2) by (simp_all add: round_ok_def)
    then have "W_Wait \<notin> set (g_threads s)" using inv'(3) join(1) by (simp add: waits_ok_def)
    with len(1) have "g_threads s ! i \<noteq> W_Wait" by (metis nth_mem)
    moreover have "g_mutex s \<noteq> Some Main_owner" using inv'(1) join(1) by (simp add: owners_ok_def)
    ultimately show False using wait_enabled [OF inv'(1) len(1)] join(3) no_wait by blast
  qed
qed

subsection \<open>Every run is finite\<close>

primrec wait_weight :: "wait_pc \<Rightarrow> nat" where
  "wait_weight W_Lock = 5"
| "wait_weight W_Wakeup = 5"
| "wait_weight W_Check = 4"
| "wait_weight W_Wait = 3"
| "wait_weight W_Unlock = 1"
| "wait_weight W_End = 0"

definition main_left :: "nat \<Rightarrow> signal_pc \<Rightarrow> nat" where
  "main_left n p =
     (let rounds = (\<lambda>i. (2 * n + 8) * (NUM_SIGNALS - i))
      in case p of
           S_Create i \<Rightarrow> 6 * (n - i) + rounds 0 + n + 3
         | S_Loop i \<Rightarrow> rounds i + n + 2
         | S_Count i \<Rightarrow> rounds i + n + 1
         | S_Notify i \<Rightarrow> rounds i + n
         | S_Unlock i \<Rightarrow> rounds (i + 1) + n + 3
         | S_Join i \<Rightarrow> (n - i) + 1
         | S_End \<Rightarrow> 0)"

definition signals_left :: "nat \<Rightarrow> signals \<Rightarrow> nat" where
  "signals_left n s = sum_list (map wait_weight (g_threads s)) + main_left n (g_main s)"

lemma signals_left_wait:
  assumes "i < length (g_threads s)" "wait_thread i s = Some s'"
  shows "signals_left n s' < signals_left n s"
  using assms(2)
proof (cases rule: wait_thread_cases)
  case (1 p m)
  then have "wait_weight p < wait_weight (g_threads s ! i)" by auto
  with sum_weight_update [OF assms(1), of wait_weight p] 1(1) show ?thesis by (simp add: signals_left_def)
qed

lemma notify_weight:
  assumes "(if b then Some (cond_broadcast ps) else cond_signal k ps) = Some ps'"
  shows "sum_list (map wait_weight ps') \<le> sum_list (map wait_weight ps) + 2 * length ps"
proof -
  have "sum_list (map wait_weight (cond_broadcast ps)) \<le> sum_list (map wait_weight ps) + 2 * length ps"
    by (induction ps) (auto simp: cond_broadcast_def)
  moreover have "sum_list (map wait_weight (wake_threads k ps)) \<le> sum_list (map wait_weight ps) + 2 * length ps"
    if "\<forall>i \<in> set k. i < length ps \<and> ps ! i = W_Wait"
  proof -
    have "sum_list (map wait_weight (wake_threads k ps)) \<le> (\<Sum>i \<leftarrow> [0..<length ps]. wait_weight (ps ! i) + 2)"
      unfolding wake_threads_def map_map using that by (intro sum_list_mono) auto
    also have "\<dots> = sum_list (map wait_weight (map ((!) ps) [0..<length ps])) + 2 * length ps"
      using sum_list_addf [of "\<lambda>i. wait_weight (ps ! i)" "\<lambda>_. 2" "[0..<length ps]"] by (simp add: sum_list_triv comp_def)
    finally show ?thesis by (simp only: map_nth)
  qed
  ultimately show ?thesis using assms by (auto simp: cond_signal_def list_all_iff split: if_splits)
qed

lemma rounds_Suc: "i < N \<Longrightarrow> (2 * n + 8) * (N - i) = (2 * n + 8) * (N - Suc i) + (2 * n + 8)" for N :: nat
  by (simp add: Suc_diff_Suc [symmetric] algebra_simps)

lemma signals_left_main:
  assumes "round_ok n s" "run_test n b k s = Some s'"
  shows "signals_left n s' < signals_left n s"
proof (cases "g_main s")
  case (S_Create i)
  with assms show ?thesis
    by (cases "i < n") (auto simp: run_test_def round_ok_def signals_left_def main_left_def Let_def)
next
  case (S_Notify i)
  with assms(2) obtain ps where ps: "(if b then Some (cond_broadcast (g_threads s)) else cond_signal k (g_threads s)) = Some ps"
    "s' = s\<lparr>g_threads := ps, g_main := S_Unlock i\<rparr>" by (rule run_test_Notify)
  have "i < NUM_SIGNALS" "length (g_threads s) = n" using assms(1) S_Notify by (simp_all add: round_ok_def)
  with notify_weight [OF ps(1)] rounds_Suc [of i NUM_SIGNALS n] S_Notify ps(2) show ?thesis
    by (simp add: signals_left_def main_left_def Let_def)
qed (use assms in \<open>auto simp: run_test_def round_ok_def signals_left_def main_left_def Let_def split: if_splits\<close>)

text \<open>Wherever spurious wake-ups have led, the actions of the program itself come to an end; with broadcasts they end with the
  main thread.\<close>

interpretation signals_sys: measured_system "signals_reachable n b" "signals_step n b" "\<lambda>s. signals_reachable n b s" "signals_left n" for n b
proof
  show "signals_reachable n b s'" if "signals_reachable n b s" "signals_step n b s s'" for s s'
    using that by (blast intro: reachable_step)
  show "signals_left n s' < signals_left n s" if reach: "signals_reachable n b s" and step: "signals_step n b s s'" for s s'
  proof -
    have "round_ok n s" using signals_inv.inv_reachable [OF reach] by (simp add: signals_inv_def)
    with step show ?thesis by (cases rule: signals_step.cases) (auto intro: signals_left_main signals_left_wait)
  qed
qed

interpretation broadcast_sys: ending_system "signals_reachable n True" "signals_step n True" "\<lambda>s. signals_reachable n True s"
    "signals_left n" "\<lambda>s. g_main s = S_End" for n
  by unfold_locales (blast intro: broadcast_stuck signals_inv.inv_reachable)

lemma actions_finite: "wf {(s', s). signals_reachable n b s \<and> signals_step n b s s'}"
  using signals_sys.runs_finite [of n b] by (rule wf_subset) (auto intro: reachable_init)

lemma broadcast_ends: "\<not> may_hang n True"
proof
  assume "may_hang n True"
  then obtain s where s: "signals_reachable n True s" "\<nexists>s'. signals_step n True s s'" "g_main s \<noteq> S_End"
    unfolding may_hang_def by (elim exE conjE)
  have "g_main s = S_End" by (rule broadcast_sys.stuck_reachable_final [OF reachable_init [where init = "signals_reachable n True" and s = s, OF s(1)] s(2)])
  with s(3) show False by contradiction
qed

text \<open>C10: Whatever threads wake up on their own, the threads of the condition variable benchmark do finitely many actions (a run goes
  on for ever only if threads wake up spuriously for ever); with broadcasts none hangs either, for any number of waiting threads, but
  with signals and two waiting threads one does: a signal need not wake more than one thread, so that the last one may leave a
  thread waiting that is joined in vain (unless it wakes up on its own).\<close>

theorem signals_may_hang:
  "wf {(s', s). signals_reachable n b s \<and> signals_step n b s s'} \<and> \<not> may_hang n True \<and> may_hang 2 False"
  using actions_finite broadcast_ends signal_hangs by blast

theorem signals_may_hang_witness:
  "\<not> may_hang 5 True \<and> (\<exists>s. signals_reachable 2 False s \<and> (\<nexists>s'. signals_step 2 False s s') \<and> g_main s \<noteq> S_End)"
proof -
  note both = signals_may_hang [of 5 True, THEN conjunct2]
  have "\<not> may_hang 5 True" by (rule both [THEN conjunct1])
  moreover have "may_hang 2 False" by (rule both [THEN conjunct2])
  ultimately show ?thesis by (simp only: may_hang_def simp_thms)
qed

end
