(* ===== verification/Bench_Stats.thy ===== *)
theory Bench_Stats
  imports Prelude
begin

section \<open>The statistics of the benchmarks\<close>

text \<open>
  \<^verbatim>\<open>bonus/1/main1.c\<close>, \<^verbatim>\<open>3/main3.c\<close>, \<^verbatim>\<open>4/main4.c\<close>, \<^verbatim>\<open>5/main5.c\<close> and \<^verbatim>\<open>7/main7.c\<close>: durations from pairs of clock readings, sorted with
  \<^verbatim>\<open>qsort\<close>, and the smallest, largest and middle one of them; and the work that is timed in the last two. The readings and the order that
  \<^verbatim>\<open>qsort\<close> leaves are parameters. Differences of readings fit \<^verbatim>\<open>long\<close> (292 years).
\<close>

subsection \<open>Comparing and sorting\<close>

text \<open>The comparison of programs 1, 3 and 4 returns a difference of \<^verbatim>\<open>long long\<close> values as \<^verbatim>\<open>int\<close>.\<close>

definition cmp :: "int \<Rightarrow> int \<Rightarrow> int" where
  "cmp a b = c_int (a - b)"

definition compare_long :: "int \<Rightarrow> int \<Rightarrow> int" where
  "compare_long arg1 arg2 = (if arg1 < arg2 then - 1 else if arg1 > arg2 then 1 else 0)"

definition compare_ll :: "int \<Rightarrow> int \<Rightarrow> int" where
  "compare_ll arg1 arg2 = (if arg1 < arg2 then - 1 else if arg1 > arg2 then 1 else 0)"

text \<open>What \<^verbatim>\<open>qsort\<close> promises: the elements in an order that the comparison function calls ascending.\<close>

definition qsorted :: "('a \<Rightarrow> 'a \<Rightarrow> int) \<Rightarrow> 'a list \<Rightarrow> 'a list \<Rightarrow> bool" where
  "qsorted compar xs ys \<longleftrightarrow> mset ys = mset xs \<and> sorted_wrt (\<lambda>a b. compar a b \<le> 0) ys"

lemma qsorted_unique:
  assumes "qsorted compar xs ys" "\<And>a b. a \<in> set xs \<Longrightarrow> b \<in> set xs \<Longrightarrow> compar a b \<le> 0 \<longleftrightarrow> a \<le> b"
  shows "ys = sort xs"
proof -
  have mset: "mset ys = mset xs" and "sorted_wrt (\<lambda>a b. compar a b \<le> 0) ys" using assms(1) by (simp_all add: qsorted_def)
  moreover have "set ys = set xs" using mset by (rule mset_eq_setD)
  ultimately have "sorted ys" using assms(2) by (metis (no_types, lifting) sorted_wrt_mono_rel)
  with mset show ?thesis by (metis properties_for_sort)
qed

lemma compare_sign: "compare_long a b \<le> 0 \<longleftrightarrow> a \<le> b" "compare_ll a b \<le> 0 \<longleftrightarrow> a \<le> b"
  by (simp_all add: compare_long_def compare_ll_def)

lemma cmp_sign: "\<bar>a - b\<bar> < 2 ^ 31 \<Longrightarrow> cmp a b \<le> 0 \<longleftrightarrow> a \<le> b"
  by (simp add: cmp_def abs_less_iff)

text \<open>Beyond 2.1 seconds the comparison turns round: three seconds count as less than none.\<close>

lemma cmp_turns: "cmp 3000000000 0 < 0" "cmp 0 3000000000 > 0" "cmp (2 ^ 32) 0 = 0"
  by (simp_all add: cmp_def c_int_def)

lemma sort_ends:
  fixes xs :: "'a::linorder list"
  assumes "xs \<noteq> []"
  shows "sort xs ! 0 = Min (set xs)" "sort xs ! (length xs - 1) = Max (set xs)"
proof -
  have in_range: "0 < length (sort xs)" "length xs - 1 < length (sort xs)" using assms by simp_all
  have bounds: "sort xs ! 0 \<le> x \<and> x \<le> sort xs ! (length xs - 1)" if x: "x \<in> set xs" for x
  proof -
    from x have "x \<in> set (sort xs)" by simp
    then obtain i where "i < length (sort xs)" "sort xs ! i = x" unfolding in_set_conv_nth by blast
    then show ?thesis using sorted_nth_mono [OF sorted_sort, of 0 i xs] sorted_nth_mono [OF sorted_sort, of i "length xs - 1" xs] by simp
  qed
  have mem: "sort xs ! 0 \<in> set xs" "sort xs ! (length xs - 1) \<in> set xs"
    using in_range [THEN nth_mem] by simp_all
  show "sort xs ! 0 = Min (set xs)" by (rule sym, rule Min_eqI) (use mem bounds in blast)+
  show "sort xs ! (length xs - 1) = Max (set xs)" by (rule sym, rule Max_eqI) (use mem bounds in blast)+
qed

subsection \<open>Durations\<close>

text \<open>A reading of a clock; readings are ordered by seconds, then nanoseconds.\<close>

datatype timespec = Timespec (tv_sec: int) (tv_nsec: int)

instantiation timespec :: linorder
begin

definition less_eq_timespec :: "timespec \<Rightarrow> timespec \<Rightarrow> bool" where
  "less_eq_timespec s t \<longleftrightarrow> tv_sec s < tv_sec t \<or> tv_sec s = tv_sec t \<and> tv_nsec s \<le> tv_nsec t"

definition less_timespec :: "timespec \<Rightarrow> timespec \<Rightarrow> bool" where
  "less_timespec s t \<longleftrightarrow> tv_sec s < tv_sec t \<or> tv_sec s = tv_sec t \<and> tv_nsec s < tv_nsec t"

instance
  by standard (auto simp: less_eq_timespec_def less_timespec_def intro: timespec.expand)

end

definition get_duration_in_ns :: "timespec \<Rightarrow> timespec \<Rightarrow> int" where
  "get_duration_in_ns start stop = (tv_sec stop - tv_sec start) * 1000000000 + (tv_nsec stop - tv_nsec start)"

definition timediff :: "timespec \<Rightarrow> timespec \<Rightarrow> int" where
  "timediff start stop = (tv_sec stop - tv_sec start) * 1000000000 + (tv_nsec stop - tv_nsec start)"

lemma timediff_eq: "timediff = get_duration_in_ns"
  by (simp add: timediff_def get_duration_in_ns_def fun_eq_iff)

text \<open>For readings with less than a second of nanoseconds, as \<^verbatim>\<open>clock_gettime\<close> gives them, the order is that of the durations.\<close>

definition reading :: "timespec \<Rightarrow> bool" where
  "reading t \<longleftrightarrow> 0 \<le> tv_nsec t \<and> tv_nsec t < 1000000000"

lemma duration_nonneg:
  assumes "reading s" "reading t"
  shows "0 \<le> get_duration_in_ns s t \<longleftrightarrow> s \<le> t"
proof -
  define d where "d = tv_sec t - tv_sec s"
  have n: "0 \<le> tv_nsec s" "tv_nsec s < 1000000000" "0 \<le> tv_nsec t" "tv_nsec t < 1000000000"
    using assms by (simp_all add: reading_def)
  have dur: "get_duration_in_ns s t = d * 1000000000 + (tv_nsec t - tv_nsec s)" by (simp add: get_duration_in_ns_def d_def)
  consider "d < 0" | "d = 0" | "0 < d" by linarith
  then show ?thesis
  proof cases
    case 1
    then have "get_duration_in_ns s t < 0" using n dur by linarith
    with 1 show ?thesis by (simp add: less_eq_timespec_def d_def)
  next
    case 2
    with dur show ?thesis by (simp add: less_eq_timespec_def d_def)
  next
    case 3
    then have "0 \<le> get_duration_in_ns s t" using n dur by linarith
    with 3 show ?thesis by (simp add: less_eq_timespec_def d_def)
  qed
qed

lemma duration_add: "get_duration_in_ns s t + get_duration_in_ns t u = get_duration_in_ns s u"
  by (simp add: get_duration_in_ns_def algebra_simps)

text \<open>The smallest and largest duration so far, in a loop over the runs.\<close>

fun min_max :: "int list \<Rightarrow> int \<times> int \<Rightarrow> int \<times> int" where
  "min_max [] mm = mm"
| "min_max (d # ds) (mn, mx) = min_max ds (if d < mn then d else mn, if d > mx then d else mx)"

lemma min_max_eq: "ds \<noteq> [] \<Longrightarrow> min_max ds (mn, mx) = (min mn (Min (set ds)), max mx (Max (set ds)))"
proof (induction ds arbitrary: mn mx)
  case (Cons d ds mn mx)
  have "(if d < mn then d else mn) = min mn d" "(if d > mx then d else mx) = max mx d" by simp_all
  then show ?case using Cons.IH by (cases "ds = []") (simp_all add: min.assoc max.assoc)
qed simp

text \<open>Program 1. \<open>ds\<close> is the array of durations after \<^verbatim>\<open>qsort\<close>; the result is the smallest, the largest and the median.\<close>

definition clock_durations :: "(timespec \<times> timespec) list \<Rightarrow> int list" where
  "clock_durations = map (\<lambda>(start, stop). get_duration_in_ns start stop sdiv 50000000)"

definition benchmark_clock :: "(timespec \<times> timespec) list \<Rightarrow> int list \<Rightarrow> int \<times> int \<times> int" where
  "benchmark_clock runs ds = (let (mn, mx) = min_max (clock_durations runs) (2 ^ 63 - 1, 0) in (mn, mx, ds ! 2))"

text \<open>Program 4, with a smallest duration of a second to start with.\<close>

definition benchmark :: "(timespec \<times> timespec) list \<Rightarrow> int list \<Rightarrow> int \<times> int \<times> int" where
  "benchmark runs ds =
     (let (mn, mx) = min_max (map (\<lambda>(start, stop). get_duration_in_ns start stop) runs) (1000000000, 0) in (ds ! (100000 div 2), mn, mx))"

text \<open>Programs 3, 5 and 7 read all three off the sorted array.\<close>

definition lock_times :: "(timespec \<times> timespec) list \<Rightarrow> int list" where
  "lock_times = map (\<lambda>(start, stop). get_duration_in_ns start stop sdiv 10000000)"

definition lock_stats :: "int list \<Rightarrow> int \<times> int \<times> int" where
  "lock_stats ts = (ts ! 0, ts ! (5 - 1), ts ! (5 div 2))"

definition calculate_and_print_stats :: "int list \<Rightarrow> int \<times> int \<times> int" where
  "calculate_and_print_stats durations = (durations ! 0, durations ! (10 - 1), durations ! (10 div 2))"

definition benchmark_stats :: "int list \<Rightarrow> int \<times> int \<times> int" where
  "benchmark_stats durations = (durations ! 0, durations ! (5 - 1), durations ! (5 div 2))"

text \<open>They print the least, greatest and middle duration; program 3 if these are less than 2.1 seconds apart per increment.\<close>

lemma stats_of_sorted:
  assumes "qsorted compar xs ts" "\<And>a b. a \<in> set xs \<Longrightarrow> b \<in> set xs \<Longrightarrow> compar a b \<le> 0 \<longleftrightarrow> a \<le> b" "length xs = n" "0 < n"
  shows "(ts ! 0, ts ! (n - 1), ts ! (n div 2)) = (Min (set xs), Max (set xs), sort xs ! (n div 2))"
proof -
  have "ts = sort xs" by (rule qsorted_unique [OF assms(1,2)])
  moreover have "xs \<noteq> []" using assms(3,4) by auto
  ultimately show ?thesis using sort_ends [of xs] assms(3) by simp
qed

lemma lock_stats_correct:
  assumes "qsorted cmp (lock_times runs) ts" "length runs = 5"
    "\<And>a b. a \<in> set (lock_times runs) \<Longrightarrow> b \<in> set (lock_times runs) \<Longrightarrow> \<bar>a - b\<bar> < 2 ^ 31"
  shows "lock_stats ts = (Min (set (lock_times runs)), Max (set (lock_times runs)), sort (lock_times runs) ! (5 div 2))"
  unfolding lock_stats_def by (rule stats_of_sorted [OF assms(1) cmp_sign [OF assms(3)]]) (simp_all add: lock_times_def assms(2))

lemma calculate_stats_correct:
  assumes "qsorted compare_long durations ds" "length durations = 10"
  shows "calculate_and_print_stats ds = (Min (set durations), Max (set durations), sort durations ! (10 div 2))"
  unfolding calculate_and_print_stats_def by (rule stats_of_sorted [OF assms(1) compare_sign(1) assms(2)]) simp

lemma benchmark_stats_correct:
  assumes "qsorted compare_ll durations ds" "length durations = 5"
  shows "benchmark_stats ds = (Min (set durations), Max (set durations), sort durations ! (5 div 2))"
  unfolding benchmark_stats_def by (rule stats_of_sorted [OF assms(1) compare_sign(2) assms(2)]) simp

lemma benchmark_clock_correct:
  assumes "qsorted cmp (clock_durations runs) ds" "length runs = 5"
    "\<And>s t. (s, t) \<in> set runs \<Longrightarrow> reading s \<and> reading t \<and> s \<le> t \<and> get_duration_in_ns s t < 50000000 * 2 ^ 31"
  shows "benchmark_clock runs ds = (Min (set (clock_durations runs)), Max (set (clock_durations runs)), sort (clock_durations runs) ! 2)"
proof -
  let ?ds = "clock_durations runs"
  have range: "0 \<le> d \<and> d < 2 ^ 31" if "d \<in> set ?ds" for d
  proof -
    from that obtain s t where "(s, t) \<in> set runs" and d: "d = get_duration_in_ns s t sdiv 50000000" by (auto simp: clock_durations_def)
    then have "0 \<le> get_duration_in_ns s t" "get_duration_in_ns s t < 50000000 * 2 ^ 31" using assms(3) duration_nonneg by blast+
    moreover from this have "d = get_duration_in_ns s t div 50000000" by (simp add: d signed_divide_int_def sgn_if)
    ultimately show ?thesis by auto
  qed
  have "\<bar>a - b\<bar> < 2 ^ 31" if "a \<in> set ?ds" "b \<in> set ?ds" for a b using range [OF that(1)] range [OF that(2)] by arith
  then have ds: "ds = sort ?ds" by (intro qsorted_unique [OF assms(1)] cmp_sign)
  have "length ?ds = 5" using assms(2) by (simp add: clock_durations_def)
  then have "?ds \<noteq> []" by auto
  moreover from this have "0 \<le> Max (set ?ds)" "Min (set ?ds) < 2 ^ 31" using range by (meson List.finite_set Max_in Min_in set_empty)+
  ultimately show ?thesis unfolding benchmark_clock_def ds by (simp add: min_max_eq)
qed

text \<open>The least duration of program 4 is at most a second, however long the runs take.\<close>

lemma benchmark_minimum: "fst (snd (benchmark runs ds)) \<le> 1000000000"
proof (cases "runs = []")
  case False
  then show ?thesis by (simp add: benchmark_def min_max_eq)
qed (simp add: benchmark_def)

subsection \<open>The work that programs 5 and 7 time\<close>

text \<open>Program 5: every thread adds its share to an atomic counter, so that the order does not matter.\<close>

definition INCREMENTS :: nat where
  "INCREMENTS = 100000000"

definition increments_of :: "nat \<Rightarrow> nat" where
  "increments_of num_threads = INCREMENTS div num_threads"

primrec atomic_increments :: "nat \<Rightarrow> nat list \<Rightarrow> nat" where
  "atomic_increments atomic_var [] = atomic_var"
| "atomic_increments atomic_var (i # schedule) = atomic_increments (atomic_var + 1) schedule"

text \<open>Three threads make one increment less than one thread does.\<close>

lemma increments_three:
  assumes "\<And>i. i < n \<Longrightarrow> count_list schedule i = increments_of n" "set schedule \<subseteq> {..<n}"
  shows "atomic_increments 0 schedule = n * increments_of n" "3 * increments_of 3 = INCREMENTS - 1"
proof -
  have "atomic_increments v js = v + length js" for v :: nat and js :: "nat list" by (induction js arbitrary: v) simp_all
  moreover have "length schedule = (\<Sum>i < n. count_list schedule i)"
    using sum_count_set [OF assms(2)] by simp
  ultimately show "atomic_increments 0 schedule = n * increments_of n" using assms(1) by simp
qed (simp add: increments_of_def INCREMENTS_def)

text \<open>Program 7: thread \<open>i\<close> increments element \<open>i * distance\<close> of an array, in any interleaving.\<close>

definition NUM_INCREMENTS :: nat where
  "NUM_INCREMENTS = 100000000"

definition store_at :: "nat \<Rightarrow> 64 word \<Rightarrow> 64 word list \<Rightarrow> 64 word list option" where
  "store_at i v array = (if i < length array then Some (array[i := v]) else None)"

fun prepare :: "nat \<Rightarrow> nat list \<Rightarrow> 64 word list \<Rightarrow> 64 word list option" where
  "prepare distance [] array = Some array"
| "prepare distance (i # is) array = do { array \<leftarrow> store_at (i * distance) 0 array; prepare distance is array }"

fun increments :: "nat \<Rightarrow> nat list \<Rightarrow> 64 word list \<Rightarrow> 64 word list option" where
  "increments distance [] array = Some array"
| "increments distance (i # is) array =
     do { array \<leftarrow> store_at (i * distance) (array ! (i * distance) + 1) array; increments distance is array }"

definition run_benchmark :: "64 word list \<Rightarrow> nat \<Rightarrow> nat \<Rightarrow> nat list \<Rightarrow> 64 word list option" where
  "run_benchmark array threadCount distance schedule =
     do { array \<leftarrow> prepare distance [0..<threadCount] array; increments distance schedule array }"

lemma prepare_ok:
  assumes "\<forall>i \<in> set is. i * distance < length array"
  shows "\<exists>array'. prepare distance is array = Some array' \<and> length array' = length array \<and>
    (\<forall>i < n. i * distance < length array \<longrightarrow> (i \<in> set is \<or> array ! (i * distance) = 0) \<longrightarrow> array' ! (i * distance) = 0)"
  using assms
proof (induction "is" arbitrary: array)
  case (Cons i "is")
  let ?a = "array[i * distance := 0]"
  from Cons.prems have i: "i * distance < length array" by simp
  from Cons.prems have "\<forall>i \<in> set is. i * distance < length ?a" by simp
  from Cons.IH [OF this] obtain a' where a': "prepare distance is ?a = Some a'" "length a' = length ?a"
    "\<forall>j < n. j * distance < length ?a \<longrightarrow> (j \<in> set is \<or> ?a ! (j * distance) = 0) \<longrightarrow> a' ! (j * distance) = 0"
    by blast
  have "a' ! (j * distance) = 0" if "j < n" "j * distance < length array" "j \<in> set (i # is) \<or> array ! (j * distance) = 0" for j
  proof -
    have "j \<in> set is \<or> ?a ! (j * distance) = 0" using that(2,3) i by (auto simp: nth_list_update split: if_splits)
    with a'(3) that(1,2) show ?thesis by auto
  qed
  with a'(1,2) i show ?case by (simp add: store_at_def)
qed simp

lemma increments_ok:
  assumes "0 < distance" "\<forall>i \<in> set schedule. i * distance < length array"
  shows "\<exists>array'. increments distance schedule array = Some array' \<and> length array' = length array \<and>
    (\<forall>i. i * distance < length array \<longrightarrow> array' ! (i * distance) = array ! (i * distance) + of_nat (count_list schedule i))"
  using assms(2)
proof (induction schedule arbitrary: array)
  case (Cons i schedule)
  let ?a = "array[i * distance := array ! (i * distance) + 1]"
  from Cons.prems have i: "i * distance < length array" by simp
  from Cons.prems have "\<forall>i \<in> set schedule. i * distance < length ?a" by simp
  from Cons.IH [OF this] obtain a' where a': "increments distance schedule ?a = Some a'" "length a' = length ?a"
    "\<forall>j. j * distance < length ?a \<longrightarrow> a' ! (j * distance) = ?a ! (j * distance) + of_nat (count_list schedule j)" by blast
  have "a' ! (j * distance) = array ! (j * distance) + of_nat (count_list (i # schedule) j)" if "j * distance < length array" for j
    using a'(3) that assms(1) by (cases "j = i") (simp_all add: nth_list_update)
  with a'(1,2) i show ?case by (simp add: store_at_def)
qed simp

text \<open>Whatever the interleaving, each element ends as the number of increments of its thread.\<close>

lemma run_benchmark_counts:
  assumes "0 < distance" "(threadCount - 1) * distance < length array" "set schedule \<subseteq> {..<threadCount}"
    "\<And>i. i < threadCount \<Longrightarrow> count_list schedule i = NUM_INCREMENTS"
  shows "\<exists>array'. run_benchmark array threadCount distance schedule = Some array' \<and>
    (\<forall>i < threadCount. array' ! (i * distance) = of_nat NUM_INCREMENTS)"
proof -
  have bound: "i * distance < length array" if "i < threadCount" for i
    using mult_le_mono1 [of i "threadCount - 1" distance] that assms(2) by linarith
  then obtain a where a: "prepare distance [0..<threadCount] array = Some a" "length a = length array"
    "\<forall>i < threadCount. a ! (i * distance) = 0"
    using prepare_ok [of "[0..<threadCount]" distance array threadCount] by auto
  have "\<forall>i \<in> set schedule. i * distance < length a" using assms(3) bound a(2) by auto
  from increments_ok [OF assms(1) this] a bound assms(4) show ?thesis by (auto simp: run_benchmark_def)
qed

end
