(* ===== verification/Bench_Double.thy ===== *)
theory Bench_Double
  imports Bench_Stats Rounding
begin

section \<open>Statistics in double\<close>

text \<open>
  \<^verbatim>\<open>print_stats\<close> of \<^verbatim>\<open>bonus/6/main6.c\<close>, which sorts numbers of type \<^verbatim>\<open>long\<close> with a comparison that reads their bytes as \<^verbatim>\<open>double\<close>,
  and \<^verbatim>\<open>calculate_stats\<close> of \<^verbatim>\<open>bonus/2/main2.c\<close>, whose comparison makes an \<^verbatim>\<open>int\<close> of a difference. A double is the 64-bit format of
  IEEE 754; a finite one is given by its value in units of the smallest positive one, \<open>2 ^ -1074\<close>.
\<close>

subsection \<open>Reading a long as a double\<close>

datatype double = NaN | Minus_infinity | Finite int | Infinity

text \<open>The fields are the sign, 11 bits of exponent and 52 bits of fraction.\<close>

definition magnitude :: "nat \<Rightarrow> nat" where
  "magnitude u = (let e = u div 2 ^ 52; f = u mod 2 ^ 52 in if e = 0 then f else (2 ^ 52 + f) * 2 ^ (e - 1))"

definition double_at :: "int \<Rightarrow> double" where
  "double_at a =
     (let u = nat (a mod 2 ^ 64); negative = 2 ^ 63 \<le> u; v = u mod 2 ^ 63
      in if v div 2 ^ 52 = 2047 then if v mod 2 ^ 52 \<noteq> 0 then NaN else if negative then Minus_infinity else Infinity
         else Finite (if negative then - int (magnitude v) else int (magnitude v)))"

fun double_less :: "double \<Rightarrow> double \<Rightarrow> bool" where
  "double_less (Finite x) (Finite y) = (x < y)"
| "double_less (Finite x) Infinity = True"
| "double_less Minus_infinity (Finite y) = True"
| "double_less Minus_infinity Infinity = True"
| "double_less _ _ = False"

definition compare :: "int \<Rightarrow> int \<Rightarrow> int" where
  "compare a b = (let fa = double_at a; fb = double_at b in of_bool (double_less fb fa) - of_bool (double_less fa fb))"

definition print_stats :: "int list \<Rightarrow> nat \<Rightarrow> int \<times> int \<times> int" where
  "print_stats ts sz = (ts ! 0, ts ! (sz - 1), ts ! (sz div 2))"

text \<open>The magnitude grows with the bits: an exponent one higher is worth more than any fraction.\<close>

lemma magnitude_bounds:
  assumes "u div 2 ^ 52 = Suc e"
  shows "2 ^ (52 + e) \<le> magnitude u" "magnitude u < 2 ^ (53 + e)"
proof -
  have m: "magnitude u = (2 ^ 52 + u mod 2 ^ 52) * 2 ^ e" using assms by (simp add: magnitude_def)
  have "(2 :: nat) ^ 52 * 2 ^ e \<le> (2 ^ 52 + u mod 2 ^ 52) * 2 ^ e" by (rule mult_le_mono1) simp
  then show "2 ^ (52 + e) \<le> magnitude u" unfolding m power_add .
  have "(2 ^ 52 + u mod 2 ^ 52) * 2 ^ e < (2 :: nat) ^ 53 * 2 ^ e" by (rule mult_less_mono1) simp_all
  then show "magnitude u < 2 ^ (53 + e)" unfolding m power_add .
qed

lemma magnitude_mono:
  assumes "u < v"
  shows "magnitude u < magnitude v"
proof -
  have le: "u div 2 ^ 52 \<le> v div 2 ^ 52" using assms by (intro div_le_mono) simp
  show ?thesis
  proof (cases "u div 2 ^ 52 = v div 2 ^ 52")
    case True
    have "u div 2 ^ 52 * 2 ^ 52 + u mod 2 ^ 52 < v div 2 ^ 52 * 2 ^ 52 + v mod 2 ^ 52"
      using assms by (simp only: div_mult_mod_eq)
    then have "u mod 2 ^ 52 < v mod 2 ^ 52" unfolding True by (rule add_less_imp_less_left)
    with True assms show ?thesis by (simp add: magnitude_def Let_def)
  next
    case False
    with le obtain e where e: "v div 2 ^ 52 = Suc e" "u div 2 ^ 52 \<le> e" by (cases "v div 2 ^ 52") simp_all
    have "magnitude u < 2 ^ (52 + e)"
    proof (cases "u div 2 ^ 52")
      case 0
      then have "magnitude u < 2 ^ 52" by (simp add: magnitude_def)
      also have "\<dots> \<le> 2 ^ (52 + e)" by (rule power_increasing) simp_all
      finally show ?thesis .
    next
      case (Suc d)
      from magnitude_bounds(2) [OF this] have "magnitude u < 2 ^ (53 + d)" .
      also have "\<dots> \<le> 2 ^ (52 + e)" by (rule power_increasing) (use e(2) Suc in simp_all)
      finally show ?thesis .
    qed
    with magnitude_bounds(1) [OF e(1)] show ?thesis by linarith
  qed
qed

text \<open>Below the bits of infinity (292 years in nanoseconds), positive numbers are ordered as the doubles with their bits.\<close>

definition infinity_bits :: int where
  "infinity_bits = 2047 * 2 ^ 52"

lemma double_at_small:
  assumes "0 \<le> a" "a < infinity_bits"
  shows "double_at a = Finite (int (magnitude (nat a)))"
proof -
  have u: "nat (a mod 2 ^ 64) = nat a" "nat a < 2047 * 2 ^ 52" using assms by (simp_all add: infinity_bits_def)
  then have "\<not> 2 ^ 63 \<le> nat a" "nat a mod 2 ^ 63 = nat a" "nat a div 2 ^ 52 < 2047" by simp_all
  then show ?thesis using u(1) by (simp add: double_at_def Let_def)
qed

lemma compare_small:
  assumes "0 \<le> a" "a < infinity_bits" "0 \<le> b" "b < infinity_bits"
  shows "compare a b \<le> 0 \<longleftrightarrow> a \<le> b"
proof -
  have "magnitude (nat b) < magnitude (nat a) \<longleftrightarrow> b < a"
    using magnitude_mono [of "nat a" "nat b"] magnitude_mono [of "nat b" "nat a"] assms(1,3)
    by (cases a b rule: linorder_cases) auto
  moreover have "magnitude (nat a) < magnitude (nat b) \<longleftrightarrow> a < b"
    using magnitude_mono [of "nat a" "nat b"] magnitude_mono [of "nat b" "nat a"] assms(1,3)
    by (cases a b rule: linorder_cases) auto
  ultimately show ?thesis
    by (auto simp: compare_def double_at_small [OF assms(1,2)] double_at_small [OF assms(3,4)])
qed

text \<open>C17: The statistics of the condition variable benchmark are right although \<^verbatim>\<open>qsort\<close> compares the bytes of numbers of type
  \<^verbatim>\<open>long\<close> as those of doubles: for durations from 0 up to 292 years they are the least, the greatest and the middle one.\<close>

theorem print_stats_correct:
  assumes "\<forall>d \<in> set durations. 0 \<le> d \<and> d < infinity_bits" "durations \<noteq> []"
    and "qsorted compare durations ts"
  shows "print_stats ts (length durations) =
    (Min (set durations), Max (set durations), sort durations ! (length durations div 2))"
  unfolding print_stats_def
  by (rule stats_of_sorted [OF assms(3) compare_small]) (use assms(1,2) in auto)

text \<open>For negative numbers the order is the other way round, and \<open>-1\<close> is not a number.\<close>

lemma compare_negative: "compare (- 1) 5 = 0" "compare (1 - 2 ^ 63) (2 - 2 ^ 63) = 1"
  by (simp_all add: compare_def double_at_def magnitude_def)

lemma print_stats_correct_witness: "print_stats [3, 8, 1000000007] 3 = (3, 1000000007, 8)"
proof -
  have c: "compare a b \<le> 0 \<longleftrightarrow> a \<le> b" if "a \<in> {3, 8, 1000000007}" "b \<in> {3, 8, 1000000007}" for a b
    using that by (intro compare_small) (auto simp: infinity_bits_def)
  have "qsorted compare [1000000007, 3, 8] [3, 8, 1000000007]" by (simp add: qsorted_def c)
  from print_stats_correct [OF _ _ this]
  have "print_stats [3, 8, 1000000007] (length [1000000007, 3, 8 :: int]) = (3, 1000000007, sort [1000000007, 3, 8] ! 1)"
    by (simp add: infinity_bits_def)
  then show ?thesis by (simp add: numeral_3_eq_3)
qed

subsection \<open>Comparing seconds\<close>

text \<open>A finite double is its value in units of \<open>2 ^ -1074\<close>. The difference is rounded, and its conversion to \<^verbatim>\<open>int\<close> truncates; it
  stays below 68 years.\<close>

definition second :: int where
  "second = 2 ^ 1074"

definition cmp_seconds :: "int \<Rightarrow> int \<Rightarrow> int" where
  "cmp_seconds a b = to_double (a - b) sdiv second"

fun stats_loop :: "int list \<Rightarrow> int \<times> int \<Rightarrow> int \<times> int" where
  "stats_loop [] mm = mm"
| "stats_loop (d # ds) (mn, mx) = stats_loop ds (if d < mn then d else mn, if d > mx then d else mx)"

text \<open>Half of a double, where a last bit is rounded to even.\<close>

definition half :: "int \<Rightarrow> int" where
  "half z = (if even z then z div 2 else 2 * ((z + 1) div 4))"

text \<open>\<open>ds\<close> is the array after \<^verbatim>\<open>qsort\<close>.\<close>

definition calculate_stats :: "int list \<Rightarrow> int list \<Rightarrow> (int \<times> int \<times> int) option" where
  "calculate_stats durations ds =
     (case durations of
        [] \<Rightarrow> None
      | d # rest \<Rightarrow>
          let (mn, mx) = stats_loop rest (d, d);
              n = length durations;
              median = (if even n then half (to_double (ds ! (n div 2 - 1) + ds ! (n div 2))) else ds ! (n div 2))
          in Some (mn, mx, median))"

lemma stats_loop_eq: "stats_loop ds (mn, mx) = (Min (insert mn (set ds)), Max (insert mx (set ds)))"
proof (induction ds arbitrary: mn mx)
  case (Cons d ds)
  have "(if d < mn then d else mn) = min mn d" "(if d > mx then d else mx) = max mx d" by simp_all
  moreover have "Min (insert (min mn d) (set ds)) = Min (insert mn (insert d (set ds)))"
    "Max (insert (max mx d) (set ds)) = Max (insert mx (insert d (set ds)))"
    by (cases "ds = []"; simp add: min.assoc max.assoc)+
  ultimately show ?case using Cons.IH by simp
qed simp

text \<open>The least and the greatest duration are right.\<close>

lemma calculate_stats_ends:
  assumes "durations \<noteq> []"
  shows "\<exists>median. calculate_stats durations ds = Some (Min (set durations), Max (set durations), median)"
proof (cases durations)
  case (Cons d rest)
  have "stats_loop rest (d, d) = (Min (set durations), Max (set durations))" using stats_loop_eq [of rest d d] Cons by simp
  then show ?thesis by (simp add: calculate_stats_def Cons)
qed (use assms in simp)

text \<open>Durations at most half a second apart count as equal, so that \<^verbatim>\<open>qsort\<close> may leave them in any order, and the median printed may be
  any of them.\<close>

lemma cmp_seconds_close:
  assumes "2 * \<bar>a - b\<bar> < second"
  shows "cmp_seconds a b = 0"
proof -
  define t :: int where "t = 2 ^ 1073"
  have t: "second = 2 * t" "0 < t" by (simp_all add: second_def t_def)
  have "\<bar>a - b\<bar> < t" using assms t(1) by simp
  then have "\<bar>to_double (a - b)\<bar> \<le> t" unfolding t_def by (rule to_double_bound) simp
  then have "\<bar>to_double (a - b)\<bar> < second" "0 < second" using t by simp_all
  then have "\<bar>to_double (a - b)\<bar> div \<bar>second\<bar> = 0" by simp
  then show ?thesis by (simp add: cmp_seconds_def signed_divide_int_def)
qed

lemma calculate_stats_any_order:
  assumes "mset ds = mset durations" "\<And>a b. a \<in> set durations \<Longrightarrow> b \<in> set durations \<Longrightarrow> 2 * \<bar>a - b\<bar> < second"
  shows "qsorted cmp_seconds durations ds"
proof -
  have "set ds = set durations" using assms(1) by (rule mset_eq_setD)
  then have "\<forall>a \<in> set ds. \<forall>b \<in> set ds. cmp_seconds a b \<le> 0" using cmp_seconds_close assms(2) by simp
  then have "sorted_wrt (\<lambda>a b. cmp_seconds a b \<le> 0) ds" by (induction ds) simp_all
  with assms(1) show ?thesis by (simp add: qsorted_def)
qed

end
