(* ===== verification/Bench_Transfer.thy ===== *)
theory Bench_Transfer
  imports Prelude
begin

section \<open>The socket benchmark\<close>

text \<open>
  \<^verbatim>\<open>bonus/2/main2.c\<close>: a child process receives what its parent sends over a TCP connection, until both have counted
  \<^verbatim>\<open>total_size\<close> bytes. A state holds where the two processes are, what they have counted and how many bytes are in flight; a step is
  one action that changes it. How many bytes a call of \<^verbatim>\<open>send\<close> or \<^verbatim>\<open>recv\<close> transfers is open; a call that transfers nothing (the
  sockets do not block) and a failed attempt to connect leave the state as it is, so that they are no steps. The calls that set up the
  sockets succeed, and the connection holds \<open>room\<close> bytes.
\<close>

subsection \<open>Processes\<close>

definition MAX_BUFFER :: nat where
  "MAX_BUFFER = 49152"

definition total_size :: nat where
  "total_size = 15 * 1024 * 1024 * 1024"

definition pack_sizes :: "nat list" where
  "pack_sizes = [16384, 1024, 49152, 512]"

datatype server_pc = Server_setup | Server_accept | Server_recv | Server_exit

datatype client_pc = Client_connect | Client_send | Client_wait | Client_end

record transfer =
  x_server :: server_pc
  x_client :: client_pc
  x_received :: nat
  x_sent :: nat
  x_in_flight :: nat

definition transfer_start :: transfer where
  "transfer_start = \<lparr>x_server = Server_setup, x_client = Client_connect, x_received = 0, x_sent = 0, x_in_flight = 0\<rparr>"

text \<open>What an action does: it may be fatal, wait, or change the state.\<close>

datatype action = Overflow | Broken_pipe | Blocked_call | Done_to transfer

text \<open>An action of the server; \<open>k\<close> is the result of \<^verbatim>\<open>recv\<close>, which may write \<open>pack_size\<close> bytes to the buffer.\<close>

definition server :: "nat \<Rightarrow> nat \<Rightarrow> nat \<Rightarrow> transfer \<Rightarrow> action" where
  "server pack_size amount k s =
     (case x_server s of
        Server_setup \<Rightarrow> Done_to (s\<lparr>x_server := Server_accept\<rparr>)
      | Server_accept \<Rightarrow> if x_client s \<noteq> Client_connect then Done_to (s\<lparr>x_server := Server_recv\<rparr>) else Blocked_call
      | Server_recv \<Rightarrow>
          if x_received s < amount
          then if pack_size > MAX_BUFFER then Overflow
               else if 0 < k \<and> k \<le> pack_size \<and> k \<le> x_in_flight s
               then Done_to (s\<lparr>x_received := x_received s + k, x_in_flight := x_in_flight s - k\<rparr>) else Blocked_call
          else Done_to (s\<lparr>x_server := Server_exit\<rparr>)
      | Server_exit \<Rightarrow> Blocked_call)"

text \<open>An action of the client, which the main function follows with \<^verbatim>\<open>wait\<close>; \<open>k\<close> is the result of \<^verbatim>\<open>send\<close>. Sending to a server that
  has closed its socket kills the process.\<close>

definition client :: "nat \<Rightarrow> nat \<Rightarrow> nat \<Rightarrow> nat \<Rightarrow> transfer \<Rightarrow> action" where
  "client pack_size amount room k s =
     (case x_client s of
        Client_connect \<Rightarrow> if x_server s \<noteq> Server_setup then Done_to (s\<lparr>x_client := Client_send\<rparr>) else Blocked_call
      | Client_send \<Rightarrow>
          if x_sent s < amount
          then if x_server s = Server_exit then Broken_pipe
               else if 0 < k \<and> k \<le> pack_size \<and> x_in_flight s + k \<le> room
               then Done_to (s\<lparr>x_sent := x_sent s + k, x_in_flight := x_in_flight s + k\<rparr>) else Blocked_call
          else Done_to (s\<lparr>x_client := Client_wait\<rparr>)
      | Client_wait \<Rightarrow> if x_server s = Server_exit then Done_to (s\<lparr>x_client := Client_end\<rparr>) else Blocked_call
      | Client_end \<Rightarrow> Blocked_call)"

inductive transfer_step :: "nat \<Rightarrow> nat \<Rightarrow> nat \<Rightarrow> transfer \<Rightarrow> transfer \<Rightarrow> bool" for pack_size amount room where
  step_server: "server pack_size amount k s = Done_to s' \<Longrightarrow> transfer_step pack_size amount room s s'"
| step_client: "client pack_size amount room k s = Done_to s' \<Longrightarrow> transfer_step pack_size amount room s s'"

subsection \<open>Invariant\<close>

definition transfer_inv :: "nat \<Rightarrow> nat \<Rightarrow> transfer \<Rightarrow> bool" where
  "transfer_inv pack_size amount s \<longleftrightarrow>
     x_received s + x_in_flight s = x_sent s \<and> x_sent s < amount + pack_size \<and>
     (x_client s = Client_connect \<longrightarrow> x_server s \<in> {Server_setup, Server_accept} \<and> x_sent s = 0) \<and>
     (x_client s \<in> {Client_wait, Client_end} \<longrightarrow> amount \<le> x_sent s) \<and>
     (x_server s = Server_exit \<longrightarrow> amount \<le> x_received s) \<and>
     (x_server s \<in> {Server_setup, Server_accept} \<longrightarrow> x_received s = 0) \<and>
     (x_server s = Server_setup \<longrightarrow> x_client s = Client_connect) \<and>
     (x_client s = Client_end \<longrightarrow> x_server s = Server_exit)"

text \<open>What is left to count and where the processes are.\<close>

definition transfer_left :: "nat \<Rightarrow> transfer \<Rightarrow> nat" where
  "transfer_left amount s = (amount - x_sent s) + (amount - x_received s) +
     (case x_server s of Server_setup \<Rightarrow> 3 | Server_accept \<Rightarrow> 2 | Server_recv \<Rightarrow> 1 | Server_exit \<Rightarrow> 0) +
     (case x_client s of Client_connect \<Rightarrow> 3 | Client_send \<Rightarrow> 2 | Client_wait \<Rightarrow> 1 | Client_end \<Rightarrow> 0)"

definition transfer_end :: "nat \<Rightarrow> transfer \<Rightarrow> bool" where
  "transfer_end amount s \<longleftrightarrow> x_server s = Server_exit \<and> x_client s = Client_end \<and> amount \<le> x_received s"

lemma server_inv: "transfer_inv p n s \<Longrightarrow> server p n k s = Done_to s' \<Longrightarrow> transfer_inv p n s'"
  by (auto simp: transfer_inv_def server_def split: server_pc.splits if_splits)

lemma client_inv: "transfer_inv p n s \<Longrightarrow> client p n room k s = Done_to s' \<Longrightarrow> transfer_inv p n s'"
  by (auto simp: transfer_inv_def client_def split: client_pc.splits if_splits)

lemma server_left: "server p n k s = Done_to s' \<Longrightarrow> transfer_left n s' < transfer_left n s"
  by (auto simp: transfer_left_def server_def split: server_pc.splits if_splits)

lemma client_left: "client p n room k s = Done_to s' \<Longrightarrow> transfer_left n s' < transfer_left n s"
  by (auto simp: transfer_left_def client_def split: client_pc.splits if_splits)

text \<open>No action is fatal, and if neither process can act, both have ended.\<close>

definition fatal :: "action \<Rightarrow> bool" where
  "fatal a \<longleftrightarrow> a = Overflow \<or> a = Broken_pipe"

lemma server_not_fatal: "p \<le> MAX_BUFFER \<Longrightarrow> \<not> fatal (server p n k s)"
  by (auto simp: fatal_def server_def split: server_pc.splits)

lemma client_not_fatal: "transfer_inv p n s \<Longrightarrow> \<not> fatal (client p n room k s)"
  by (auto simp: fatal_def transfer_inv_def client_def split: client_pc.splits)

lemma transfer_stuck:
  assumes inv: "transfer_inv p n s" and stuck: "\<nexists>s'. transfer_step p n room s s'" and pos: "0 < p" "p \<le> MAX_BUFFER" "0 < room"
  shows "transfer_end n s"
proof -
  have server: "server p n k s = Blocked_call" for k
    using stuck step_server server_not_fatal [OF pos(2)] unfolding fatal_def by (cases "server p n k s") blast+
  have client: "client p n room k s = Blocked_call" for k
    using stuck step_client client_not_fatal [OF inv] unfolding fatal_def by (cases "client p n room k s") blast+
  have "x_server s = Server_exit"
  proof (rule ccontr)
    assume running: "x_server s \<noteq> Server_exit"
    then have not_setup: "x_server s = Server_accept \<and> x_client s = Client_connect \<or> x_server s = Server_recv \<and> x_received s < n"
      using server [of 1] by (auto simp: server_def split: server_pc.splits if_splits)
    moreover have "\<not> (x_server s = Server_accept \<and> x_client s = Client_connect)"
      using client [of 1] by (auto simp: client_def)
    ultimately have recv: "x_server s = Server_recv" "x_received s < n" by simp_all
    with server [of 1] pos have empty: "x_in_flight s = 0" by (simp add: server_def split: if_splits)
    have "x_client s = Client_send" "x_sent s < n"
      using recv empty inv by (cases "x_client s"; simp add: transfer_inv_def)+
    with client [of 1] empty recv pos show False by (simp add: client_def)
  qed
  moreover from this have "x_client s = Client_end"
    using client [of 1] inv by (cases "x_client s") (auto simp: client_def transfer_inv_def)
  ultimately show ?thesis using inv by (simp add: transfer_end_def transfer_inv_def)
qed

text \<open>A connection that holds \<open>Suc room\<close> bytes, for packs of \<open>Suc p\<close> bytes that fit the buffer.\<close>

definition pack :: "nat \<Rightarrow> nat" where
  "pack p = min MAX_BUFFER (Suc p)"

lemma pack_ok: "0 < pack p" "pack p \<le> MAX_BUFFER" "0 < q \<Longrightarrow> q \<le> MAX_BUFFER \<Longrightarrow> pack (q - 1) = q"
  by (auto simp: pack_def MAX_BUFFER_def)

interpretation transfer_sys: ending_system "\<lambda>s. s = transfer_start" "transfer_step (pack p) n (Suc room)" "transfer_inv (pack p) n"
    "transfer_left n" "transfer_end n" for p n room
proof
  show "transfer_inv (pack p) n s" if "s = transfer_start" for s
    using that pack_ok(1) [of p] by (simp add: transfer_inv_def transfer_start_def)
  show "transfer_inv (pack p) n s'" if "transfer_inv (pack p) n s" "transfer_step (pack p) n (Suc room) s s'" for s s'
    using that(2,1) by cases (blast intro: server_inv client_inv)+
  show "transfer_left n s' < transfer_left n s" if "transfer_inv (pack p) n s" "transfer_step (pack p) n (Suc room) s s'" for s s'
    using that(2) by cases (blast intro: server_left client_left)+
  show "transfer_end n s" if "transfer_inv (pack p) n s" "\<nexists>s'. transfer_step (pack p) n (Suc room) s s'" for s
    by (rule transfer_stuck [OF that pack_ok(1,2)]) simp
qed

text \<open>C11: For each of the sizes of the packs, however the calls of the two processes are interleaved and however many bytes each of
  them transfers: no action overruns the buffer or is killed for writing to a closed connection; the run is finite, does not
  get stuck, and can only end with both processes finished and 15 GB received; the client never sends a full pack more.\<close>

theorem transfer_completes:
  assumes "p \<in> set pack_sizes" "0 < room"
    and "reachable (\<lambda>s. s = transfer_start) (transfer_step p total_size room) s"
  shows "\<not> fatal (server p total_size k s) \<and> \<not> fatal (client p total_size room k s) \<and>
    x_received s + x_in_flight s = x_sent s \<and> x_sent s < total_size + p \<and>
    wf {(s', s). reachable (\<lambda>s. s = transfer_start) (transfer_step p total_size room) s \<and> transfer_step p total_size room s s'} \<and>
    ((\<nexists>s'. transfer_step p total_size room s s') \<longrightarrow> transfer_end total_size s) \<and>
    (\<exists>t. (transfer_step p total_size room)\<^sup>*\<^sup>* s t \<and> transfer_end total_size t)"
proof -
  have p: "p \<le> MAX_BUFFER" "pack (p - 1) = p" "Suc (room - 1) = room"
    using assms(1,2) pack_ok(3) [of p] by (auto simp: pack_sizes_def MAX_BUFFER_def)
  note sys = transfer_sys.inv_reachable [of "p - 1" total_size "room - 1" s, unfolded p(2,3), OF assms(3)]
    transfer_sys.runs_finite [of "p - 1" total_size "room - 1", unfolded p(2,3)]
    transfer_sys.stuck_reachable_final [of "p - 1" total_size "room - 1" s, unfolded p(2,3), OF assms(3)]
    transfer_sys.reaches_final [of "p - 1" total_size "room - 1" s, unfolded p(2,3), OF assms(3)]
  have "x_received s + x_in_flight s = x_sent s" "x_sent s < total_size + p" using sys(1) by (simp_all add: transfer_inv_def)
  with sys(2-4) server_not_fatal [OF p(1)] client_not_fatal [OF sys(1)] show ?thesis by blast
qed

lemma transfer_completes_witness:
  "\<exists>t. (transfer_step 512 total_size 100)\<^sup>*\<^sup>* transfer_start t \<and> transfer_end total_size t"
proof -
  have "reachable (\<lambda>s. s = transfer_start) (transfer_step 512 total_size 100) transfer_start" by (rule reachable_init) simp
  from transfer_completes [OF _ _ this] show ?thesis by (simp add: pack_sizes_def)
qed

end
