(* ===== verification/Spec2Isabelle.thy ===== *)
theory Spec2Isabelle
  imports UFS_Correct Shell_Main Coro_Sched_Correct Coro_Main Pool_Signals Chat_Server_Correct Chat_Exe
    Heap_Help_Correct Heap_Help_Old Bench_Locks Bench_Signals Bench_Stats Bench_Double Bench_Transfer
begin

section \<open>Verification of the programs of a course in system programming\<close>

text \<open>
  The repository holds the C programs of five exercises and of some benchmarks. They do not call each other;
  within an exercise the parts interact as described below. Each part is translated into definitions of HOL in the
  order of its source, and what makes it correct, or what it gets wrong, is proved of these definitions.

  \<^bold>\<open>Conventions\<close> (theory \<open>Prelude\<close>). A call that is undefined in C, aborts or fails an assertion has no result
  (\<^const>\<open>None\<close>); an error that the program reports is a value. Integers of 32 and 64 bits are words where they can wrap, and
  otherwise \<open>int\<close> or \<open>nat\<close> with the conversion written out. Allocated memory is a list of cells that may be indeterminate, or, where
  pointers are shared, a heap of addresses. What the operating system does (results of system calls, clocks, schedules) is a
  parameter, so that theorems hold for all of its choices. \<open>Growable\<close> (arrays grown with \<^verbatim>\<open>realloc\<close>), \<open>Linked_List\<close>
  (doubly linked lists, used by exercises 1 and 3), \<open>Decimal\<close> (\<^verbatim>\<open>scanf\<close>, \<^verbatim>\<open>printf\<close>, \<^verbatim>\<open>atoi\<close>) and \<open>Rounding\<close> (numbers rounded to
  \<^verbatim>\<open>double\<close>) are shared. The locales are
  \<open>invariant_system\<close> (states, steps and an invariant) with its extensions \<open>measured_system\<close> (no run is infinite) and \<open>ending_system\<close>
  (every run ends in a final state), \<open>growable\<close> (what appending to an array promises) and
  \<open>coroutine_system\<close> (what coroutines rely on and guarantee); each is interpreted on the model of the code that provides it.
\<close>

subsection \<open>Exercise 1: sorting in coroutines\<close>

text \<open>
  \<^verbatim>\<open>hw1/libcoro.c\<close> schedules coroutines, \<^verbatim>\<open>hw1/solution.c\<close> sorts files in them and merges the results. A coroutine is a value of
  type \<open>prog\<close> that yields or acts on shared memory (\<open>Coro_Prog\<close>); the scheduler with its list, contexts and jumps is \<open>Libcoro\<close>;
  \<open>Coro_Sort\<close> translates the solution, from reading files to \<^verbatim>\<open>main\<close>. \<open>Coro_Sched\<close> proves in the locale \<open>coroutine_system\<close> that
  \<^verbatim>\<open>coro_sched_wait\<close> returns, hands out every coroutine once and resumes none that has ended; \<open>Coro_Sched_Correct\<close> has
  the case of arbitrary bodies. \<open>Coro_Sort_Inv\<close>, \<open>Coro_Quicksort\<close> and \<open>Coro_Body\<close> show what the sorting coroutines guarantee each
  other and that quicksort sorts although others run at every yield; \<open>Coro_Merge\<close> is the merge; \<open>Coro_Correct\<close> and \<open>Coro_Main\<close> join
  all of it to the statement on \<^verbatim>\<open>main\<close>, for every clock that does not run backwards; \<open>Coro_Time\<close> is the measuring of time in
  \<^verbatim>\<open>double\<close>, with the bound that keeps \<^verbatim>\<open>work_time\<close> in its 64 bits. The fields of a context that the program reads without having set them
  hold what \<^verbatim>\<open>malloc\<close> left, a parameter. Exit statuses are results; only an input file that cannot be opened, where a coroutine
  exits the program, counts as no result. The
  loops of the scheduler are partial functions, and the theorems show that they return; the coroutines' loops have as fuel
  the number of files and one, and the lengths of the arrays, which the proofs show to suffice. Output to the terminal is not modelled.
\<close>

subsection \<open>Exercise 2: the shell and the leak detector\<close>

text \<open>
  \<^verbatim>\<open>hw2/parser.c\<close> is \<open>Shell_Lexer\<close> (tokens) and \<open>Shell_Parser\<close> (the buffer and \<^verbatim>\<open>parser_pop_next\<close>), with 32-bit sizes.
  \<open>Shell_Grammar\<close> has the specification of the parser on lists and the refinement; \<open>Shell_Print\<close> shows that the specification
  inverts a printer of command lines and does not depend on later input; \<open>Shell_Correct\<close> transfers this to the code, with
  what happens at the limits of the buffer. \<^verbatim>\<open>hw2/solution.c\<close> is \<open>Shell_Exec\<close>: descriptor tables, pipes, forked children, with the
  choices of the system in a record; \<open>Shell_Pipeline\<close> shows how a pipeline is run, \<open>Shell_Main\<close> composes
  parser and executor into \<^verbatim>\<open>main\<close>. A process that is forked runs to its \<^verbatim>\<open>execvp\<close> at once; what executed programs do is not modelled.

  \<^verbatim>\<open>hw2/heap_help.c\<close>, which replaces \<^verbatim>\<open>malloc\<close> and its relatives to report leaks, is \<open>Heap_Help\<close>; \<open>Heap_Help_Correct\<close> shows
  that its list of allocations refines the map of blocks in use, that the report at exit says what the list implies, and that a \<^verbatim>\<open>realloc\<close>
  that fails makes it lose a block that is in use.
  \<open>Heap_Help_Old\<close> is the earlier version of it under \<^verbatim>\<open>hw1\<close>, \<^verbatim>\<open>hw3\<close> and \<^verbatim>\<open>hw4\<close> (three equal files); every call of it does what the later
  version does unless that is told to fill memory with trash.
\<close>

subsection \<open>Exercise 3: the file system in memory\<close>

text \<open>
  \<^verbatim>\<open>hw3/userfs.c\<close>: the blocks of a file and the loops over them are \<open>UFS_File\<close>, the files, descriptors and calls \<open>UFS\<close>.
  \<open>UFS_Layout\<close> gives the content of blocks as a string and what each loop does to it; \<open>UFS_Spec\<close> is an abstract file system of
  names, strings and offsets, with the steps that \<^verbatim>\<open>userfs.h\<close> documents (\<open>userfs_step\<close>) and, as a stage on the way, those the code makes
  (\<open>fs_step\<close>, which does not check permissions in \<^verbatim>\<open>ufs_resize\<close> and may show old bytes when a file grows); \<open>UFS_Inv\<close> is the
  invariant of the static variables, and that no call is undefined under it, wherever writes went; \<open>UFS_Refine\<close> the
  refinement, for a client that keeps to the rules \<open>careful\<close>; \<open>UFS_Correct\<close> the properties. One of the rules is to write at the tail
  of a file: a write elsewhere does not keep the layout, and \<open>UFS_Correct\<close> says what the code does
  there. Every \<^verbatim>\<open>free\<close> is recorded, so that \<^verbatim>\<open>ufs_destroy\<close> can be shown to free each piece once; the \<^verbatim>\<open>int\<close>s of the table and of the references
  are checked for overflow. Loops over blocks end because the chain is a list.
\<close>

subsection \<open>Exercise 4: the thread pool\<close>

text \<open>
  \<^verbatim>\<open>hw4/thread_pool.c\<close> is \<open>Thread_Pool\<close>: an event is what one thread does between two points at which another can run. \<open>Pool_Inv\<close>
  has the invariant and the steps of the workers, \<open>Pool_Client\<close> those of the client, \<open>Pool_Correct\<close> the properties: for one client
  that pushes no task twice and detaches only finished tasks, nothing freed is used in any interleaving and joins give the results;
  and what happens to other clients. There a thread that waits may look again at any time, which includes every spurious wake-up. \<open>Pool_Signals\<close> adds
  what that leaves out, the signals: a waiting thread sleeps until the code notifies its condition variable, a signal
  wakes at least one sleeper, and the workers still drain the pool, so that no signal is missing. Mutexes are those of POSIX.
\<close>

subsection \<open>Exercise 5: the chat\<close>

text \<open>
  \<^verbatim>\<open>hw5/chat.c\<close> and \<^verbatim>\<open>chat_server.c\<close> are \<open>Chat_Server\<close>, \<^verbatim>\<open>chat_client.c\<close> is \<open>Chat_Client\<close>, and the two programs with their
  loops are \<open>Chat_Exe\<close>. What works is the splitting of input into lines (\<open>Chat_Client\<close>), and that of a stream into messages
  (\<open>Chat_Server_Correct\<close>) if there were room for them; the server's update and the client's feeding are undefined in every state reached after listening or
  connecting, which is proved, and so neither program gets through a turn of its
  loop.
\<close>

subsection \<open>Benchmarks\<close>

text \<open>
  \<^verbatim>\<open>bonus/3\<close> is \<open>Bench_Locks\<close> (threads that count under a mutex; every run ends with the full count), \<^verbatim>\<open>bonus/6\<close> is \<open>Bench_Signals\<close> (threads that
  wait on a condition variable, may wake up spuriously and are woken by a signal one or more at a time; they can hang with signals, not with
  broadcasts). In both a step is one action of one thread, and measures
  of what is left to do show that the program's actions are finitely many. \<^verbatim>\<open>bonus/2\<close> is \<open>Bench_Transfer\<close>: two processes and a
  stream socket that takes and gives any part of what is asked for; every run ends with all bytes received. \<open>Bench_Stats\<close> holds the
  statistics and the timed increments of the other benchmarks, \<open>Bench_Double\<close> the statistics of \<^verbatim>\<open>bonus/2\<close> and \<^verbatim>\<open>bonus/6\<close>, which
  compute in \<^verbatim>\<open>double\<close>.
\<close>

subsection \<open>Not modelled\<close>

text \<open>
  Tests, their harness and generators are not part of the programs. The benchmarks' clocks are parameters and their loops that only
  wait or measure are left out, and the calls with which \<^verbatim>\<open>bonus/2\<close> sets up its sockets succeed.
  Printing to the terminal is left out everywhere, \<^verbatim>\<open>malloc\<close> does not fail where the code does not check it, and
  null arguments that the callers never pass are left out where a function does not test them.
\<close>

end
